(* ===== verification/Prelude.thy ===== *)
theory Prelude
  imports Main "HOL-Library.Word"
begin

text \<open>
  Shared vocabulary of the development: bytes and 64-bit integers, the exceptions and decode
  failures of the source, the sequencing of fallible steps, and the lemmas on lists, words and
  loops that the component theories share.

  A C++ decoder of the form \<open>bool decode(bytes, size_t& offset, T& out)\<close> is a function from the
  bytes and the offset to \<open>decode_failure + (T, new offset)\<close>: \<open>Inl\<close> is \<open>return false\<close> (with
  the code the decoder left in the thread-local \<open>g_decode_fault\<close>, 0 for none) or a thrown exception.
  What a failing decoder leaves in its out-parameters is not modelled.
\<close>

unbundle bit_operations_syntax

type_synonym u8 = "8 word"
type_synonym u16 = "16 word"
type_synonym u32 = "32 word"
type_synonym u64 = "64 word"
type_synonym bytes = "8 word list"

text \<open>The standard exceptions the modelled code throws.\<close>

datatype exn =
    Length_Error
  | Invalid_Argument string
  | Runtime_Error string
  | Out_Of_Range

datatype decode_failure =
    Rejected u64
  | Raised exn

type_synonym 'a decoded = "decode_failure + 'a"

named_theorems wire_append \<open>an append operation as the old bytes followed by the new ones\<close>
named_theorems wire_progress \<open>a successful decode advances the offset and stays within the span\<close>
named_theorems wire_eval \<open>equations that evaluate a decoder on concrete bytes\<close>
named_theorems wire_roundtrip \<open>decoding reads back what the encoder wrote\<close>

subsection \<open>Sequencing of fallible steps\<close>

definition bindE :: "'e + 'a \<Rightarrow> ('a \<Rightarrow> 'e + 'b) \<Rightarrow> 'e + 'b" where
  "bindE m f = (case m of Inl e \<Rightarrow> Inl e | Inr x \<Rightarrow> f x)"

lemma bindE_Inl [simp]: "bindE (Inl e) f = Inl e"
  by (simp add: bindE_def)

lemma bindE_Inr [simp]: "bindE (Inr x) f = f x"
  by (simp add: bindE_def)

lemma bindE_eq_Inr [simp]: "bindE m f = Inr y \<longleftrightarrow> (\<exists>x. m = Inr x \<and> f x = Inr y)"
  by (cases m) simp_all

lemma bindE_eq_Inl: "bindE m f = Inl e \<longleftrightarrow> m = Inl e \<or> (\<exists>x. m = Inr x \<and> f x = Inl e)"
  by (cases m) simp_all

lemma bindE_cong [fundef_cong]:
  "m = m' \<Longrightarrow> (\<And>x. m' = Inr x \<Longrightarrow> f x = g x) \<Longrightarrow> bindE m f = bindE m' g"
  by (cases m') simp_all

text \<open>For evaluation: a step is not simplified before the value it is given is known.\<close>

lemma bindE_weak_cong: "m = m' \<Longrightarrow> bindE m f = bindE m' f"
  by simp

abbreviation reject :: "'a decoded" where
  "reject \<equiv> Inl (Rejected 0)"

definition requireE :: "bool \<Rightarrow> 'a decoded \<Rightarrow> 'a decoded" where
  "requireE c m = (if c then m else reject)"

lemma requireE_eq_Inr [simp]: "requireE c m = Inr x \<longleftrightarrow> c \<and> m = Inr x"
  by (simp add: requireE_def)

lemma requireE_True [simp]: "requireE True m = m"
  by (simp add: requireE_def)

lemma requireE_False [simp]: "requireE False m = reject"
  by (simp add: requireE_def)

subsection \<open>Counted loops\<close>

text \<open>
  \<open>for (i = 0; i < n; ++i) { step; }\<close> where the step may fail and \<open>'s\<close> is what it changes.
\<close>

fun repeatE :: "nat \<Rightarrow> ('s \<Rightarrow> 'e + 's) \<Rightarrow> 's \<Rightarrow> 'e + 's" where
  "repeatE 0 step s = Inr s"
| "repeatE (Suc n) step s = bindE (step s) (repeatE n step)"

lemma repeatE_numeral [simp]:
  "repeatE (numeral k) step s = bindE (step s) (repeatE (pred_numeral k) step)"
  by (simp add: numeral_eq_Suc)

lemma repeatE_invariant:
  assumes "repeatE n step s = Inr t" and "P s"
    and "\<And>u v. P u \<Longrightarrow> step u = Inr v \<Longrightarrow> P v"
  shows "P t"
  using assms by (induction n arbitrary: s) auto

lemma repeatE_progress:
  fixes pos :: "'s \<Rightarrow> nat"
  assumes "repeatE n step s = Inr t"
    and "\<And>u v. step u = Inr v \<Longrightarrow> pos u < pos v"
  shows "pos s + n \<le> pos t"
  using assms(1)
proof (induction n arbitrary: s)
  case 0
  then show ?case by simp
next
  case (Suc n)
  then obtain u where u: "step s = Inr u" "repeatE n step u = Inr t" by auto
  have "pos u + n \<le> pos t" using u(2) by (rule Suc.IH)
  moreover have "pos s < pos u" using u(1) by (rule assms(2))
  ultimately show ?case by simp
qed

lemma repeatE_add: "repeatE (m + n) step s = bindE (repeatE m step s) (repeatE n step)"
proof (induction m arbitrary: s)
  case (Suc m)
  then show ?case by (cases "step s") simp_all
qed simp

subsection \<open>Partial correctness of fallible steps\<close>

text \<open>
  \<open>yields m P\<close>: if \<open>m\<close> succeeds, its result satisfies \<open>P\<close>. The rules of the collection
  \<open>yields_intro\<close> follow the structure of a decoder, so that a bound on what a long decoder returns is
  proved without unfolding all of its paths at once.
\<close>

definition yields :: "'e + 'a \<Rightarrow> ('a \<Rightarrow> bool) \<Rightarrow> bool" where
  "yields m P \<longleftrightarrow> (\<forall>x. m = Inr x \<longrightarrow> P x)"

named_theorems yields_intro \<open>partial correctness rules, one per construct\<close>

lemma yieldsD: "yields m P \<Longrightarrow> m = Inr x \<Longrightarrow> P x"
  by (simp add: yields_def)

lemma yieldsI: "(\<And>x. m = Inr x \<Longrightarrow> P x) \<Longrightarrow> yields m P"
  by (simp add: yields_def)

lemma yields_Inl [simp]: "yields (Inl e) P"
  by (simp add: yields_def)

lemma yields_Inr [simp]: "yields (Inr x) P = P x"
  by (simp add: yields_def)

lemma yields_Inr_intro [yields_intro]: "P x \<Longrightarrow> yields (Inr x) P"
  by simp

lemma yields_Inl_intro [yields_intro]: "yields (Inl e) P"
  by simp

lemma yields_if [yields_intro]:
  "(c \<Longrightarrow> yields m P) \<Longrightarrow> (\<not> c \<Longrightarrow> yields m' P) \<Longrightarrow> yields (if c then m else m') P"
  by simp

lemma yields_bindE:
  "yields m Q \<Longrightarrow> (\<And>x. Q x \<Longrightarrow> yields (f x) P) \<Longrightarrow> yields (bindE m f) P"
  by (auto simp: yields_def)

lemma yields_bindE_any:
  "(\<And>x. yields (f x) P) \<Longrightarrow> yields (bindE m f) P"
  by (auto simp: yields_def)

lemma yields_bindE_pair:
  "(\<And>a b. m = Inr (a, b) \<Longrightarrow> yields (f a b) P) \<Longrightarrow> yields (bindE m (\<lambda>(a, b). f a b)) P"
  by (auto simp: yields_def)

lemma yields_bindE_assoc [yields_intro]:
  "yields (bindE m (\<lambda>x. bindE (f x) g)) P \<Longrightarrow> yields (bindE (bindE m f) g) P"
  by (cases m) simp_all

lemma yields_bindE_if [yields_intro]:
  "(c \<Longrightarrow> yields (bindE m f) P) \<Longrightarrow> (\<not> c \<Longrightarrow> yields (bindE m' f) P) \<Longrightarrow>
   yields (bindE (if c then m else m') f) P"
  by simp

lemma yields_bindE_Inr [yields_intro]: "yields (f x) P \<Longrightarrow> yields (bindE (Inr x) f) P"
  by simp

lemma yields_bindE_Inl [yields_intro]: "yields (bindE (Inl e) f) P"
  by simp

lemma yields_Let [yields_intro]: "yields (f x) P \<Longrightarrow> yields (let y = x in f y) P"
  by simp

lemma yields_prod_case [yields_intro]: "(\<And>a b. p = (a, b) \<Longrightarrow> yields (f a b) P) \<Longrightarrow> yields (case p of (a, b) \<Rightarrow> f a b) P"
  by (cases p) simp

lemma yields_bindE_prod_case [yields_intro]:
  "(\<And>a b. p = (a, b) \<Longrightarrow> yields (bindE (f a b) g) P) \<Longrightarrow> yields (bindE (case p of (a, b) \<Rightarrow> f a b) g) P"
  by (cases p) simp

lemma yields_bindE_Let [yields_intro]:
  "yields (bindE (f x) g) P \<Longrightarrow> yields (bindE (let y = x in f y) g) P"
  by simp

lemma yields_sum_case [yields_intro]:
  "(\<And>e. m = Inl e \<Longrightarrow> yields (f e) P) \<Longrightarrow> (\<And>x. m = Inr x \<Longrightarrow> yields (g x) P) \<Longrightarrow>
   yields (case m of Inl e \<Rightarrow> f e | Inr x \<Rightarrow> g x) P"
  by (cases m) simp_all

lemma yields_option_case [yields_intro]:
  "(m = None \<Longrightarrow> yields f P) \<Longrightarrow> (\<And>x. m = Some x \<Longrightarrow> yields (g x) P) \<Longrightarrow>
   yields (case m of None \<Rightarrow> f | Some x \<Rightarrow> g x) P"
  by (cases m) simp_all

lemma yields_mono: "yields m Q \<Longrightarrow> (\<And>x. Q x \<Longrightarrow> P x) \<Longrightarrow> yields m P"
  by (auto simp: yields_def)

lemma yields_repeatE:
  assumes "P s" and "\<And>u. P u \<Longrightarrow> yields (step u) P"
  shows "yields (repeatE n step s) P"
  using assms(1)
proof (induction n arbitrary: s)
  case (Suc n)
  from Suc.prems have "yields (step s) P" by (rule assms(2))
  then show ?case by (auto intro!: yields_bindE [where Q = P] Suc.IH)
qed simp

text \<open>
  The interface of a loop whose count a peer announces: every step that succeeds consumes input and
  stays within the span. Whatever the count, such a loop runs at most once per byte of the span.
\<close>

locale counted_loop =
  fixes step :: "'s \<Rightarrow> 'e + 's" and pos :: "'s \<Rightarrow> nat" and limit :: nat
  assumes step_progress: "step s = Inr t \<Longrightarrow> pos s < pos t \<and> pos t \<le> limit"
begin

lemma success_consumes: "repeatE n step s = Inr t \<Longrightarrow> pos s + n \<le> pos t"
  by (rule repeatE_progress [where pos = pos]) (auto dest: step_progress)

lemma success_within: "repeatE n step s = Inr t \<Longrightarrow> pos s \<le> limit \<Longrightarrow> pos t \<le> limit"
  by (rule repeatE_invariant [where P = "\<lambda>u. pos u \<le> limit"]) (auto dest: step_progress)

lemma count_le_limit:
  assumes "repeatE (Suc n) step s = Inr t"
  shows "Suc n \<le> limit"
proof -
  obtain u where u: "step s = Inr u" "repeatE n step u = Inr t" using assms by auto
  have "pos t \<le> limit" using u(2) step_progress [OF u(1)] by (simp add: success_within)
  then show ?thesis using success_consumes [OF assms] by simp
qed

lemma count_bounded:
  assumes "limit < n"
  shows "repeatE n step s = repeatE (Suc limit) step s \<and> (\<exists>e. repeatE n step s = Inl e)"
proof (cases "repeatE (Suc limit) step s")
  case (Inl e)
  have "n = Suc limit + (n - Suc limit)" using assms by simp
  then have "repeatE n step s = bindE (repeatE (Suc limit) step s) (repeatE (n - Suc limit) step)"
    by (metis repeatE_add)
  then show ?thesis using Inl by simp
next
  case (Inr t)
  then have "Suc limit \<le> limit" by (rule count_le_limit)
  then show ?thesis by simp
qed

end

subsection \<open>Spans\<close>

text \<open>
  \<open>fits(offset, length, end)\<close>: the C++ compares \<open>length <= end - offset\<close> only where
  \<open>offset <= end\<close>, so no addition of a peer's length can wrap.
\<close>

definition fits :: "nat \<Rightarrow> nat \<Rightarrow> nat \<Rightarrow> bool" where
  "fits offset len limit \<longleftrightarrow> offset \<le> limit \<and> len \<le> limit - offset"

lemma fits_iff: "fits offset len limit \<longleftrightarrow> offset + len \<le> limit"
  by (auto simp: fits_def)

definition slice :: "bytes \<Rightarrow> nat \<Rightarrow> nat \<Rightarrow> bytes" where
  "slice bs offset len = take len (drop offset bs)"

lemma length_slice [simp]: "fits offset len (length bs) \<Longrightarrow> length (slice bs offset len) = len"
  by (simp add: slice_def fits_iff)

lemma slice_append [simp]: "slice (xs @ ys @ zs) (length xs) (length ys) = ys"
  by (simp add: slice_def)

text \<open>Strings are byte strings: a \<open>char\<close> of the model is a byte of the source.\<close>

definition to_bytes :: "string \<Rightarrow> bytes" where
  "to_bytes s = map (\<lambda>c. of_nat (of_char c)) s"

definition of_bytes :: "bytes \<Rightarrow> string" where
  "of_bytes bs = map (\<lambda>b. char_of (unat b)) bs"

lemma of_bytes_to_bytes [simp]: "of_bytes (to_bytes s) = s"
proof -
  have "char_of (unat (of_nat (of_char c) :: u8)) = c" for c
    by (simp add: unat_of_nat)
  then show ?thesis by (simp add: of_bytes_def to_bytes_def comp_def map_idI)
qed

lemma to_bytes_of_bytes [simp]: "to_bytes (of_bytes b) = b"
proof -
  have "of_nat (of_char (char_of (unat x) :: char)) = x" for x :: u8
  proof -
    have "unat x < 256" using unsigned_less [of x, where 'a = nat] by simp
    then have "unat x mod 256 = unat x" by simp
    then show ?thesis by (simp add: of_char_of)
  qed
  then show ?thesis by (simp add: of_bytes_def to_bytes_def comp_def map_idI)
qed

lemma length_to_bytes [simp]: "length (to_bytes s) = length s"
  by (simp add: to_bytes_def)

lemma length_of_bytes [simp]: "length (of_bytes s) = length s"
  by (simp add: of_bytes_def)

subsection \<open>Words\<close>

lemma unat_of_nat_u64 [simp]: "n < 2 ^ 64 \<Longrightarrow> unat (of_nat n :: u64) = n"
  by (simp add: unat_of_nat)

lemma unat_of_nat_u8 [simp]: "n < 256 \<Longrightarrow> unat (of_nat n :: u8) = n"
  by (simp add: unat_of_nat)

lemma unat_u64_less: "unat (x :: u64) < 2 ^ 64"
  using unsigned_less [of x] by simp

lemma unat_u8_less: "unat (x :: u8) < 256"
  using unsigned_less [of x] by simp

text \<open>
  The overflow guard of the source, \<open>b > std::numeric_limits<std::uint64_t>::max() - a\<close>, is
  \<open>b > - 1 - a\<close>; past it the sum is exact.
\<close>

lemma unat_add_guarded: "\<not> b > - 1 - a \<Longrightarrow> unat (a + b :: u64) = unat a + unat b"
proof -
  assume b: "\<not> b > - 1 - a"
  have "unat (- 1 - a) = unat (- 1 :: u64) - unat a" by (rule unat_sub) simp
  also have "unat (- 1 :: u64) = 2 ^ 64 - 1" by (simp add: unsigned_minus_1_eq_mask mask_eq_exp_minus_1)
  finally have "unat a + unat b < 2 ^ 64" using b unat_u64_less [of a] by (simp add: word_less_nat_alt)
  then show ?thesis by (simp add: unat_word_ariths)
qed

lemma add_guarded_le: "\<not> b > - 1 - a \<Longrightarrow> a \<le> (a + b :: u64)"
  by (simp add: word_le_nat_alt unat_add_guarded)

end
