(* ===== verification/Moq_Draft.thy ===== *)
theory Moq_Draft
  imports Prelude
begin

text \<open>
  The protocol drafts (\<open>include/openmoq/publisher/moq_draft.h\<close>, \<open>src/moq_draft.cpp\<close>), the
  predicates that select a draft's behaviour, and the draft-23 decode fault that
  \<open>src/transport/moqt_control_messages.cpp\<close> records.
\<close>

datatype DraftVersion =
    kDraft14 | kDraft16 | kDraft17 | kDraft18 | kDraft21 | kDraft22 | kDraft23

definition is_draft23_or_later :: "DraftVersion \<Rightarrow> bool" where
  "is_draft23_or_later version \<longleftrightarrow> version = kDraft23"

definition is_draft22_or_later :: "DraftVersion \<Rightarrow> bool" where
  "is_draft22_or_later version \<longleftrightarrow> version = kDraft22 \<or> is_draft23_or_later version"

definition is_draft21_or_later :: "DraftVersion \<Rightarrow> bool" where
  "is_draft21_or_later version \<longleftrightarrow> version = kDraft21 \<or> is_draft22_or_later version"

definition is_draft18_or_later :: "DraftVersion \<Rightarrow> bool" where
  "is_draft18_or_later version \<longleftrightarrow> version = kDraft18 \<or> is_draft21_or_later version"

lemmas draft_predicates =
  is_draft23_or_later_def is_draft22_or_later_def is_draft21_or_later_def is_draft18_or_later_def

text \<open>\<open>kMaxGroupId\<close>: the largest Group ID the publisher writes.\<close>

definition kMaxGroupId :: u64 where
  "kMaxGroupId = push_bit 62 1 - 1"

record DraftProfile =
  profile_version :: DraftVersion
  subscribe_namespace_label :: string
  track_alias_label :: string
  object_status_label :: string
  profile_notes :: string

definition draft_notes :: "DraftVersion \<Rightarrow> string" where
  "draft_notes version = (case version of
     kDraft14 \<Rightarrow> ''Legacy profile retained for API callers and baseline interoperability.''
   | kDraft16 \<Rightarrow> ''Compatibility profile. Verify control message details against transport integration.''
   | kDraft17 \<Rightarrow> ''Draft-17 profile. Uses MOQT vi64 integers and request stream semantics.''
   | kDraft18 \<Rightarrow> ''Draft-18 profile. Control/request stream semantics differ from draft-16.''
   | kDraft23 \<Rightarrow> ''Draft-23 profile. Varint control message Length, PAUSED replaces FORWARD, '' @
                 ''REQUEST_ERROR carries Error Details, overlapping namespace subscriptions.''
   | kDraft22 \<Rightarrow> ''Default profile (draft-22). Draft-21 semantics with explicit LOCATION_FILTER types '' @
                 ''and GOAWAY migration.''
   | kDraft21 \<Rightarrow> ''Draft-21 profile. Extends draft-18 semantics: PUBLISH_OK drops GROUP_ORDER, '' @
                 ''SUBSCRIBE_TRACKS gains it and Range Filters, SETUP gains MAX_REQUEST_UPDATES.'')"

text \<open>Every case of the source's switch fills the same labels and its own notes.\<close>

definition draft_profile :: "DraftVersion \<Rightarrow> DraftProfile" where
  "draft_profile version =
     \<lparr>profile_version = version,
      subscribe_namespace_label = ''Track Namespace'',
      track_alias_label = ''Track Alias'',
      object_status_label = ''Object Status'',
      profile_notes = draft_notes version\<rparr>"

definition draft_to_string :: "DraftVersion \<Rightarrow> string" where
  "draft_to_string version = (case version of
     kDraft14 \<Rightarrow> ''draft-14'' | kDraft16 \<Rightarrow> ''draft-16'' | kDraft17 \<Rightarrow> ''draft-17''
   | kDraft18 \<Rightarrow> ''draft-18'' | kDraft21 \<Rightarrow> ''draft-21'' | kDraft22 \<Rightarrow> ''draft-22''
   | kDraft23 \<Rightarrow> ''draft-23'')"

definition default_alpn :: "DraftVersion \<Rightarrow> string" where
  "default_alpn version = (case version of
     kDraft14 \<Rightarrow> ''moq-00'' | kDraft16 \<Rightarrow> ''moqt-16'' | kDraft17 \<Rightarrow> ''moqt-17''
   | kDraft18 \<Rightarrow> ''moqt-18'' | kDraft21 \<Rightarrow> ''moqt-21'' | kDraft22 \<Rightarrow> ''moqt-22''
   | kDraft23 \<Rightarrow> ''moqt-23'')"

lemma inj_default_alpn: "default_alpn v = default_alpn w \<longleftrightarrow> v = w"
  by (cases v; cases w) (simp_all add: default_alpn_def)

text \<open>The wire version numbers of the version-negotiating SETUP messages.\<close>

definition kDraft14Version :: u64 where "kDraft14Version = 0xff00000e"
definition kDraft16Version :: u64 where "kDraft16Version = 0xff000010"

definition draft_version_number :: "DraftVersion \<Rightarrow> u64" where
  "draft_version_number draft = (case draft of
     kDraft14 \<Rightarrow> kDraft14Version | kDraft16 \<Rightarrow> kDraft16Version | kDraft17 \<Rightarrow> 0xff000011
   | kDraft18 \<Rightarrow> 0xff000012 | kDraft21 \<Rightarrow> 0xff000015 | kDraft22 \<Rightarrow> 0xff000016
   | kDraft23 \<Rightarrow> 0xff000017)"

subsection \<open>Decode faults\<close>

definition kFaultMalformedKeyValue :: u64 where "kFaultMalformedKeyValue = 0x6"
definition kFaultInvalidStreamHeader :: u64 where "kFaultInvalidStreamHeader = 0x200"
definition kFaultMalformedObject :: u64 where "kFaultMalformedObject = 0x201"
definition kFaultInvalidObjectStatus :: u64 where "kFaultInvalidObjectStatus = 0x202"
definition kFaultMalformedMessage :: u64 where "kFaultMalformedMessage = 0x300"
definition kFaultInvalidField :: u64 where "kFaultInvalidField = 0x301"
definition kFaultInvalidTrackNamespace :: u64 where "kFaultInvalidTrackNamespace = 0x302"
definition kFaultInvalidParameter :: u64 where "kFaultInvalidParameter = 0x305"
definition kFaultDeltaEncodingOverflow :: u64 where "kFaultDeltaEncodingOverflow = 0x400"
definition kFaultFieldLengthExceeded :: u64 where "kFaultFieldLengthExceeded = 0x401"

lemmas fault_codes =
  kFaultMalformedKeyValue_def kFaultInvalidStreamHeader_def kFaultMalformedObject_def
  kFaultInvalidObjectStatus_def kFaultMalformedMessage_def kFaultInvalidField_def
  kFaultInvalidTrackNamespace_def kFaultInvalidParameter_def kFaultDeltaEncodingOverflow_def
  kFaultFieldLengthExceeded_def

text \<open>
  \<open>note_decode_fault\<close>: the new value of the thread-local \<open>g_decode_fault\<close>. Only draft 23 records
  a cause; the first one stands, except that two codes override it.
\<close>

definition note_decode_fault :: "DraftVersion \<Rightarrow> u64 \<Rightarrow> u64 \<Rightarrow> u64" where
  "note_decode_fault draft code g_decode_fault =
     (if \<not> is_draft23_or_later draft then g_decode_fault
      else if g_decode_fault = 0 \<or> code = kFaultDeltaEncodingOverflow \<or> code = kFaultFieldLengthExceeded
      then code else g_decode_fault)"

text \<open>
  Every decoder clears the fault on entry and notes at most one cause before it returns false, so a
  failure carries the fault noted over 0.
\<close>

definition reject_noting :: "DraftVersion \<Rightarrow> u64 \<Rightarrow> 'a decoded" where
  "reject_noting draft code = Inl (Rejected (note_decode_fault draft code 0))"

lemma reject_noting_not_Inr [simp]: "reject_noting draft code \<noteq> Inr x" "Inr x \<noteq> reject_noting draft code"
  by (simp_all add: reject_noting_def)

lemma yields_reject_noting [simp, yields_intro]: "yields (reject_noting draft code) P"
  by (simp add: reject_noting_def)

lemma yields_bindE_reject_noting [yields_intro]: "yields (bindE (reject_noting draft code) f) P"
  by (simp add: reject_noting_def)

lemma reject_noting_before_draft23: "draft \<noteq> kDraft23 \<Longrightarrow> reject_noting draft code = reject"
  by (simp add: reject_noting_def note_decode_fault_def is_draft23_or_later_def)

end
