(* ===== verification/Varint.thy ===== *)
theory Varint
  imports Moq_Draft
begin

text \<open>
  The variable-length integers of \<open>src/transport/moqt_control_messages.cpp\<close>: the QUIC varint
  (\<open>append_varint\<close>, \<open>decode_varint_impl\<close>) of drafts 14 and 16, the MOQT vi64
  (\<open>append_vi64\<close>, \<open>decode_vi64_impl\<close>) of drafts 17 and later, and \<open>append_moqint\<close>,
  \<open>decode_moqint_impl\<close>, which select by draft. The lemmas show that decoding makes progress within
  the span, that decoding inverts encoding at any offset of any buffer, and that the encoders choose
  the shortest form.
\<close>

definition kMaxQuicVarintValue :: u64 where
  "kMaxQuicVarintValue = 4611686018427387903"

definition uses_moq_vi64 :: "DraftVersion \<Rightarrow> bool" where
  "uses_moq_vi64 draft \<longleftrightarrow> draft = kDraft17 \<or> is_draft18_or_later draft"

text \<open>\<open>static_cast<std::uint8_t>((value >> shift) & 0xff)\<close>\<close>

definition byte_of :: "u64 \<Rightarrow> nat \<Rightarrow> u8" where
  "byte_of value shift = ucast (drop_bit shift value AND 0xff)"

subsection \<open>Encoding\<close>

text \<open>The appending functions return whether they succeeded and the extended buffer.\<close>

definition append_varint :: "bytes \<Rightarrow> u64 \<Rightarrow> bool \<times> bytes" where
  "append_varint out value =
     (if value > kMaxQuicVarintValue then (False, out)
      else (True, out @
        (if value \<le> 63 then [ucast value]
         else if value \<le> 16383 then
           [ucast (0x40 OR (drop_bit 8 value AND 0x3f)), byte_of value 0]
         else if value \<le> 1073741823 then
           [ucast (0x80 OR (drop_bit 24 value AND 0x3f)), byte_of value 16, byte_of value 8,
            byte_of value 0]
         else
           [ucast (0xc0 OR (drop_bit 56 value AND 0x3f)), byte_of value 48, byte_of value 40,
            byte_of value 32, byte_of value 24, byte_of value 16, byte_of value 8,
            byte_of value 0])))"

definition append_vi64 :: "bytes \<Rightarrow> u64 \<Rightarrow> bool \<times> bytes" where
  "append_vi64 out value = (True, out @
     (if value \<le> 127 then [ucast value]
      else if value \<le> 16383 then
        [ucast (0x80 OR (drop_bit 8 value AND 0x3f)), byte_of value 0]
      else if value \<le> 2097151 then
        [ucast (0xc0 OR (drop_bit 16 value AND 0x1f)), byte_of value 8, byte_of value 0]
      else if value \<le> 268435455 then
        [ucast (0xe0 OR (drop_bit 24 value AND 0x0f)), byte_of value 16, byte_of value 8,
         byte_of value 0]
      else if value \<le> 34359738367 then
        [ucast (0xf0 OR (drop_bit 32 value AND 0x07)), byte_of value 24, byte_of value 16,
         byte_of value 8, byte_of value 0]
      else if value \<le> 4398046511103 then
        [ucast (0xf8 OR (drop_bit 40 value AND 0x03)), byte_of value 32, byte_of value 24,
         byte_of value 16, byte_of value 8, byte_of value 0]
      else if value \<le> 562949953421311 then
        [ucast (0xfc OR (drop_bit 48 value AND 0x01)), byte_of value 40, byte_of value 32,
         byte_of value 24, byte_of value 16, byte_of value 8, byte_of value 0]
      else if value \<le> 72057594037927935 then
        0xfe # map (byte_of value) [48, 40, 32, 24, 16, 8, 0]
      else 0xff # map (byte_of value) [56, 48, 40, 32, 24, 16, 8, 0]))"

definition append_moqint :: "bytes \<Rightarrow> DraftVersion \<Rightarrow> u64 \<Rightarrow> bool \<times> bytes" where
  "append_moqint out draft value =
     (if uses_moq_vi64 draft then append_vi64 out value else append_varint out value)"

text \<open>
  Most callers ignore the result of \<open>append_moqint\<close> and keep the buffer as it is then;
  \<open>put_moqint\<close> is such a call.
\<close>

definition put_moqint :: "DraftVersion \<Rightarrow> u64 \<Rightarrow> bytes \<Rightarrow> bytes" where
  "put_moqint draft value out = snd (append_moqint out draft value)"

definition encode_varint :: "u64 \<Rightarrow> bytes" where
  "encode_varint value = (case append_varint [] value of (ok, out) \<Rightarrow> if ok then out else [])"

text \<open>The bytes one call appends.\<close>

definition moqint_bytes :: "DraftVersion \<Rightarrow> u64 \<Rightarrow> bytes" where
  "moqint_bytes draft value = put_moqint draft value []"

text \<open>The values \<open>append_moqint\<close> can encode on a draft.\<close>

definition moqint_ok :: "DraftVersion \<Rightarrow> u64 \<Rightarrow> bool" where
  "moqint_ok draft value \<longleftrightarrow> uses_moq_vi64 draft \<or> value \<le> kMaxQuicVarintValue"

subsection \<open>Decoding\<close>

text \<open>\<open>for (index = 1; index < length; ++index) value = (value << 8) | bytes[offset + index];\<close>\<close>

definition be_accum :: "u64 \<Rightarrow> bytes \<Rightarrow> u64" where
  "be_accum value bs = foldl (\<lambda>v b. push_bit 8 v OR ucast b) value bs"

definition decode_varint_impl :: "bytes \<Rightarrow> nat \<Rightarrow> (u64 \<times> nat) decoded" where
  "decode_varint_impl bs offset =
     (if offset \<ge> length bs then reject
      else let first = bs ! offset; len = 2 ^ unat (drop_bit 6 first) in
        if \<not> fits offset len (length bs) then reject
        else Inr (be_accum (ucast (first AND 0x3f)) (slice bs (offset + 1) (len - 1)), offset + len))"

text \<open>The length and the prefix mask the first byte of a vi64 selects.\<close>

definition vi64_form :: "u8 \<Rightarrow> nat \<times> u8" where
  "vi64_form first =
     (if first AND 0x80 = 0 then (1, 0x7f)
      else if first AND 0xc0 = 0x80 then (2, 0x3f)
      else if first AND 0xe0 = 0xc0 then (3, 0x1f)
      else if first AND 0xf0 = 0xe0 then (4, 0x0f)
      else if first AND 0xf8 = 0xf0 then (5, 0x07)
      else if first AND 0xfc = 0xf8 then (6, 0x03)
      else if first AND 0xfe = 0xfc then (7, 0x01)
      else if first = 0xfe then (8, 0x00)
      else (9, 0x00))"

definition decode_vi64_impl :: "bytes \<Rightarrow> nat \<Rightarrow> (u64 \<times> nat) decoded" where
  "decode_vi64_impl bs offset =
     (if offset \<ge> length bs then reject
      else let first = bs ! offset; (len, prefix_mask) = vi64_form first in
        if \<not> fits offset len (length bs) then reject
        else Inr (be_accum (ucast (first AND prefix_mask)) (slice bs (offset + 1) (len - 1)),
                  offset + len))"

definition decode_moqint_impl :: "bytes \<Rightarrow> nat \<Rightarrow> DraftVersion \<Rightarrow> (u64 \<times> nat) decoded" where
  "decode_moqint_impl bs offset draft =
     (if uses_moq_vi64 draft then decode_vi64_impl bs offset else decode_varint_impl bs offset)"

subsection \<open>Appending\<close>

lemma put_moqint_append [wire_append]: "put_moqint draft value out = out @ moqint_bytes draft value"
  by (simp add: put_moqint_def moqint_bytes_def append_moqint_def append_varint_def append_vi64_def)

lemma moqint_bytes_ne [simp]: "moqint_ok draft value \<Longrightarrow> moqint_bytes draft value \<noteq> []"
  by (auto simp: moqint_bytes_def put_moqint_def append_moqint_def append_varint_def append_vi64_def
      moqint_ok_def)

lemma length_moqint_bytes_le: "length (moqint_bytes draft value) \<le> 9"
  by (simp add: moqint_bytes_def put_moqint_def append_moqint_def append_varint_def append_vi64_def)

lemma moqint_ok_nat: "n < 2 ^ 62 \<Longrightarrow> moqint_ok draft (of_nat n)"
  by (simp add: moqint_ok_def kMaxQuicVarintValue_def word_le_nat_alt)

subsection \<open>Progress and bounds\<close>

lemma decode_varint_impl_progress:
  "decode_varint_impl bs offset = Inr (v, offset') \<Longrightarrow> offset < offset' \<and> offset' \<le> length bs"
  by (auto simp: decode_varint_impl_def Let_def fits_iff split: if_splits)

lemma vi64_form_length: "1 \<le> fst (vi64_form b) \<and> fst (vi64_form b) \<le> 9"
  by (simp add: vi64_form_def)

lemma decode_vi64_impl_progress:
  "decode_vi64_impl bs offset = Inr (v, offset') \<Longrightarrow> offset < offset' \<and> offset' \<le> length bs"
  using vi64_form_length [of "bs ! offset"]
  by (auto simp: decode_vi64_impl_def Let_def fits_iff split: if_splits prod.splits)

lemma decode_moqint_progress [wire_progress]:
  "decode_moqint_impl bs offset draft = Inr (v, offset') \<Longrightarrow> offset < offset' \<and> offset' \<le> length bs"
  by (auto simp: decode_moqint_impl_def split: if_splits
      dest: decode_varint_impl_progress decode_vi64_impl_progress)

lemma yields_bindE_moqint_any [yields_intro]:
  "(\<And>v offset'. decode_moqint_impl bs offset draft = Inr (v, offset') \<Longrightarrow> offset < offset' \<Longrightarrow>
     offset' \<le> length bs \<Longrightarrow> yields (f (v, offset')) P) \<Longrightarrow>
   yields (bindE (decode_moqint_impl bs offset draft) f) P"
  by (cases "decode_moqint_impl bs offset draft") (auto dest: decode_moqint_progress)

lemma yields_bindE_moqint [yields_intro]:
  "(\<And>v offset'. decode_moqint_impl bs offset draft = Inr (v, offset') \<Longrightarrow> offset < offset' \<Longrightarrow>
     offset' \<le> length bs \<Longrightarrow> yields (f v offset') P) \<Longrightarrow>
   yields (bindE (decode_moqint_impl bs offset draft) (\<lambda>(v, offset'). f v offset')) P"
  by (rule yields_bindE_pair) (auto dest: decode_moqint_progress)

subsection \<open>Decoding inverts encoding\<close>

lemma byte_join: "push_bit 8 (drop_bit (k + 8) v) OR ucast (byte_of v k) = drop_bit k (v :: u64)"
proof (rule bit_word_eqI)
  fix n assume "n < LENGTH(64)"
  have m: "(255 :: u64) = mask 8" by (simp add: mask_eq_exp_minus_1)
  show "bit (push_bit 8 (drop_bit (k + 8) v) OR ucast (byte_of v k)) n = bit (drop_bit k v) n"
  proof (cases "n < 8")
    case False
    then have "n - 8 + (k + 8) = k + n" by simp
    with False show ?thesis by (auto simp: byte_of_def bit_simps m dest: bit_imp_le_length)
  qed (auto simp: byte_of_def bit_simps m dest: bit_imp_le_length)
qed

lemma bit_less_exp: "unat (w :: u64) < 2 ^ m \<Longrightarrow> bit w n \<Longrightarrow> n < m"
proof -
  assume w: "unat w < 2 ^ m" and b: "bit w n"
  have "bit (unat w) n" using b by (simp add: bit_unsigned_iff)
  then show "n < m" using w
    by (metis bit_take_bit_iff take_bit_nat_eq_self)
qed

lemma first_byte_join:
  fixes w p :: u64
  assumes "unat w < 2 ^ m" "m \<le> 8" "p AND mask m = 0"
  shows "(ucast ((ucast (p OR (w AND mask m)) :: u8) AND mask m) :: u64) = w"
proof (rule bit_word_eqI)
  fix n assume n: "n < LENGTH(64)"
  have "\<not> (bit p n \<and> n < m)"
    using arg_cong [OF assms(3), of "\<lambda>x. bit x n"] n by (simp add: bit_simps)
  moreover have "bit w n \<Longrightarrow> n < m" using bit_less_exp [OF assms(1)] .
  ultimately show "bit (ucast ((ucast (p OR (w AND mask m)) :: u8) AND mask m) :: u64) n = bit w n"
    using assms(2) n by (auto simp: bit_simps)
qed

lemma first_byte_prefix:
  fixes w p M :: u64
  assumes "q AND ucast M = 0"
  shows "(ucast (p OR (w AND M)) :: u8) AND q = ucast p AND q"
proof (rule bit_word_eqI)
  fix n assume n: "n < LENGTH(8)"
  have "\<not> (bit q n \<and> bit M n)"
    using arg_cong [OF assms, of "\<lambda>x. bit x n"] n by (simp add: bit_simps)
  then show "bit ((ucast (p OR (w AND M)) :: u8) AND q) n = bit (ucast p AND q) n"
    using n by (auto simp: bit_simps)
qed

lemma first_byte_drop:
  fixes w p :: u64
  shows "drop_bit m (ucast (p OR (w AND mask m)) :: u8) = drop_bit m (ucast p)"
  by (rule bit_word_eqI) (auto simp: bit_simps)

lemma be_accum_Nil [simp]: "be_accum v [] = v"
  by (simp add: be_accum_def)

lemma be_accum_step:
  "j = k + 8 \<Longrightarrow> be_accum (drop_bit j v) (byte_of v k # bs) = be_accum (drop_bit k v) bs"
  by (simp add: be_accum_def byte_join)

lemma decode_varint_at:
  "2 ^ unat (drop_bit 6 b) = Suc (length body) \<Longrightarrow>
   decode_varint_impl (pre @ b # body @ rest) (length pre) =
     Inr (be_accum (ucast (b AND 0x3f)) body, length pre + Suc (length body))"
  by (simp add: decode_varint_impl_def fits_iff slice_def nth_append)

lemma decode_vi64_at:
  "vi64_form b = (Suc (length body), m) \<Longrightarrow>
   decode_vi64_impl (pre @ b # body @ rest) (length pre) =
     Inr (be_accum (ucast (b AND m)) body, length pre + Suc (length body))"
  by (simp add: decode_vi64_impl_def fits_iff slice_def nth_append)

lemma unat_drop_bit_less: "unat (v :: u64) < 2 ^ (k + m) \<Longrightarrow> unat (drop_bit k v) < 2 ^ m"
  by (subst unat_drop_bit_eq) (simp add: drop_bit_eq_div less_mult_imp_div_less power_add mult.commute)

lemma and_mask_self: "unat (w :: u64) < 2 ^ m \<Longrightarrow> w AND mask m = w"
  by (rule bit_word_eqI) (auto simp: bit_simps dest: bit_less_exp)

lemma varint_first:
  fixes v p :: u64
  assumes "unat v < 2 ^ (k + 6)" "p \<in> {0, 0x40, 0x80, 0xc0}"
  shows "ucast ((ucast (p OR (drop_bit k v AND 0x3f)) :: u8) AND 0x3f) = drop_bit k v"
    and "drop_bit 6 (ucast (p OR (drop_bit k v AND 0x3f)) :: u8) = drop_bit 6 (ucast p)"
proof -
  have m: "(0x3f :: u64) = mask 6" "(0x3f :: u8) = mask 6" by (simp_all add: mask_eq_exp_minus_1)
  show "ucast ((ucast (p OR (drop_bit k v AND 0x3f)) :: u8) AND 0x3f) = drop_bit k v"
    unfolding m using assms by (intro first_byte_join unat_drop_bit_less) (auto simp: mask_eq_exp_minus_1)
  show "drop_bit 6 (ucast (p OR (drop_bit k v AND 0x3f)) :: u8) = drop_bit 6 (ucast p)"
    unfolding m by (rule first_byte_drop)
qed

lemma decode_varint_append:
  assumes "v \<le> kMaxQuicVarintValue"
  shows "decode_varint_impl (pre @ snd (append_varint [] v) @ rest) (length pre) =
     Inr (v, length pre + length (snd (append_varint [] v)))"
proof -
  have b: "unat v < 2 ^ 62" using assms by (simp add: kMaxQuicVarintValue_def word_le_nat_alt)
  have g: "\<not> v > kMaxQuicVarintValue" using assms by simp
  consider "v \<le> 63" | "\<not> v \<le> 63" "v \<le> 16383" | "\<not> v \<le> 63" "\<not> v \<le> 16383" "v \<le> 1073741823"
    | "\<not> v \<le> 63" "\<not> v \<le> 16383" "\<not> v \<le> 1073741823" by blast
  then show ?thesis
  proof cases
    case 1
    then have "unat v < 2 ^ (0 + 6)" by (simp add: word_le_nat_alt)
    note f = varint_first [where v = v and p = 0, OF this]
    have "v AND 0x3f = v"
      using and_mask_self [of v 6] \<open>unat v < 2 ^ (0 + 6)\<close> by (simp add: mask_eq_exp_minus_1)
    with f show ?thesis using 1 g decode_varint_at [of "ucast v" "[]" pre rest] by (simp add: append_varint_def)
  next
    case 2
    then have "unat v < 2 ^ (8 + 6)" by (simp add: word_le_nat_alt)
    note f = varint_first [where v = v and p = "0x40", OF this]
    show ?thesis using 2 g f decode_varint_at [of "ucast (0x40 OR (drop_bit 8 v AND 0x3f))" "[byte_of v 0]" pre rest]
      by (simp add: append_varint_def be_accum_step)
  next
    case 3
    then have "unat v < 2 ^ (24 + 6)" by (simp add: word_le_nat_alt)
    note f = varint_first [where v = v and p = "0x80", OF this]
    show ?thesis using 3 g f decode_varint_at [of "ucast (0x80 OR (drop_bit 24 v AND 0x3f))" "[byte_of v 16, byte_of v 8, byte_of v 0]" pre rest]
      by (simp add: append_varint_def be_accum_step)
  next
    case 4
    have "unat v < 2 ^ (56 + 6)" using b by simp
    note f = varint_first [where v = v and p = "0xc0", OF this]
    show ?thesis using 4 g f decode_varint_at [of "ucast (0xc0 OR (drop_bit 56 v AND 0x3f))" "map (byte_of v) [48,40,32,24,16,8,0]" pre rest]
      by (simp add: append_varint_def be_accum_step)
  qed
qed


lemma vi64_first:
  fixes v p :: u64
  assumes "unat v < 2 ^ (k + m)" "m \<le> 8" "M = mask m" "M' = mask m" "p AND M = 0"
  shows "ucast ((ucast (p OR (drop_bit k v AND M)) :: u8) AND M') = drop_bit k v"
  using assms by (auto intro: first_byte_join unat_drop_bit_less)

lemma unat_lt: "v \<le> n \<Longrightarrow> unat n < 2 ^ k \<Longrightarrow> unat (v :: u64) < 2 ^ k"
  by (simp add: word_le_nat_alt)


lemma vi64_forms:
  fixes w :: u64
  shows "vi64_form (ucast (0x80 OR (w AND 0x3f))) = (2, 0x3f)"
    and "vi64_form (ucast (0xc0 OR (w AND 0x1f))) = (3, 0x1f)"
    and "vi64_form (ucast (0xe0 OR (w AND 0x0f))) = (4, 0x0f)"
    and "vi64_form (ucast (0xf0 OR (w AND 0x07))) = (5, 0x07)"
    and "vi64_form (ucast (0xf8 OR (w AND 0x03))) = (6, 0x03)"
    and "vi64_form (ucast (0xfc OR (w AND 0x01))) = (7, 0x01)"
    and "vi64_form 0xfe = (8, 0)" "vi64_form 0xff = (9, 0)"
  by (simp_all add: vi64_form_def first_byte_prefix)

lemma decode_vi64_one:
  assumes "v \<le> 127"
  shows "decode_vi64_impl (pre @ ucast v # rest) (length pre) = Inr (v, length pre + 1)"
proof -
  have v: "v AND mask 7 = v" using assms by (intro and_mask_self) (simp add: word_le_nat_alt)
  have "(ucast v :: u8) AND 0x80 = 0"
    using first_byte_prefix [of "0x80" "0x7f" 0 v] v by (simp add: mask_eq_exp_minus_1)
  moreover have "ucast ((ucast v :: u8) AND 0x7f) = v"
    using first_byte_join [of v 7 0] assms v by (simp add: mask_eq_exp_minus_1 word_le_nat_alt)
  ultimately show ?thesis
    using decode_vi64_at [of "ucast v" "[]" "0x7f" pre rest] by (simp add: vi64_form_def)
qed

lemma decode_vi64_prefixed:
  assumes "unat v < 2 ^ (k + m)" "m \<le> 8" "M = mask m" "M' = mask m" "p AND M = 0"
    and "vi64_form (ucast (p OR (drop_bit k v AND M))) = (Suc (length body), M')"
    and "be_accum (drop_bit k v) body = v"
  shows "decode_vi64_impl (pre @ ucast (p OR (drop_bit k v AND M)) # body @ rest) (length pre) =
     Inr (v, length pre + Suc (length body))"
  using decode_vi64_at [OF assms(6), of pre rest] vi64_first [OF assms(1-5)] assms(7) by simp

lemma be_accum_bytes:
  "be_accum v [] = v"
  "be_accum (drop_bit 8 v) [byte_of v 0] = v"
  "be_accum (drop_bit 16 v) [byte_of v 8, byte_of v 0] = v"
  "be_accum (drop_bit 24 v) [byte_of v 16, byte_of v 8, byte_of v 0] = v"
  "be_accum (drop_bit 32 v) [byte_of v 24, byte_of v 16, byte_of v 8, byte_of v 0] = v"
  "be_accum (drop_bit 40 v) [byte_of v 32, byte_of v 24, byte_of v 16, byte_of v 8, byte_of v 0] = v"
  "be_accum (drop_bit 48 v)
     [byte_of v 40, byte_of v 32, byte_of v 24, byte_of v 16, byte_of v 8, byte_of v 0] = v"
  "be_accum (drop_bit 56 v)
     [byte_of v 48, byte_of v 40, byte_of v 32, byte_of v 24, byte_of v 16, byte_of v 8, byte_of v 0] = v"
  "be_accum (drop_bit 64 v)
     [byte_of v 56, byte_of v 48, byte_of v 40, byte_of v 32, byte_of v 24, byte_of v 16, byte_of v 8,
      byte_of v 0] = v"
  by (simp_all add: be_accum_step del: drop_bit_word_beyond)

lemma decode_vi64_append:
  "decode_vi64_impl (pre @ snd (append_vi64 [] v) @ rest) (length pre) =
     Inr (v, length pre + length (snd (append_vi64 [] v)))"
proof -
  have z: "drop_bit 56 v = 0" if "v \<le> 72057594037927935"
  proof -
    have "unat (drop_bit 56 v) < 2 ^ 0" 
      using that by (intro unat_drop_bit_less) (simp add: word_le_nat_alt)
    then show ?thesis by (simp add: unat_eq_0)
  qed
  have e: "drop_bit 64 v = 0" by (rule bit_word_eqI) (auto simp: bit_simps dest: bit_imp_le_length)
  let ?b = "byte_of v"
  consider "v \<le> 127"
    | "\<not> v \<le> 127" "v \<le> 16383"
    | "\<not> v \<le> 127" "\<not> v \<le> 16383" "v \<le> 2097151"
    | "\<not> v \<le> 127" "\<not> v \<le> 16383" "\<not> v \<le> 2097151" "v \<le> 268435455"
    | "\<not> v \<le> 127" "\<not> v \<le> 16383" "\<not> v \<le> 2097151" "\<not> v \<le> 268435455" "v \<le> 34359738367"
    | "\<not> v \<le> 127" "\<not> v \<le> 16383" "\<not> v \<le> 2097151" "\<not> v \<le> 268435455" "\<not> v \<le> 34359738367" "v \<le> 4398046511103"
    | "\<not> v \<le> 127" "\<not> v \<le> 16383" "\<not> v \<le> 2097151" "\<not> v \<le> 268435455" "\<not> v \<le> 34359738367" "\<not> v \<le> 4398046511103" "v \<le> 562949953421311"
    | "\<not> v \<le> 127" "\<not> v \<le> 16383" "\<not> v \<le> 2097151" "\<not> v \<le> 268435455" "\<not> v \<le> 34359738367" "\<not> v \<le> 4398046511103" "\<not> v \<le> 562949953421311" "v \<le> 72057594037927935"
    | "\<not> v \<le> 127" "\<not> v \<le> 16383" "\<not> v \<le> 2097151" "\<not> v \<le> 268435455" "\<not> v \<le> 34359738367" "\<not> v \<le> 4398046511103" "\<not> v \<le> 562949953421311" "\<not> v \<le> 72057594037927935" by blast
  then show ?thesis
  proof cases
    case 1
    then show ?thesis by (simp add: append_vi64_def decode_vi64_one)
  next
    case 2
    then show ?thesis
      using unat_lt [of v 16383 14] decode_vi64_prefixed [of v 8 6 "0x3f" "0x3f" "0x80" "[?b 0]" pre rest]
      by (simp add: append_vi64_def vi64_forms be_accum_bytes unat_lt mask_eq_exp_minus_1)
  next
    case 3
    then show ?thesis
      using unat_lt [of v 2097151 21] decode_vi64_prefixed [of v 16 5 "0x1f" "0x1f" "0xc0" "[?b 8, ?b 0]" pre rest]
      by (simp add: append_vi64_def vi64_forms be_accum_bytes unat_lt mask_eq_exp_minus_1)
  next
    case 4
    then show ?thesis
      using unat_lt [of v 268435455 28] decode_vi64_prefixed [of v 24 4 "0x0f" "0x0f" "0xe0" "[?b 16, ?b 8, ?b 0]" pre rest]
      by (simp add: append_vi64_def vi64_forms be_accum_bytes unat_lt mask_eq_exp_minus_1)
  next
    case 5
    then show ?thesis
      using unat_lt [of v 34359738367 35] decode_vi64_prefixed [of v 32 3 "0x07" "0x07" "0xf0" "[?b 24, ?b 16, ?b 8, ?b 0]" pre rest]
      by (simp add: append_vi64_def vi64_forms be_accum_bytes unat_lt mask_eq_exp_minus_1)
  next
    case 6
    then show ?thesis
      using unat_lt [of v 4398046511103 42] decode_vi64_prefixed [of v 40 2 "0x03" "0x03" "0xf8" "[?b 32, ?b 24, ?b 16, ?b 8, ?b 0]" pre rest]
      by (simp add: append_vi64_def vi64_forms be_accum_bytes unat_lt mask_eq_exp_minus_1)
  next
    case 7
    then show ?thesis
      using unat_lt [of v 562949953421311 49] decode_vi64_prefixed [of v 48 1 "0x01" "0x01" "0xfc" "[?b 40, ?b 32, ?b 24, ?b 16, ?b 8, ?b 0]" pre rest]
      by (simp add: append_vi64_def vi64_forms be_accum_bytes unat_lt mask_eq_exp_minus_1)
  next
    case 8
    then show ?thesis
      using decode_vi64_at [of "0xfe" "map ?b [48, 40, 32, 24, 16, 8, 0]" 0 pre rest] be_accum_bytes(8) [of v] z
      by (simp add: append_vi64_def vi64_forms)
  next
    case 9
    then show ?thesis
      using decode_vi64_at [of "0xff" "map ?b [56, 48, 40, 32, 24, 16, 8, 0]" 0 pre rest] be_accum_bytes(9) [of v] e
      by (simp add: append_vi64_def vi64_forms)
  qed
qed

lemma decode_moqint_append [wire_roundtrip]:
  "moqint_ok draft v \<Longrightarrow>
   decode_moqint_impl (pre @ moqint_bytes draft v @ rest) (length pre) draft =
     Inr (v, length pre + length (moqint_bytes draft v))"
  using decode_varint_append [of v pre rest] decode_vi64_append [of pre v rest]
  by (auto simp: decode_moqint_impl_def moqint_bytes_def put_moqint_def append_moqint_def moqint_ok_def)

lemma moqint_ok_mono: "moqint_ok draft v \<Longrightarrow> w \<le> v \<Longrightarrow> moqint_ok draft w"
  by (auto simp: moqint_ok_def)

lemma decode_moqint_drop:
  assumes "drop offset bs = moqint_bytes draft v @ rest" and "offset \<le> length bs" and "moqint_ok draft v"
  shows "decode_moqint_impl bs offset draft = Inr (v, offset + length (moqint_bytes draft v))"
proof -
  have "bs = take offset bs @ moqint_bytes draft v @ rest" using assms(1) by (metis append_take_drop_id)
  then show ?thesis using decode_moqint_append [OF assms(3), of "take offset bs" rest] assms(2) by simp
qed

text \<open>One-byte integers, which is what concrete messages are made of.\<close>

lemma and_rest: "(x :: u8) AND a = 0 \<Longrightarrow> a OR b = - 1 \<Longrightarrow> x AND b = x"
  using bit.conj_disj_distrib [of x a b] by simp

lemma decode_one_byte [wire_eval]:
  assumes "offset < length bs" and "bs ! offset AND (if uses_moq_vi64 draft then 0x80 else 0xc0) = 0"
  shows "decode_moqint_impl bs offset draft = Inr (ucast (bs ! offset), offset + 1)"
proof (cases "uses_moq_vi64 draft")
  case True
  then have "bs ! offset AND 0x80 = 0" and "bs ! offset AND 0x7f = bs ! offset"
    using assms(2) by (simp_all add: and_rest [where a = "0x80"])
  with True assms(1) show ?thesis
    by (simp add: decode_moqint_impl_def decode_vi64_impl_def vi64_form_def fits_def slice_def)
next
  case False
  then have z: "bs ! offset AND 0xc0 = 0" and m: "bs ! offset AND 0x3f = bs ! offset"
    using assms(2) by (simp_all add: and_rest [where a = "0xc0"])
  have "drop_bit 6 (bs ! offset) = drop_bit 6 (bs ! offset AND mask 6)"
    using m by (simp add: mask_eq_exp_minus_1)
  also have "\<dots> = 0" by (simp add: drop_bit_and mask_eq_exp_minus_1)
  finally show ?thesis using False assms(1) m
    by (simp add: decode_moqint_impl_def decode_varint_impl_def fits_def slice_def)
qed

lemma unat_less_expI:
  assumes "\<And>n. bit (w :: u64) n \<Longrightarrow> n < m"
  shows "unat w < 2 ^ m"
proof -
  have "take_bit m (unat w) = unat w"
    using assms by (auto simp: bit_eq_iff bit_simps)
  then show ?thesis by (simp only: take_bit_nat_eq_self_iff)
qed

lemma be_accum_less:
  "unat a < 2 ^ m \<Longrightarrow> unat (be_accum a bs) < 2 ^ (m + 8 * length bs)"
proof (induction bs arbitrary: a m)
  case Nil
  then show ?case by (simp add: be_accum_def)
next
  case (Cons b bs)
  have "unat (push_bit 8 a OR ucast b) < 2 ^ (m + 8)"
  proof (rule unat_less_expI)
    fix n assume "bit (push_bit 8 a OR ucast b) n"
    then show "n < m + 8"
      using bit_less_exp [OF Cons.prems, of "n - 8"] by (auto simp: bit_simps dest: bit_imp_le_length)
  qed
  from Cons.IH [OF this] show ?case by (simp add: be_accum_def algebra_simps)
qed

lemma unat_ucast_and_mask:
  "unat (ucast (b AND mask m :: u8) :: u64) < 2 ^ m"
  by (rule unat_less_expI) (simp add: bit_simps)

text \<open>The number of bytes an encoder writes, by thresholds.\<close>

lemma length_varint_bytes:
  "unat v < 2 ^ 6 \<Longrightarrow> length (snd (append_varint [] v)) \<le> 1"
  "unat v < 2 ^ 14 \<Longrightarrow> length (snd (append_varint [] v)) \<le> 2"
  "unat v < 2 ^ 30 \<Longrightarrow> length (snd (append_varint [] v)) \<le> 4"
  "length (snd (append_varint [] v)) \<le> 8"
  by (auto simp: append_varint_def word_le_nat_alt)

lemma length_vi64_bytes:
  "unat v < 2 ^ 7 \<Longrightarrow> length (snd (append_vi64 [] v)) \<le> 1"
  "unat v < 2 ^ 14 \<Longrightarrow> length (snd (append_vi64 [] v)) \<le> 2"
  "unat v < 2 ^ 21 \<Longrightarrow> length (snd (append_vi64 [] v)) \<le> 3"
  "unat v < 2 ^ 28 \<Longrightarrow> length (snd (append_vi64 [] v)) \<le> 4"
  "unat v < 2 ^ 35 \<Longrightarrow> length (snd (append_vi64 [] v)) \<le> 5"
  "unat v < 2 ^ 42 \<Longrightarrow> length (snd (append_vi64 [] v)) \<le> 6"
  "unat v < 2 ^ 49 \<Longrightarrow> length (snd (append_vi64 [] v)) \<le> 7"
  "unat v < 2 ^ 56 \<Longrightarrow> length (snd (append_vi64 [] v)) \<le> 8"
  "length (snd (append_vi64 [] v)) \<le> 9"
  by (simp_all add: append_vi64_def word_le_nat_alt)

text \<open>What a decoded value can be, by the number of bytes read.\<close>

lemma decode_varint_value:
  assumes "decode_varint_impl bs offset = Inr (v, offset')"
  shows "\<exists>k < 4. offset' = offset + 2 ^ k \<and> unat v < 2 ^ (6 + 8 * (2 ^ k - 1))"
proof -
  let ?b = "bs ! offset"
  let ?k = "unat (drop_bit 6 ?b)"
  have k: "?k < 4"
    using unat_u8_less [of ?b] by (subst unat_drop_bit_eq) (simp add: drop_bit_eq_div)
  have m: "(0x3f :: u8) = mask 6" by (simp add: mask_eq_exp_minus_1)
  have f: "unat (ucast (?b AND 0x3f) :: u64) < 2 ^ 6" unfolding m by (rule unat_ucast_and_mask)
  have l: "length (slice bs (offset + 1) (2 ^ ?k - 1)) = 2 ^ ?k - 1"
    and o: "offset' = offset + 2 ^ ?k"
    and v: "v = be_accum (ucast (?b AND 0x3f)) (slice bs (offset + 1) (2 ^ ?k - 1))"
    using assms by (auto simp: decode_varint_impl_def Let_def fits_iff split: if_splits)
  then show ?thesis using be_accum_less [OF f, of "slice bs (offset + 1) (2 ^ ?k - 1)"] k by metis
qed

lemma encode_varint_shortest:
  assumes "decode_varint_impl bs offset = Inr (v, offset')"
  shows "length (snd (append_varint [] v)) \<le> offset' - offset"
proof -
  obtain k where "k < 4" and o: "offset' = offset + 2 ^ k" and v: "unat v < 2 ^ (6 + 8 * (2 ^ k - 1))"
    using decode_varint_value [OF assms] by auto
  then consider "k = 0" | "k = 1" | "k = 2" | "k = 3" by linarith
  then show ?thesis using o v length_varint_bytes [of v] by cases simp_all
qed

lemma decode_vi64_value:
  assumes "decode_vi64_impl bs offset = Inr (v, offset')"
  shows "\<exists>n. 1 \<le> n \<and> n \<le> 9 \<and> offset' = offset + n \<and> (n < 9 \<longrightarrow> unat v < 2 ^ (7 * n))"
proof -
  let ?b = "bs ! offset"
  obtain n m where nm: "vi64_form ?b = (n, m)" by fastforce
  have n: "1 \<le> n" "n \<le> 9" using vi64_form_length [of ?b] nm by auto
  have l: "length (slice bs (offset + 1) (n - 1)) = n - 1"
    and o: "offset' = offset + n"
    and v: "v = be_accum (ucast (?b AND m)) (slice bs (offset + 1) (n - 1))"
    using assms nm n by (auto simp: decode_vi64_impl_def Let_def fits_iff split: if_splits)
  have mask: "m = mask (8 - n)" if "n < 9"
    using nm that by (auto simp: vi64_form_def mask_eq_exp_minus_1 split: if_splits)
  have "unat v < 2 ^ (7 * n)" if "n < 9"
  proof -
    have "unat (ucast (?b AND m) :: u64) < 2 ^ (8 - n)"
      unfolding mask [OF that] by (rule unat_ucast_and_mask)
    from be_accum_less [OF this, of "slice bs (offset + 1) (n - 1)"]
    have "unat v < 2 ^ (8 - n + 8 * (n - 1))" using v l by simp
    moreover have "8 - n + 8 * (n - 1) = 7 * n" using that n by simp
    ultimately show ?thesis by (simp only:)
  qed
  with o n show ?thesis by blast
qed

lemma encode_vi64_shortest:
  assumes "decode_vi64_impl bs offset = Inr (v, offset')"
  shows "length (snd (append_vi64 [] v)) \<le> offset' - offset"
proof -
  obtain n where "1 \<le> n" "n \<le> 9" and o: "offset' = offset + n" and v: "n < 9 \<longrightarrow> unat v < 2 ^ (7 * n)"
    using decode_vi64_value [OF assms] by auto
  then consider "n = 1" | "n = 2" | "n = 3" | "n = 4" | "n = 5" | "n = 6" | "n = 7" | "n = 8" | "n = 9"
    by linarith
  then show ?thesis using o v length_vi64_bytes [of v] by cases simp_all
qed

subsection \<open>Properties\<close>

text \<open>C2: For every draft and every value its integer encoding can carry, reading an integer at the
  position where \<open>append_moqint\<close> wrote it, in any surrounding buffer, returns the value and the
  offset just past the bytes written.\<close>

theorem moqint_roundtrip:
  assumes "moqint_ok draft v"
  shows "decode_moqint_impl (pre @ moqint_bytes draft v @ rest) (length pre) draft =
     Inr (v, length pre + length (moqint_bytes draft v))"
  using assms by (rule decode_moqint_append)

theorem moqint_roundtrip_witness:
  "moqint_ok kDraft16 494878333 \<and>
   decode_moqint_impl ([1, 2] @ moqint_bytes kDraft16 494878333 @ [7]) 2 kDraft16 = Inr (494878333, 6)"
proof -
  have ok: "moqint_ok kDraft16 494878333" by (simp add: moqint_ok_def kMaxQuicVarintValue_def)
  have len: "length (moqint_bytes kDraft16 494878333) = 4"
    by (simp add: moqint_bytes_def put_moqint_def append_moqint_def append_varint_def uses_moq_vi64_def
        draft_predicates kMaxQuicVarintValue_def)
  show ?thesis using moqint_roundtrip [OF ok, of "[1, 2]" "[7]"] ok len by (simp add: numeral_2_eq_2)
qed

text \<open>The encoder always writes the shortest form: no byte sequence that decodes to a value is
  shorter than the one \<open>append_moqint\<close> writes for it.\<close>

theorem moqint_bytes_shortest:
  assumes "decode_moqint_impl bs offset draft = Inr (v, offset')"
  shows "length (moqint_bytes draft v) \<le> offset' - offset"
  using assms encode_varint_shortest encode_vi64_shortest
  by (auto simp: decode_moqint_impl_def moqint_bytes_def put_moqint_def append_moqint_def split: if_splits)

theorem moqint_bytes_shortest_witness:
  "length (moqint_bytes kDraft18 37) \<le> 3"
proof -
  have "decode_moqint_impl [0xc0, 0, 37] 0 kDraft18 = Inr (37, 3)"
    by (simp add: decode_moqint_impl_def decode_vi64_impl_def vi64_form_def fits_def slice_def be_accum_def
      uses_moq_vi64_def draft_predicates)
  from moqint_bytes_shortest [OF this] show ?thesis by simp
qed

end
