(* ===== verification/Control_Framing.thy ===== *)
theory Control_Framing
  imports Varint
begin

text \<open>
  The framing layer of \<open>src/transport/moqt_control_messages.cpp\<close>: message types, control message
  lengths, strings, track namespaces, locations, the delta-typed parameter headers, and the functions
  that cut a control stream into messages (\<open>next_control_message\<close>, \<open>parse_control_length_message\<close>,
  \<open>control_message_exceeds_limit\<close>).

  Offsets and sizes are natural numbers; the two places where the source adds a peer's length to an
  offset without \<open>fits\<close> keep the 64-bit addition.
\<close>

subsection \<open>Message and parameter types\<close>

definition kClientSetupType :: u64 where "kClientSetupType = 0x20"
definition kServerSetupType :: u64 where "kServerSetupType = 0x21"
definition kSetupType :: u64 where "kSetupType = 0x2f00"
definition kSubscribeUpdateType :: u64 where "kSubscribeUpdateType = 0x02"
definition kSubscribeType :: u64 where "kSubscribeType = 0x03"
definition kSubscribeOkType :: u64 where "kSubscribeOkType = 0x04"
definition kSubscribeErrorType :: u64 where "kSubscribeErrorType = 0x05"
definition kRequestErrorType :: u64 where "kRequestErrorType = 0x05"
definition kPublishNamespaceType :: u64 where "kPublishNamespaceType = 0x06"
definition kPublishNamespaceOkType :: u64 where "kPublishNamespaceOkType = 0x07"
definition kRequestOkType :: u64 where "kRequestOkType = 0x07"
definition kPublishNamespaceErrorType :: u64 where "kPublishNamespaceErrorType = 0x08"
definition kPublishNamespaceDoneType :: u64 where "kPublishNamespaceDoneType = 0x09"
definition kNamespaceDoneType :: u64 where "kNamespaceDoneType = 0x0e"
definition kPublishDoneType :: u64 where "kPublishDoneType = 0x0b"
definition kSubscribeNamespaceType :: u64 where "kSubscribeNamespaceType = 0x11"
definition kSubscribeNamespaceOkType :: u64 where "kSubscribeNamespaceOkType = 0x12"
definition kMaxRequestIdType :: u64 where "kMaxRequestIdType = 0x15"
definition kPublishType :: u64 where "kPublishType = 0x1d"
definition kPublishOkType :: u64 where "kPublishOkType = 0x1e"
definition kPublishErrorType :: u64 where "kPublishErrorType = 0x1f"
definition kSubscribeNamespaceTypeDraft18 :: u64 where "kSubscribeNamespaceTypeDraft18 = 0x50"
definition kSubscribeTracksType :: u64 where "kSubscribeTracksType = 0x51"
definition kSetupParamPath :: u64 where "kSetupParamPath = 0x1"
definition kSetupParamMaxRequestId :: u64 where "kSetupParamMaxRequestId = 0x2"
definition kParamAuthorizationToken :: u64 where "kParamAuthorizationToken = 0x3"
definition kSetupParamAuthority :: u64 where "kSetupParamAuthority = 0x5"
definition kSetupParamImplementation :: u64 where "kSetupParamImplementation = 0x7"
definition kSetupParamMaxControlMessageSize :: u64 where "kSetupParamMaxControlMessageSize = 0x9"
definition kParamForward :: u64 where "kParamForward = 0x10"
definition kParamPaused :: u64 where "kParamPaused = 0x11"
definition kParamSubscriberPriority :: u64 where "kParamSubscriberPriority = 0x20"
definition kParamGroupOrder :: u64 where "kParamGroupOrder = 0x22"
definition kParamIncludeProperties :: u64 where "kParamIncludeProperties = 0x35"
definition kParamFillParameters :: u64 where "kParamFillParameters = 0x23"
definition kDefaultMaxControlMessageSize :: nat where "kDefaultMaxControlMessageSize = 65535"

lemmas message_types =
  kClientSetupType_def kServerSetupType_def kSetupType_def kSubscribeUpdateType_def kSubscribeType_def
  kSubscribeOkType_def kSubscribeErrorType_def kRequestErrorType_def kPublishNamespaceType_def
  kPublishNamespaceOkType_def kRequestOkType_def kPublishNamespaceErrorType_def
  kPublishNamespaceDoneType_def kNamespaceDoneType_def kPublishDoneType_def kSubscribeNamespaceType_def
  kSubscribeNamespaceOkType_def kMaxRequestIdType_def kPublishType_def kPublishOkType_def
  kPublishErrorType_def kSubscribeNamespaceTypeDraft18_def kSubscribeTracksType_def

lemmas parameter_types =
  kSetupParamPath_def kSetupParamMaxRequestId_def kParamAuthorizationToken_def kSetupParamAuthority_def
  kSetupParamImplementation_def kSetupParamMaxControlMessageSize_def kParamForward_def kParamPaused_def
  kParamSubscriberPriority_def kParamGroupOrder_def kParamIncludeProperties_def kParamFillParameters_def

subsection \<open>Encoding primitives\<close>

text \<open>
  \<open>split_track_namespace\<close>: the loop over \<open>find('/', start)\<close>, on what is left of the string
  after \<open>start\<close>.
\<close>

function split_loop :: "string \<Rightarrow> string list" where
  "split_loop s =
     (let part = takeWhile (\<lambda>c. c \<noteq> CHR 0x2F) s; found = dropWhile (\<lambda>c. c \<noteq> CHR 0x2F) s in
      (if part \<noteq> [] then [part] else []) @
      (if found = [] then [] else split_loop (tl found)))"
  by pat_completeness auto
termination
proof (relation "measure length")
  fix s part found
  assume "(part :: string) = takeWhile (\<lambda>c. c \<noteq> CHR 0x2F) s" "found = dropWhile (\<lambda>c. c \<noteq> CHR 0x2F) s"
    "found \<noteq> []"
  then show "(tl found, s) \<in> measure length"
    using length_dropWhile_le [of "\<lambda>c. c \<noteq> CHR 0x2F" s]
    by (metis in_measure le_less_trans length_tl diff_less length_greater_0_conv zero_less_one
        less_le_trans)
qed simp

declare split_loop.simps [simp del]

definition split_track_namespace :: "string \<Rightarrow> string list" where
  "split_track_namespace track_namespace =
     (let parts = split_loop track_namespace in if parts = [] then [track_namespace] else parts)"

definition append_uint16 :: "bytes \<Rightarrow> u16 \<Rightarrow> bytes" where
  "append_uint16 out value = out @ [ucast (drop_bit 8 value AND 0xff), ucast (value AND 0xff)]"

definition append_control_length :: "bytes \<Rightarrow> DraftVersion \<Rightarrow> nat \<Rightarrow> bool \<times> bytes" where
  "append_control_length out draft len =
     (if len > kDefaultMaxControlMessageSize then (False, out)
      else if is_draft23_or_later draft then append_moqint out draft (of_nat len)
      else (True, append_uint16 out (of_nat len)))"

definition append_string :: "bytes \<Rightarrow> DraftVersion \<Rightarrow> string \<Rightarrow> bytes" where
  "append_string out draft value = put_moqint draft (of_nat (length value)) out @ to_bytes value"

definition append_track_namespace :: "bytes \<Rightarrow> DraftVersion \<Rightarrow> string \<Rightarrow> bytes" where
  "append_track_namespace out draft track_namespace =
     (let parts = split_track_namespace track_namespace in
      foldl (\<lambda>out part. append_string out draft part)
        (put_moqint draft (of_nat (length parts)) out) parts)"

definition append_location :: "bytes \<Rightarrow> DraftVersion \<Rightarrow> u64 \<Rightarrow> u64 \<Rightarrow> bytes" where
  "append_location out draft group_id object_id =
     put_moqint draft object_id (put_moqint draft group_id out)"

definition append_parameter :: "bytes \<Rightarrow> DraftVersion \<Rightarrow> u64 \<Rightarrow> bytes \<Rightarrow> bytes" where
  "append_parameter out draft type value =
     (let out = put_moqint draft type out in
      if type AND 1 = 0 then out @ value
      else put_moqint draft (of_nat (length value)) out @ value)"

text \<open>The delta-typed appends return the buffer and the new \<open>previous_type\<close>.\<close>

definition append_setup_option_delta ::
    "bytes \<Rightarrow> DraftVersion \<Rightarrow> u64 \<Rightarrow> u64 \<Rightarrow> bytes \<Rightarrow> bytes \<times> u64" where
  "append_setup_option_delta out draft previous_type type value =
     (let out = put_moqint draft (type - previous_type) out;
          out = (if type AND 1 \<noteq> 0 then put_moqint draft (of_nat (length value)) out else out) in
      (out @ value, type))"

definition append_parameter_delta ::
    "bytes \<Rightarrow> DraftVersion \<Rightarrow> u64 \<Rightarrow> u64 \<Rightarrow> bytes \<Rightarrow> bytes \<times> u64" where
  "append_parameter_delta out draft previous_type type value =
     (let delta = type - previous_type; out = put_moqint draft delta out in
      if type AND 1 = 0 then (out @ value, type)
      else (put_moqint draft (of_nat (length value)) out @ value, type))"

definition append_largest_object_parameter ::
    "bytes \<Rightarrow> DraftVersion \<Rightarrow> u64 \<Rightarrow> u64 \<Rightarrow> u64 \<Rightarrow> bytes \<times> u64" where
  "append_largest_object_parameter out draft previous_type group_id object_id =
     (let kParamLargestObject = 0x09; location = append_location [] draft group_id object_id in
      if \<not> uses_moq_vi64 draft then
        append_parameter_delta out draft previous_type kParamLargestObject location
      else (put_moqint draft (kParamLargestObject - previous_type) out @ location,
            kParamLargestObject))"

text \<open>
  Every control message encoder ends the same way: the type, the length, then the payload, or an empty
  result when the payload is too long.
\<close>

definition control_message :: "DraftVersion \<Rightarrow> u64 \<Rightarrow> bytes \<Rightarrow> bytes" where
  "control_message draft type payload =
     (case append_control_length (put_moqint draft type []) draft (length payload) of (ok, out) \<Rightarrow>
        if ok then out @ payload else [])"

subsection \<open>Decoding primitives\<close>

definition read_control_length :: "bytes \<Rightarrow> nat \<Rightarrow> DraftVersion \<Rightarrow> (nat \<times> nat) decoded" where
  "read_control_length bs offset draft =
     (if is_draft23_or_later draft then
        bindE (decode_moqint_impl bs offset draft) (\<lambda>(value, offset). Inr (unat value, offset))
      else if \<not> fits offset 2 (length bs) then reject
      else Inr (unat (bs ! offset) * 256 + unat (bs ! (offset + 1)), offset + 2))"

definition parse_control_length_message :: "bytes \<Rightarrow> DraftVersion \<Rightarrow> u64 \<Rightarrow> (nat \<times> nat) decoded" where
  "parse_control_length_message bs draft expected_type =
     bindE (decode_moqint_impl bs 0 draft) (\<lambda>(type, offset).
     if type \<noteq> expected_type then reject else
     bindE (read_control_length bs offset draft) (\<lambda>(payload_length, offset).
     if \<not> fits offset payload_length (length bs) \<or> offset + payload_length \<noteq> length bs then reject
     else Inr (offset, payload_length)))"

definition parse_varint_length_message :: "bytes \<Rightarrow> DraftVersion \<Rightarrow> u64 \<Rightarrow> (nat \<times> nat) decoded" where
  "parse_varint_length_message bs draft expected_type =
     bindE (decode_moqint_impl bs 0 draft) (\<lambda>(type, offset).
     if type \<noteq> expected_type then reject else
     bindE (decode_moqint_impl bs offset draft) (\<lambda>(len, offset).
     if of_nat offset + len \<noteq> of_nat (length bs) then reject
     else Inr (offset, unat len)))"

definition parse_publish_family_message :: "bytes \<Rightarrow> DraftVersion \<Rightarrow> u64 \<Rightarrow> (nat \<times> nat) decoded" where
  "parse_publish_family_message bs draft expected_type =
     (if draft = kDraft14 then parse_varint_length_message bs draft expected_type
      else parse_control_length_message bs draft expected_type)"

definition decode_reason_phrase :: "bytes \<Rightarrow> nat \<Rightarrow> DraftVersion \<Rightarrow> (string \<times> nat) decoded" where
  "decode_reason_phrase bs offset draft =
     bindE (decode_moqint_impl bs offset draft) (\<lambda>(len, offset).
     if is_draft23_or_later draft \<and> len > 1024 then reject_noting draft kFaultFieldLengthExceeded
     else if \<not> fits offset (unat len) (length bs) then reject
     else Inr (of_bytes (slice bs offset (unat len)), offset + unat len))"

text \<open>
  \<open>std::vector<std::string>::reserve(n)\<close> throws \<open>std::length_error\<close> for n above
  \<open>max_size()\<close>: \<open>PTRDIFF_MAX / sizeof(std::string)\<close> on a 64-bit libstdc++. Running out of memory
  below that is not modelled.
\<close>

definition string_vector_max_size :: nat where
  "string_vector_max_size = (2 ^ 63 - 1) div 32"

definition decode_namespace_field ::
    "bytes \<Rightarrow> DraftVersion \<Rightarrow> nat \<times> string list \<times> u64 \<Rightarrow> (nat \<times> string list \<times> u64) decoded" where
  "decode_namespace_field bs draft = (\<lambda>(offset, track_namespace, namespace_length).
     bindE (decode_moqint_impl bs offset draft) (\<lambda>(len, offset).
     if \<not> fits offset (unat len) (length bs) then reject
     else if is_draft18_or_later draft \<and> len = 0 then
       reject_noting draft kFaultInvalidTrackNamespace
     else if is_draft18_or_later draft \<and> len > 4096 - namespace_length then
       reject_noting draft kFaultFieldLengthExceeded
     else Inr (offset + unat len, track_namespace @ [of_bytes (slice bs offset (unat len))],
               namespace_length + len)))"

definition decode_track_namespace :: "bytes \<Rightarrow> nat \<Rightarrow> DraftVersion \<Rightarrow> (string list \<times> nat) decoded" where
  "decode_track_namespace bs offset draft =
     bindE (decode_moqint_impl bs offset draft) (\<lambda>(entry_count, offset).
     if is_draft18_or_later draft \<and> entry_count > 32 then
       reject_noting draft kFaultInvalidTrackNamespace
     else if unat entry_count > string_vector_max_size then Inl (Raised Length_Error)
     else bindE (repeatE (unat entry_count) (decode_namespace_field bs draft) (offset, [], 0))
       (\<lambda>(offset, track_namespace, _). Inr (track_namespace, offset)))"

datatype ParameterTypeDecodeError = Encoding | ProtocolViolation

text \<open>
  The result of \<open>decode_parameter_type\<close> is the parameter type, which is also the new
  \<open>previous_type\<close>, and the offset; a failure carries the \<open>ParameterTypeDecodeError\<close>.
\<close>

definition decode_parameter_type ::
    "bytes \<Rightarrow> nat \<Rightarrow> DraftVersion \<Rightarrow> u64 \<Rightarrow> bool \<Rightarrow> u64 option \<Rightarrow>
     (ParameterTypeDecodeError \<times> decode_failure) + (u64 \<times> nat)" where
  "decode_parameter_type bs offset draft previous_type delta_encoded repeatable_type =
     (case decode_moqint_impl bs offset draft of
        Inl f \<Rightarrow> Inl (Encoding, f)
      | Inr (encoded_type, offset) \<Rightarrow>
          if \<not> delta_encoded then Inr (encoded_type, offset)
          else if previous_type \<noteq> 0 \<and> encoded_type = 0 \<and> repeatable_type \<noteq> Some previous_type then
            Inl (ProtocolViolation, Rejected (note_decode_fault draft kFaultInvalidParameter 0))
          else if encoded_type > - 1 - previous_type then
            Inl (ProtocolViolation, Rejected (note_decode_fault draft kFaultDeltaEncodingOverflow 0))
          else Inr (previous_type + encoded_type, offset))"

text \<open>Most callers pass no error out-parameter.\<close>

definition decode_parameter_type_simple ::
    "bytes \<Rightarrow> nat \<Rightarrow> DraftVersion \<Rightarrow> u64 \<Rightarrow> bool \<Rightarrow> u64 option \<Rightarrow> (u64 \<times> nat) decoded" where
  "decode_parameter_type_simple bs offset draft previous_type delta_encoded repeatable_type =
     (case decode_parameter_type bs offset draft previous_type delta_encoded repeatable_type of
        Inl (_, f) \<Rightarrow> Inl f | Inr r \<Rightarrow> Inr r)"

text \<open>\<open>valid_authorization_token\<close>: the verdict, \<open>*is_register\<close> and \<open>*uses_alias\<close>.\<close>

definition valid_authorization_token ::
    "bytes \<Rightarrow> nat \<Rightarrow> nat \<Rightarrow> DraftVersion \<Rightarrow> bool \<times> bool \<times> bool" where
  "valid_authorization_token bs offset parameter_end draft =
     (let parameter_bytes = take parameter_end bs in
      case decode_moqint_impl parameter_bytes offset draft of
        Inl _ \<Rightarrow> (False, False, False)
      | Inr (alias_type, offset) \<Rightarrow>
          let read = (\<lambda>offset. decode_moqint_impl parameter_bytes offset draft);
              verdict =
                (if alias_type = 0x00 \<or> alias_type = 0x02 then
                   (case read offset of Inl _ \<Rightarrow> False | Inr (_, offset) \<Rightarrow> offset = parameter_end)
                 else if alias_type = 0x01 then
                   (case read offset of Inl _ \<Rightarrow> False
                    | Inr (_, offset) \<Rightarrow> (case read offset of Inl _ \<Rightarrow> False | Inr _ \<Rightarrow> True))
                 else if alias_type = 0x03 then
                   (case read offset of Inl _ \<Rightarrow> False | Inr _ \<Rightarrow> True)
                 else False)
          in (verdict, alias_type = 0x01, alias_type = 0x00 \<or> alias_type = 0x02))"

definition decode_numeric_message_parameter ::
    "bytes \<Rightarrow> nat \<Rightarrow> DraftVersion \<Rightarrow> u64 \<Rightarrow> (u64 \<times> nat) decoded" where
  "decode_numeric_message_parameter bs offset draft parameter_type =
     (let is_uint8 = (draft = kDraft17 \<or> is_draft18_or_later draft) \<and>
            (parameter_type = kParamForward \<or> parameter_type = kParamSubscriberPriority \<or>
             parameter_type = kParamGroupOrder) in
      if \<not> is_uint8 then decode_moqint_impl bs offset draft
      else if offset \<ge> length bs then reject
      else Inr (ucast (bs ! offset), offset + 1))"

definition decode_include_properties :: "bytes \<Rightarrow> nat \<Rightarrow> nat \<Rightarrow> nat option" where
  "decode_include_properties bs offset limit =
     (if offset \<ge> limit then None else if bs ! offset \<le> 1 then Some (offset + 1) else None)"

text \<open>\<open>decode_paused_as_forward\<close>: the new \<open>forward\<close> and the offset.\<close>

definition decode_paused_as_forward :: "bytes \<Rightarrow> nat \<Rightarrow> nat \<Rightarrow> (u8 \<times> nat) option" where
  "decode_paused_as_forward bs offset limit =
     (if offset \<ge> limit \<or> bs ! offset > 1 then None
      else Some (if bs ! offset = 0 then 1 else 0, offset + 1))"

subsection \<open>Cutting the control stream\<close>

definition control_message_exceeds_limit :: "bytes \<Rightarrow> DraftVersion \<Rightarrow> bool" where
  "control_message_exceeds_limit bs draft =
     (if \<not> is_draft23_or_later draft then False
      else case bindE (decode_moqint_impl bs 0 draft) (\<lambda>(_, offset). read_control_length bs offset draft) of
        Inl _ \<Rightarrow> False | Inr (len, _) \<Rightarrow> len > kDefaultMaxControlMessageSize)"

text \<open>\<open>decode_control_message_header\<close>: type, payload offset, payload length.\<close>

definition decode_control_message_header :: "bytes \<Rightarrow> DraftVersion \<Rightarrow> (u64 \<times> nat \<times> nat) decoded" where
  "decode_control_message_header bs draft =
     bindE (decode_moqint_impl bs 0 draft) (\<lambda>(type, offset).
     bindE (read_control_length bs offset draft) (\<lambda>(payload_length, offset).
     if \<not> fits offset payload_length (length bs) \<or> offset + payload_length \<noteq> length bs then reject
     else Inr (type, offset, payload_length)))"

text \<open>The two length framings of the drafts before 18.\<close>

definition uint16_framed :: "bytes \<Rightarrow> nat \<Rightarrow> nat decoded" where
  "uint16_framed bs offset =
     (if offset + 2 > length bs then reject
      else let payload_length = unat (bs ! offset) * 256 + unat (bs ! (offset + 1));
               message_size = offset + 2 + payload_length in
        if length bs \<ge> message_size then Inr message_size else reject)"

definition varint_framed :: "bytes \<Rightarrow> nat \<Rightarrow> DraftVersion \<Rightarrow> nat decoded" where
  "varint_framed bs offset draft =
     bindE (decode_moqint_impl bs offset draft) (\<lambda>(payload_length, offset).
     let message_size = unat (of_nat offset + payload_length :: u64) in
     if length bs \<ge> message_size then Inr message_size else reject)"

definition uint16_framed_types :: "u64 list" where
  "uint16_framed_types =
     [kClientSetupType, kServerSetupType, kSetupType, kSubscribeUpdateType, kSubscribeType,
      kSubscribeOkType, kSubscribeErrorType, kPublishNamespaceType, kPublishNamespaceOkType,
      kPublishNamespaceErrorType, kPublishNamespaceDoneType, kNamespaceDoneType, kPublishDoneType,
      kMaxRequestIdType, kSubscribeNamespaceTypeDraft18, kSubscribeTracksType,
      0x0a, 0x0d, 0x10, 0x14, 0x16, 0x17, 0x18, 0x19, 0x1a]"

definition next_control_message :: "bytes \<Rightarrow> DraftVersion \<Rightarrow> nat decoded" where
  "next_control_message bs draft =
     bindE (decode_moqint_impl bs 0 draft) (\<lambda>(type, offset).
     if is_draft18_or_later draft then
       bindE (read_control_length bs offset draft) (\<lambda>(len, offset).
         if \<not> fits offset len (length bs) then reject else Inr (offset + len))
     else if type \<in> set uint16_framed_types then uint16_framed bs offset
     else if type \<in> {kPublishType, kPublishOkType, kPublishErrorType} then
       (if draft = kDraft14 then varint_framed bs offset draft else uint16_framed bs offset)
     else if type \<in> {kSubscribeNamespaceOkType, 0x13, 0x1b} then varint_framed bs offset draft
     else if type = kSubscribeNamespaceType then
       (if draft = kDraft16 then uint16_framed bs offset else varint_framed bs offset draft)
     else reject)"

text \<open>
  \<open>diagnose_malformed_request\<close>: the session termination code that names why a draft-23 request is
  malformed, 0 when it is well formed; \<open>Inl\<close> when the diagnosis itself throws.
\<close>

definition diagnose_malformed_request :: "bytes \<Rightarrow> DraftVersion \<Rightarrow> exn + u64" where
  "diagnose_malformed_request bs draft =
     (if \<not> is_draft23_or_later draft then Inr 0
      else case bindE (decode_moqint_impl bs 0 draft) (\<lambda>(type, offset).
             bindE (read_control_length bs offset draft) (\<lambda>(len, offset). Inr (type, len, offset))) of
        Inl _ \<Rightarrow> Inr kFaultMalformedMessage
      | Inr (type, len, offset) \<Rightarrow>
          if len \<noteq> length bs - offset then Inr kFaultMalformedMessage
          else let body = take (offset + len) bs in
            (case decode_moqint_impl body offset draft of
               Inl _ \<Rightarrow> Inr kFaultMalformedMessage
             | Inr (request_id, offset) \<Rightarrow>
                 if type \<in> {0x03, 0x06, 0x0d, 0x1d, 0x50, 0x51} then
                   (case decode_track_namespace body offset draft of
                      Inr _ \<Rightarrow> Inr 0
                    | Inl (Raised e) \<Rightarrow> Inl e
                    | Inl (Rejected fault) \<Rightarrow> Inr (if fault \<noteq> 0 then fault else kFaultMalformedMessage))
                 else Inr 0))"

subsection \<open>What the encoding primitives append\<close>

lemma append_string_append [wire_append]:
  "NO_MATCH [] out \<Longrightarrow> append_string out draft s = out @ append_string [] draft s"
  by (simp add: append_string_def wire_append)

lemma foldl_append_string:
  "foldl (\<lambda>out part. out @ append_string [] draft part) out parts =
   out @ concat (map (append_string [] draft) parts)"
  by (induction parts arbitrary: out) simp_all

lemma append_track_namespace_append [wire_append]:
  "NO_MATCH [] out \<Longrightarrow> append_track_namespace out draft ns = out @ append_track_namespace [] draft ns"
  by (simp add: append_track_namespace_def Let_def foldl_append_string wire_append)

lemma append_track_namespace_eq:
  "append_track_namespace [] draft ns =
   moqint_bytes draft (of_nat (length (split_track_namespace ns))) @
   concat (map (append_string [] draft) (split_track_namespace ns))"
  by (simp add: append_track_namespace_def Let_def foldl_append_string wire_append)

lemma append_location_append [wire_append]:
  "append_location out draft g obj = out @ moqint_bytes draft g @ moqint_bytes draft obj"
  by (simp add: append_location_def wire_append)

lemma append_parameter_append [wire_append]:
  "NO_MATCH [] out \<Longrightarrow> append_parameter out draft type value = out @ append_parameter [] draft type value"
  by (simp add: append_parameter_def Let_def put_moqint_append)

definition control_length_bytes :: "DraftVersion \<Rightarrow> nat \<Rightarrow> bytes" where
  "control_length_bytes draft n = snd (append_control_length [] draft n)"

lemma append_control_length_ok:
  "n \<le> kDefaultMaxControlMessageSize \<Longrightarrow>
   append_control_length out draft n = (True, out @ control_length_bytes draft n)"
  by (auto simp: append_control_length_def control_length_bytes_def append_uint16_def append_moqint_def
      append_vi64_def append_varint_def kDefaultMaxControlMessageSize_def uses_moq_vi64_def draft_predicates)

lemma control_message_eq:
  "length payload \<le> kDefaultMaxControlMessageSize \<Longrightarrow>
   control_message draft type payload =
     moqint_bytes draft type @ control_length_bytes draft (length payload) @ payload"
  by (simp add: control_message_def append_control_length_ok wire_append)

lemma control_message_too_long:
  "kDefaultMaxControlMessageSize < length payload \<Longrightarrow> control_message draft type payload = []"
  by (simp add: control_message_def append_control_length_def)

subsection \<open>Reading them back\<close>

lemma uint16_bytes:
  fixes w :: u16
  shows "unat (ucast (drop_bit 8 w AND 0xff) :: u8) * 256 + unat (ucast (w AND 0xff) :: u8) = unat w"
proof -
  have w: "unat w < 65536" using unsigned_less [of w, where 'a = nat] by simp
  have b: "unat (ucast (x AND 0xff) :: u8) = unat x mod 256" for x :: u16
  proof -
    have "x AND 0xff = take_bit 8 x" by (simp add: take_bit_eq_mask mask_eq_exp_minus_1 del: take_bit_word_eq_self)
    then have "unat (x AND 0xff) = take_bit 8 (unat x)" by (simp only: unsigned_take_bit_eq)
    moreover have "unat (ucast y :: u8) = take_bit 8 (unat y)" for y :: u16
      by (simp add: unsigned_ucast_eq)
    ultimately show ?thesis by (simp add: take_bit_eq_mod)
  qed
  have "unat (drop_bit 8 w) = unat w div 256"
    by (subst unat_drop_bit_eq) (simp add: drop_bit_eq_div)
  with w show ?thesis by (simp add: b)
qed

lemma read_control_length_at [wire_roundtrip]:
  assumes "n \<le> kDefaultMaxControlMessageSize"
  shows "read_control_length (pre @ control_length_bytes draft n @ rest) (length pre) draft =
     Inr (n, length pre + length (control_length_bytes draft n))"
proof (cases "is_draft23_or_later draft")
  case True
  have n: "unat (of_nat n :: u64) = n" using assms by (simp add: kDefaultMaxControlMessageSize_def)
  have b: "control_length_bytes draft n = moqint_bytes draft (of_nat n)"
    using True assms by (simp add: control_length_bytes_def append_control_length_def moqint_bytes_def put_moqint_def)
  have "moqint_ok draft (of_nat n)" using assms by (intro moqint_ok_nat) (simp add: kDefaultMaxControlMessageSize_def)
  from decode_moqint_append [OF this, of pre rest] show ?thesis
    using True n by (simp add: read_control_length_def b)
next
  case False
  have "unat (of_nat n :: u16) = n"
    using assms by (simp add: kDefaultMaxControlMessageSize_def unat_of_nat)
  with False assms uint16_bytes [of "of_nat n"] show ?thesis
    by (simp add: read_control_length_def control_length_bytes_def append_control_length_def append_uint16_def
      fits_iff nth_append)
qed

lemma decode_string_at:
  assumes "length s < 2 ^ 62"
  shows "decode_moqint_impl (pre @ append_string [] draft s @ rest) (length pre) draft =
      Inr (of_nat (length s), length pre + (length (append_string [] draft s) - length s))"
    and "slice (pre @ append_string [] draft s @ rest)
      (length pre + (length (append_string [] draft s) - length s)) (length s) = to_bytes s"
    and "length s \<le> length (append_string [] draft s)"
proof -
  have a: "append_string [] draft s = moqint_bytes draft (of_nat (length s)) @ to_bytes s"
    by (simp add: append_string_def wire_append)
  show "decode_moqint_impl (pre @ append_string [] draft s @ rest) (length pre) draft =
      Inr (of_nat (length s), length pre + (length (append_string [] draft s) - length s))"
    using decode_moqint_append [OF moqint_ok_nat [OF assms], of pre draft "to_bytes s @ rest"]
    by (simp add: a)
  show "slice (pre @ append_string [] draft s @ rest)
      (length pre + (length (append_string [] draft s) - length s)) (length s) = to_bytes s"
    by (simp add: a slice_def)
  show "length s \<le> length (append_string [] draft s)" by (simp add: a)
qed

subsection \<open>Track namespaces\<close>

text \<open>The namespaces a decoder of the draft accepts.\<close>

definition namespace_ok :: "DraftVersion \<Rightarrow> string list \<Rightarrow> bool" where
  "namespace_ok draft parts \<longleftrightarrow>
     length parts \<le> string_vector_max_size \<and> (\<forall>p \<in> set parts. length p < 2 ^ 62) \<and>
     (is_draft18_or_later draft \<longrightarrow>
        length parts \<le> 32 \<and> [] \<notin> set parts \<and> sum_list (map length parts) \<le> 4096)"

lemma decode_namespace_field_at:
  assumes "length s < 2 ^ 62"
    and "is_draft18_or_later draft \<Longrightarrow> s \<noteq> [] \<and> n + length s \<le> 4096"
  shows "decode_namespace_field (pre @ append_string [] draft s @ rest) draft (length pre, acc, of_nat n) =
     Inr (length pre + length (append_string [] draft s), acc @ [s], of_nat (n + length s))"
proof -
  note at = decode_string_at(1,2) [OF assms(1), of pre draft rest] decode_string_at(3) [OF assms(1), of draft]
  have u: "unat (of_nat (length s) :: u64) = length s" using assms(1) by simp
  have z: "(of_nat (length s) :: u64) \<noteq> 0" if "is_draft18_or_later draft"
    using u assms(2) [OF that] by (metis length_0_conv unat_0)
  have le: "\<not> (of_nat (length s) :: u64) > 4096 - of_nat n" if d: "is_draft18_or_later draft"
  proof -
    have "n + length s \<le> 4096" using assms(2) [OF d] by simp
    have e: "(4096 :: u64) - of_nat n = of_nat (4096 - n)" using \<open>n + length s \<le> 4096\<close> by simp
    have "unat ((4096 :: u64) - of_nat n) = 4096 - n" unfolding e by (rule unat_of_nat_u64) simp
    then show ?thesis using \<open>n + length s \<le> 4096\<close> u by (simp add: word_less_nat_alt not_less)
  qed
  show ?thesis
    using at u z le by (simp add: decode_namespace_field_def fits_iff)
qed

lemma decode_namespace_fields_at:
  assumes "\<forall>p \<in> set parts. length p < 2 ^ 62"
    and "is_draft18_or_later draft \<Longrightarrow> [] \<notin> set parts \<and> n + sum_list (map length parts) \<le> 4096"
  shows "repeatE (length parts)
       (decode_namespace_field (pre @ concat (map (append_string [] draft) parts) @ rest) draft)
       (length pre, acc, of_nat n) =
     Inr (length pre + length (concat (map (append_string [] draft) parts)), acc @ parts,
          of_nat (n + sum_list (map length parts)))"
  using assms
proof (induction parts arbitrary: pre acc n)
  case Nil
  then show ?case by simp
next
  case (Cons s parts)
  let ?e = "append_string [] draft"
  have field: "decode_namespace_field (pre @ ?e s @ concat (map ?e parts) @ rest) draft (length pre, acc, of_nat n) =
      Inr (length pre + length (?e s), acc @ [s], of_nat (n + length s))"
    using Cons.prems by (intro decode_namespace_field_at) auto
  have "repeatE (length parts) (decode_namespace_field ((pre @ ?e s) @ concat (map ?e parts) @ rest) draft)
       (length (pre @ ?e s), acc @ [s], of_nat (n + length s)) =
     Inr (length (pre @ ?e s) + length (concat (map ?e parts)), (acc @ [s]) @ parts,
          of_nat (n + length s + sum_list (map length parts)))"
    using Cons.prems by (intro Cons.IH) auto
  with field show ?case by (simp add: add.assoc)
qed

lemma decode_track_namespace_at [wire_roundtrip]:
  assumes "namespace_ok draft parts"
  shows "decode_track_namespace
       (pre @ (moqint_bytes draft (of_nat (length parts)) @ concat (map (append_string [] draft) parts)) @ rest)
       (length pre) draft =
     Inr (parts, length pre + length (moqint_bytes draft (of_nat (length parts)) @
       concat (map (append_string [] draft) parts)))"
proof -
  have n: "length parts < 2 ^ 62"
    using assms by (simp add: namespace_ok_def string_vector_max_size_def)
  have u: "unat (of_nat (length parts) :: u64) = length parts" using n by simp
  have c: "\<not> (of_nat (length parts) :: u64) > 32" if "is_draft18_or_later draft"
    using that assms u by (simp add: word_less_nat_alt namespace_ok_def)
  have "repeatE (length parts) (decode_namespace_field
       ((pre @ moqint_bytes draft (of_nat (length parts))) @ concat (map (append_string [] draft) parts) @ rest) draft)
       (length (pre @ moqint_bytes draft (of_nat (length parts))), [], of_nat 0) =
     Inr (length (pre @ moqint_bytes draft (of_nat (length parts))) +
          length (concat (map (append_string [] draft) parts)), [] @ parts,
          of_nat (0 + sum_list (map length parts)))"
    using assms by (intro decode_namespace_fields_at) (auto simp: namespace_ok_def)
  with decode_moqint_append [OF moqint_ok_nat [OF n], of pre draft "concat (map (append_string [] draft) parts) @ rest"]
  show ?thesis using assms u c
    by (simp add: decode_track_namespace_def namespace_ok_def add.assoc)
qed

lemma decode_namespace_field_progress:
  "decode_namespace_field bs draft (offset, acc, n) = Inr (offset', acc', n') \<Longrightarrow>
   offset < offset' \<and> offset' \<le> length bs"
  by (auto simp: decode_namespace_field_def fits_iff split: if_splits dest!: decode_moqint_progress)

interpretation namespace_loop: counted_loop "decode_namespace_field bs draft" fst "length bs" for bs draft
  by unfold_locales (auto dest: decode_namespace_field_progress)

lemma repeat_namespace_field_progress:
  "repeatE k (decode_namespace_field bs draft) (offset, acc, n) = Inr (offset', acc', n') \<Longrightarrow>
   offset \<le> length bs \<Longrightarrow> offset + k \<le> offset' \<and> offset' \<le> length bs"
  by (auto dest: namespace_loop.success_consumes namespace_loop.success_within)

lemma decode_track_namespace_progress [wire_progress]:
  assumes "decode_track_namespace bs offset draft = Inr (parts, offset')"
  shows "offset < offset' \<and> offset' \<le> length bs"
  using assms
  by (auto simp: decode_track_namespace_def split: if_splits
      dest!: decode_moqint_progress repeat_namespace_field_progress)

text \<open>What the fields of an accepted namespace satisfy, as an invariant of the field loop.\<close>

lemma decode_namespace_field_inv:
  assumes "decode_namespace_field bs draft (offset, acc, n) = Inr (offset', acc', n')"
    and "is_draft18_or_later draft"
    and "[] \<notin> set acc" "unat n = sum_list (map length acc)" "unat n \<le> 4096"
  shows "[] \<notin> set acc' \<and> unat n' = sum_list (map length acc') \<and> unat n' \<le> 4096 \<and>
    length acc' = Suc (length acc)"
proof -
  obtain len o1 where d: "decode_moqint_impl bs offset draft = Inr (len, o1)"
    and f: "fits o1 (unat len) (length bs)" and z: "len \<noteq> 0" and le: "\<not> len > 4096 - n"
    and r: "acc' = acc @ [of_bytes (slice bs o1 (unat len))]" "n' = n + len"
    using assms(1,2) by (auto simp: decode_namespace_field_def split: if_splits)
  have "unat (4096 - n) = 4096 - unat n"
    using assms(5) by (simp add: unat_sub word_le_nat_alt)
  then have l: "unat len \<le> 4096 - unat n" using le by (simp add: word_less_nat_alt not_less)
  then have "unat (n + len) = unat n + unat len"
    using assms(5) by (simp add: unat_word_ariths)
  moreover have "unat len \<noteq> 0" using z by (simp add: unat_eq_0)
  moreover have "length (slice bs o1 (unat len)) = unat len" using f by simp
  moreover from calculation have "of_bytes (slice bs o1 (unat len)) \<noteq> []"
    by (metis length_of_bytes list.size(3))
  ultimately show ?thesis using assms(3-5) r l by auto
qed

lemma repeat_namespace_field_inv:
  assumes "repeatE k (decode_namespace_field bs draft) (offset, acc, n) = Inr (offset', acc', n')"
    and "is_draft18_or_later draft"
    and "[] \<notin> set acc" "unat n = sum_list (map length acc)" "unat n \<le> 4096"
  shows "[] \<notin> set acc' \<and> unat n' = sum_list (map length acc') \<and> unat n' \<le> 4096 \<and>
    length acc' = length acc + k"
  using assms
proof (induction k arbitrary: offset acc n)
  case (Suc k)
  then obtain o1 a1 n1 where s: "decode_namespace_field bs draft (offset, acc, n) = Inr (o1, a1, n1)"
      and r: "repeatE k (decode_namespace_field bs draft) (o1, a1, n1) = Inr (offset', acc', n')" by auto
  from decode_namespace_field_inv [OF s Suc.prems(2-5)] have i:
    "[] \<notin> set a1 \<and> unat n1 = sum_list (map length a1) \<and> unat n1 \<le> 4096 \<and> length a1 = Suc (length acc)" .
  then show ?case using Suc.IH [OF r Suc.prems(2)] by auto
qed simp

lemma decode_track_namespace_limits:
  assumes "decode_track_namespace bs offset draft = Inr (parts, offset')" and "is_draft18_or_later draft"
  shows "length parts \<le> 32 \<and> [] \<notin> set parts \<and> sum_list (map length parts) \<le> 4096"
proof -
  obtain c o1 o2 n2 where c: "\<not> c > (32 :: u64)"
    and r: "repeatE (unat c) (decode_namespace_field bs draft) (o1, [], 0) = Inr (o2, parts, n2)"
    using assms by (auto simp: decode_track_namespace_def split: if_splits)
  from repeat_namespace_field_inv [OF r assms(2)] c show ?thesis
    by (simp add: word_less_nat_alt not_less)
qed

subsection \<open>Progress of the decoding primitives\<close>

lemma read_control_length_progress [wire_progress]:
  "read_control_length bs offset draft = Inr (n, offset') \<Longrightarrow> offset < offset' \<and> offset' \<le> length bs"
  by (auto simp: read_control_length_def fits_iff split: if_splits dest: decode_moqint_progress)

lemma parse_control_length_bounds [wire_progress]:
  "parse_control_length_message bs draft type = Inr (offset, len) \<Longrightarrow>
   0 < offset \<and> offset + len = length bs"
  by (auto simp: parse_control_length_message_def split: if_splits
      dest!: decode_moqint_progress read_control_length_progress)

lemma parse_varint_length_bounds [wire_progress]:
  assumes "parse_varint_length_message bs draft type = Inr (offset, len)" and "length bs < 2 ^ 64"
  shows "0 < offset \<and> offset + len = length bs"
proof -
  obtain n where o: "0 < offset" "offset \<le> length bs" and l: "len = unat n"
    and s: "of_nat offset + n = (of_nat (length bs) :: u64)"
    using assms(1) by (auto simp: parse_varint_length_message_def split: if_splits
        dest!: decode_moqint_progress)
  have "n = of_nat (length bs) - of_nat offset" using s by (simp add: eq_diff_eq add.commute)
  also have "\<dots> = of_nat (length bs - offset)" using o by (simp add: of_nat_diff)
  finally have "len = length bs - offset" using assms(2) l by simp
  with o show ?thesis by simp
qed

lemma decode_reason_phrase_progress [wire_progress]:
  "decode_reason_phrase bs offset draft = Inr (s, offset') \<Longrightarrow> offset < offset' \<and> offset' \<le> length bs"
  by (auto simp: decode_reason_phrase_def fits_iff split: if_splits dest!: decode_moqint_progress)

lemma decode_parameter_type_progress [wire_progress]:
  "decode_parameter_type bs offset draft prev delta rep = Inr (t, offset') \<Longrightarrow>
   offset < offset' \<and> offset' \<le> length bs"
  by (auto simp: decode_parameter_type_def split: sum.splits if_splits dest!: decode_moqint_progress)

lemma decode_parameter_type_simple_progress [wire_progress]:
  "decode_parameter_type_simple bs offset draft prev delta rep = Inr (t, offset') \<Longrightarrow>
   offset < offset' \<and> offset' \<le> length bs"
  by (auto simp: decode_parameter_type_simple_def split: sum.splits dest!: decode_parameter_type_progress)

lemma decode_numeric_progress [wire_progress]:
  "decode_numeric_message_parameter bs offset draft type = Inr (v, offset') \<Longrightarrow>
   offset < offset' \<and> offset' \<le> length bs"
  by (auto simp: decode_numeric_message_parameter_def Let_def split: if_splits dest!: decode_moqint_progress)

lemma decode_include_properties_progress:
  "decode_include_properties bs offset limit = Some offset' \<Longrightarrow> offset' = Suc offset \<and> offset' \<le> limit"
  by (auto simp: decode_include_properties_def split: if_splits)

lemma decode_paused_progress:
  "decode_paused_as_forward bs offset limit = Some (f, offset') \<Longrightarrow>
   offset' = Suc offset \<and> offset' \<le> limit \<and> f \<le> 1"
  by (auto simp: decode_paused_as_forward_def split: if_splits)

lemma yields_bindE_read_control_length [yields_intro]:
  "(\<And>v offset'. read_control_length bs offset draft = Inr (v, offset') \<Longrightarrow> offset < offset' \<Longrightarrow>
     offset' \<le> length bs \<Longrightarrow> yields (f v offset') P) \<Longrightarrow>
   yields (bindE (read_control_length bs offset draft) (\<lambda>(v, offset'). f v offset')) P"
  by (rule yields_bindE_pair) (auto dest: read_control_length_progress)

lemma yields_bindE_track_namespace [yields_intro]:
  "(\<And>v offset'. decode_track_namespace bs offset draft = Inr (v, offset') \<Longrightarrow> offset < offset' \<Longrightarrow>
     offset' \<le> length bs \<Longrightarrow> yields (f v offset') P) \<Longrightarrow>
   yields (bindE (decode_track_namespace bs offset draft) (\<lambda>(v, offset'). f v offset')) P"
  by (rule yields_bindE_pair) (auto dest: decode_track_namespace_progress)

lemma yields_bindE_reason_phrase [yields_intro]:
  "(\<And>v offset'. decode_reason_phrase bs offset draft = Inr (v, offset') \<Longrightarrow> offset < offset' \<Longrightarrow>
     offset' \<le> length bs \<Longrightarrow> yields (f v offset') P) \<Longrightarrow>
   yields (bindE (decode_reason_phrase bs offset draft) (\<lambda>(v, offset'). f v offset')) P"
  by (rule yields_bindE_pair) (auto dest: decode_reason_phrase_progress)

lemma yields_bindE_numeric_parameter [yields_intro]:
  "(\<And>v offset'. decode_numeric_message_parameter bs offset draft type = Inr (v, offset') \<Longrightarrow> offset < offset' \<Longrightarrow>
     offset' \<le> length bs \<Longrightarrow> yields (f v offset') P) \<Longrightarrow>
   yields (bindE (decode_numeric_message_parameter bs offset draft type) (\<lambda>(v, offset'). f v offset')) P"
  by (rule yields_bindE_pair) (auto dest: decode_numeric_progress)

text \<open>The decoded parameter type never wraps: types grow along a parameter list.\<close>

lemma decode_parameter_type_mono:
  "decode_parameter_type_simple bs offset draft prev True rep = Inr (t, offset') \<Longrightarrow> prev \<le> t"
  by (auto simp: decode_parameter_type_simple_def decode_parameter_type_def intro: add_guarded_le
      split: sum.splits if_splits)

lemma yields_bindE_parameter_type [yields_intro]:
  "(\<And>t offset'. decode_parameter_type_simple bs offset draft prev delta rep = Inr (t, offset') \<Longrightarrow>
     offset < offset' \<Longrightarrow> offset' \<le> length bs \<Longrightarrow> (delta \<Longrightarrow> prev \<le> t) \<Longrightarrow> yields (f t offset') P) \<Longrightarrow>
   yields (bindE (decode_parameter_type_simple bs offset draft prev delta rep)
     (\<lambda>(t, offset'). f t offset')) P"
  by (rule yields_bindE_pair)
    (cases delta; auto dest: decode_parameter_type_simple_progress decode_parameter_type_mono)

subsection \<open>More input does not change what was decoded\<close>

lemma slice_stable: "offset + n \<le> length bs \<Longrightarrow> slice (bs @ zs) offset n = slice bs offset n"
  by (simp add: slice_def)

lemma decode_moqint_stable:
  "decode_moqint_impl bs offset draft = Inr r \<Longrightarrow> decode_moqint_impl (bs @ zs) offset draft = Inr r"
proof -
  have v: "decode_varint_impl bs offset = Inr r \<Longrightarrow> decode_varint_impl (bs @ zs) offset = Inr r"
    by (auto simp: decode_varint_impl_def Let_def fits_iff nth_append slice_stable split: if_splits)
  have w: "decode_vi64_impl bs offset = Inr r \<Longrightarrow> decode_vi64_impl (bs @ zs) offset = Inr r"
    using vi64_form_length [of "bs ! offset"]
    by (auto simp: decode_vi64_impl_def Let_def fits_iff nth_append slice_stable split: if_splits prod.splits)
  show "decode_moqint_impl bs offset draft = Inr r \<Longrightarrow> decode_moqint_impl (bs @ zs) offset draft = Inr r"
    using v w by (auto simp: decode_moqint_impl_def split: if_splits)
qed

lemma bindE_stable:
  "(\<And>x. m = Inr x \<Longrightarrow> m' = Inr x) \<Longrightarrow> (\<And>x. f x = Inr y \<Longrightarrow> g x = Inr y) \<Longrightarrow>
   bindE m f = Inr y \<Longrightarrow> bindE m' g = Inr y"
  by (cases m) auto

lemma read_control_length_stable:
  assumes "read_control_length bs offset draft = Inr r"
  shows "read_control_length (bs @ zs) offset draft = Inr r"
proof (cases "is_draft23_or_later draft")
  case True
  with assms show ?thesis
    unfolding read_control_length_def by (auto intro: bindE_stable decode_moqint_stable)
next
  case False
  with assms show ?thesis
    by (auto simp: read_control_length_def fits_iff nth_append split: if_splits)
qed

lemma uint16_framed_stable: "uint16_framed bs offset = Inr n \<Longrightarrow> uint16_framed (bs @ zs) offset = Inr n"
  by (auto simp: uint16_framed_def Let_def nth_append split: if_splits)

lemma varint_framed_stable:
  "varint_framed bs offset draft = Inr n \<Longrightarrow> varint_framed (bs @ zs) offset draft = Inr n"
  unfolding varint_framed_def
  by (erule bindE_stable [rotated 2]) (auto simp: Let_def decode_moqint_stable split: if_splits)

lemma next_control_message_stable:
  assumes "next_control_message bs draft = Inr n"
  shows "next_control_message (bs @ zs) draft = Inr n"
  using assms unfolding next_control_message_def
proof (rule bindE_stable [rotated 2], goal_cases)
  case (2 x)
  obtain type offset where x: "x = (type, offset)" by fastforce
  show ?case
  proof (cases "is_draft18_or_later draft")
    case True
    with 2 show ?thesis unfolding x
      by (simp only: prod.case if_True)
        (erule bindE_stable [rotated 2], auto simp: fits_iff read_control_length_stable split: if_splits)
  next
    case False
    with 2 show ?thesis unfolding x
      by (simp only: prod.case if_False split: if_split_asm)
        (simp_all add: uint16_framed_stable varint_framed_stable)
  qed
qed (rule decode_moqint_stable)

lemma next_control_message_le: "next_control_message bs draft = Inr n \<Longrightarrow> n \<le> length bs"
  by (auto simp: next_control_message_def uint16_framed_def varint_framed_def Let_def fits_iff
      split: if_splits)

subsection \<open>Framing of what the encoders write\<close>

text \<open>The message types a draft's stream reader frames with the length \<open>append_control_length\<close> writes.\<close>

definition control_framed :: "DraftVersion \<Rightarrow> u64 \<Rightarrow> bool" where
  "control_framed draft type \<longleftrightarrow>
     is_draft18_or_later draft \<or> type \<in> set uint16_framed_types \<or>
     (draft \<noteq> kDraft14 \<and> type \<in> {kPublishType, kPublishOkType, kPublishErrorType}) \<or>
     (draft = kDraft16 \<and> type = kSubscribeNamespaceType)"

lemma control_length_bytes_uint16:
  assumes "n \<le> kDefaultMaxControlMessageSize" "\<not> is_draft23_or_later draft"
  shows "length (control_length_bytes draft n) = 2"
    and "uint16_framed (pre @ control_length_bytes draft n @ payload) (length pre) =
      (if n \<le> length payload then Inr (length pre + 2 + n) else reject)"
proof -
  show l: "length (control_length_bytes draft n) = 2"
    using assms by (simp add: control_length_bytes_def append_control_length_def append_uint16_def)
  have "read_control_length (pre @ control_length_bytes draft n @ payload) (length pre) draft =
      Inr (n, length pre + 2)"
    using read_control_length_at [OF assms(1), of pre draft payload] l by simp
  then show "uint16_framed (pre @ control_length_bytes draft n @ payload) (length pre) =
      (if n \<le> length payload then Inr (length pre + 2 + n) else reject)"
    using assms(2) l by (auto simp: read_control_length_def uint16_framed_def split: if_splits)
qed

lemma next_control_message_frames:
  assumes "length payload \<le> kDefaultMaxControlMessageSize" and "control_framed draft type"
    and "moqint_ok draft type"
  shows "next_control_message (control_message draft type payload @ rest) draft =
     Inr (length (control_message draft type payload))"
proof -
  let ?t = "moqint_bytes draft type" and ?l = "control_length_bytes draft (length payload)"
  have m: "control_message draft type payload = ?t @ ?l @ payload"
    using assms(1) by (rule control_message_eq)
  have d: "decode_moqint_impl (?t @ ?l @ payload @ rest) 0 draft = Inr (type, length ?t)"
    using decode_moqint_append [OF assms(3), of "[]"] by simp
  show ?thesis
  proof (cases "is_draft18_or_later draft")
    case True
    with d read_control_length_at [OF assms(1), of ?t draft "payload @ rest"] show ?thesis
      by (simp add: m next_control_message_def fits_iff)
  next
    case False
    then have u: "\<not> is_draft23_or_later draft" by (auto simp: draft_predicates)
    have "next_control_message (control_message draft type payload @ rest) draft =
        uint16_framed (?t @ ?l @ payload @ rest) (length ?t)"
      using False assms(2) d
      by (auto simp: next_control_message_def m control_framed_def uint16_framed_types_def message_types)
    then show ?thesis
      using control_length_bytes_uint16 [OF assms(1) u] by (simp add: m)
  qed
qed

lemma parse_control_message:
  assumes "length payload \<le> kDefaultMaxControlMessageSize" and "moqint_ok draft type"
  shows "parse_control_length_message (control_message draft type payload) draft type =
     Inr (length (control_message draft type payload) - length payload, length payload)"
proof -
  let ?t = "moqint_bytes draft type" and ?l = "control_length_bytes draft (length payload)"
  have "decode_moqint_impl (?t @ ?l @ payload) 0 draft = Inr (type, length ?t)"
    using decode_moqint_append [OF assms(2), of "[]"] by simp
  with read_control_length_at [OF assms(1), of ?t draft payload] show ?thesis
    by (simp add: control_message_eq assms(1) parse_control_length_message_def fits_iff)
qed

lemma decode_varint_le_max:
  assumes "decode_varint_impl bs offset = Inr (v, offset')"
  shows "v \<le> kMaxQuicVarintValue"
proof -
  obtain k where "k < 4" and v: "unat v < 2 ^ (6 + 8 * (2 ^ k - 1))"
    using decode_varint_value [OF assms] by auto
  then consider "k = 0" | "k = 1" | "k = 2" | "k = 3" by linarith
  then have "unat v < 2 ^ 62" using v by cases simp_all
  then show ?thesis by (simp add: kMaxQuicVarintValue_def word_le_nat_alt)
qed

lemma varint_framed_pos:
  assumes "varint_framed bs offset draft = Inr n" "\<not> uses_moq_vi64 draft" "length bs < 2 ^ 62"
  shows "offset < n"
proof -
  obtain v o1 where d: "decode_varint_impl bs offset = Inr (v, o1)"
    and n: "n = unat (of_nat o1 + v :: u64)"
    using assms(1,2) by (auto simp: varint_framed_def decode_moqint_impl_def Let_def split: if_splits)
  have o: "offset < o1" "o1 \<le> length bs" using decode_varint_impl_progress [OF d] by auto
  have "unat v < 2 ^ 62" using decode_varint_le_max [OF d]
    by (simp add: kMaxQuicVarintValue_def word_le_nat_alt)
  then have "n = o1 + unat v" using o assms(3) by (simp add: n unat_word_ariths unat_of_nat)
  with o show ?thesis by simp
qed

lemma next_control_message_pos:
  assumes n: "next_control_message bs draft = Inr n" and d: "draft \<noteq> kDraft17" and l: "length bs < 2 ^ 62"
  shows "0 < n"
proof -
  obtain type offset where t: "decode_moqint_impl bs 0 draft = Inr (type, offset)"
    and r: "(if is_draft18_or_later draft then
       bindE (read_control_length bs offset draft) (\<lambda>(len, offset).
         if \<not> fits offset len (length bs) then reject else Inr (offset + len))
     else if type \<in> set uint16_framed_types then uint16_framed bs offset
     else if type \<in> {kPublishType, kPublishOkType, kPublishErrorType} then
       (if draft = kDraft14 then varint_framed bs offset draft else uint16_framed bs offset)
     else if type \<in> {kSubscribeNamespaceOkType, 0x13, 0x1b} then varint_framed bs offset draft
     else if type = kSubscribeNamespaceType then
       (if draft = kDraft16 then uint16_framed bs offset else varint_framed bs offset draft)
     else reject) = Inr n"
    using n unfolding next_control_message_def by (auto simp del: if_split_asm)
  have o: "0 < offset" using decode_moqint_progress [OF t] by simp
  have u: "uint16_framed bs offset = Inr n \<Longrightarrow> 0 < n"
    by (auto simp: uint16_framed_def Let_def split: if_splits)
  have v: "varint_framed bs offset draft = Inr n \<Longrightarrow> 0 < n" if "\<not> is_draft18_or_later draft"
    using varint_framed_pos [of bs offset draft n] that d l by (auto simp: uses_moq_vi64_def)
  show ?thesis
  proof (cases "is_draft18_or_later draft")
    case True
    with r o show ?thesis by (auto split: if_splits dest!: read_control_length_progress)
  next
    case False
    from r show ?thesis
      by (simp only: False if_False split: if_split_asm) (use u v False in simp_all)
  qed
qed

lemma decode_moqint_not_raised: "decode_moqint_impl bs offset draft \<noteq> Inl (Raised e)"
  by (auto simp: decode_moqint_impl_def decode_varint_impl_def decode_vi64_impl_def Let_def
      split: prod.splits)

lemma repeat_namespace_field_not_raised:
  "repeatE k (decode_namespace_field bs draft) s \<noteq> Inl (Raised e)"
proof (induction k arbitrary: s)
  case (Suc k)
  have "decode_namespace_field bs draft t \<noteq> Inl (Raised e)" for t
    using decode_moqint_not_raised
    by (auto simp: decode_namespace_field_def bindE_eq_Inl reject_noting_def split: prod.splits if_splits)
  with Suc show ?case by (auto simp: bindE_eq_Inl)
qed simp

lemma decode_track_namespace_raises:
  "decode_track_namespace bs offset draft = Inl (Raised e) \<Longrightarrow> e = Length_Error \<and> \<not> is_draft18_or_later draft"
proof -
  assume a: "decode_track_namespace bs offset draft = Inl (Raised e)"
  then obtain c o1 where c: "decode_moqint_impl bs offset draft = Inr (c, o1)"
    using decode_moqint_not_raised [of bs offset draft e]
    by (auto simp: decode_track_namespace_def bindE_eq_Inl)
  have r: "bindE (repeatE (unat c) (decode_namespace_field bs draft) (o1, [], 0))
      (\<lambda>(offset, track_namespace, _). Inr (track_namespace, offset)) \<noteq> Inl (Raised e)"
    by (simp add: bindE_eq_Inl repeat_namespace_field_not_raised split: prod.splits)
  with a c have "unat c > string_vector_max_size" and e: "e = Length_Error"
    and n: "\<not> (is_draft18_or_later draft \<and> c > 32)"
    by (simp_all add: decode_track_namespace_def reject_noting_def split: if_splits)
  moreover have "\<not> c > 32 \<Longrightarrow> unat c \<le> 32" by (simp add: word_less_nat_alt)
  ultimately show ?thesis by (auto simp: string_vector_max_size_def)
qed

subsection \<open>Namespace strings\<close>

definition join_slash :: "string list \<Rightarrow> string" where
  "join_slash parts = concat (map (\<lambda>p. CHR 0x2F # p) parts)"

lemma split_loop_Nil [simp]: "split_loop [] = []"
  by (simp add: split_loop.simps)

lemma split_loop_step:
  assumes "CHR 0x2F \<notin> set p"
  shows "split_loop (p @ CHR 0x2F # s) = (if p = [] then [] else [p]) @ split_loop s"
    and "split_loop p = (if p = [] then [] else [p])"
proof -
  have a: "takeWhile (\<lambda>c. c \<noteq> CHR 0x2F) p = p" "dropWhile (\<lambda>c. c \<noteq> CHR 0x2F) p = []"
    using assms by (auto simp: takeWhile_eq_all_conv dropWhile_eq_Nil_conv)
  have b: "takeWhile (\<lambda>c. c \<noteq> CHR 0x2F) (p @ CHR 0x2F # s) = p"
    "dropWhile (\<lambda>c. c \<noteq> CHR 0x2F) (p @ CHR 0x2F # s) = CHR 0x2F # s"
    using assms by (induction p) auto
  show "split_loop (p @ CHR 0x2F # s) = (if p = [] then [] else [p]) @ split_loop s"
    by (subst split_loop.simps) (simp add: Let_def b)
  show "split_loop p = (if p = [] then [] else [p])"
    by (subst split_loop.simps) (simp add: Let_def a)
qed

lemma split_loop_join:
  "\<forall>p \<in> set parts. p \<noteq> [] \<and> CHR 0x2F \<notin> set p \<Longrightarrow> CHR 0x2F \<notin> set q \<Longrightarrow>
   split_loop (q @ join_slash parts) = (if q = [] then [] else [q]) @ parts"
proof (induction parts arbitrary: q)
  case Nil
  then show ?case by (simp add: join_slash_def split_loop_step)
next
  case (Cons p parts)
  have "q @ join_slash (p # parts) = q @ CHR 0x2F # (p @ join_slash parts)"
    by (simp add: join_slash_def)
  then show ?case using Cons by (simp add: split_loop_step)
qed

lemma split_loop_parts: "p \<in> set (split_loop s) \<Longrightarrow> p \<noteq> [] \<and> CHR 0x2F \<notin> set p"
proof (induction s rule: split_loop.induct)
  case (1 s)
  then show ?case
    by (subst (asm) (2) split_loop.simps) (auto simp: Let_def dest: set_takeWhileD split: if_splits)
qed

subsection \<open>Properties\<close>

text \<open>The equations that evaluate the primitives on concrete bytes.\<close>

lemmas moqint_eval =
  decode_moqint_impl_def decode_vi64_impl_def decode_varint_impl_def vi64_form_def fits_def slice_def
  be_accum_def uses_moq_vi64_def draft_predicates Let_def

lemmas moqint_bytes_eval =
  moqint_bytes_def put_moqint_def append_moqint_def append_varint_def append_vi64_def byte_of_def
  uses_moq_vi64_def draft_predicates kMaxQuicVarintValue_def

lemmas control_message_eval =
  control_message_def append_control_length_def append_uint16_def kDefaultMaxControlMessageSize_def
  moqint_bytes_eval

text \<open>C22: The stream reader cuts exactly at the end of a control message of at most 65535 bytes of payload
  that \<open>control_message\<close> framed, whatever follows it in the buffer, and the message parser accepts that
  message and finds its payload. This is for the types the reader frames by the length that
  \<open>control_message\<close> writes (\<open>control_framed\<close>): every type from draft 18 on; before that the types it lists as
  framed by 16 bits, PUBLISH and its answers except on draft 14, and SUBSCRIBE_NAMESPACE on draft 16, but not the types it
  frames by a variable-length integer.\<close>

theorem control_message_framing:
  assumes "length payload \<le> kDefaultMaxControlMessageSize" and "control_framed draft type"
    and "moqint_ok draft type"
  shows "next_control_message (control_message draft type payload @ rest) draft =
       Inr (length (control_message draft type payload)) \<and>
     parse_control_length_message (control_message draft type payload) draft type =
       Inr (length (control_message draft type payload) - length payload, length payload)"
  using assms next_control_message_frames parse_control_message by blast

theorem control_message_framing_witness:
  "next_control_message ([0x03, 0, 2, 9, 9] @ [0x15]) kDraft16 = Inr 5"
proof -
  have m: "control_message kDraft16 0x03 [9, 9] = [0x03, 0, 2, 9, 9]"
    by (simp add: control_message_eval)
  have "control_framed kDraft16 0x03"
    by (simp add: control_framed_def uint16_framed_types_def message_types)
  from control_message_framing [OF _ this, of "[9, 9]" "[0x15]"] m show ?thesis
    by (simp add: kDefaultMaxControlMessageSize_def moqint_ok_def kMaxQuicVarintValue_def)
qed

text \<open>C8: A cut never depends on bytes that have not arrived: once \<open>next_control_message\<close> finds a
  message in a buffer, it finds the same one after any more bytes are appended, and the message lies
  inside the buffer.\<close>

theorem next_control_message_incremental:
  assumes "next_control_message bs draft = Inr n"
  shows "next_control_message (bs @ zs) draft = Inr n \<and> n \<le> length bs"
  using assms next_control_message_stable next_control_message_le by blast

theorem next_control_message_incremental_witness:
  "next_control_message ([0x15, 0, 1, 5] @ [0x15, 0]) kDraft16 = Inr 4"
proof -
  have "next_control_message [0x15, 0, 1, 5] kDraft16 = Inr 4"
    by (simp add: next_control_message_def moqint_eval uint16_framed_types_def message_types uint16_framed_def)
  from next_control_message_incremental [OF this, of "[0x15, 0]"] show ?thesis by simp
qed

text \<open>C24: On every draft but 17 a message reported in a buffer of fewer than \<open>2\<^sup>6\<^sup>2\<close> bytes is never empty, so a
  loop that removes it from the buffer makes progress.\<close>

theorem next_control_message_progress:
  assumes "next_control_message bs draft = Inr n" and "draft \<noteq> kDraft17" and "length bs < 2 ^ 62"
  shows "0 < n"
  using assms by (rule next_control_message_pos)

theorem next_control_message_progress_witness:
  "\<exists>n. next_control_message [0x15, 0, 1, 5] kDraft16 = Inr n \<and> 0 < n"
proof -
  have "next_control_message [0x15, 0, 1, 5] kDraft16 = Inr 4"
    by (simp add: next_control_message_def moqint_eval uint16_framed_types_def message_types uint16_framed_def)
  moreover from next_control_message_progress [OF this] have "0 < (4 :: nat)" by simp
  ultimately show ?thesis by blast
qed

text \<open>On draft 17 the addition of a peer's 64-bit length wraps: a ten-byte buffer with message
  type 0x12 and a length of 2^64 - 10 is reported as a complete message of no bytes.\<close>

theorem next_control_message_draft17_wraps:
  "next_control_message [0x12, 0xff, 0xff, 0xff, 0xff, 0xff, 0xff, 0xff, 0xff, 0xf6] kDraft17 = Inr 0"
proof -
  let ?bs = "[0x12, 0xff, 0xff, 0xff, 0xff, 0xff, 0xff, 0xff, 0xff, 0xf6] :: bytes"
  have t: "decode_moqint_impl ?bs 0 kDraft17 = Inr (0x12, 1)" by (simp add: moqint_eval)
  have l: "decode_moqint_impl ?bs (Suc 0) kDraft17 = Inr (0xfffffffffffffff6, 10)" by (simp add: moqint_eval)
  have n: "0x12 \<notin> set uint16_framed_types" by (simp add: uint16_framed_types_def message_types)
  show ?thesis
    by (simp add: next_control_message_def t n) (simp add: varint_framed_def l draft_predicates Let_def message_types)
qed

text \<open>C23: Decoding the namespace tuple that \<open>append_track_namespace\<close> wrote returns the parts of the
  namespace string, for every draft whose limits the namespace meets.\<close>

theorem track_namespace_roundtrip:
  assumes "namespace_ok draft (split_track_namespace ns)"
  shows "decode_track_namespace (pre @ append_track_namespace [] draft ns @ rest) (length pre) draft =
     Inr (split_track_namespace ns, length pre + length (append_track_namespace [] draft ns))"
  using decode_track_namespace_at [OF assms, of pre rest] by (simp add: append_track_namespace_eq)

theorem track_namespace_roundtrip_witness:
  "decode_track_namespace ([] @ append_track_namespace [] kDraft18 ''live/cam'' @ []) 0 kDraft18 =
     Inr ([''live'', ''cam''], 10)"
proof -
  have s: "split_track_namespace ''live/cam'' = [''live'', ''cam'']"
    using split_loop_join [of "[''cam'']" "''live''"] by (simp add: split_track_namespace_def join_slash_def)
  have ok: "namespace_ok kDraft18 (split_track_namespace ''live/cam'')"
    by (simp add: s namespace_ok_def string_vector_max_size_def)
  have len: "length (append_track_namespace [] kDraft18 ''live/cam'') = 10"
    by (simp add: append_track_namespace_eq s append_string_def moqint_bytes_eval)
  from track_namespace_roundtrip [OF ok, of "[]" "[]"] show ?thesis by (simp only: s len) simp
qed

text \<open>A namespace that a draft-18 or later decoder accepts has at most 32 fields, none of them
  empty, and at most 4096 bytes, and every offset the decoder returns lies within the span.\<close>

theorem track_namespace_limits:
  assumes "decode_track_namespace bs offset draft = Inr (parts, offset')" and "is_draft18_or_later draft"
  shows "length parts \<le> 32 \<and> [] \<notin> set parts \<and> sum_list (map length parts) \<le> 4096 \<and>
    offset < offset' \<and> offset' \<le> length bs"
  using decode_track_namespace_limits [OF assms] decode_track_namespace_progress [OF assms(1)] by simp

theorem track_namespace_limits_witness:
  "[] \<notin> set [''a''] \<and> (0 :: nat) < 3"
proof -
  have "decode_track_namespace [1, 1, 97] 0 kDraft22 = Inr ([''a''], 3)"
    by (simp add: decode_track_namespace_def decode_namespace_field_def moqint_eval string_vector_max_size_def
        of_bytes_def char_of_def bit_iff_odd)
  from track_namespace_limits [OF this] show ?thesis by (simp add: draft_predicates)
qed

text \<open>Drafts 18 and later bound the entry count before the vector is reserved, so decoding a
  namespace never throws there.\<close>

theorem track_namespace_no_exception:
  assumes "is_draft18_or_later draft"
  shows "decode_track_namespace bs offset draft \<noteq> Inl (Raised e)"
  using decode_track_namespace_raises assms by blast

theorem track_namespace_no_exception_witness:
  "decode_track_namespace (replicate 8 0xff) 0 kDraft18 \<noteq> Inl (Raised Length_Error)"
  by (rule track_namespace_no_exception) (simp add: draft_predicates)

text \<open>Before draft 18 the peer's entry count goes to \<open>reserve\<close> unchecked: on draft 16 eight
  bytes that encode the count 2^62 - 1 make the decoder throw \<open>std::length_error\<close>.\<close>

theorem track_namespace_draft16_throws:
  "decode_track_namespace [0xff, 0xff, 0xff, 0xff, 0xff, 0xff, 0xff, 0xff] 0 kDraft16 =
     Inl (Raised Length_Error)"
  by (simp add: decode_track_namespace_def moqint_eval string_vector_max_size_def)

text \<open>Splitting a namespace string undoes joining its fields with slashes: for fields that are not
  empty and contain no slash the split returns exactly those fields.\<close>

theorem split_track_namespace_join:
  assumes "\<forall>f \<in> set (f0 # fs). f \<noteq> [] \<and> CHR 0x2F \<notin> set f"
  shows "split_track_namespace (f0 @ join_slash fs) = f0 # fs"
  using split_loop_join [of fs f0] assms by (simp add: split_track_namespace_def)

theorem split_track_namespace_join_witness:
  "split_track_namespace (''live'' @ join_slash [''cam'', ''hd'']) = [''live'', ''cam'', ''hd'']"
  by (rule split_track_namespace_join) simp

end
