(* ===== verification/Control_Encode.thy ===== *)
theory Control_Encode
  imports Control_Framing
begin

text \<open>
  The control message encoders of \<open>src/transport/moqt_control_messages.cpp\<close> and the message
  structures they read (\<open>include/openmoq/publisher/transport/moqt_control_messages.h\<close>). An encoder
  returns the bytes of the message, or no bytes when the payload exceeds the control message limit.
\<close>

subsection \<open>Messages\<close>

datatype TransportKind = kRawQuic | kWebTransport

record SetupMessage =
  setup_draft :: DraftVersion
  setup_transport :: TransportKind
  setup_authority :: string
  setup_path :: string
  setup_max_request_id :: u64
  setup_authorization_token :: "bytes option"
  setup_dpop_proof :: "bytes option"
  setup_implementation :: "string option"

record ServerSetupMessage =
  server_draft :: DraftVersion
  server_max_request_id :: u64
  server_max_control_message_size :: u64
  unsupported_server_option_error_code :: "u64 option"
  server_malformed_authorization_token :: bool

record NamespaceMessage =
  ns_draft :: DraftVersion
  ns_track_namespace :: string
  ns_request_id :: u64
  ns_authorization_token :: "bytes option"
  ns_dpop_proof :: "bytes option"

record TrackMessage =
  track_draft :: DraftVersion
  track_name :: string
  track_namespace :: string
  track_request_id :: u64
  track_alias :: u64
  track_largest_group_id :: u64
  track_largest_object_id :: u64
  track_content_exists :: bool
  track_authorization_token :: "bytes option"
  track_dpop_proof :: "bytes option"
  track_subscribe_tracks_request_id :: "u64 option"

subsection \<open>Authorization parameters\<close>

definition carries_dpop_proof :: "bytes option \<Rightarrow> bytes option \<Rightarrow> bool" where
  "carries_dpop_proof authorization_token dpop_proof \<longleftrightarrow>
     authorization_token \<noteq> None \<and> dpop_proof \<noteq> None"

text \<open>
  \<open>append_authorization_parameters\<close>, called only where the message has a token: the credential, then
  its proof as a repeated AUTHORIZATION TOKEN.
\<close>

definition append_authorization_parameters ::
    "bytes \<Rightarrow> DraftVersion \<Rightarrow> bytes \<Rightarrow> bytes option \<Rightarrow> bytes" where
  "append_authorization_parameters payload draft token dpop_proof =
     (let payload = append_parameter payload draft kParamAuthorizationToken token in
      case dpop_proof of
        None \<Rightarrow> payload
      | Some proof \<Rightarrow>
          if draft = kDraft14 then append_parameter payload draft kParamAuthorizationToken proof
          else fst (append_parameter_delta payload draft kParamAuthorizationToken
                      kParamAuthorizationToken proof))"

subsection \<open>SETUP\<close>

text \<open>
  The optional parts of SETUP, as (payload, previous type) steps: \<open>put\<close> is the delta-typed append
  of the draft.
\<close>

definition append_setup_token ::
    "(bytes \<Rightarrow> DraftVersion \<Rightarrow> u64 \<Rightarrow> u64 \<Rightarrow> bytes \<Rightarrow> bytes \<times> u64) \<Rightarrow> SetupMessage \<Rightarrow>
     bytes \<times> u64 \<Rightarrow> bytes \<times> u64" where
  "append_setup_token put message = (\<lambda>(payload, previous).
     case setup_authorization_token message of
       None \<Rightarrow> (payload, previous)
     | Some token \<Rightarrow>
         let (payload, previous) =
               put payload (setup_draft message) previous kParamAuthorizationToken token in
         (case setup_dpop_proof message of
            None \<Rightarrow> (payload, previous)
          | Some proof \<Rightarrow>
              put payload (setup_draft message) previous kParamAuthorizationToken proof))"

definition append_setup_implementation ::
    "(bytes \<Rightarrow> DraftVersion \<Rightarrow> u64 \<Rightarrow> u64 \<Rightarrow> bytes \<Rightarrow> bytes \<times> u64) \<Rightarrow> SetupMessage \<Rightarrow>
     bytes \<times> u64 \<Rightarrow> bytes \<times> u64" where
  "append_setup_implementation put message = (\<lambda>(payload, previous).
     case setup_implementation message of
       None \<Rightarrow> (payload, previous)
     | Some name \<Rightarrow>
         put payload (setup_draft message) previous kSetupParamImplementation (to_bytes name))"

text \<open>Drafts 17 and later: delta-typed options to the end of the message.\<close>

definition vi64_setup_payload :: "SetupMessage \<Rightarrow> bytes" where
  "vi64_setup_payload message =
     (let draft = setup_draft message; put = append_setup_option_delta in
      if setup_transport message = kRawQuic then
        let s = put [] draft 0 kSetupParamPath (to_bytes (setup_path message));
            s = append_setup_token put message s;
            s = put (fst s) draft (snd s) kSetupParamAuthority (to_bytes (setup_authority message))
        in fst (append_setup_implementation put message s)
      else
        fst (append_setup_implementation put message (append_setup_token put message ([], 0))))"

text \<open>Drafts 14 and 16: a version list on draft 14, then counted parameters.\<close>

definition setup_parameter_count :: "SetupMessage \<Rightarrow> u64" where
  "setup_parameter_count message =
     (let n = (if setup_transport message = kRawQuic then 3 else 1);
          n = (if setup_authorization_token message \<noteq> None
               then (if carries_dpop_proof (setup_authorization_token message) (setup_dpop_proof message)
                     then n + 2 else n + 1)
               else n)
      in if setup_implementation message \<noteq> None then n + 1 else n)"

definition draft16_setup_parameters :: "SetupMessage \<Rightarrow> bytes \<Rightarrow> bytes" where
  "draft16_setup_parameters message payload =
     (let draft = setup_draft message; put = append_parameter_delta;
          raw = (setup_transport message = kRawQuic);
          max_request_id = put_moqint draft (setup_max_request_id message) [];
          s = (payload, 0);
          s = (if raw then put (fst s) draft (snd s) kSetupParamPath (to_bytes (setup_path message)) else s);
          s = put (fst s) draft (snd s) kSetupParamMaxRequestId max_request_id;
          s = append_setup_token put message s;
          s = (if raw then put (fst s) draft (snd s) kSetupParamAuthority (to_bytes (setup_authority message))
               else s)
      in fst (append_setup_implementation put message s))"

definition draft14_setup_parameters :: "SetupMessage \<Rightarrow> bytes \<Rightarrow> bytes" where
  "draft14_setup_parameters message payload =
     (let draft = setup_draft message; put = (\<lambda>out d _ type value. (append_parameter out d type value, 0));
          max_request_id = put_moqint draft (setup_max_request_id message) [];
          payload = (if setup_transport message = kRawQuic
            then append_parameter
                   (append_parameter payload draft kSetupParamAuthority (to_bytes (setup_authority message)))
                   draft kSetupParamPath (to_bytes (setup_path message))
            else payload);
          payload = append_parameter payload draft kSetupParamMaxRequestId max_request_id
      in fst (append_setup_implementation put message (append_setup_token put message (payload, 0))))"

definition encode_setup_message :: "SetupMessage \<Rightarrow> bytes" where
  "encode_setup_message message =
     (let draft = setup_draft message in
      if uses_moq_vi64 draft then control_message draft kSetupType (vi64_setup_payload message)
      else
        let payload = (if draft = kDraft14
              then put_moqint draft (draft_version_number draft) (put_moqint draft 1 []) else []);
            payload = put_moqint draft (setup_parameter_count message) payload;
            payload = (if draft = kDraft16 then draft16_setup_parameters message payload
                       else draft14_setup_parameters message payload)
        in control_message draft kClientSetupType payload)"

definition encode_server_setup_message :: "ServerSetupMessage \<Rightarrow> bytes" where
  "encode_server_setup_message message =
     (let draft = server_draft message in
      if uses_moq_vi64 draft then
        snd (append_control_length (put_moqint draft kSetupType []) draft 0)
      else
        let payload = (if draft = kDraft14 then put_moqint draft (draft_version_number draft) [] else []);
            payload = put_moqint draft 1 payload;
            max_request_id = put_moqint draft (server_max_request_id message) [];
            payload = (if draft = kDraft16
              then fst (append_parameter_delta payload draft 0 kSetupParamMaxRequestId max_request_id)
              else append_parameter payload draft kSetupParamMaxRequestId max_request_id)
        in control_message draft kServerSetupType payload)"

subsection \<open>Namespaces and requests\<close>

definition encode_namespace_message :: "NamespaceMessage \<Rightarrow> bytes" where
  "encode_namespace_message message =
     (let draft = ns_draft message;
          payload = put_moqint draft (ns_request_id message) [];
          payload = (if draft = kDraft17 then put_moqint draft 0 payload else payload);
          payload = append_track_namespace payload draft (ns_track_namespace message);
          payload = (case ns_authorization_token message of
              None \<Rightarrow> put_moqint draft 0 payload
            | Some token \<Rightarrow>
                append_authorization_parameters
                  (put_moqint draft
                    (if carries_dpop_proof (ns_authorization_token message) (ns_dpop_proof message)
                     then 2 else 1) payload)
                  draft token (ns_dpop_proof message))
      in control_message draft kPublishNamespaceType payload)"

text \<open>\<open>namespace_length\<close> is the running total the loop subtracts from 4096.\<close>

fun append_namespace_suffix :: "DraftVersion \<Rightarrow> string list \<Rightarrow> nat \<Rightarrow> bytes \<Rightarrow> bytes option" where
  "append_namespace_suffix draft [] namespace_length payload = Some payload"
| "append_namespace_suffix draft (field # suffix) namespace_length payload =
     (if field = [] \<or> length field > 4096 - namespace_length then None
      else append_namespace_suffix draft suffix (namespace_length + length field)
             (append_string payload draft field))"

definition encode_namespace_notification :: "DraftVersion \<Rightarrow> string list \<Rightarrow> bytes" where
  "encode_namespace_notification draft suffix =
     (if \<not> is_draft22_or_later draft \<or> length suffix > 32 then []
      else case append_namespace_suffix draft suffix 0 (put_moqint draft (of_nat (length suffix)) []) of
        None \<Rightarrow> []
      | Some payload \<Rightarrow>
          control_message draft 0x08
            (if is_draft23_or_later draft then put_moqint draft 0 payload else payload))"

definition request_id_prefix :: "DraftVersion \<Rightarrow> u64 \<Rightarrow> bytes" where
  "request_id_prefix draft request_id =
     (if \<not> uses_moq_vi64 draft then put_moqint draft request_id [] else [])"

definition encode_request_ok_message :: "DraftVersion \<Rightarrow> u64 \<Rightarrow> bytes" where
  "encode_request_ok_message draft request_id =
     control_message draft kRequestOkType (put_moqint draft 0 (request_id_prefix draft request_id))"

text \<open>The overload that reports LARGEST_OBJECT.\<close>

definition encode_request_ok_largest :: "DraftVersion \<Rightarrow> u64 \<Rightarrow> u64 \<Rightarrow> u64 \<Rightarrow> bytes" where
  "encode_request_ok_largest draft request_id largest_group_id largest_object_id =
     (let payload = put_moqint draft 1 (request_id_prefix draft request_id)
      in control_message draft kRequestOkType
           (fst (append_largest_object_parameter payload draft 0 largest_group_id largest_object_id)))"

definition encode_subscribe_namespace_ok_message :: "DraftVersion \<Rightarrow> u64 \<Rightarrow> bytes" where
  "encode_subscribe_namespace_ok_message draft request_id =
     (if draft = kDraft16 \<or> is_draft18_or_later draft then encode_request_ok_message draft request_id
      else let payload = put_moqint draft request_id [] in
        put_moqint draft (of_nat (length payload)) (put_moqint draft kSubscribeNamespaceOkType []) @
        payload)"

definition encode_subscribe_ok_message ::
    "DraftVersion \<Rightarrow> u64 \<Rightarrow> u64 \<Rightarrow> u64 \<Rightarrow> u64 \<Rightarrow> bool \<Rightarrow> bytes" where
  "encode_subscribe_ok_message draft request_id alias largest_group_id largest_object_id content_exists =
     (let payload = put_moqint draft alias (request_id_prefix draft request_id) in
      control_message draft kSubscribeOkType
        (if draft = kDraft14 then
           let payload = put_moqint draft 0 payload @ [1, if content_exists then 1 else 0];
               payload = (if content_exists
                 then append_location payload draft largest_group_id largest_object_id else payload)
           in put_moqint draft 0 payload
         else
           let (parameters, parameter_count) =
                 (if content_exists
                  then (fst (append_largest_object_parameter [] draft 0 largest_group_id largest_object_id), 1)
                  else ([], 0))
           in put_moqint draft parameter_count payload @ parameters))"

definition encode_fetch_ok_message :: "DraftVersion \<Rightarrow> bool \<Rightarrow> u64 \<Rightarrow> u64 \<Rightarrow> bytes" where
  "encode_fetch_ok_message draft end_of_track end_group_id end_object_id =
     control_message draft 0x18
       (put_moqint draft 0
          (append_location [if end_of_track then 1 else 0] draft end_group_id end_object_id))"

text \<open>The two encoders that call \<open>append_varint\<close> directly do so on the draft-16 form.\<close>

definition encode_subscribe_error_message :: "u64 \<Rightarrow> u64 \<Rightarrow> string \<Rightarrow> bytes" where
  "encode_subscribe_error_message request_id error_code reason =
     (let payload = snd (append_varint [] request_id);
          payload = snd (append_varint payload error_code);
          payload = append_string payload kDraft16 reason
      in case append_control_length (snd (append_varint [] kSubscribeErrorType)) kDraft16 (length payload)
         of (ok, out) \<Rightarrow> if ok then out @ payload else [])"

definition encode_request_error_message ::
    "DraftVersion \<Rightarrow> u64 \<Rightarrow> u64 \<Rightarrow> u64 \<Rightarrow> string \<Rightarrow> bytes" where
  "encode_request_error_message draft request_id error_code retry_interval reason =
     (if draft = kDraft14 then encode_subscribe_error_message request_id error_code reason
      else
        let payload = put_moqint draft error_code (request_id_prefix draft request_id);
            payload = put_moqint draft retry_interval payload
        in control_message draft kRequestErrorType (append_string payload draft reason))"

definition encode_track_message :: "TrackMessage \<Rightarrow> bytes" where
  "encode_track_message message =
     (let draft = track_draft message;
          payload = put_moqint draft (track_request_id message) [];
          payload = (if draft = kDraft17 then put_moqint draft 0 payload else payload);
          payload = append_track_namespace payload draft (track_namespace message);
          payload = append_string payload draft (track_name message);
          payload = put_moqint draft (track_alias message) payload;
          payload = (if draft = kDraft14 then
              let payload = payload @ [1, if track_content_exists message then 1 else 0];
                  payload = (if track_content_exists message
                    then append_location payload draft (track_largest_group_id message)
                           (track_largest_object_id message)
                    else payload)
              in payload @ [1]
            else payload);
          carries_subscribe_tracks_id =
            (is_draft23_or_later draft \<and> track_subscribe_tracks_request_id message \<noteq> None);
          parameter_count =
            (if track_authorization_token message \<noteq> None
             then (if carries_dpop_proof (track_authorization_token message) (track_dpop_proof message)
                   then 2 else 1) else 0) +
            (if carries_subscribe_tracks_id then 1 else 0);
          payload = put_moqint draft parameter_count payload;
          payload = (case track_authorization_token message of
              None \<Rightarrow> payload
            | Some token \<Rightarrow> append_authorization_parameters payload draft token (track_dpop_proof message));
          payload = (case track_subscribe_tracks_request_id message of
              Some tracks_id \<Rightarrow>
                if carries_subscribe_tracks_id then
                  let kParamSubscribeTracksId = 0x36;
                      previous_type = (if track_authorization_token message \<noteq> None
                                       then kParamAuthorizationToken else 0)
                  in put_moqint draft tracks_id (put_moqint draft (kParamSubscribeTracksId - previous_type) payload)
                else payload
            | None \<Rightarrow> payload)
      in if draft = kDraft14 then
           put_moqint draft (of_nat (length payload)) (put_moqint draft kPublishType []) @ payload
         else control_message draft kPublishType payload)"

definition encode_publish_done_message :: "DraftVersion \<Rightarrow> u64 \<Rightarrow> u64 \<Rightarrow> u64 \<Rightarrow> string \<Rightarrow> bytes" where
  "encode_publish_done_message draft request_id stream_count status_code reason =
     (let payload = put_moqint draft status_code (request_id_prefix draft request_id);
          payload = put_moqint draft stream_count payload
      in control_message draft kPublishDoneType (append_string payload draft reason))"

definition encode_publish_namespace_done_message :: "NamespaceMessage \<Rightarrow> bytes" where
  "encode_publish_namespace_done_message message =
     (let draft = ns_draft message;
          payload = (if draft = kDraft14 then append_track_namespace [] draft (ns_track_namespace message)
            else if \<not> uses_moq_vi64 draft then put_moqint draft (ns_request_id message) []
            else append_track_namespace [] draft (ns_track_namespace message))
      in control_message draft
           (if uses_moq_vi64 draft then kNamespaceDoneType else kPublishNamespaceDoneType) payload)"

subsection \<open>Fetch streams\<close>

definition encode_fetch_header :: "DraftVersion \<Rightarrow> u64 \<Rightarrow> bytes" where
  "encode_fetch_header draft request_id = put_moqint draft request_id (put_moqint draft 0x05 [])"

definition encode_fetch_object :: "DraftVersion \<Rightarrow> u64 \<Rightarrow> u64 \<Rightarrow> u8 \<Rightarrow> bytes \<Rightarrow> bytes" where
  "encode_fetch_object draft group_id object_id publisher_priority payload =
     (let kFlags = 0x04 OR 0x08 OR 0x10;
          out = put_moqint draft kFlags [];
          out = put_moqint draft group_id out;
          out = put_moqint draft object_id out @ [publisher_priority]
      in put_moqint draft (of_nat (length payload)) out @ payload)"

end
