(* ===== verification/Control_Decode.thy ===== *)
theory Control_Decode
  imports Control_Encode
begin

text \<open>
  The decoders of \<open>src/transport/moqt_control_messages.cpp\<close> for SETUP, MAX_REQUEST_ID, GOAWAY,
  REQUEST_OK, REQUEST_ERROR, SUBSCRIBE_NAMESPACE and the publish responses, and the datagram check.
  A decoder that updates a caller's message takes the message and returns the updated one. Loops over a
  parameter count are \<open>repeatE\<close>; loops that run to the end of a span are recursive functions whose
  termination is the progress of the integer decoder.
\<close>

subsection \<open>Messages\<close>

record GoawayMessage =
  new_session_uri :: string
  goaway_timeout_ms :: u64

record RequestError =
  err_request_id :: u64
  err_error_code :: u64
  err_retry_interval :: u64
  err_reason :: string
  err_redirect_has_track_name :: bool

record PublishNamespaceError =
  ns_err_request_id :: u64
  ns_err_error_code :: u64
  ns_err_reason :: string

record SubscribeNamespaceMessage =
  sns_request_id :: u64
  sns_track_namespace_prefix :: "string list"
  sns_malformed_authorization_token :: bool
  sns_authorization_token_cache_overflow :: bool
  sns_unknown_authorization_token_alias :: bool

subsection \<open>SETUP\<close>

definition known_setup_option :: "DraftVersion \<Rightarrow> u64 \<Rightarrow> bool" where
  "known_setup_option message_draft option_type \<longleftrightarrow>
     option_type = kSetupParamPath \<or> option_type = kSetupParamMaxRequestId \<or>
     option_type = kParamAuthorizationToken \<or> option_type = 0x04 \<or>
     option_type = kSetupParamAuthority \<or> option_type = 0x07 \<or>
     (is_draft21_or_later message_draft \<and> (option_type = 0x06 \<or> option_type = 0x08)) \<or>
     (is_draft23_or_later message_draft \<and> option_type = kSetupParamMaxControlMessageSize)"

text \<open>One setup option; the state is the offset, the previous option type and the message.\<close>

definition decode_setup_option ::
    "bytes \<Rightarrow> nat \<Rightarrow> DraftVersion \<Rightarrow> DraftVersion \<Rightarrow> nat \<Rightarrow> u64 \<Rightarrow> ServerSetupMessage \<Rightarrow>
     (nat \<times> u64 \<times> ServerSetupMessage) decoded" where
  "decode_setup_option payload_bytes payload_end expected_draft message_draft offset previous_option_type
     message =
     bindE (decode_moqint_impl payload_bytes offset message_draft) (\<lambda>(option_type_delta, offset).
     if option_type_delta > - 1 - previous_option_type then
       reject_noting message_draft kFaultDeltaEncodingOverflow
     else
     let option_type = previous_option_type + option_type_delta in
     if option_type_delta = 0 \<and> known_setup_option message_draft option_type \<and>
        option_type \<noteq> kParamAuthorizationToken then reject
     else
     let message =
       (if is_draft18_or_later expected_draft \<and> option_type = kSetupParamPath then
          message\<lparr>unsupported_server_option_error_code := Some 0x08\<rparr>
        else if is_draft18_or_later expected_draft \<and> option_type = kSetupParamAuthority then
          message\<lparr>unsupported_server_option_error_code := Some 0x19\<rparr>
        else message) in
     if option_type AND 1 = 0 then
       bindE (decode_moqint_impl payload_bytes offset message_draft) (\<lambda>(option_value, offset).
       Inr (offset, option_type, message))
     else
       bindE (decode_moqint_impl payload_bytes offset message_draft) (\<lambda>(option_length, offset).
       if unat option_length > payload_end - offset then reject
       else
       let option_end = offset + unat option_length;
           message =
             (if is_draft18_or_later expected_draft \<and> option_type = kParamAuthorizationToken \<and>
                 \<not> fst (valid_authorization_token payload_bytes offset option_end message_draft)
              then message\<lparr>server_malformed_authorization_token := True\<rparr> else message) in
       if is_draft23_or_later message_draft \<and> option_type = kSetupParamMaxControlMessageSize then
         (case decode_moqint_impl (take option_end payload_bytes) offset message_draft of
            Inl _ \<Rightarrow> reject_noting message_draft kFaultMalformedKeyValue
          | Inr (option_value, value_offset) \<Rightarrow>
              if value_offset \<noteq> option_end \<or> unat option_value < kDefaultMaxControlMessageSize then
                reject_noting message_draft kFaultMalformedKeyValue
              else Inr (option_end, option_type, message\<lparr>server_max_control_message_size := option_value\<rparr>))
       else Inr (option_end, option_type, message)))"

lemma decode_setup_option_yields:
  "yields (decode_setup_option bs payload_end e d offset prev m) (\<lambda>(offset', _). offset < offset')"
  unfolding decode_setup_option_def by (intro yields_intro) simp_all

lemma decode_setup_option_progress:
  "decode_setup_option bs payload_end e d offset prev m = Inr (offset', prev', m') \<Longrightarrow> offset < offset'"
  using decode_setup_option_yields by (fastforce dest: yieldsD)

function decode_setup_options ::
    "bytes \<Rightarrow> nat \<Rightarrow> DraftVersion \<Rightarrow> DraftVersion \<Rightarrow> nat \<Rightarrow> u64 \<Rightarrow> ServerSetupMessage \<Rightarrow>
     (nat \<times> ServerSetupMessage) decoded" where
  "decode_setup_options bs payload_end expected_draft message_draft offset previous message =
     (if offset < payload_end then
        (case decode_setup_option bs payload_end expected_draft message_draft offset previous message of
           Inl f \<Rightarrow> Inl f
         | Inr (offset', previous', message') \<Rightarrow>
             decode_setup_options bs payload_end expected_draft message_draft offset' previous' message')
      else Inr (offset, message))"
  by pat_completeness auto
termination
  by (relation "measure (\<lambda>(bs, payload_end, e, d, offset, p, m). payload_end - offset)")
    (auto dest!: decode_setup_option_progress)

declare decode_setup_options.simps [simp del]

text \<open>One parameter of a version-negotiating SERVER_SETUP.\<close>

definition decode_server_setup_parameter ::
    "bytes \<Rightarrow> nat \<Rightarrow> nat \<times> u64 \<times> ServerSetupMessage \<Rightarrow> (nat \<times> u64 \<times> ServerSetupMessage) decoded" where
  "decode_server_setup_parameter payload_bytes payload_end = (\<lambda>(offset, previous_type, message).
     let draft = server_draft message in
     bindE (decode_parameter_type_simple payload_bytes offset draft previous_type (draft = kDraft16) None)
       (\<lambda>(parameter_type, offset).
     if parameter_type AND 1 = 0 then
       bindE (decode_moqint_impl payload_bytes offset draft) (\<lambda>(value, offset).
       Inr (offset, parameter_type,
            if parameter_type = kSetupParamMaxRequestId then message\<lparr>server_max_request_id := value\<rparr>
            else message))
     else
       bindE (decode_moqint_impl payload_bytes offset draft) (\<lambda>(parameter_length, offset).
       if \<not> fits offset (unat parameter_length) payload_end then reject
       else Inr (offset + unat parameter_length, parameter_type, message))))"

text \<open>The message type, read as a QUIC varint or, failing that, as a vi64.\<close>

definition decode_server_setup_type :: "bytes \<Rightarrow> (u64 \<times> nat) decoded" where
  "decode_server_setup_type bs =
     (let setup = (\<lambda>t. t = kServerSetupType \<or> t = kSetupType);
          retry = bindE (decode_vi64_impl bs 0) (\<lambda>(message_type, offset).
                    if setup message_type then Inr (message_type, offset) else reject) in
      case decode_varint_impl bs 0 of
        Inr (message_type, offset) \<Rightarrow> if setup message_type then Inr (message_type, offset) else retry
      | Inl _ \<Rightarrow> retry)"

definition decode_server_setup_message_for_draft ::
    "bytes \<Rightarrow> DraftVersion \<Rightarrow> ServerSetupMessage \<Rightarrow> ServerSetupMessage decoded" where
  "decode_server_setup_message_for_draft bs expected_draft message =
     bindE (decode_server_setup_type bs) (\<lambda>(message_type, offset).
     let message_draft =
       (if message_type = kSetupType
        then (if is_draft18_or_later expected_draft then expected_draft else kDraft18) else kDraft16) in
     bindE (read_control_length bs offset message_draft) (\<lambda>(payload_length, offset).
     if \<not> fits offset payload_length (length bs) then reject
     else
     let payload_end = offset + payload_length; payload_bytes = take payload_end bs in
     if payload_end = offset \<and> message_type \<noteq> kSetupType then reject
     else if message_type = kSetupType then
       bindE (decode_setup_options payload_bytes payload_end expected_draft message_draft offset 0
                (message\<lparr>server_draft := kDraft18\<rparr>)) (\<lambda>(offset, message).
       if offset = payload_end then Inr message else reject)
     else
       bindE (if (bs ! offset) AND 0xc0 = 0xc0 then
                bindE (decode_varint_impl payload_bytes offset) (\<lambda>(selected_version, offset).
                if selected_version = kDraft14Version then Inr (message\<lparr>server_draft := kDraft14\<rparr>, offset)
                else if selected_version = kDraft16Version then Inr (message\<lparr>server_draft := kDraft16\<rparr>, offset)
                else reject)
              else Inr (message\<lparr>server_draft := kDraft16\<rparr>, offset)) (\<lambda>(message, offset).
       bindE (decode_moqint_impl payload_bytes offset (server_draft message)) (\<lambda>(parameter_count, offset).
       bindE (repeatE (unat parameter_count) (decode_server_setup_parameter payload_bytes payload_end)
                (offset, 0, message)) (\<lambda>(offset, _, message).
       if offset = payload_end then Inr message else reject)))))"

definition decode_server_setup_message :: "bytes \<Rightarrow> ServerSetupMessage \<Rightarrow> ServerSetupMessage decoded" where
  "decode_server_setup_message bs message = decode_server_setup_message_for_draft bs kDraft18 message"

definition decode_setup_response_message ::
    "bytes \<Rightarrow> DraftVersion \<Rightarrow> ServerSetupMessage \<Rightarrow> ServerSetupMessage decoded" where
  "decode_setup_response_message bs expected_draft message =
     bindE (decode_moqint_impl bs 0 expected_draft) (\<lambda>(message_type, offset).
     if message_type \<noteq> (if uses_moq_vi64 expected_draft then kSetupType else kServerSetupType) then reject
     else
     bindE (decode_server_setup_message_for_draft bs expected_draft message) (\<lambda>message.
     let message = (if uses_moq_vi64 expected_draft \<and> is_draft18_or_later (server_draft message)
                    then message\<lparr>server_draft := expected_draft\<rparr> else message) in
     if server_draft message = expected_draft then Inr message else reject))"

subsection \<open>MAX_REQUEST_ID and GOAWAY\<close>

definition decode_max_request_id_message :: "bytes \<Rightarrow> u64 decoded" where
  "decode_max_request_id_message bs =
     bindE (parse_control_length_message bs kDraft16 kMaxRequestIdType) (\<lambda>(payload_offset, payload_length).
     bindE (decode_moqint_impl bs payload_offset kDraft16) (\<lambda>(max_request_id, offset).
     if offset = payload_offset + payload_length then Inr max_request_id else reject))"

definition decode_goaway_message :: "bytes \<Rightarrow> DraftVersion \<Rightarrow> GoawayMessage decoded" where
  "decode_goaway_message bs draft =
     (if \<not> is_draft22_or_later draft then reject
      else
      bindE (parse_control_length_message bs draft 0x10) (\<lambda>(offset, _).
      bindE (decode_moqint_impl bs offset draft) (\<lambda>(uri_length, offset).
      if uri_length > 8192 then reject_noting draft kFaultFieldLengthExceeded
      else if \<not> fits offset (unat uri_length) (length bs) then reject
      else
      let uri = of_bytes (slice bs offset (unat uri_length)); offset = offset + unat uri_length in
      bindE (decode_moqint_impl bs offset draft) (\<lambda>(timeout_ms, offset).
      if offset \<noteq> length bs then reject
      else Inr \<lparr>new_session_uri = uri, goaway_timeout_ms = timeout_ms\<rparr>))))"

subsection \<open>REQUEST_OK\<close>

definition decode_publish_namespace_ok :: "bytes \<Rightarrow> u64 decoded" where
  "decode_publish_namespace_ok bs =
     bindE (parse_control_length_message bs kDraft16 kPublishNamespaceOkType)
       (\<lambda>(payload_offset, payload_length).
     bindE (decode_varint_impl bs payload_offset) (\<lambda>(request_id, offset).
     if offset = payload_offset + payload_length then Inr request_id else reject))"

definition decode_request_ok_parameter ::
    "bytes \<Rightarrow> nat \<Rightarrow> DraftVersion \<Rightarrow> nat \<times> u64 \<Rightarrow> (nat \<times> u64) decoded" where
  "decode_request_ok_parameter bs payload_end draft = (\<lambda>(offset, previous_parameter_type).
     bindE (decode_parameter_type_simple bs offset draft previous_parameter_type True None)
       (\<lambda>(parameter_type, offset).
     if parameter_type AND 1 = 0 then
       bindE (decode_numeric_message_parameter bs offset draft parameter_type) (\<lambda>(_, offset).
       Inr (offset, parameter_type))
     else if uses_moq_vi64 draft \<and> parameter_type = 0x09 then
       bindE (decode_moqint_impl (take payload_end bs) offset draft) (\<lambda>(group_id, offset).
       bindE (decode_moqint_impl (take payload_end bs) offset draft) (\<lambda>(object_id, offset).
       Inr (offset, parameter_type)))
     else
       bindE (decode_moqint_impl bs offset draft) (\<lambda>(parameter_length, offset).
       if \<not> fits offset (unat parameter_length) payload_end then reject
       else Inr (offset + unat parameter_length, parameter_type))))"

definition decode_request_ok :: "bytes \<Rightarrow> DraftVersion \<Rightarrow> u64 decoded" where
  "decode_request_ok bs draft =
     (if draft = kDraft14 then decode_publish_namespace_ok bs
      else
      bindE (parse_control_length_message bs draft kRequestOkType) (\<lambda>(payload_offset, payload_length).
      let payload_end = payload_offset + payload_length in
      bindE (if \<not> uses_moq_vi64 draft then decode_moqint_impl bs payload_offset draft
             else Inr (0, payload_offset)) (\<lambda>(request_id, offset).
      bindE (decode_moqint_impl bs offset draft) (\<lambda>(parameter_count, offset).
      bindE (repeatE (unat parameter_count) (decode_request_ok_parameter bs payload_end draft) (offset, 0))
        (\<lambda>(offset, _).
      if is_draft21_or_later draft then
        (if offset = payload_end then Inr request_id else reject_noting draft kFaultInvalidField)
      else if offset \<le> payload_end then Inr request_id else reject)))))"

subsection \<open>REQUEST_ERROR\<close>

text \<open>\<open>decode_redirect\<close>: the offset past the redirect and whether it has a Track Name.\<close>

definition decode_redirect :: "bytes \<Rightarrow> nat \<Rightarrow> nat \<Rightarrow> DraftVersion \<Rightarrow> bool \<Rightarrow> (nat \<times> bool) decoded" where
  "decode_redirect bs offset limit draft require_empty_track_name =
     (let scope = take limit bs in
      bindE (decode_moqint_impl scope offset draft) (\<lambda>(connect_uri_length, offset).
      if \<not> fits offset (unat connect_uri_length) limit then reject
      else
      bindE (decode_track_namespace scope (offset + unat connect_uri_length) draft) (\<lambda>(_, offset).
      bindE (decode_moqint_impl scope offset draft) (\<lambda>(track_name_length, offset).
      if \<not> fits offset (unat track_name_length) limit then reject
      else if require_empty_track_name \<and> track_name_length \<noteq> 0 then reject
      else Inr (offset + unat track_name_length, track_name_length \<noteq> 0)))))"

text \<open>One Error Detail: offset, type, whether a redirect was seen and whether it names a track.\<close>

definition decode_error_detail ::
    "bytes \<Rightarrow> nat \<Rightarrow> DraftVersion \<Rightarrow> nat \<Rightarrow> u64 \<Rightarrow> bool \<Rightarrow> bool \<Rightarrow> (nat \<times> u64 \<times> bool \<times> bool) decoded" where
  "decode_error_detail bs limit draft offset type has_redirect has_track_name =
     (let scope = take limit bs in
      bindE (decode_moqint_impl scope offset draft) (\<lambda>(delta, offset).
      if delta > - 1 - type then reject
      else
      let type = type + delta in
      if type AND 1 = 0 then
        bindE (decode_moqint_impl scope offset draft) (\<lambda>(value, offset).
        Inr (offset, type, has_redirect, has_track_name))
      else
        bindE (decode_moqint_impl scope offset draft) (\<lambda>(len, offset).
        if len > 65535 \<or> \<not> fits offset (unat len) limit then reject
        else
        let value_end = offset + unat len in
        if type = 0x01 then
          (if has_redirect then reject
           else bindE (decode_redirect bs offset value_end draft False) (\<lambda>(offset, names_track).
             if offset \<noteq> value_end then reject else Inr (value_end, type, True, names_track)))
        else Inr (value_end, type, has_redirect, has_track_name))))"

lemma decode_redirect_progress:
  "yields (decode_redirect bs offset limit draft e) (\<lambda>(offset', _). offset < offset' \<and> offset' \<le> limit)"
  unfolding decode_redirect_def by (intro yields_intro) (simp_all add: fits_iff)

lemma decode_error_detail_yields:
  "yields (decode_error_detail bs limit draft offset type r t) (\<lambda>(offset', _). offset < offset')"
  unfolding decode_error_detail_def
  by (intro yields_intro yields_bindE_any) (simp_all add: fits_iff)

lemma decode_error_detail_progress:
  "decode_error_detail bs limit draft offset type r t = Inr (offset', type', r', t') \<Longrightarrow> offset < offset'"
  using decode_error_detail_yields by (fastforce dest: yieldsD)

function decode_error_details ::
    "bytes \<Rightarrow> nat \<Rightarrow> DraftVersion \<Rightarrow> nat \<Rightarrow> u64 \<Rightarrow> bool \<Rightarrow> bool \<Rightarrow> (nat \<times> bool \<times> bool) decoded" where
  "decode_error_details bs limit draft offset type has_redirect has_track_name =
     (if offset < limit then
        (case decode_error_detail bs limit draft offset type has_redirect has_track_name of
           Inl f \<Rightarrow> Inl f
         | Inr (offset', type', has_redirect', has_track_name') \<Rightarrow>
             decode_error_details bs limit draft offset' type' has_redirect' has_track_name')
      else Inr (offset, has_redirect, has_track_name))"
  by pat_completeness auto
termination
  by (relation "measure (\<lambda>(bs, limit, d, offset, t, r, n). limit - offset)")
    (auto dest!: decode_error_detail_progress)

declare decode_error_details.simps [simp del]

definition decode_request_error_details ::
    "bytes \<Rightarrow> nat \<Rightarrow> nat \<Rightarrow> DraftVersion \<Rightarrow> u64 \<Rightarrow> (nat \<times> bool) decoded" where
  "decode_request_error_details bs offset limit draft error_code =
     bindE (decode_error_details bs limit draft offset 0 False False)
       (\<lambda>(offset, has_redirect, has_track_name).
     if error_code = 0x34 \<and> \<not> has_redirect then reject_noting draft kFaultMalformedMessage
     else Inr (offset, has_track_name))"

definition decode_publish_namespace_error :: "bytes \<Rightarrow> PublishNamespaceError decoded" where
  "decode_publish_namespace_error bs =
     bindE (parse_control_length_message bs kDraft16 kPublishNamespaceErrorType)
       (\<lambda>(payload_offset, payload_length).
     bindE (decode_varint_impl bs payload_offset) (\<lambda>(request_id, offset).
     bindE (decode_varint_impl bs offset) (\<lambda>(error_code, offset).
     bindE (decode_reason_phrase (take (payload_offset + payload_length) bs) offset kDraft16)
       (\<lambda>(reason, offset).
     if offset = payload_offset + payload_length
     then Inr \<lparr>ns_err_request_id = request_id, ns_err_error_code = error_code, ns_err_reason = reason\<rparr>
     else reject))))"

definition decode_request_error :: "bytes \<Rightarrow> DraftVersion \<Rightarrow> RequestError decoded" where
  "decode_request_error bs draft =
     (if draft = kDraft14 then
        bindE (decode_publish_namespace_error bs) (\<lambda>e.
        Inr \<lparr>err_request_id = ns_err_request_id e, err_error_code = ns_err_error_code e,
             err_retry_interval = 0, err_reason = ns_err_reason e, err_redirect_has_track_name = False\<rparr>)
      else
      bindE (parse_control_length_message bs draft kRequestErrorType) (\<lambda>(payload_offset, payload_length).
      let payload_end = payload_offset + payload_length in
      bindE (if draft = kDraft16 \<or> \<not> uses_moq_vi64 draft then decode_moqint_impl bs payload_offset draft
             else Inr (0, payload_offset)) (\<lambda>(request_id, offset).
      bindE (decode_moqint_impl bs offset draft) (\<lambda>(error_code, offset).
      bindE (decode_moqint_impl bs offset draft) (\<lambda>(retry_interval, offset).
      bindE (decode_reason_phrase (take payload_end bs) offset draft) (\<lambda>(reason, offset).
      let result = (\<lambda>redirect_has_track_name.
        \<lparr>err_request_id = request_id, err_error_code = error_code, err_retry_interval = retry_interval,
         err_reason = reason, err_redirect_has_track_name = redirect_has_track_name\<rparr>) in
      if draft = kDraft16 then (if offset = payload_end then Inr (result False) else reject)
      else if is_draft21_or_later draft \<and> length reason > 1024 then reject
      else if is_draft23_or_later draft then
        bindE (decode_request_error_details bs offset payload_end draft error_code) (\<lambda>(_, names_track).
        Inr (result names_track))
      else if offset = payload_end then Inr (result False)
      else
        bindE (decode_redirect bs offset payload_end draft (is_draft18_or_later draft)) (\<lambda>(offset, _).
        if offset = payload_end then Inr (result False) else reject)))))))"

subsection \<open>SUBSCRIBE_NAMESPACE\<close>

definition note_namespace_token :: "DraftVersion \<Rightarrow> bool \<times> bool \<times> bool \<Rightarrow>
    SubscribeNamespaceMessage \<Rightarrow> SubscribeNamespaceMessage" where
  "note_namespace_token draft token message =
     (case token of (valid, is_register, uses_alias) \<Rightarrow>
        if \<not> valid then message\<lparr>sns_malformed_authorization_token := True\<rparr>
        else message\<lparr>
          sns_unknown_authorization_token_alias :=
            sns_unknown_authorization_token_alias message \<or> (is_draft18_or_later draft \<and> uses_alias),
          sns_authorization_token_cache_overflow :=
            sns_authorization_token_cache_overflow message \<or> (is_draft18_or_later draft \<and> is_register)\<rparr>)"

definition decode_subscribe_namespace_parameter ::
    "bytes \<Rightarrow> nat \<Rightarrow> DraftVersion \<Rightarrow> nat \<times> u64 \<times> SubscribeNamespaceMessage \<Rightarrow>
     (nat \<times> u64 \<times> SubscribeNamespaceMessage) decoded" where
  "decode_subscribe_namespace_parameter bs payload_end draft = (\<lambda>(offset, previous_parameter_type, message).
     bindE (decode_parameter_type_simple bs offset draft previous_parameter_type True None)
       (\<lambda>(parameter_type, offset).
     if parameter_type AND 1 = 0 then
       bindE (decode_numeric_message_parameter bs offset draft parameter_type) (\<lambda>(value, offset).
       if draft = kDraft16 \<and> parameter_type = kParamForward \<and> value > 1 then reject
       else if draft = kDraft16 \<and> parameter_type \<noteq> kParamForward then reject
       else Inr (offset, parameter_type, message))
     else
       bindE (decode_moqint_impl bs offset draft) (\<lambda>(parameter_length, offset).
       if \<not> fits offset (unat parameter_length) payload_end then reject
       else if draft = kDraft16 \<and> parameter_type \<noteq> 0x03 then reject
       else Inr (offset + unat parameter_length, parameter_type,
         if parameter_type = kParamAuthorizationToken
         then note_namespace_token draft
                (valid_authorization_token bs offset (offset + unat parameter_length) draft) message
         else message))))"

definition decode_subscribe_namespace_message ::
    "bytes \<Rightarrow> DraftVersion \<Rightarrow> SubscribeNamespaceMessage \<Rightarrow> SubscribeNamespaceMessage decoded" where
  "decode_subscribe_namespace_message bs draft message =
     (let message_type = (if is_draft18_or_later draft then kSubscribeNamespaceTypeDraft18
                          else kSubscribeNamespaceType) in
      bindE (if draft = kDraft14 then parse_varint_length_message bs draft message_type
             else parse_control_length_message bs draft message_type) (\<lambda>(payload_offset, payload_length).
      let payload_end = payload_offset + payload_length in
      bindE (decode_moqint_impl bs payload_offset draft) (\<lambda>(request_id, offset).
      bindE (if draft = kDraft17 then
               bindE (decode_moqint_impl bs offset draft) (\<lambda>(required_request_id_delta, offset).
               if required_request_id_delta * 2 > request_id then reject else Inr offset)
             else Inr offset) (\<lambda>offset.
      bindE (decode_track_namespace (take payload_end bs) offset draft) (\<lambda>(prefix, offset).
      bindE (if draft = kDraft16 then
               bindE (decode_moqint_impl bs offset draft) (\<lambda>(subscribe_options, offset).
               if subscribe_options > 2 then reject else Inr offset)
             else Inr offset) (\<lambda>offset.
      bindE (decode_moqint_impl bs offset draft) (\<lambda>(parameters, offset).
      bindE (repeatE (unat parameters) (decode_subscribe_namespace_parameter bs payload_end draft)
               (offset, 0, message\<lparr>sns_request_id := request_id, sns_track_namespace_prefix := prefix\<rparr>))
        (\<lambda>(offset, _, message).
      if offset = payload_end then Inr message else reject))))))))"

subsection \<open>PUBLISH_ERROR\<close>

definition decode_publish_error :: "bytes \<Rightarrow> DraftVersion \<Rightarrow> PublishNamespaceError decoded" where
  "decode_publish_error bs draft =
     bindE (parse_publish_family_message bs draft kPublishErrorType) (\<lambda>(payload_offset, payload_length).
     if \<not> fits payload_offset payload_length (length bs) then reject
     else
     let payload_end = payload_offset + payload_length in
     bindE (decode_varint_impl bs payload_offset) (\<lambda>(request_id, offset).
     bindE (decode_varint_impl bs offset) (\<lambda>(error_code, offset).
     bindE (decode_reason_phrase (take payload_end bs) offset draft) (\<lambda>(reason, offset).
     if offset = payload_end
     then Inr \<lparr>ns_err_request_id = request_id, ns_err_error_code = error_code, ns_err_reason = reason\<rparr>
     else reject))))"

subsection \<open>Datagrams\<close>

definition validate_datagram_property ::
    "bytes \<Rightarrow> DraftVersion \<Rightarrow> nat \<Rightarrow> u64 \<Rightarrow> (nat \<times> u64) decoded" where
  "validate_datagram_property bs draft offset previous_type =
     bindE (decode_moqint_impl bs offset draft) (\<lambda>(type, offset).
     if draft \<noteq> kDraft14 \<and> type > - 1 - previous_type then reject
     else
     let (type, previous_type) =
           (if draft \<noteq> kDraft14 then (type + previous_type, type + previous_type) else (type, previous_type)) in
     bindE (decode_moqint_impl bs offset draft) (\<lambda>(value, offset).
     if type AND 1 \<noteq> 0 then
       (if value > 65535 \<or> \<not> fits offset (unat value) (length bs) then reject
        else Inr (offset + unat value, previous_type))
     else Inr (offset, previous_type)))"

lemma validate_datagram_property_progress:
  "validate_datagram_property bs draft offset prev = Inr (offset', prev') \<Longrightarrow> offset < offset'"
  by (auto simp: validate_datagram_property_def Let_def split: if_splits prod.splits
      dest!: decode_moqint_progress)

function validate_datagram_properties_from :: "bytes \<Rightarrow> DraftVersion \<Rightarrow> nat \<Rightarrow> u64 \<Rightarrow> bool" where
  "validate_datagram_properties_from bs draft offset previous_type =
     (if offset < length bs then
        (case validate_datagram_property bs draft offset previous_type of
           Inl _ \<Rightarrow> False
         | Inr (offset', previous_type') \<Rightarrow>
             validate_datagram_properties_from bs draft offset' previous_type')
      else True)"
  by pat_completeness auto
termination
  by (relation "measure (\<lambda>(bs, d, offset, p). length bs - offset)")
    (auto dest!: validate_datagram_property_progress)

declare validate_datagram_properties_from.simps [simp del]

definition validate_datagram_properties :: "bytes \<Rightarrow> DraftVersion \<Rightarrow> bool" where
  "validate_datagram_properties bs draft = validate_datagram_properties_from bs draft 0 0"

text \<open>
  \<open>validate_publisher_datagram\<close>, in two parts: the type, and the fields the type announces. The
  result carries the fault of a rejected datagram.
\<close>

definition valid_datagram_type :: "DraftVersion \<Rightarrow> u64 \<Rightarrow> bool" where
  "valid_datagram_type draft type \<longleftrightarrow>
     (if draft = kDraft14 then type \<le> 7 \<or> type = 0x20 \<or> type = 0x21
      else type AND NOT 0x2f = 0 \<and> type AND 0x22 \<noteq> 0x22)"

definition fail_with :: "DraftVersion \<Rightarrow> u64 \<Rightarrow> 'b decoded \<Rightarrow> 'b decoded" where
  "fail_with draft code m = (case m of Inl _ \<Rightarrow> reject_noting draft code | Inr r \<Rightarrow> Inr r)"

definition validate_datagram_status :: "bytes \<Rightarrow> DraftVersion \<Rightarrow> u64 \<Rightarrow> nat \<Rightarrow> unit decoded" where
  "validate_datagram_status bs draft type offset =
     (let legacy = (draft = kDraft14) in
      bindE (fail_with draft kFaultMalformedObject (decode_moqint_impl bs offset draft)) (\<lambda>(status, offset).
      if offset \<noteq> length bs then reject_noting draft kFaultMalformedObject
      else if status \<noteq> 0 \<and> status \<noteq> 3 \<and> status \<noteq> 4 \<and> \<not> (legacy \<and> status = 1) then
        reject_noting draft kFaultInvalidObjectStatus
      else if type AND 1 \<noteq> 0 \<and> status \<noteq> 0 \<and> (\<not> legacy \<or> status = 1) then
        reject_noting draft kFaultInvalidObjectStatus
      else Inr ()))"

definition validate_datagram_fields :: "bytes \<Rightarrow> DraftVersion \<Rightarrow> u64 \<Rightarrow> nat \<Rightarrow> unit decoded" where
  "validate_datagram_fields bs draft type offset =
     (let legacy = (draft = kDraft14);
          field = (\<lambda>offset. fail_with draft kFaultMalformedObject (decode_moqint_impl bs offset draft)) in
      bindE (field offset) (\<lambda>(_, offset).
      bindE (field offset) (\<lambda>(_, offset).
      bindE (if type AND 4 = 0 then field offset else Inr (0, offset)) (\<lambda>(_, offset).
      if (legacy \<or> type AND 8 = 0) \<and> offset = length bs then reject_noting draft kFaultMalformedObject
      else
      let offset = (if legacy \<or> type AND 8 = 0 then offset + 1 else offset) in
      bindE (if type AND 1 \<noteq> 0 then
               bindE (field offset) (\<lambda>(len, offset).
               if len = 0 \<or> \<not> fits offset (unat len) (length bs) \<or>
                  \<not> validate_datagram_properties (slice bs offset (unat len)) draft
               then reject_noting draft kFaultMalformedObject
               else Inr (offset + unat len))
             else Inr offset) (\<lambda>offset.
      if type AND 0x20 \<noteq> 0 then validate_datagram_status bs draft type offset else Inr ())))))"

definition validate_publisher_datagram :: "bytes \<Rightarrow> DraftVersion \<Rightarrow> unit decoded" where
  "validate_publisher_datagram bs draft =
     bindE (fail_with draft kFaultMalformedObject
              (if is_draft21_or_later draft then decode_vi64_impl bs 0 else decode_varint_impl bs 0))
       (\<lambda>(type, offset).
     if is_draft18_or_later draft \<and> type = 0x132B3E29 then Inr ()
     else if \<not> valid_datagram_type draft type then reject_noting draft kFaultInvalidStreamHeader
     else validate_datagram_fields bs draft type offset)"

subsection \<open>Counted parameter loops\<close>

lemma decode_request_ok_parameter_bounds:
  "yields (decode_request_ok_parameter bs (length bs) draft (offset, prev))
     (\<lambda>(offset', _). offset < offset' \<and> offset' \<le> length bs)"
  unfolding decode_request_ok_parameter_def
  by (simp only: prod.case, intro yields_intro) (auto simp: fits_iff)

lemma decode_subscribe_namespace_parameter_bounds:
  "yields (decode_subscribe_namespace_parameter bs (length bs) draft (offset, prev, m))
     (\<lambda>(offset', _). offset < offset' \<and> offset' \<le> length bs)"
  unfolding decode_subscribe_namespace_parameter_def
  by (simp only: prod.case, intro yields_intro) (auto simp: fits_iff)

lemma decode_server_setup_parameter_bounds:
  "yields (decode_server_setup_parameter bs (length bs) (offset, prev, m))
     (\<lambda>(offset', _). offset < offset' \<and> offset' \<le> length bs)"
  unfolding decode_server_setup_parameter_def
  by (simp only: prod.case Let_def, intro yields_intro) (auto simp: fits_iff)

interpretation request_ok_loop: counted_loop "decode_request_ok_parameter bs (length bs) draft" fst "length bs"
  for bs draft
  by unfold_locales (auto dest: yieldsD [OF decode_request_ok_parameter_bounds])

interpretation subscribe_namespace_loop:
  counted_loop "decode_subscribe_namespace_parameter bs (length bs) draft" fst "length bs" for bs draft
  by unfold_locales (auto dest: yieldsD [OF decode_subscribe_namespace_parameter_bounds])

interpretation server_setup_loop: counted_loop "decode_server_setup_parameter bs (length bs)" fst "length bs" for bs
  by unfold_locales (auto dest: yieldsD [OF decode_server_setup_parameter_bounds])

end
