(* ===== verification/Control_Roundtrip.thy ===== *)
theory Control_Roundtrip
  imports Control_Decode
begin

text \<open>
  The encoders of \<open>Control_Encode\<close> against the decoders of \<open>Control_Decode\<close>: what the publisher
  writes is what a peer running the same code reads, message by message.
\<close>

subsection \<open>Reading in the middle of a message\<close>

lemma decode_string_drop:
  assumes "drop offset bs = append_string [] draft s @ rest" and "offset \<le> length bs"
    and "length s < 2 ^ 62" and "is_draft23_or_later draft \<Longrightarrow> length s \<le> 1024"
  shows "decode_reason_phrase bs offset draft = Inr (s, offset + length (append_string [] draft s))"
proof -
  have a: "append_string [] draft s = moqint_bytes draft (of_nat (length s)) @ to_bytes s"
    by (simp add: append_string_def wire_append)
  have d: "decode_moqint_impl bs offset draft =
      Inr (of_nat (length s), offset + length (moqint_bytes draft (of_nat (length s))))"
    using assms(1-3) by (intro decode_moqint_drop moqint_ok_nat) (auto simp: a)
  have "length bs = offset + length (append_string [] draft s) + length rest"
    using arg_cong [OF assms(1), of length] assms(2) by simp
  moreover have "slice bs (offset + length (moqint_bytes draft (of_nat (length s)))) (length s) = to_bytes s"
  proof -
    have "drop (offset + length (moqint_bytes draft (of_nat (length s)))) bs =
        drop (length (moqint_bytes draft (of_nat (length s)))) (drop offset bs)"
      by (simp add: add.commute)
    also have "\<dots> = to_bytes s @ rest" by (simp add: assms(1) a)
    finally show ?thesis by (simp add: slice_def)
  qed
  moreover have "\<not> (of_nat (length s) :: u64) > 1024" if "is_draft23_or_later draft"
    using assms(3,4) that by (simp add: word_less_nat_alt)
  ultimately show ?thesis using assms(3)
    by (simp add: decode_reason_phrase_def d fits_iff a add.assoc)
qed

lemmas decode_string_drop_end = decode_string_drop [where rest = "[]", simplified]
lemmas decode_moqint_drop_end = decode_moqint_drop [where rest = "[]", simplified]

lemma decode_track_namespace_drop:
  assumes "drop offset bs = append_track_namespace [] draft ns @ rest" and "offset \<le> length bs"
    and "namespace_ok draft (split_track_namespace ns)"
  shows "decode_track_namespace bs offset draft =
    Inr (split_track_namespace ns, offset + length (append_track_namespace [] draft ns))"
proof -
  have "bs = take offset bs @ append_track_namespace [] draft ns @ rest"
    using assms(1) by (metis append_take_drop_id)
  then show ?thesis
    using decode_track_namespace_at [OF assms(3), of "take offset bs" rest] assms(2)
    by (simp add: append_track_namespace_eq)
qed

lemma length_append_string_le: "length (append_string [] draft s) \<le> length s + 9"
  using length_moqint_bytes_le [of draft "of_nat (length s)"] by (simp add: append_string_def wire_append)

text \<open>A framed message, as a header and its payload.\<close>

lemma control_message_split:
  assumes "length payload \<le> kDefaultMaxControlMessageSize"
  obtains hd where "control_message draft type payload = hd @ payload"
    and "length hd = length (control_message draft type payload) - length payload"
  using assms by (auto simp: control_message_eq)

subsection \<open>REQUEST_ERROR and REQUEST_OK\<close>

text \<open>A REQUEST_ERROR reads back as written on every draft that has the message: the code, the
  retry interval, the reason, and the request id on the drafts that carry one.\<close>

theorem request_error_roundtrip:
  assumes "draft \<noteq> kDraft14" and "moqint_ok draft request_id" "moqint_ok draft error_code"
    and "moqint_ok draft retry_interval" and "length reason \<le> 1024"
    and "is_draft23_or_later draft \<longrightarrow> error_code \<noteq> 0x34"
  shows "decode_request_error
      (encode_request_error_message draft request_id error_code retry_interval reason) draft =
    Inr \<lparr>err_request_id = if uses_moq_vi64 draft then 0 else request_id, err_error_code = error_code,
      err_retry_interval = retry_interval, err_reason = reason, err_redirect_has_track_name = False\<rparr>"
proof -
  define payload where "payload = (if uses_moq_vi64 draft then [] else moqint_bytes draft request_id) @
    moqint_bytes draft error_code @ moqint_bytes draft retry_interval @ append_string [] draft reason"
  have l: "length payload \<le> kDefaultMaxControlMessageSize"
    using length_moqint_bytes_le [of draft request_id] length_moqint_bytes_le [of draft error_code]
      length_moqint_bytes_le [of draft retry_interval] length_append_string_le [of draft reason] assms(5)
    by (simp add: payload_def kDefaultMaxControlMessageSize_def)
  have e: "encode_request_error_message draft request_id error_code retry_interval reason =
      control_message draft kRequestErrorType payload"
    using assms(1) by (simp add: encode_request_error_message_def request_id_prefix_def payload_def wire_append)
  obtain hd where m: "control_message draft kRequestErrorType payload = hd @ payload"
    using control_message_eq [OF l] by (metis append.assoc)
  have "moqint_ok draft kRequestErrorType" by (simp add: moqint_ok_def kMaxQuicVarintValue_def message_types)
  from parse_control_message [OF l this]
  have p: "parse_control_length_message (hd @ payload) draft kRequestErrorType = Inr (length hd, length payload)"
    by (simp add: m)
  have r: "length reason < 2 ^ 62" using assms(5) by simp
  show ?thesis
    using assms r
    by (simp only: e m decode_request_error_def p bindE_Inr prod.case Let_def if_False, cases draft)
      (simp_all add: payload_def decode_moqint_drop decode_string_drop_end decode_request_error_details_def
        decode_error_details.simps draft_predicates uses_moq_vi64_def del: bindE_eq_Inr cong: bindE_weak_cong)
qed

theorem request_error_roundtrip_witness:
  "decode_request_error (encode_request_error_message kDraft23 5 0x10 9 ''gone'') kDraft23 =
     Inr \<lparr>err_request_id = 0, err_error_code = 0x10, err_retry_interval = 9, err_reason = ''gone'',
       err_redirect_has_track_name = False\<rparr>"
  using request_error_roundtrip [of kDraft23 5 "0x10" 9 "''gone''"]
  by (simp add: moqint_ok_def uses_moq_vi64_def draft_predicates)

text \<open>Both forms of REQUEST_OK, without and with LARGEST_OBJECT, are accepted on every draft that
  has the message, and give back the request id on the drafts that carry one.\<close>

theorem request_ok_roundtrip:
  assumes "draft \<noteq> kDraft14" and "moqint_ok draft request_id"
    and "moqint_ok draft group_id" "moqint_ok draft object_id"
  shows "decode_request_ok (encode_request_ok_message draft request_id) draft =
       Inr (if uses_moq_vi64 draft then 0 else request_id) \<and>
     decode_request_ok (encode_request_ok_largest draft request_id group_id object_id) draft =
       Inr (if uses_moq_vi64 draft then 0 else request_id)"
proof -
  let ?id = "if uses_moq_vi64 draft then [] else moqint_bytes draft request_id"
  define loc where "loc = moqint_bytes draft group_id @ moqint_bytes draft object_id"
  define p1 where "p1 = ?id @ moqint_bytes draft 0"
  define p2 where "p2 = ?id @ moqint_bytes draft 1 @ moqint_bytes draft 9 @
    (if uses_moq_vi64 draft then loc else moqint_bytes draft (of_nat (length loc)) @ loc)"
  have loc: "length loc \<le> 18" using length_moqint_bytes_le [of draft group_id] length_moqint_bytes_le [of draft object_id]
    by (simp add: loc_def)
  have l: "length p1 \<le> kDefaultMaxControlMessageSize" "length p2 \<le> kDefaultMaxControlMessageSize"
    using loc length_moqint_bytes_le [of draft request_id] length_moqint_bytes_le [of draft 0]
      length_moqint_bytes_le [of draft 1] length_moqint_bytes_le [of draft 9]
      length_moqint_bytes_le [of draft "of_nat (length loc)"]
    by (simp_all add: p1_def p2_def kDefaultMaxControlMessageSize_def)
  have e: "encode_request_ok_message draft request_id = control_message draft kRequestOkType p1"
    "encode_request_ok_largest draft request_id group_id object_id = control_message draft kRequestOkType p2"
    by (simp_all add: encode_request_ok_message_def encode_request_ok_largest_def request_id_prefix_def p1_def p2_def
        append_largest_object_parameter_def append_parameter_delta_def loc_def wire_append Let_def)
  have t: "moqint_ok draft kRequestOkType" by (simp add: moqint_ok_def kMaxQuicVarintValue_def message_types)
  obtain h1 where m1: "control_message draft kRequestOkType p1 = h1 @ p1"
    using control_message_eq [OF l(1)] by (metis append.assoc)
  obtain h2 where m2: "control_message draft kRequestOkType p2 = h2 @ p2"
    using control_message_eq [OF l(2)] by (metis append.assoc)
  have q1: "parse_control_length_message (h1 @ p1) draft kRequestOkType = Inr (length h1, length p1)"
    using parse_control_message [OF l(1) t] by (simp add: m1)
  have q2: "parse_control_length_message (h2 @ p2) draft kRequestOkType = Inr (length h2, length p2)"
    using parse_control_message [OF l(2) t] by (simp add: m2)
  have lo: "moqint_ok draft (of_nat (length loc))" "unat (of_nat (length loc) :: u64) = length loc"
    using loc by (auto intro: moqint_ok_nat)
  have small: "moqint_ok draft 0" "moqint_ok draft 1" "moqint_ok draft 9"
    by (simp_all add: moqint_ok_def kMaxQuicVarintValue_def)
  have "decode_request_ok (h1 @ p1) draft = Inr (if uses_moq_vi64 draft then 0 else request_id)"
    using assms small
    by (simp only: decode_request_ok_def q1 bindE_Inr prod.case Let_def if_False, cases draft)
      (simp_all add: p1_def decode_moqint_drop decode_moqint_drop_end draft_predicates uses_moq_vi64_def
        del: bindE_eq_Inr cong: bindE_weak_cong)
  moreover have "decode_request_ok (h2 @ p2) draft = Inr (if uses_moq_vi64 draft then 0 else request_id)"
    using assms small lo
    by (simp only: decode_request_ok_def q2 bindE_Inr prod.case Let_def if_False, cases draft)
      (simp_all add: p2_def loc_def decode_moqint_drop decode_moqint_drop_end draft_predicates uses_moq_vi64_def
        decode_request_ok_parameter_def decode_parameter_type_simple_def decode_parameter_type_def fits_iff
        del: bindE_eq_Inr cong: bindE_weak_cong)
  ultimately show ?thesis by (simp add: e m1 m2)
qed

theorem request_ok_roundtrip_witness:
  "decode_request_ok (encode_request_ok_message kDraft16 6) kDraft16 = Inr 6 \<and>
   decode_request_ok (encode_request_ok_largest kDraft16 6 3 2) kDraft16 = Inr 6"
  using request_ok_roundtrip [of kDraft16 6 3 2]
  by (simp add: moqint_ok_def uses_moq_vi64_def draft_predicates kMaxQuicVarintValue_def)

text \<open>The SERVER_SETUP of the drafts that negotiate a version; draft 16 leaves the version field out.\<close>

definition server_setup_payload :: "DraftVersion \<Rightarrow> u64 \<Rightarrow> bytes" where
  "server_setup_payload draft r =
     (if draft = kDraft14 then moqint_bytes kDraft14 kDraft14Version else []) @
     moqint_bytes draft 1 @ moqint_bytes draft 2 @ moqint_bytes draft r"

lemma length_server_setup_payload: "length (server_setup_payload draft r) \<le> kDefaultMaxControlMessageSize"
proof -
  have "length (moqint_bytes d v) \<le> 9" for d v by (rule length_moqint_bytes_le)
  note this [of kDraft14 kDraft14Version] this [of draft 1] this [of draft 2] this [of draft r]
  then show ?thesis by (auto simp: server_setup_payload_def kDefaultMaxControlMessageSize_def)
qed

lemma server_setup_versioned:
  assumes d: "draft = kDraft14 \<or> draft = kDraft16" and "server_draft m = draft"
    and "moqint_ok draft (server_max_request_id m)"
  shows "decode_setup_response_message (encode_server_setup_message m) draft m0 =
    Inr (m0\<lparr>server_draft := draft, server_max_request_id := server_max_request_id m\<rparr>)"
proof -
  define p where "p = server_setup_payload draft (server_max_request_id m)"
  define L where "L = control_length_bytes draft (length p)"
  have l: "length p \<le> kDefaultMaxControlMessageSize" by (simp add: p_def length_server_setup_payload)
  have t: "moqint_bytes draft 0x21 = [0x21]" using d by (auto simp: moqint_bytes_eval)
  have "encode_server_setup_message m = control_message draft 0x21 p"
    using assms
    by (auto simp: encode_server_setup_message_def uses_moq_vi64_def draft_predicates wire_append Let_def
      append_parameter_def append_parameter_delta_def draft_version_number_def parameter_types message_types
      server_setup_payload_def p_def)
  then have e: "encode_server_setup_message m = 0x21 # L @ p" using l t by (simp add: control_message_eq L_def)
  have vi: "\<not> uses_moq_vi64 draft" "\<not> uses_moq_vi64 kDraft16" "\<not> is_draft23_or_later draft"
    using d by (auto simp: uses_moq_vi64_def draft_predicates)
  have one: "decode_varint_impl (0x21 # xs) 0 = Inr (0x21, 1)" for xs
    by (simp add: decode_varint_impl_def fits_def slice_def be_accum_def)
  have len: "read_control_length (0x21 # L @ p) 1 kDraft16 = Inr (length p, 1 + length L)"
  proof -
    have "\<not> is_draft23_or_later kDraft16" by (simp add: draft_predicates)
    then have "read_control_length (0x21 # L @ p) 1 kDraft16 = read_control_length (0x21 # L @ p) 1 draft"
      by (simp only: read_control_length_def vi(3) if_False)
    then show ?thesis using read_control_length_at [OF l, of "[0x21]" draft p] by (simp add: L_def)
  qed
  have type: "decode_server_setup_type (0x21 # L @ p) = Inr (0x21, 1)"
    by (simp add: decode_server_setup_type_def one message_types Let_def)
  have small: "moqint_ok draft 1" "moqint_ok draft 2" "moqint_ok kDraft14 kDraft14Version"
    by (simp_all add: moqint_ok_def kMaxQuicVarintValue_def kDraft14Version_def)
  have first: "(p ! 0) AND 0xc0 = 0xc0 \<longleftrightarrow> draft = kDraft14" "p \<noteq> []"
    using d by (auto simp: p_def server_setup_payload_def moqint_bytes_eval kDraft14Version_def)
  then have first': "((0x21 # L @ p) ! (1 + length L)) AND 0xc0 = 0xc0 \<longleftrightarrow> draft = kDraft14"
    by (simp add: nth_append)
  have version: "decode_varint_impl (0x21 # L @ p) (1 + length L) =
      Inr (kDraft14Version, 1 + length L + length (moqint_bytes kDraft14 kDraft14Version))" if "draft = kDraft14"
    using decode_moqint_drop [of "1 + length L" "0x21 # L @ p" kDraft14 kDraft14Version] that small(3) vi(1)
    by (simp add: decode_moqint_impl_def p_def server_setup_payload_def)
  let ?o = "1 + length L + (if draft = kDraft14 then length (moqint_bytes kDraft14 kDraft14Version) else 0)"
  have count: "decode_moqint_impl (0x21 # L @ p) ?o draft = Inr (1, ?o + length (moqint_bytes draft 1))"
    using small(1) by (intro decode_moqint_drop) (auto simp: p_def server_setup_payload_def)
  have type2: "decode_moqint_impl (0x21 # L @ p) (?o + length (moqint_bytes draft 1)) draft =
      Inr (2, ?o + length (moqint_bytes draft 1) + length (moqint_bytes draft 2))"
    using small(2) by (intro decode_moqint_drop) (auto simp: p_def server_setup_payload_def)
  have max: "decode_moqint_impl (0x21 # L @ p) (?o + length (moqint_bytes draft 1) + length (moqint_bytes draft 2)) draft =
      Inr (server_max_request_id m, length (0x21 # L @ p))"
    using assms(3) decode_moqint_drop_end [of "?o + length (moqint_bytes draft 1) + length (moqint_bytes draft 2)"
      "0x21 # L @ p" draft "server_max_request_id m"]
    by (auto simp: p_def server_setup_payload_def)
  from d show ?thesis
    using type len first' version count type2 max first(2) vi(1,2) assms(2)
    by (elim disjE)
      (simp_all add: e decode_setup_response_message_def decode_server_setup_message_for_draft_def one
        decode_moqint_impl_def message_types fits_iff decode_server_setup_parameter_def
        decode_parameter_type_simple_def decode_parameter_type_def parameter_types Let_def draft_predicates
        del: bindE_eq_Inr cong: bindE_weak_cong)
qed

lemma server_setup_unversioned:
  assumes "uses_moq_vi64 (server_draft m)"
  shows "decode_setup_response_message (encode_server_setup_message m) (server_draft m) m0 =
    Inr (m0\<lparr>server_draft := server_draft m\<rparr>)"
  using assms
  by (cases "server_draft m")
    (simp_all add: encode_server_setup_message_def decode_setup_response_message_def moqint_bytes_eval
     append_control_length_def append_uint16_def message_types wire_append kDefaultMaxControlMessageSize_def
     decode_server_setup_message_for_draft_def decode_server_setup_type_def decode_setup_options.simps
     moqint_eval read_control_length_def del: bindE_eq_Inr cong: bindE_weak_cong)

lemma diagnose_control_message:
  assumes "type \<in> {0x03, 0x06, 0x0d, 0x1d, 0x50, 0x51}" and "moqint_ok kDraft23 request_id"
    and "namespace_ok kDraft23 (split_track_namespace ns)"
    and p: "payload = moqint_bytes kDraft23 request_id @ append_track_namespace [] kDraft23 ns @ rest"
    and l: "length payload \<le> kDefaultMaxControlMessageSize"
  shows "diagnose_malformed_request (control_message kDraft23 type payload) kDraft23 = Inr 0"
proof -
  let ?t = "moqint_bytes kDraft23 type" and ?l = "control_length_bytes kDraft23 (length payload)"
  have m: "control_message kDraft23 type payload = ?t @ ?l @ payload" using l by (rule control_message_eq)
  have "moqint_ok kDraft23 type" by (simp add: moqint_ok_def uses_moq_vi64_def draft_predicates)
  then have "decode_moqint_impl (?t @ ?l @ payload) 0 kDraft23 = Inr (type, length ?t)"
    by (simp add: decode_moqint_drop)
  moreover have "read_control_length (?t @ ?l @ payload) (length ?t) kDraft23 =
      Inr (length payload, length ?t + length ?l)"
    by (rule read_control_length_at [OF l])
  moreover have "decode_moqint_impl (?t @ ?l @ payload) (length ?t + length ?l) kDraft23 =
      Inr (request_id, length ?t + length ?l + length (moqint_bytes kDraft23 request_id))"
    using assms(2) by (simp add: decode_moqint_drop p)
  moreover have "decode_track_namespace (?t @ ?l @ payload)
      (length ?t + length ?l + length (moqint_bytes kDraft23 request_id)) kDraft23 =
    Inr (split_track_namespace ns, length ?t + length ?l + length (moqint_bytes kDraft23 request_id) +
      length (append_track_namespace [] kDraft23 ns))"
    using assms(3) by (intro decode_track_namespace_drop [where rest = rest]) (simp_all add: p)
  ultimately show ?thesis
    using assms(1) by (simp add: diagnose_malformed_request_def m draft_predicates)
qed


text \<open>The SERVER_SETUP this code writes for a draft is accepted as the answer to a setup that offered
  that draft: the draft is confirmed, drafts 14 and 16 also give back the MAX_REQUEST_ID, and nothing
  else of the message changes.\<close>

theorem server_setup_roundtrip:
  assumes "moqint_ok (server_draft m) (server_max_request_id m)"
  shows "decode_setup_response_message (encode_server_setup_message m) (server_draft m) m0 =
    Inr (if uses_moq_vi64 (server_draft m) then m0\<lparr>server_draft := server_draft m\<rparr>
      else m0\<lparr>server_draft := server_draft m, server_max_request_id := server_max_request_id m\<rparr>)"
proof (cases "uses_moq_vi64 (server_draft m)")
  case False
  then have "server_draft m = kDraft14 \<or> server_draft m = kDraft16"
    by (cases "server_draft m") (simp_all add: uses_moq_vi64_def draft_predicates)
  then show ?thesis using server_setup_versioned [OF _ refl assms] False by simp
qed (simp add: server_setup_unversioned)

theorem server_setup_roundtrip_witness:
  "let m = \<lparr>server_draft = kDraft14, server_max_request_id = 100, server_max_control_message_size = 65535,
        unsupported_server_option_error_code = None, server_malformed_authorization_token = False\<rparr>
   in decode_setup_response_message (encode_server_setup_message m) kDraft14 (m\<lparr>server_max_request_id := 0\<rparr>) = Inr m"
  using server_setup_roundtrip [of "\<lparr>server_draft = kDraft14, server_max_request_id = 100,
      server_max_control_message_size = 65535, unsupported_server_option_error_code = None,
      server_malformed_authorization_token = False\<rparr>"]
  by (simp add: moqint_ok_def uses_moq_vi64_def draft_predicates kMaxQuicVarintValue_def Let_def)

subsection \<open>The diagnosis of the publisher's own requests\<close>

lemma control_message_ne:
  "length payload \<le> kDefaultMaxControlMessageSize \<Longrightarrow> moqint_ok draft type \<Longrightarrow> control_message draft type payload \<noteq> []"
  by (simp add: control_message_eq)

lemma append_parameter_delta_append [wire_append]:
  "NO_MATCH [] out \<Longrightarrow> append_parameter_delta out draft previous type v =
     (out @ fst (append_parameter_delta [] draft previous type v), type)"
  by (simp add: append_parameter_delta_def wire_append Let_def)

lemma append_authorization_parameters_append [wire_append]:
  "NO_MATCH [] out \<Longrightarrow> append_authorization_parameters out draft token proof_bytes =
     out @ append_authorization_parameters [] draft token proof_bytes"
  by (cases proof_bytes) (simp_all add: append_authorization_parameters_def wire_append Let_def)

text \<open>No PUBLISH_NAMESPACE the publisher writes on draft 23 for a namespace within the limits, with or
  without a token and a DPoP proof, is diagnosed as a malformed request, as long as it fits a control
  message.\<close>

theorem namespace_message_well_formed:
  assumes "ns_draft m = kDraft23" and "namespace_ok kDraft23 (split_track_namespace (ns_track_namespace m))"
    and "encode_namespace_message m \<noteq> []"
  shows "diagnose_malformed_request (encode_namespace_message m) kDraft23 = Inr 0"
proof -
  obtain rest where e: "encode_namespace_message m = control_message kDraft23 kPublishNamespaceType
      (moqint_bytes kDraft23 (ns_request_id m) @
       append_track_namespace [] kDraft23 (ns_track_namespace m) @ rest)"
    using assms(1)
    by (cases "ns_authorization_token m") (auto simp: encode_namespace_message_def wire_append Let_def)
  have "length (moqint_bytes kDraft23 (ns_request_id m) @
      append_track_namespace [] kDraft23 (ns_track_namespace m) @ rest) \<le> kDefaultMaxControlMessageSize"
    using assms(3) control_message_too_long by (fastforce simp only: e not_le [symmetric])
  then show ?thesis unfolding e
    using assms(2) by (intro diagnose_control_message [OF _ _ _ refl])
      (auto simp: message_types moqint_ok_def uses_moq_vi64_def draft_predicates)
qed

theorem namespace_message_well_formed_witness:
  "diagnose_malformed_request
     (encode_namespace_message \<lparr>ns_draft = kDraft23, ns_track_namespace = ''a'', ns_request_id = 4,
        ns_authorization_token = Some [1], ns_dpop_proof = None\<rparr>) kDraft23 = Inr 0"
proof (rule namespace_message_well_formed)
  have s: "split_track_namespace ''a'' = [''a'']"
    using split_loop_join [of "[]" "''a''"] by (simp add: split_track_namespace_def join_slash_def)
  show "namespace_ok kDraft23 (split_track_namespace (ns_track_namespace \<lparr>ns_draft = kDraft23,
      ns_track_namespace = ''a'', ns_request_id = 4, ns_authorization_token = Some [1], ns_dpop_proof = None\<rparr>))"
    by (simp add: s namespace_ok_def string_vector_max_size_def)
  show "encode_namespace_message \<lparr>ns_draft = kDraft23, ns_track_namespace = ''a'', ns_request_id = 4,
      ns_authorization_token = Some [1], ns_dpop_proof = None\<rparr> \<noteq> []"
    unfolding encode_namespace_message_def Let_def
    by (rule control_message_ne)
      (simp_all add: s append_track_namespace_def append_string_def carries_dpop_proof_def
        append_authorization_parameters_def append_parameter_def parameter_types message_types
        kDefaultMaxControlMessageSize_def moqint_ok_def moqint_bytes_eval)
qed simp

end
