(* ===== verification/Pending_Media_Queue.thy ===== *)
theory Pending_Media_Queue
  imports Prelude
begin

text \<open>
  \<open>src/transport/pending_media_queue.h\<close>: the bounded queue of media writes per stream
  (\<open>PendingMediaQueue\<close>) and the subgroup deadlines (\<open>SubgroupDeadlineTracker\<close>). Sizes and offsets are
  \<open>std::size_t\<close>, 64-bit words whose subtractions could wrap; the invariant shows that none does. Time
  points are integers. A failed allocation is not modelled. The queue implements the interface
  \<open>stream_queue\<close>: what a stream was given is what it delivers, in order.
\<close>

subsection \<open>Subgroup deadlines\<close>

text \<open>\<open>std::map<stream id, TimePoint>\<close>, in key order.\<close>

type_synonym deadlines = "(u64 \<times> int) list"

definition kDeliveryTimeoutErrorCode :: u64 where "kDeliveryTimeoutErrorCode = 0x02"

record DeliveryTimeoutReset =
  reset_stream_id :: u64
  reset_error_code :: u64

text \<open>\<open>arm\<close>: \<open>emplace\<close>, and the earlier deadline when the stream has one.\<close>

fun arm :: "u64 \<Rightarrow> int \<Rightarrow> deadlines \<Rightarrow> deadlines" where
  "arm stream_id deadline [] = [(stream_id, deadline)]"
| "arm stream_id deadline ((k, d) # rest) =
     (if stream_id = k then (k, if deadline < d then deadline else d) # rest
      else if stream_id < k then (stream_id, deadline) # (k, d) # rest
      else (k, d) # arm stream_id deadline rest)"

definition cancel :: "u64 \<Rightarrow> deadlines \<Rightarrow> deadlines" where
  "cancel stream_id ds = filter (\<lambda>(k, _). k \<noteq> stream_id) ds"

definition mark_all_data_committed :: "u64 \<Rightarrow> deadlines \<Rightarrow> deadlines" where
  "mark_all_data_committed stream_id ds = filter (\<lambda>(k, _). k \<noteq> stream_id) ds"

fun take_expired :: "int \<Rightarrow> deadlines \<Rightarrow> DeliveryTimeoutReset list \<times> deadlines" where
  "take_expired now [] = ([], [])"
| "take_expired now ((k, d) # rest) =
     (case take_expired now rest of (expired, kept) \<Rightarrow>
        if now < d then (expired, (k, d) # kept)
        else (\<lparr>reset_stream_id = k, reset_error_code = kDeliveryTimeoutErrorCode\<rparr> # expired, kept))"

subsection \<open>The queue\<close>

datatype MediaAdmission = Accepted | WouldBlock | Oversized

record PendingMediaWrite =
  pw_stream_id :: u64
  pw_bytes :: bytes
  pw_offset :: u64
  pw_fin :: bool
  pw_transport_priority :: u8
  pw_object_deadline :: "int option"
  pw_subgroup_deadline :: "int option"

datatype PendingMediaFrontStatus = Available | Empty | Expired

record PendingMediaFront =
  front_status :: PendingMediaFrontStatus
  front_write :: "PendingMediaWrite option"

record PendingMediaQueue =
  pq_capacity :: u64
  pq_queued_bytes :: u64
  pq_streams :: "u64 \<rightharpoonup> PendingMediaWrite list"

definition new_queue :: "u64 \<Rightarrow> PendingMediaQueue" where
  "new_queue capacity = \<lparr>pq_capacity = capacity, pq_queued_bytes = 0, pq_streams = Map.empty\<rparr>"

definition size_of :: "PendingMediaWrite \<Rightarrow> u64" where
  "size_of w = of_nat (length (pw_bytes w))"

definition remaining_bytes :: "PendingMediaWrite \<Rightarrow> u64" where
  "remaining_bytes w = (if pw_offset w \<ge> size_of w then 0 else size_of w - pw_offset w)"

definition expired :: "PendingMediaWrite \<Rightarrow> int \<Rightarrow> bool" where
  "expired w now \<longleftrightarrow> (case pw_object_deadline w of None \<Rightarrow> False | Some d \<Rightarrow> now \<ge> d) \<or>
     (case pw_subgroup_deadline w of None \<Rightarrow> False | Some d \<Rightarrow> now \<ge> d)"

text \<open>\<open>streams_[stream_id]\<close> of a stream without an entry is an empty deque.\<close>

definition stream_writes :: "PendingMediaQueue \<Rightarrow> u64 \<Rightarrow> PendingMediaWrite list" where
  "stream_writes q s = (case pq_streams q s of None \<Rightarrow> [] | Some ws \<Rightarrow> ws)"

definition try_push :: "PendingMediaWrite \<Rightarrow> PendingMediaQueue \<Rightarrow> MediaAdmission \<times> PendingMediaQueue" where
  "try_push w q =
     (if size_of w > pq_capacity q then (Oversized, q)
      else if size_of w > pq_capacity q - pq_queued_bytes q then (WouldBlock, q)
      else (Accepted,
        q\<lparr>pq_queued_bytes := pq_queued_bytes q + size_of w,
          pq_streams := (pq_streams q)(pw_stream_id w \<mapsto>
            stream_writes q (pw_stream_id w) @ [w\<lparr>pw_offset := 0\<rparr>])\<rparr>))"

definition clear_stream :: "u64 \<Rightarrow> PendingMediaQueue \<Rightarrow> u64 \<times> PendingMediaQueue" where
  "clear_stream s q =
     (case pq_streams q s of
        None \<Rightarrow> (0, q)
      | Some ws \<Rightarrow>
          let removed = foldl (\<lambda>removed w. removed + remaining_bytes w) 0 ws in
          (removed, q\<lparr>pq_queued_bytes := pq_queued_bytes q - removed, pq_streams := (pq_streams q)(s := None)\<rparr>))"

definition inspect_front :: "u64 \<Rightarrow> int \<Rightarrow> PendingMediaQueue \<Rightarrow> PendingMediaFront \<times> PendingMediaQueue" where
  "inspect_front s now q =
     (case pq_streams q s of
        None \<Rightarrow> (\<lparr>front_status = Empty, front_write = None\<rparr>, q)
      | Some [] \<Rightarrow>
          (\<lparr>front_status = Empty, front_write = None\<rparr>, q\<lparr>pq_streams := (pq_streams q)(s := None)\<rparr>)
      | Some (w # ws) \<Rightarrow>
          if pw_offset w = 0 \<and> expired w now
          then (\<lparr>front_status = Expired, front_write = None\<rparr>, snd (clear_stream s q))
          else (\<lparr>front_status = Available, front_write = Some w\<rparr>, q))"

definition front :: "u64 \<Rightarrow> int \<Rightarrow> PendingMediaQueue \<Rightarrow> PendingMediaWrite option \<times> PendingMediaQueue" where
  "front s now q = (case inspect_front s now q of (f, q) \<Rightarrow> (front_write f, q))"

text \<open>\<open>streams_.erase(stream)\<close> when the deque became empty.\<close>

definition put_writes :: "u64 \<Rightarrow> PendingMediaWrite list \<Rightarrow> PendingMediaQueue \<Rightarrow> PendingMediaQueue" where
  "put_writes s ws q = q\<lparr>pq_streams := (pq_streams q)(s := if ws = [] then None else Some ws)\<rparr>"

definition consume :: "u64 \<Rightarrow> u64 \<Rightarrow> PendingMediaQueue \<Rightarrow> u64 \<times> PendingMediaQueue" where
  "consume s n q =
     (case pq_streams q s of
        None \<Rightarrow> (0, q)
      | Some [] \<Rightarrow> (0, q)
      | Some (w # ws) \<Rightarrow>
          if n = 0 then
            (if pw_bytes w \<noteq> [] \<or> \<not> pw_fin w then (0, q) else (0, put_writes s ws q))
          else
            let remaining = remaining_bytes w;
                consumed = (if n < remaining then n else remaining);
                w = w\<lparr>pw_offset := pw_offset w + consumed\<rparr>;
                q = q\<lparr>pq_queued_bytes := pq_queued_bytes q - consumed\<rparr>;
                ws = (if pw_offset w = size_of w then ws else w # ws)
            in (consumed, put_writes s ws q))"

definition clear_connection :: "PendingMediaQueue \<Rightarrow> u64 \<times> PendingMediaQueue" where
  "clear_connection q = (pq_queued_bytes q, q\<lparr>pq_streams := Map.empty, pq_queued_bytes := 0\<rparr>)"

subsection \<open>The invariant\<close>

text \<open>
  Every queued write has a size that fits \<open>std::size_t\<close> and an offset inside it, no deque is empty, and
  \<open>queued_bytes_\<close> is the sum of what remains, within the capacity.
\<close>

definition write_ok :: "PendingMediaWrite \<Rightarrow> bool" where
  "write_ok w \<longleftrightarrow> length (pw_bytes w) < 2 ^ 64 \<and> unat (pw_offset w) \<le> length (pw_bytes w)"

definition remaining :: "PendingMediaWrite \<Rightarrow> nat" where
  "remaining w = length (pw_bytes w) - unat (pw_offset w)"

definition level :: "PendingMediaQueue \<Rightarrow> nat" where
  "level q = (\<Sum>s \<in> dom (pq_streams q). sum_list (map remaining (stream_writes q s)))"

definition queue_ok :: "PendingMediaQueue \<Rightarrow> bool" where
  "queue_ok q \<longleftrightarrow> finite (dom (pq_streams q)) \<and>
     (\<forall>s ws. pq_streams q s = Some ws \<longrightarrow> ws \<noteq> [] \<and> (\<forall>w \<in> set ws. write_ok w)) \<and>
     unat (pq_queued_bytes q) = level q \<and> pq_queued_bytes q \<le> pq_capacity q"

lemma size_of_unat [simp]: "write_ok w \<Longrightarrow> unat (size_of w) = length (pw_bytes w)"
  by (simp add: size_of_def write_ok_def)

lemma remaining_bytes_unat: "write_ok w \<Longrightarrow> unat (remaining_bytes w) = remaining w"
  by (auto simp: remaining_bytes_def remaining_def word_le_nat_alt unat_sub not_le)

text \<open>Replacing one stream's writes changes the level by what that stream gains or loses.\<close>

lemma level_split:
  assumes "finite (dom (pq_streams q))"
  shows "level q = sum_list (map remaining (stream_writes q s)) +
    (\<Sum>t \<in> dom (pq_streams q) - {s}. sum_list (map remaining (stream_writes q t)))"
  using assms by (cases "s \<in> dom (pq_streams q)")
    (auto simp: level_def sum.remove stream_writes_def domIff)

lemma level_update:
  assumes "finite (dom (pq_streams q))"
  shows "level (q\<lparr>pq_streams := (pq_streams q)(s := x)\<rparr>) + sum_list (map remaining (stream_writes q s)) =
    level q + sum_list (map remaining (case x of None \<Rightarrow> [] | Some ws \<Rightarrow> ws))"
proof -
  let ?q = "q\<lparr>pq_streams := (pq_streams q)(s := x)\<rparr>"
  have f: "finite (dom (pq_streams ?q))" using assms by (cases x) simp_all
  have "(\<Sum>t \<in> dom (pq_streams q) - {s}. sum_list (map remaining (stream_writes ?q t))) =
      (\<Sum>t \<in> dom (pq_streams q) - {s}. sum_list (map remaining (stream_writes q t)))"
    by (intro sum.cong) (auto simp: stream_writes_def)
  moreover have "dom (pq_streams ?q) - {s} = dom (pq_streams q) - {s}" by auto
  moreover have "stream_writes ?q s = (case x of None \<Rightarrow> [] | Some ws \<Rightarrow> ws)"
    by (simp add: stream_writes_def)
  ultimately show ?thesis using level_split [OF assms, of s] level_split [OF f, of s] by simp
qed

lemma stream_le_level:
  "finite (dom (pq_streams q)) \<Longrightarrow> sum_list (map remaining (stream_writes q s)) \<le> level q"
  by (cases "s \<in> dom (pq_streams q)") (auto simp: level_def stream_writes_def domIff intro: member_le_sum)

definition weight :: "PendingMediaWrite list option \<Rightarrow> nat" where
  "weight x = sum_list (map remaining (case x of None \<Rightarrow> [] | Some ws \<Rightarrow> ws))"

lemma weight_simps [simp]: "weight None = 0" "weight (Some ws) = sum_list (map remaining ws)"
  by (simp_all add: weight_def)

lemma level_queued [simp]: "level (q\<lparr>pq_queued_bytes := n\<rparr>) = level q"
  by (simp add: level_def stream_writes_def)

lemma stream_writes_simps [simp]:
  "stream_writes (q\<lparr>pq_queued_bytes := n\<rparr>) s = stream_writes q s"
  "stream_writes (q\<lparr>pq_streams := f\<rparr>) s = (case f s of None \<Rightarrow> [] | Some ws \<Rightarrow> ws)"
  by (simp_all add: stream_writes_def)

text \<open>The one way an operation changes the queue: one stream's writes, and the count by as much.\<close>

lemma queue_ok_update:
  assumes "queue_ok q" and "\<And>ws. x = Some ws \<Longrightarrow> ws \<noteq> [] \<and> (\<forall>w \<in> set ws. write_ok w)"
    and "unat n + weight (pq_streams q s) = unat (pq_queued_bytes q) + weight x"
    and "n \<le> pq_capacity q"
  shows "queue_ok (q\<lparr>pq_queued_bytes := n, pq_streams := (pq_streams q)(s := x)\<rparr>)"
proof -
  have f: "finite (dom (pq_streams q))" using assms(1) by (simp add: queue_ok_def)
  have "level (q\<lparr>pq_streams := (pq_streams q)(s := x)\<rparr>) + weight (pq_streams q s) = level q + weight x"
    using level_update [OF f, of s x] by (simp add: weight_def stream_writes_def)
  moreover have "level (q\<lparr>pq_queued_bytes := n, pq_streams := (pq_streams q)(s := x)\<rparr>) =
      level (q\<lparr>pq_streams := (pq_streams q)(s := x)\<rparr>)"
    by (simp add: level_def stream_writes_def)
  ultimately have "unat n = level (q\<lparr>pq_queued_bytes := n, pq_streams := (pq_streams q)(s := x)\<rparr>)"
    using assms(1,3) by (simp add: queue_ok_def)
  moreover have "finite (dom ((pq_streams q)(s := x)))" using f by (cases x) simp_all
  ultimately show ?thesis using assms(1,2,4) by (auto simp: queue_ok_def split: if_split_asm)
qed

lemma queue_okD:
  assumes "queue_ok q"
  shows "finite (dom (pq_streams q))" "pq_streams q s \<noteq> Some []" "w \<in> set (stream_writes q s) \<Longrightarrow> write_ok w"
    "unat (pq_queued_bytes q) = level q" "level q \<le> unat (pq_capacity q)"
    "weight (pq_streams q s) \<le> unat (pq_queued_bytes q)"
  using assms stream_le_level [of q s]
  by (auto simp: queue_ok_def stream_writes_def weight_def word_le_nat_alt split: option.split_asm)

lemma try_push_ok:
  assumes q: "queue_ok q" and w: "length (pw_bytes w) < 2 ^ 64"
  shows "queue_ok (snd (try_push w q))"
proof (cases "size_of w > pq_capacity q \<or> size_of w > pq_capacity q - pq_queued_bytes q")
  case False
  let ?s = "pw_stream_id w" and ?n = "pq_queued_bytes q + size_of w"
  have u: "unat (size_of w) = length (pw_bytes w)" using w by (simp add: size_of_def)
  have cap: "pq_queued_bytes q \<le> pq_capacity q" using q by (simp add: queue_ok_def)
  then have "unat (pq_capacity q - pq_queued_bytes q) = unat (pq_capacity q) - unat (pq_queued_bytes q)"
    by (simp add: unat_sub)
  then have fit: "unat (pq_queued_bytes q) + length (pw_bytes w) \<le> unat (pq_capacity q)"
    using False cap by (auto simp: word_less_nat_alt word_le_nat_alt u)
  then have n: "unat ?n = unat (pq_queued_bytes q) + length (pw_bytes w)"
    using unat_u64_less [of "pq_capacity q"] by (simp add: unat_word_ariths u)
  have "queue_ok (q\<lparr>pq_queued_bytes := ?n,
      pq_streams := (pq_streams q)(?s \<mapsto> stream_writes q ?s @ [w\<lparr>pw_offset := 0\<rparr>])\<rparr>)"
  proof (rule queue_ok_update [OF q])
    show "unat ?n + weight (pq_streams q ?s) =
        unat (pq_queued_bytes q) + weight (Some (stream_writes q ?s @ [w\<lparr>pw_offset := 0\<rparr>]))"
      by (simp add: n weight_def stream_writes_def remaining_def)
    show "?n \<le> pq_capacity q" using fit n by (simp add: word_le_nat_alt)
  qed (use queue_okD(3) [OF q] w in \<open>auto simp: write_ok_def\<close>)
  then show ?thesis using False by (simp add: try_push_def)
qed (use q in \<open>auto simp: try_push_def\<close>)

lemma foldl_remaining:
  "unat n + sum_list (map remaining ws) < 2 ^ 64 \<Longrightarrow> \<forall>w \<in> set ws. write_ok w \<Longrightarrow>
   unat (foldl (\<lambda>r w. r + remaining_bytes w) n ws) = unat n + sum_list (map remaining ws)"
proof (induction ws arbitrary: n)
  case (Cons w ws)
  then have "unat (n + remaining_bytes w) = unat n + remaining w"
    by (simp add: unat_word_ariths remaining_bytes_unat)
  with Cons show ?case by simp
qed simp

lemma clear_stream_ok:
  assumes q: "queue_ok q"
  shows "queue_ok (snd (clear_stream s q)) \<and> unat (fst (clear_stream s q)) = weight (pq_streams q s)"
proof (cases "pq_streams q s")
  case (Some ws)
  let ?r = "foldl (\<lambda>r w. r + remaining_bytes w) 0 ws"
  have le: "sum_list (map remaining ws) \<le> unat (pq_queued_bytes q)" using queue_okD(6) [OF q, of s] Some by simp
  have r: "unat ?r = sum_list (map remaining ws)"
    using le unat_u64_less [of "pq_queued_bytes q"] queue_okD(3) [OF q, of _ s] Some
    by (subst foldl_remaining) (auto simp: stream_writes_def)
  have n: "unat (pq_queued_bytes q - ?r) = unat (pq_queued_bytes q) - sum_list (map remaining ws)"
    using le r by (subst unat_sub) (simp_all add: word_le_nat_alt)
  have "queue_ok (q\<lparr>pq_queued_bytes := pq_queued_bytes q - ?r, pq_streams := (pq_streams q)(s := None)\<rparr>)"
    using le n Some q
    by (intro queue_ok_update [OF q]) (auto simp: word_le_nat_alt queue_ok_def)
  then show ?thesis using Some r by (simp add: clear_stream_def Let_def)
qed (use q in \<open>simp add: clear_stream_def\<close>)

lemma inspect_front_ok: "queue_ok q \<Longrightarrow> queue_ok (snd (inspect_front s now q))"
  using clear_stream_ok [of q s] queue_okD(2) [of q s]
  by (auto simp: inspect_front_def split: option.split list.split)

lemma consume_ok:
  assumes q: "queue_ok q"
  shows "queue_ok (snd (consume s n q)) \<and> fst (consume s n q) \<le> n"
proof (cases "stream_writes q s")
  case Nil
  then show ?thesis using q queue_okD(2) [OF q, of s]
    by (auto simp: consume_def stream_writes_def split: option.split list.split)
next
  case (Cons w ws)
  then have s: "pq_streams q s = Some (w # ws)" by (simp add: stream_writes_def split: option.split_asm)
  have w: "write_ok w" "\<forall>w \<in> set ws. write_ok w" using queue_okD(3) [OF q, of _ s] Cons by auto
  show ?thesis
  proof (cases "n = 0")
    case True
    have "queue_ok (q\<lparr>pq_queued_bytes := pq_queued_bytes q,
        pq_streams := (pq_streams q)(s := if ws = [] then None else Some ws)\<rparr>)" if "pw_bytes w = []"
      using that s w q by (intro queue_ok_update [OF q]) (auto simp: remaining_def queue_ok_def split: if_split_asm)
    then show ?thesis using True s q by (auto simp: consume_def put_writes_def)
  next
    case False
    define c where "c = (if n < remaining_bytes w then n else remaining_bytes w)"
    define w' where "w' = w\<lparr>pw_offset := pw_offset w + c\<rparr>"
    define ws' where "ws' = (if pw_offset w' = size_of w' then ws else w' # ws)"
    have e: "consume s n q = (c, put_writes s ws' (q\<lparr>pq_queued_bytes := pq_queued_bytes q - c\<rparr>))"
      using False s by (simp add: consume_def Let_def c_def w'_def ws'_def)
    have c: "unat c \<le> remaining w" "c \<le> n"
      using w(1) by (auto simp: c_def word_less_nat_alt word_le_nat_alt remaining_bytes_unat)
    have o: "unat (pw_offset w + c) = unat (pw_offset w) + unat c"
      using c w(1) by (auto simp: unat_word_ariths remaining_def write_ok_def)
    have ok: "write_ok w'" and rem: "remaining w' = remaining w - unat c"
      using o c w(1) by (auto simp: write_ok_def remaining_def w'_def)
    have le: "unat c \<le> unat (pq_queued_bytes q)" using c queue_okD(6) [OF q, of s] s by simp
    then have n: "unat (pq_queued_bytes q - c) = unat (pq_queued_bytes q) - unat c"
      by (subst unat_sub) (simp_all add: word_le_nat_alt)
    have "remaining w' = 0" if "pw_offset w' = size_of w'"
      using size_of_unat [OF ok] that by (simp add: remaining_def)
    then have rest: "sum_list (map remaining ws') = remaining w - unat c + sum_list (map remaining ws)"
      using rem by (auto simp: ws'_def)
    have "queue_ok (q\<lparr>pq_queued_bytes := pq_queued_bytes q - c,
        pq_streams := (pq_streams q)(s := if ws' = [] then None else Some ws')\<rparr>)"
    proof (rule queue_ok_update [OF q])
      show "unat (pq_queued_bytes q - c) + weight (pq_streams q s) =
          unat (pq_queued_bytes q) + weight (if ws' = [] then None else Some ws')"
        using le c n rest s by auto
      show "pq_queued_bytes q - c \<le> pq_capacity q"
        using n queue_okD(4,5) [OF q] by (simp add: word_le_nat_alt)
    qed (use w(2) ok in \<open>auto simp: ws'_def split: if_split_asm\<close>)
    then show ?thesis using c(2) by (simp add: e put_writes_def)
  qed
qed


lemma clear_connection_ok: "queue_ok q \<Longrightarrow> queue_ok (snd (clear_connection q))"
  by (simp add: clear_connection_def queue_ok_def level_def)

lemma new_queue_ok: "queue_ok (new_queue capacity)"
  by (simp add: new_queue_def queue_ok_def level_def)

subsection \<open>The bytes of a stream\<close>

text \<open>The abstraction: the bytes a stream still has to deliver.\<close>

definition rest_of :: "PendingMediaWrite \<Rightarrow> bytes" where
  "rest_of w = drop (unat (pw_offset w)) (pw_bytes w)"

definition pending :: "PendingMediaQueue \<Rightarrow> u64 \<Rightarrow> bytes" where
  "pending q s = concat (map rest_of (stream_writes q s))"

lemma length_rest_of [simp]: "length (rest_of w) = remaining w"
  by (simp add: rest_of_def remaining_def)

lemma try_push_pending:
  "pending (snd (try_push w q)) s =
   pending q s @ (if fst (try_push w q) = Accepted \<and> s = pw_stream_id w then pw_bytes w else [])"
  by (auto simp: try_push_def pending_def stream_writes_def rest_of_def)

lemma clear_stream_pending: "pending (snd (clear_stream t q)) s = (if s = t then [] else pending q s)"
  by (auto simp: clear_stream_def pending_def stream_writes_def Let_def split: option.split)

lemma clear_connection_pending: "pending (snd (clear_connection q)) s = []"
  by (simp add: clear_connection_def pending_def stream_writes_def)

lemma inspect_front_pending:
  "queue_ok q \<Longrightarrow> pending (snd (inspect_front t now q)) s =
   (if s = t \<and> front_status (fst (inspect_front t now q)) = Expired then [] else pending q s)"
  using queue_okD(2) [of q t]
  by (auto simp: inspect_front_def clear_stream_pending split: option.split list.split)

lemma put_writes_pending:
  "pending (put_writes t ws q) s = (if s = t then concat (map rest_of ws) else pending q s)"
  by (auto simp: put_writes_def pending_def stream_writes_def)

lemma pending_queued [simp]: "pending (q\<lparr>pq_queued_bytes := n\<rparr>) s = pending q s"
  by (simp add: pending_def)

lemma consume_pending:
  assumes q: "queue_ok q"
  shows "pending (snd (consume t n q)) s =
      (if s = t then drop (unat (fst (consume t n q))) (pending q s) else pending q s) \<and>
    unat (fst (consume t n q)) \<le> length (pending q t)"
proof (cases "stream_writes q t")
  case Nil
  then show ?thesis using queue_okD(2) [OF q, of t]
    by (auto simp: consume_def stream_writes_def split: option.split list.split)
next
  case (Cons w ws)
  then have t: "pq_streams q t = Some (w # ws)" by (simp add: stream_writes_def split: option.split_asm)
  have p: "pending q t = rest_of w @ concat (map rest_of ws)" by (simp add: pending_def Cons)
  have w: "write_ok w" using queue_okD(3) [OF q, of _ t] Cons by auto
  show ?thesis
  proof (cases "n = 0")
    case True
    then show ?thesis using t p by (auto simp: consume_def put_writes_pending rest_of_def)
  next
    case False
    define c where "c = (if n < remaining_bytes w then n else remaining_bytes w)"
    define w' where "w' = w\<lparr>pw_offset := pw_offset w + c\<rparr>"
    define ws' where "ws' = (if pw_offset w' = size_of w' then ws else w' # ws)"
    have e: "consume t n q = (c, put_writes t ws' (q\<lparr>pq_queued_bytes := pq_queued_bytes q - c\<rparr>))"
      using False t by (simp add: consume_def Let_def c_def w'_def ws'_def)
    have c: "unat c \<le> remaining w"
      using w by (auto simp: c_def word_less_nat_alt remaining_bytes_unat)
    then have "unat (pw_offset w + c) = unat (pw_offset w) + unat c"
      using w by (auto simp: unat_word_ariths remaining_def write_ok_def)
    then have rest: "rest_of w' = drop (unat c) (rest_of w)" and ok: "write_ok w'"
      using c w by (auto simp: rest_of_def w'_def write_ok_def remaining_def add.commute)
    have "rest_of w' = []" if "pw_offset w' = size_of w'"
      using size_of_unat [OF ok] that by (simp add: rest_of_def)
    then have "concat (map rest_of ws') = drop (unat c) (pending q t)"
      using c rest by (auto simp: ws'_def p)
    then show ?thesis using c p by (simp add: e put_writes_pending)
  qed
qed

subsection \<open>The interface\<close>

text \<open>What a sequence of operations puts out, and whether one of them ever does something.\<close>

fun outputs :: "('op \<Rightarrow> 'q \<Rightarrow> 'q) \<Rightarrow> ('op \<Rightarrow> 'q \<Rightarrow> 'b list) \<Rightarrow> 'op list \<Rightarrow> 'q \<Rightarrow> 'b list" where
  "outputs step out [] q = []"
| "outputs step out (a # ops) q = out a q @ outputs step out ops (step a q)"

fun along :: "('op \<Rightarrow> 'q \<Rightarrow> 'q) \<Rightarrow> ('op \<Rightarrow> 'q \<Rightarrow> bool) \<Rightarrow> 'op list \<Rightarrow> 'q \<Rightarrow> bool" where
  "along step p [] q = True"
| "along step p (a # ops) q = (p a q \<and> along step p ops (step a q))"

text \<open>
  A queue of byte streams: each operation keeps the invariant and the capacity and, for every stream it
  does not abandon, what it delivers followed by what stays pending is what was pending followed by
  what it accepts.
\<close>

locale stream_queue =
  fixes invar :: "'q \<Rightarrow> bool" and valid :: "'op \<Rightarrow> bool" and step :: "'op \<Rightarrow> 'q \<Rightarrow> 'q"
    and pending_of :: "'s \<Rightarrow> 'q \<Rightarrow> 'b list" and accepted :: "'s \<Rightarrow> 'op \<Rightarrow> 'q \<Rightarrow> 'b list"
    and delivered :: "'s \<Rightarrow> 'op \<Rightarrow> 'q \<Rightarrow> 'b list" and abandons :: "'s \<Rightarrow> 'op \<Rightarrow> 'q \<Rightarrow> bool"
  assumes step_invar: "invar q \<Longrightarrow> valid a \<Longrightarrow> invar (step a q)"
    and step_conserves: "invar q \<Longrightarrow> valid a \<Longrightarrow> \<not> abandons s a q \<Longrightarrow>
      delivered s a q @ pending_of s (step a q) = pending_of s q @ accepted s a q"
begin

lemma steps_invar: "invar q \<Longrightarrow> list_all valid ops \<Longrightarrow> invar (fold step ops q)"
  by (induction ops arbitrary: q) (auto intro: step_invar)

lemma steps_conserve:
  assumes "invar q" and "list_all valid ops" and "along step (\<lambda>a q. \<not> abandons s a q) ops q"
  shows "outputs step (delivered s) ops q @ pending_of s (fold step ops q) =
    pending_of s q @ outputs step (accepted s) ops q"
  using assms
proof (induction ops arbitrary: q)
  case (Cons a ops)
  then have "outputs step (delivered s) ops (step a q) @ pending_of s (fold step ops (step a q)) =
      pending_of s (step a q) @ outputs step (accepted s) ops (step a q)"
    by (intro Cons.IH) (auto intro: step_invar)
  moreover have "delivered s a q @ pending_of s (step a q) = pending_of s q @ accepted s a q"
    using Cons.prems by (intro step_conserves) auto
  ultimately show ?case by (metis append.assoc fold_simps(2) outputs.simps(2))
qed simp

text \<open>What has been delivered is a prefix of what has been accepted.\<close>

lemma delivery_in_order:
  assumes "invar q" and "list_all valid ops" and "along step (\<lambda>a q. \<not> abandons s a q) ops q"
    and "pending_of s q = []"
  shows "outputs step (delivered s) ops q =
    take (length (outputs step (delivered s) ops q)) (outputs step (accepted s) ops q)"
  using steps_conserve [OF assms(1-3)] assms(4) by (metis append_Nil append_eq_conv_conj)

end

text \<open>The operations of the class, and what each does for a stream.\<close>

datatype queue_op =
    Push PendingMediaWrite
  | Consume u64 u64
  | Inspect_Front u64 int
  | Clear_Stream u64
  | Clear_Connection

definition valid_op :: "queue_op \<Rightarrow> bool" where
  "valid_op a \<longleftrightarrow> (case a of Push w \<Rightarrow> length (pw_bytes w) < 2 ^ 64 | _ \<Rightarrow> True)"

definition queue_step :: "queue_op \<Rightarrow> PendingMediaQueue \<Rightarrow> PendingMediaQueue" where
  "queue_step a q = (case a of
     Push w \<Rightarrow> snd (try_push w q)
   | Consume s n \<Rightarrow> snd (consume s n q)
   | Inspect_Front s now \<Rightarrow> snd (inspect_front s now q)
   | Clear_Stream s \<Rightarrow> snd (clear_stream s q)
   | Clear_Connection \<Rightarrow> snd (clear_connection q))"

definition op_accepts :: "u64 \<Rightarrow> queue_op \<Rightarrow> PendingMediaQueue \<Rightarrow> bytes" where
  "op_accepts s a q = (case a of
     Push w \<Rightarrow> if fst (try_push w q) = Accepted \<and> s = pw_stream_id w then pw_bytes w else []
   | _ \<Rightarrow> [])"

text \<open>\<open>consume\<close> is called with what the transport took of the front write.\<close>

definition op_delivers :: "u64 \<Rightarrow> queue_op \<Rightarrow> PendingMediaQueue \<Rightarrow> bytes" where
  "op_delivers s a q = (case a of
     Consume t n \<Rightarrow> if s = t then take (unat (fst (consume t n q))) (pending q s) else []
   | _ \<Rightarrow> [])"

definition op_abandons :: "u64 \<Rightarrow> queue_op \<Rightarrow> PendingMediaQueue \<Rightarrow> bool" where
  "op_abandons s a q = (case a of
     Inspect_Front t now \<Rightarrow> s = t \<and> front_status (fst (inspect_front t now q)) = Expired
   | Clear_Stream t \<Rightarrow> s = t
   | Clear_Connection \<Rightarrow> True
   | _ \<Rightarrow> False)"

interpretation pmq: stream_queue queue_ok valid_op queue_step "\<lambda>s q. pending q s" op_accepts op_delivers op_abandons
proof
  fix q a
  assume q: "queue_ok q" and a: "valid_op a"
  then show "queue_ok (queue_step a q)"
    by (cases a) (simp_all add: queue_step_def valid_op_def try_push_ok consume_ok inspect_front_ok
        clear_stream_ok clear_connection_ok)
  fix s
  assume "\<not> op_abandons s a q"
  then show "op_delivers s a q @ pending (queue_step a q) s = pending q s @ op_accepts s a q"
    using consume_pending [OF q] inspect_front_pending [OF q]
    by (cases a) (auto simp: queue_step_def op_delivers_def op_accepts_def op_abandons_def try_push_pending
        clear_stream_pending clear_connection_pending)
qed

subsection \<open>Properties\<close>

text \<open>C9: Whatever sequence of pushes, reads, acknowledgements and clears runs on a new queue, the 64-bit
  byte count never wraps: it is the number of queued bytes that remain to be sent, and it never exceeds
  the capacity.\<close>

theorem pending_queue_bounded:
  assumes "list_all valid_op ops" and "q = fold queue_step ops (new_queue capacity)"
  shows "unat (pq_queued_bytes q) = level q \<and> level q \<le> unat capacity"
proof -
  have "pq_capacity (queue_step a q) = pq_capacity q" for a q
    by (auto simp: queue_step_def try_push_def consume_def inspect_front_def clear_stream_def
        clear_connection_def put_writes_def Let_def split: queue_op.split option.split list.split)
  then have "pq_capacity (fold queue_step ops q0) = pq_capacity q0" for q0
    by (induction ops arbitrary: q0) simp_all
  then have "pq_capacity q = capacity" by (simp add: assms(2) new_queue_def)
  moreover have "queue_ok q" using pmq.steps_invar [OF new_queue_ok assms(1)] by (simp add: assms(2))
  ultimately show ?thesis using queue_okD(4,5) [of q] by simp
qed

text \<open>C10: Bytes of a stream are delivered in the order they were accepted, none lost and none twice: for
  every sequence of operations that does not abandon the stream (by expiry or a clear), what was
  delivered followed by what is pending is what was accepted.\<close>

theorem pending_queue_fifo:
  assumes "list_all valid_op ops" and "q = fold queue_step ops (new_queue capacity)"
    and "along queue_step (\<lambda>a q. \<not> op_abandons s a q) ops (new_queue capacity)"
  shows "outputs queue_step (op_delivers s) ops (new_queue capacity) @ pending q s =
    outputs queue_step (op_accepts s) ops (new_queue capacity)"
  using pmq.steps_conserve [OF new_queue_ok assms(1,3)]
  by (simp add: assms(2) pending_def stream_writes_def new_queue_def)

text \<open>An expired stream is dropped whole and a started write is never expired: if inspecting the
  front reports expiry, the front write had not been started and a deadline of it had passed, and the
  stream afterwards has nothing pending; otherwise nothing changes, and a write it offers is the next
  part of the stream.\<close>

theorem inspect_front_expiry:
  assumes "queue_ok q" and "inspect_front s now q = (f, q')"
  shows "(front_status f = Expired \<longrightarrow>
       (\<exists>w ws. stream_writes q s = w # ws \<and> pw_offset w = 0 \<and> expired w now) \<and> pending q' s = []) \<and>
     (front_status f \<noteq> Expired \<longrightarrow> pending q' s = pending q s) \<and>
     (\<forall>w. front_write f = Some w \<longrightarrow> (\<exists>later. pending q s = rest_of w @ later)) \<and>
     (\<forall>t. t \<noteq> s \<longrightarrow> pending q' t = pending q t)"
  using assms queue_okD(2) [OF assms(1), of s] inspect_front_pending [OF assms(1), of s now]
  by (auto simp: inspect_front_def pending_def stream_writes_def split: option.split_asm list.split_asm if_split_asm)

definition example_write :: "bytes \<Rightarrow> PendingMediaWrite" where
  "example_write bs = \<lparr>pw_stream_id = 4, pw_bytes = bs, pw_offset = 0, pw_fin = False,
     pw_transport_priority = 9, pw_object_deadline = Some 10, pw_subgroup_deadline = None\<rparr>"

lemmas queue_eval =
  queue_step_def op_accepts_def op_delivers_def op_abandons_def try_push_def consume_def inspect_front_def
  clear_stream_def put_writes_def stream_writes_def pending_def rest_of_def remaining_bytes_def size_of_def
  expired_def new_queue_def example_write_def Let_def word_less_nat_alt word_le_nat_alt

theorem pending_queue_bounded_witness:
  "level (fold queue_step [Push (example_write [1, 2, 3]), Consume 4 2, Push (example_write [7])]
     (new_queue 3)) \<le> 3"
  using pending_queue_bounded [of "[Push (example_write [1, 2, 3]), Consume 4 2, Push (example_write [7])]" _ 3,
    OF _ refl]
  by (simp add: valid_op_def example_write_def)

theorem pending_queue_fifo_witness:
  "outputs queue_step (op_delivers 4) [Push (example_write [1, 2, 3]), Inspect_Front 4 5, Consume 4 2]
       (new_queue 3) = [1, 2] \<and>
     pending (fold queue_step [Push (example_write [1, 2, 3]), Inspect_Front 4 5, Consume 4 2] (new_queue 3)) 4 = [3]"
proof -
  let ?ops = "[Push (example_write [1, 2, 3]), Inspect_Front 4 5, Consume 4 2]"
  have "along queue_step (\<lambda>a q. \<not> op_abandons 4 a q) ?ops (new_queue 3)" by (simp add: queue_eval)
  from pending_queue_fifo [OF _ refl this]
  have "outputs queue_step (op_delivers 4) ?ops (new_queue 3) @ pending (fold queue_step ?ops (new_queue 3)) 4 =
      outputs queue_step (op_accepts 4) ?ops (new_queue 3)"
    by (simp add: valid_op_def example_write_def)
  moreover have "outputs queue_step (op_accepts 4) ?ops (new_queue 3) = [1, 2, 3]" by (simp add: queue_eval)
  moreover have "outputs queue_step (op_delivers 4) ?ops (new_queue 3) = [1, 2]" by (simp add: queue_eval)
  ultimately have "[1, 2] @ pending (fold queue_step ?ops (new_queue 3)) 4 = [1, 2, 3]" by (simp only:)
  then have "pending (fold queue_step ?ops (new_queue 3)) 4 = [3]" by (simp only: append_Cons append_Nil list.inject)
  with \<open>outputs queue_step (op_delivers 4) ?ops (new_queue 3) = [1, 2]\<close> show ?thesis by (simp only: simp_thms)
qed

theorem inspect_front_expiry_witness:
  "pending (snd (inspect_front 4 12 (snd (try_push (example_write [1, 2]) (new_queue 5))))) 4 = []"
proof -
  let ?q = "snd (try_push (example_write [1, 2]) (new_queue 5))"
  have q: "queue_ok ?q" by (rule try_push_ok [OF new_queue_ok]) (simp add: example_write_def)
  have "front_status (fst (inspect_front 4 12 ?q)) = Expired" by (simp add: queue_eval)
  with inspect_front_expiry [OF q, of 4 12 "fst (inspect_front 4 12 ?q)" "snd (inspect_front 4 12 ?q)"]
  show ?thesis by simp
qed

subsection \<open>Deadlines\<close>

lemma arm_keys: "set (map fst (arm s d ds)) = insert s (set (map fst ds))"
  by (induction s d ds rule: arm.induct) auto

lemma arm_sorted: "sorted_wrt (<) (map fst ds) \<Longrightarrow> sorted_wrt (<) (map fst (arm s d ds))"
proof (induction s d ds rule: arm.induct)
  case (2 s d k e rest)
  then show ?case using arm_keys [of s d rest] by (auto simp: not_less)
qed simp

lemma map_of_arm:
  "sorted_wrt (<) (map fst ds) \<Longrightarrow>
   map_of (arm s d ds) = (map_of ds)(s \<mapsto> (case map_of ds s of None \<Rightarrow> d | Some e \<Rightarrow> min d e))"
proof (induction s d ds rule: arm.induct)
  case (2 s d k e rest)
  show ?case
  proof (cases "s < k")
    case True
    then have "s \<notin> fst ` set rest" using 2(2) by fastforce
    then have "map_of rest s = None" by (simp add: map_of_eq_None_iff)
    then show ?thesis using True by (auto simp: min_def)
  next
    case False
    then show ?thesis using 2 by (auto simp: min_def fun_upd_twist)
  qed
qed simp

lemma take_expired_filter:
  "take_expired now ds =
   (map (\<lambda>(k, _). \<lparr>reset_stream_id = k, reset_error_code = kDeliveryTimeoutErrorCode\<rparr>)
      (filter (\<lambda>(_, d). d \<le> now) ds),
    filter (\<lambda>(_, d). now < d) ds)"
  by (induction ds) (auto simp: not_less split: prod.splits)

lemma map_of_filter_snd:
  "distinct (map fst ds) \<Longrightarrow> map_of (filter (\<lambda>(_, d). P d) ds) t =
     (case map_of ds t of None \<Rightarrow> None | Some e \<Rightarrow> if P e then Some e else None)"
  by (induction ds) (auto simp: map_of_eq_None_iff split: option.split dest: map_of_SomeD)

lemma sorted_filter_keys: "sorted_wrt (<) (map fst ds) \<Longrightarrow> sorted_wrt (<) (map fst (filter P ds))"
  by (simp add: sorted_wrt_map sorted_wrt_filter)

text \<open>Arming a stream keeps its earliest deadline and no other stream's; taking the expired streams
  resets, in stream order and once each, exactly the streams whose deadline has come, and leaves the
  others as they were, so that a second call at the same time resets none.\<close>

theorem subgroup_deadlines:
  assumes "sorted_wrt (<) (map fst ds)" and "take_expired now (arm s d ds) = (resets, ds')"
  shows "map_of (arm s d ds) = (map_of ds)(s \<mapsto> (case map_of ds s of None \<Rightarrow> d | Some e \<Rightarrow> min d e)) \<and>
    (\<forall>t. t \<in> set (map reset_stream_id resets) \<longleftrightarrow> (\<exists>e \<le> now. map_of (arm s d ds) t = Some e)) \<and>
    sorted_wrt (<) (map reset_stream_id resets) \<and>
    (\<forall>t. map_of ds' t = (case map_of (arm s d ds) t of None \<Rightarrow> None | Some e \<Rightarrow> if now < e then Some e else None)) \<and>
    sorted_wrt (<) (map fst ds') \<and> fst (take_expired now ds') = []"
proof -
  let ?a = "arm s d ds"
  have a: "sorted_wrt (<) (map fst ?a)" using assms(1) by (rule arm_sorted)
  then have dist: "distinct (map fst ?a)" by (simp add: strict_sorted_iff)
  have r: "map reset_stream_id resets = map fst (filter (\<lambda>(_, d). d \<le> now) ?a)"
    and k: "ds' = filter (\<lambda>(_, d). now < d) ?a"
    using assms(2) by (auto simp: take_expired_filter comp_def case_prod_beta)
  have "t \<in> set (map reset_stream_id resets) \<longleftrightarrow> (\<exists>e \<le> now. map_of ?a t = Some e)" for t
    using dist by (force simp: r)
  moreover have "map_of ds' t = (case map_of ?a t of None \<Rightarrow> None | Some e \<Rightarrow> if now < e then Some e else None)" for t
    using map_of_filter_snd [OF dist, of "\<lambda>e. now < e"] by (simp add: k)
  moreover have "sorted_wrt (<) (map reset_stream_id resets)" "sorted_wrt (<) (map fst ds')"
    using sorted_filter_keys [OF a] by (simp_all only: r k)
  moreover have "fst (take_expired now ds') = []" by (auto simp: take_expired_filter k filter_empty_conv)
  ultimately show ?thesis using map_of_arm [OF assms(1)] by auto
qed

theorem subgroup_deadlines_witness:
  "take_expired 8 (arm 2 7 [(1, 9), (2, 12), (3, 8)]) =
     ([\<lparr>reset_stream_id = 2, reset_error_code = 2\<rparr>, \<lparr>reset_stream_id = 3, reset_error_code = 2\<rparr>], [(1, 9)]) \<and>
   fst (take_expired 8 [(1, 9)]) = []"
proof -
  have e: "take_expired 8 (arm 2 7 [(1, 9), (2, 12), (3, 8)]) =
     ([\<lparr>reset_stream_id = 2, reset_error_code = 2\<rparr>, \<lparr>reset_stream_id = 3, reset_error_code = 2\<rparr>], [(1, 9)])"
    by (simp add: kDeliveryTimeoutErrorCode_def)
  have s: "sorted_wrt (<) (map fst [(1 :: u64, 9 :: int), (2, 12), (3, 8)])" by simp
  from subgroup_deadlines [OF s e] have "fst (take_expired 8 [(1, 9)]) = []" by blast
  with e show ?thesis by blast
qed

end
