(* ===== verification/Subgroup_Completion.thy ===== *)
theory Subgroup_Completion
  imports Prelude
begin

text \<open>
  \<open>BoundedSubgroupCompletionTracker\<close> of \<open>src/transport/moqt_session.cpp\<close>: the set of completed subgroups
  of a track, kept as contiguous ranges of groups per subgroup and bounded to 256 ranges. Its abstract
  specification is the interface \<open>bounded_set\<close>: a set to which an insertion adds one element or, when
  the bound is reached, nothing. A \<open>std::map\<close> of ranges is the list of its pairs in key order.
\<close>

record CompletionTracker =
  ct_ranges_by_subgroup :: "u64 \<rightharpoonup> (u64 \<times> u64) list"
  ct_range_count :: nat
  ct_exhausted :: bool

definition kMaximumSparseRanges :: nat where "kMaximumSparseRanges = 256"

definition new_tracker :: CompletionTracker where
  "new_tracker = \<lparr>ct_ranges_by_subgroup = Map.empty, ct_range_count = 0, ct_exhausted = False\<rparr>"

text \<open>The ranges before and from \<open>ranges.upper_bound(group_id)\<close>.\<close>

definition before_bound :: "u64 \<Rightarrow> (u64 \<times> u64) list \<Rightarrow> (u64 \<times> u64) list" where
  "before_bound group_id ranges = takeWhile (\<lambda>r. fst r \<le> group_id) ranges"

definition upper_bound :: "u64 \<Rightarrow> (u64 \<times> u64) list \<Rightarrow> (u64 \<times> u64) list" where
  "upper_bound group_id ranges = dropWhile (\<lambda>r. fst r \<le> group_id) ranges"

definition ranges_contain :: "u64 \<Rightarrow> (u64 \<times> u64) list \<Rightarrow> bool" where
  "ranges_contain group_id ranges =
     (let before = before_bound group_id ranges in
      if before = [] then False else group_id \<le> snd (last before))"

definition tracker_contains :: "CompletionTracker \<Rightarrow> u64 \<Rightarrow> u64 \<Rightarrow> bool" where
  "tracker_contains t group_id subgroup_id =
     (case ct_ranges_by_subgroup t subgroup_id of
        None \<Rightarrow> False
      | Some ranges \<Rightarrow> ranges_contain group_id ranges)"

definition tracker_insert :: "u64 \<Rightarrow> u64 \<Rightarrow> CompletionTracker \<Rightarrow> bool \<times> CompletionTracker" where
  "tracker_insert group_id subgroup_id t =
     (let inserted_subgroup = (ct_ranges_by_subgroup t subgroup_id = None);
          ranges = (case ct_ranges_by_subgroup t subgroup_id of None \<Rightarrow> [] | Some ranges \<Rightarrow> ranges);
          put = (\<lambda>ranges. (ct_ranges_by_subgroup t)(subgroup_id \<mapsto> ranges));
          next_it = upper_bound group_id ranges;
          previous = before_bound group_id ranges;
          has_previous = (previous \<noteq> []) in
      if has_previous \<and> group_id \<le> snd (last previous) then (True, t)
      else
      let joins_next = (next_it \<noteq> [] \<and> group_id \<noteq> -1 \<and> group_id + 1 = fst (hd next_it));
          joins_previous =
            (has_previous \<and> snd (last previous) \<noteq> -1 \<and> snd (last previous) + 1 = group_id) in
      if joins_previous \<and> joins_next then
        (True, t\<lparr>ct_ranges_by_subgroup :=
            put (butlast previous @ (fst (last previous), snd (hd next_it)) # tl next_it),
          ct_range_count := ct_range_count t - 1\<rparr>)
      else if joins_previous then
        (True, t\<lparr>ct_ranges_by_subgroup :=
            put (butlast previous @ (fst (last previous), group_id) # next_it)\<rparr>)
      else if joins_next then
        (True, t\<lparr>ct_ranges_by_subgroup := put (previous @ (group_id, snd (hd next_it)) # tl next_it)\<rparr>)
      else if ct_range_count t \<ge> kMaximumSparseRanges then
        (False, t\<lparr>ct_ranges_by_subgroup :=
            (if inserted_subgroup then (ct_ranges_by_subgroup t)(subgroup_id := None)
             else ct_ranges_by_subgroup t),
          ct_exhausted := True\<rparr>)
      else
        (True, t\<lparr>ct_ranges_by_subgroup := put (previous @ (group_id, group_id) # next_it),
          ct_range_count := ct_range_count t + 1\<rparr>))"

definition storage_entry_count :: "CompletionTracker \<Rightarrow> nat" where
  "storage_entry_count t = ct_range_count t + card (dom (ct_ranges_by_subgroup t))"

subsection \<open>The specification\<close>

text \<open>
  A set that may refuse an element but never loses or invents one. The clients below rely on the laws
  only.
\<close>

fun accepted :: "('x \<Rightarrow> 't \<Rightarrow> bool \<times> 't) \<Rightarrow> 'x list \<Rightarrow> 't \<Rightarrow> 'x list" where
  "accepted add [] t = []"
| "accepted add (x # xs) t =
     (if fst (add x t) then x # accepted add xs (snd (add x t)) else accepted add xs (snd (add x t)))"

locale bounded_set =
  fixes empty :: 't and member :: "'t \<Rightarrow> 'x \<Rightarrow> bool" and add :: "'x \<Rightarrow> 't \<Rightarrow> bool \<times> 't"
    and inv :: "'t \<Rightarrow> bool"
  assumes inv_empty: "inv empty"
    and inv_add: "inv t \<Longrightarrow> inv (snd (add x t))"
    and member_empty: "\<not> member empty y"
    and member_add: "inv t \<Longrightarrow> member (snd (add x t)) y \<longleftrightarrow> member t y \<or> fst (add x t) \<and> y = x"
begin

lemma member_kept: "inv t \<Longrightarrow> member t y \<Longrightarrow> member (snd (add x t)) y"
  by (simp add: member_add)

lemma inv_fold: "inv t \<Longrightarrow> inv (fold (\<lambda>x t. snd (add x t)) xs t)"
  by (induction xs arbitrary: t) (simp_all add: inv_add)

lemma member_fold:
  "inv t \<Longrightarrow> member (fold (\<lambda>x t. snd (add x t)) xs t) y \<longleftrightarrow> member t y \<or> y \<in> set (accepted add xs t)"
  by (induction xs arbitrary: t) (auto simp: inv_add member_add)

lemma member_run: "member (fold (\<lambda>x t. snd (add x t)) xs empty) y \<longleftrightarrow> y \<in> set (accepted add xs empty)"
  by (simp add: member_fold inv_empty member_empty)

lemma all_accepted_run:
  assumes "accepted add xs empty = xs"
  shows "member (fold (\<lambda>x t. snd (add x t)) xs empty) y \<longleftrightarrow> y \<in> set xs"
  by (simp add: member_run assms)

end

subsection \<open>Range lists\<close>

text \<open>Ranges in key order, none empty, with a gap of at least one group between neighbours.\<close>

definition gap :: "u64 \<times> u64 \<Rightarrow> u64 \<times> u64 \<Rightarrow> bool" where
  "gap r r' \<longleftrightarrow> unat (snd r) + 1 < unat (fst r')"

definition ranges_ok :: "(u64 \<times> u64) list \<Rightarrow> bool" where
  "ranges_ok rs \<longleftrightarrow> sorted_wrt gap rs \<and> (\<forall>r \<in> set rs. fst r \<le> snd r)"

definition covered :: "(u64 \<times> u64) list \<Rightarrow> u64 \<Rightarrow> bool" where
  "covered rs g \<longleftrightarrow> (\<exists>r \<in> set rs. fst r \<le> g \<and> g \<le> snd r)"

lemma covered_simps [simp]:
  "\<not> covered [] g" "covered (r # rs) g \<longleftrightarrow> fst r \<le> g \<and> g \<le> snd r \<or> covered rs g"
  "covered (rs @ rs') g \<longleftrightarrow> covered rs g \<or> covered rs' g"
  by (auto simp: covered_def)

lemma ranges_ok_Cons: "ranges_ok (r # rs) \<longleftrightarrow> fst r \<le> snd r \<and> (\<forall>r' \<in> set rs. gap r r') \<and> ranges_ok rs"
  by (auto simp: ranges_ok_def)

lemma ranges_ok_append:
  "ranges_ok (rs @ rs') \<longleftrightarrow> ranges_ok rs \<and> ranges_ok rs' \<and> (\<forall>r \<in> set rs. \<forall>r' \<in> set rs'. gap r r')"
  by (auto simp: ranges_ok_def sorted_wrt_append)

lemma ranges_ok_Nil [simp]: "ranges_ok []"
  by (simp add: ranges_ok_def)

lemmas ranges_simps = ranges_ok_Cons ranges_ok_append gap_def word_le_nat_alt

lemma split_at_bound: "before_bound g rs @ upper_bound g rs = rs"
  by (simp add: before_bound_def upper_bound_def)

lemma before_bound_le: "r \<in> set (before_bound g rs) \<Longrightarrow> fst r \<le> g"
  by (auto simp: before_bound_def dest: set_takeWhileD)

lemma upper_bound_gt:
  assumes "ranges_ok rs" and "r \<in> set (upper_bound g rs)"
  shows "g < fst r"
  using assms
proof (induction rs)
  case (Cons q rs)
  then show ?case
    by (auto simp: upper_bound_def ranges_simps word_less_nat_alt split: if_splits)
qed (simp add: upper_bound_def)

text \<open>Every range list is cut at a group into the ranges that begin up to it and those after it.\<close>

lemma bound_parts:
  assumes "ranges_ok rs"
  obtains p n where "before_bound g rs = p" "upper_bound g rs = n" "rs = p @ n" "ranges_ok (p @ n)"
    "\<forall>r \<in> set p. fst r \<le> g" "\<forall>r \<in> set n. g < fst r"
proof (rule that)
  show "rs = before_bound g rs @ upper_bound g rs" by (simp add: split_at_bound)
  show "ranges_ok (before_bound g rs @ upper_bound g rs)" using assms by (simp add: split_at_bound)
qed (auto dest: before_bound_le upper_bound_gt [OF assms])

lemma covered_before:
  assumes "ranges_ok (p0 @ [r])" and "fst r \<le> g" 
  shows "covered (p0 @ [r]) g \<longleftrightarrow> g \<le> snd r"
  using assms by (fastforce simp: ranges_simps covered_def)

lemma not_covered_after: "\<forall>r \<in> set n. g < fst r \<Longrightarrow> \<not> covered n g"
  by (force simp: covered_def)

lemma ranges_contain_covered: "ranges_ok rs \<Longrightarrow> ranges_contain g rs \<longleftrightarrow> covered rs g"
proof (erule bound_parts [where g = g])
  fix p n
  assume b: "before_bound g rs = p" "rs = p @ n" "ranges_ok (p @ n)"
    "\<forall>r \<in> set p. fst r \<le> g" "\<forall>r \<in> set n. g < fst r"
  show ?thesis
  proof (cases p rule: rev_cases)
    case Nil
    then show ?thesis using b not_covered_after [OF b(5)] by (simp add: ranges_contain_def)
  next
    case (snoc p0 r)
    then have "ranges_ok (p0 @ [r])" using b(3) by (auto simp: ranges_ok_append ranges_ok_Cons)
    then show ?thesis
      using b snoc not_covered_after [OF b(5)] covered_before [of p0 r g]
      by (simp add: ranges_contain_def)
  qed
qed

lemma word_succ_eq: "a \<noteq> - 1 \<Longrightarrow> a + 1 = b \<longleftrightarrow> unat b = unat a + 1" for a b :: u64
proof -
  assume "a \<noteq> - 1"
  then have "1 + a \<noteq> 0" by (metis add.commute add_eq_0_iff)
  then have "unat (a + 1) = unat a + 1" by (simp add: unatSuc add.commute)
  then show ?thesis by (auto simp: word_unat_eq_iff)
qed

lemma not_joins_next:
  assumes "ranges_ok n" "\<forall>r \<in> set n. g < fst r" and "\<not> (n \<noteq> [] \<and> g \<noteq> - 1 \<and> g + 1 = fst (hd n))"
  shows "\<forall>r \<in> set n. unat g + 1 < unat (fst r)"
proof (cases n)
  case (Cons r n0)
  have r: "g < fst r" using assms(2) Cons by simp
  then have "g \<noteq> - 1" by auto
  then have "unat (fst r) \<noteq> unat g + 1" using assms(3) Cons word_succ_eq by simp
  then have "unat g + 1 < unat (fst r)" using r by (simp add: word_less_nat_alt)
  then show ?thesis using assms(1) Cons by (fastforce simp: ranges_simps)
qed simp

lemma not_joins_previous:
  assumes "ranges_ok p" "\<forall>r \<in> set p. fst r \<le> g" "\<not> covered p g"
    and "\<not> (p \<noteq> [] \<and> snd (last p) \<noteq> - 1 \<and> snd (last p) + 1 = g)"
  shows "\<forall>r \<in> set p. unat (snd r) + 1 < unat g"
proof (cases p rule: rev_cases)
  case (snoc p0 r)
  have r: "snd r < g" using assms(2,3) snoc by (auto simp: not_le)
  then have "snd r \<noteq> - 1" by auto
  then have "unat g \<noteq> unat (snd r) + 1" using assms(4) snoc word_succ_eq by auto
  then have "unat (snd r) + 1 < unat g" using r by (simp add: word_less_nat_alt)
  then show ?thesis using assms(1) snoc by (fastforce simp: ranges_simps)
qed simp

text \<open>The four ways an insertion changes a range list.\<close>

lemma covered_join:
  assumes "fst r \<le> snd r" "fst r' \<le> snd r'" and "unat g = unat (snd r) + 1" "unat (fst r') = unat g + 1"
  shows "fst r \<le> x \<and> x \<le> snd r' \<longleftrightarrow> fst r \<le> x \<and> x \<le> snd r \<or> x = g \<or> fst r' \<le> x \<and> x \<le> snd r'"
  using assms unfolding word_le_nat_alt word_unat_eq_iff by linarith

lemma insert_joining_both:
  assumes "ranges_ok (p0 @ r # r' # n0)" and "unat g = unat (snd r) + 1" "unat (fst r') = unat g + 1"
  shows "ranges_ok (p0 @ (fst r, snd r') # n0)"
    and "covered (p0 @ (fst r, snd r') # n0) x \<longleftrightarrow> covered (p0 @ r # r' # n0) x \<or> x = g"
proof -
  have le: "fst r \<le> snd r" "fst r' \<le> snd r'" using assms(1) by (auto simp: ranges_ok_append ranges_ok_Cons)
  show "covered (p0 @ (fst r, snd r') # n0) x \<longleftrightarrow> covered (p0 @ r # r' # n0) x \<or> x = g"
    using covered_join [OF le assms(2,3), of x] by auto
  show "ranges_ok (p0 @ (fst r, snd r') # n0)" using assms by (auto simp: ranges_simps)
qed

lemma covered_extend:
  assumes "fst r \<le> snd r" "unat g = unat (snd r) + 1"
  shows "fst r \<le> x \<and> x \<le> g \<longleftrightarrow> fst r \<le> x \<and> x \<le> snd r \<or> x = g"
  using assms unfolding word_le_nat_alt word_unat_eq_iff by linarith

lemma insert_joining_previous:
  assumes "ranges_ok (p0 @ r # n)" and "unat g = unat (snd r) + 1" "\<forall>r \<in> set n. unat g + 1 < unat (fst r)"
  shows "ranges_ok (p0 @ (fst r, g) # n)"
    and "covered (p0 @ (fst r, g) # n) x \<longleftrightarrow> covered (p0 @ r # n) x \<or> x = g"
proof -
  have le: "fst r \<le> snd r" using assms(1) by (auto simp: ranges_ok_append ranges_ok_Cons)
  show "covered (p0 @ (fst r, g) # n) x \<longleftrightarrow> covered (p0 @ r # n) x \<or> x = g"
    using covered_extend [OF le assms(2), of x] by auto
  show "ranges_ok (p0 @ (fst r, g) # n)" using assms by (auto simp: ranges_simps)
qed

lemma covered_extend_down:
  assumes "fst r \<le> snd r" "unat (fst r) = unat g + 1"
  shows "g \<le> x \<and> x \<le> snd r \<longleftrightarrow> fst r \<le> x \<and> x \<le> snd r \<or> x = g"
  using assms unfolding word_le_nat_alt word_unat_eq_iff by linarith

lemma insert_joining_next:
  assumes "ranges_ok (p @ r # n0)" and "unat (fst r) = unat g + 1" "\<forall>r \<in> set p. unat (snd r) + 1 < unat g"
  shows "ranges_ok (p @ (g, snd r) # n0)"
    and "covered (p @ (g, snd r) # n0) x \<longleftrightarrow> covered (p @ r # n0) x \<or> x = g"
proof -
  have le: "fst r \<le> snd r" using assms(1) by (auto simp: ranges_ok_append ranges_ok_Cons)
  show "covered (p @ (g, snd r) # n0) x \<longleftrightarrow> covered (p @ r # n0) x \<or> x = g"
    using covered_extend_down [OF le assms(2), of x] by auto
  show "ranges_ok (p @ (g, snd r) # n0)" using assms by (auto simp: ranges_simps)
qed

lemma insert_alone:
  assumes "ranges_ok (p @ n)" and "\<forall>r \<in> set p. unat (snd r) + 1 < unat g"
    and "\<forall>r \<in> set n. unat g + 1 < unat (fst r)"
  shows "ranges_ok (p @ (g, g) # n)"
    and "covered (p @ (g, g) # n) x \<longleftrightarrow> covered (p @ n) x \<or> x = g"
  using assms by (auto simp: ranges_simps word_unat_eq_iff)

subsection \<open>The tracker\<close>

definition ranges_of :: "CompletionTracker \<Rightarrow> u64 \<Rightarrow> (u64 \<times> u64) list" where
  "ranges_of t s = (case ct_ranges_by_subgroup t s of None \<Rightarrow> [] | Some rs \<Rightarrow> rs)"

definition tracker_ok :: "CompletionTracker \<Rightarrow> bool" where
  "tracker_ok t \<longleftrightarrow>
     finite (dom (ct_ranges_by_subgroup t)) \<and>
     (\<forall>s rs. ct_ranges_by_subgroup t s = Some rs \<longrightarrow> rs \<noteq> [] \<and> ranges_ok rs) \<and>
     ct_range_count t = (\<Sum>s \<in> dom (ct_ranges_by_subgroup t). length (ranges_of t s)) \<and>
     ct_range_count t \<le> kMaximumSparseRanges"

lemma tracker_contains_covered: "tracker_ok t \<Longrightarrow> tracker_contains t g s \<longleftrightarrow> covered (ranges_of t s) g"
  by (auto simp: tracker_contains_def ranges_of_def tracker_ok_def ranges_contain_covered split: option.splits)

lemma tracker_insert_unfold:
  assumes "tracker_ok t" and "before_bound g (ranges_of t s) = p" "upper_bound g (ranges_of t s) = n"
  shows "tracker_insert g s t =
     (let jn = (n \<noteq> [] \<and> g \<noteq> - 1 \<and> g + 1 = fst (hd n));
          jp = (p \<noteq> [] \<and> snd (last p) \<noteq> - 1 \<and> snd (last p) + 1 = g);
          put = (\<lambda>rs. t\<lparr>ct_ranges_by_subgroup := (ct_ranges_by_subgroup t)(s \<mapsto> rs)\<rparr>) in
      if covered (ranges_of t s) g then (True, t)
      else if jp \<and> jn then
        (True, (put (butlast p @ (fst (last p), snd (hd n)) # tl n))\<lparr>ct_range_count := ct_range_count t - 1\<rparr>)
      else if jp then (True, put (butlast p @ (fst (last p), g) # n))
      else if jn then (True, put (p @ (g, snd (hd n)) # tl n))
      else if ct_range_count t \<ge> kMaximumSparseRanges then (False, t\<lparr>ct_exhausted := True\<rparr>)
      else (True, (put (p @ (g, g) # n))\<lparr>ct_range_count := ct_range_count t + 1\<rparr>))"
proof -
  have "ranges_ok (ranges_of t s)"
    using assms(1) by (auto simp: tracker_ok_def ranges_of_def split: option.splits)
  then have "covered (ranges_of t s) g \<longleftrightarrow> p \<noteq> [] \<and> g \<le> snd (last p)"
    using ranges_contain_covered [of "ranges_of t s" g] assms(2)
    by (simp add: ranges_contain_def if_distrib [of Not] split: if_splits)
  moreover have "(if ct_ranges_by_subgroup t s = None then (ct_ranges_by_subgroup t)(s := None)
      else ct_ranges_by_subgroup t) = ct_ranges_by_subgroup t"
    by auto
  moreover have "t\<lparr>ct_ranges_by_subgroup := ct_ranges_by_subgroup t, ct_exhausted := True\<rparr> = t\<lparr>ct_exhausted := True\<rparr>"
    by simp
  ultimately show ?thesis
    unfolding tracker_insert_def ranges_of_def [symmetric] Let_def assms(2,3) by (simp only: if_cancel)
qed

lemma length_ranges_le_count: "tracker_ok t \<Longrightarrow> length (ranges_of t s) \<le> ct_range_count t"
proof (cases "ct_ranges_by_subgroup t s")
  case (Some rs)
  assume "tracker_ok t"
  moreover have "s \<in> dom (ct_ranges_by_subgroup t)" using Some by auto
  ultimately show ?thesis
    using member_le_sum [of s "dom (ct_ranges_by_subgroup t)" "\<lambda>s. length (ranges_of t s)"]
    by (simp add: tracker_ok_def)
qed (simp add: ranges_of_def)

text \<open>An insertion replaces one range list, or reports that no range is left.\<close>

definition insert_outcome :: "u64 \<Rightarrow> u64 \<Rightarrow> CompletionTracker \<Rightarrow> bool \<times> CompletionTracker \<Rightarrow> bool" where
  "insert_outcome g s t r \<longleftrightarrow>
     (if fst r then
        (\<exists>rs. rs \<noteq> [] \<and> ranges_ok rs \<and> (\<forall>x. covered rs x \<longleftrightarrow> covered (ranges_of t s) x \<or> x = g) \<and>
          ct_ranges_by_subgroup (snd r) = (ct_ranges_by_subgroup t)(s \<mapsto> rs) \<and>
          ct_range_count (snd r) + length (ranges_of t s) = ct_range_count t + length rs \<and>
          ct_range_count (snd r) \<le> kMaximumSparseRanges)
      else ct_range_count t = kMaximumSparseRanges \<and> \<not> covered (ranges_of t s) g \<and>
        snd r = t\<lparr>ct_exhausted := True\<rparr>)"

lemma insert_outcome_put:
  assumes "rs \<noteq> []" "ranges_ok rs" "\<And>x. covered rs x \<longleftrightarrow> covered (ranges_of t s) x \<or> x = g"
    and "ct_ranges_by_subgroup t' = (ct_ranges_by_subgroup t)(s \<mapsto> rs)"
    and "ct_range_count t' + length (ranges_of t s) = ct_range_count t + length rs"
    and "ct_range_count t' \<le> kMaximumSparseRanges"
  shows "insert_outcome g s t (True, t')"
  using assms by (auto simp: insert_outcome_def)

lemma tracker_insert_outcome:
  assumes t: "tracker_ok t"
  shows "insert_outcome g s t (tracker_insert g s t)"
proof -
  let ?rs = "ranges_of t s"
  have ok: "ranges_ok ?rs" and count: "ct_range_count t \<le> kMaximumSparseRanges"
    using t by (auto simp: tracker_ok_def ranges_of_def split: option.splits)
  note len = length_ranges_le_count [OF t, of s]
  obtain p n where pn: "before_bound g ?rs = p" "upper_bound g ?rs = n" "?rs = p @ n" "ranges_ok (p @ n)"
    "\<forall>r \<in> set p. fst r \<le> g" "\<forall>r \<in> set n. g < fst r"
    using bound_parts [OF ok] by metis
  have okpn: "ranges_ok p" "ranges_ok n" using pn(4) by (auto simp: ranges_ok_append)
  have nc: "covered ?rs g \<longleftrightarrow> covered p g" using pn(3) not_covered_after [OF pn(6)] by simp
  define jn where "jn \<longleftrightarrow> n \<noteq> [] \<and> g \<noteq> - 1 \<and> g + 1 = fst (hd n)"
  define jp where "jp \<longleftrightarrow> p \<noteq> [] \<and> snd (last p) \<noteq> - 1 \<and> snd (last p) + 1 = g"
  note unf = tracker_insert_unfold [OF t pn(1,2), folded jn_def jp_def, unfolded Let_def]
  have n: "\<exists>r n0. n = r # n0 \<and> unat (fst r) = unat g + 1" if jn
    using that word_succ_eq by (cases n) (auto simp: jn_def)
  have p: "\<exists>p0 r. p = p0 @ [r] \<and> unat g = unat (snd r) + 1" if jp
    using that word_succ_eq by (cases p rule: rev_cases) (auto simp: jp_def)
  have nn: "\<forall>r \<in> set n. unat g + 1 < unat (fst r)" if "\<not> jn"
    using not_joins_next [OF okpn(2) pn(6)] that by (simp add: jn_def)
  have np: "\<forall>r \<in> set p. unat (snd r) + 1 < unat g" if "\<not> jp" "\<not> covered ?rs g"
    using not_joins_previous [OF okpn(1) pn(5)] that nc by (simp add: jp_def)
  consider "covered ?rs g" | "\<not> covered ?rs g" jp jn | "\<not> covered ?rs g" jp "\<not> jn"
    | "\<not> covered ?rs g" "\<not> jp" jn | "\<not> covered ?rs g" "\<not> jp" "\<not> jn" by blast
  then show ?thesis
  proof cases
    case 1
    then have "ct_ranges_by_subgroup t s = Some ?rs" by (auto simp: ranges_of_def split: option.splits)
    then show ?thesis using 1 ok count unf by (auto intro!: insert_outcome_put [of ?rs] simp: fun_upd_idem)
  next
    case 2
    then obtain p0 r r' n0 where e: "p = p0 @ [r]" "n = r' # n0" "unat g = unat (snd r) + 1"
      "unat (fst r') = unat g + 1" using p n by blast
    have "tracker_insert g s t = (True, t\<lparr>ct_ranges_by_subgroup :=
        (ct_ranges_by_subgroup t)(s \<mapsto> p0 @ (fst r, snd r') # n0), ct_range_count := ct_range_count t - 1\<rparr>)"
      using 2 by (simp only: unf) (simp add: e)
    then show ?thesis
      using insert_joining_both [of p0 r r' n0 g] ok len count
      by (simp only:) (rule insert_outcome_put, auto simp: pn(3) e)
  next
    case 3
    then obtain p0 r where e: "p = p0 @ [r]" "unat g = unat (snd r) + 1" using p by blast
    have "tracker_insert g s t =
        (True, t\<lparr>ct_ranges_by_subgroup := (ct_ranges_by_subgroup t)(s \<mapsto> p0 @ (fst r, g) # n)\<rparr>)"
      using 3 by (simp only: unf) (simp add: e)
    then show ?thesis
      using insert_joining_previous [of p0 r n g] nn [OF 3(3)] ok count
      by (simp only:) (rule insert_outcome_put, auto simp: pn(3) e)
  next
    case 4
    then obtain r n0 where e: "n = r # n0" "unat (fst r) = unat g + 1" using n by blast
    have "tracker_insert g s t =
        (True, t\<lparr>ct_ranges_by_subgroup := (ct_ranges_by_subgroup t)(s \<mapsto> p @ (g, snd r) # n0)\<rparr>)"
      using 4 by (simp only: unf) (simp add: e)
    then show ?thesis
      using insert_joining_next [of p r n0 g] np [OF 4(2,1)] ok count
      by (simp only:) (rule insert_outcome_put, auto simp: pn(3) e)
  next
    case 5
    show ?thesis
    proof (cases "ct_range_count t \<ge> kMaximumSparseRanges")
      case True
      then have "tracker_insert g s t = (False, t\<lparr>ct_exhausted := True\<rparr>)" using 5 by (simp only: unf) simp
      then show ?thesis using True 5 count by (simp add: insert_outcome_def)
    next
      case False
      then have "tracker_insert g s t = (True, t\<lparr>ct_ranges_by_subgroup :=
          (ct_ranges_by_subgroup t)(s \<mapsto> p @ (g, g) # n), ct_range_count := ct_range_count t + 1\<rparr>)"
        using 5 by (simp only: unf) simp
      then show ?thesis
        using insert_alone [OF pn(4) np [OF 5(2,1)] nn [OF 5(3)]] False
        by (simp only:) (rule insert_outcome_put, auto simp: pn(3))
    qed
  qed
qed

subsection \<open>The tracker is a bounded set\<close>

lemma ranges_of_upd: "ct_ranges_by_subgroup t' = (ct_ranges_by_subgroup t)(s \<mapsto> rs) \<Longrightarrow>
    ranges_of t' x = (if x = s then rs else ranges_of t x)"
  by (simp add: ranges_of_def)

lemma tracker_ok_new: "tracker_ok new_tracker"
  by (simp add: tracker_ok_def new_tracker_def)

lemma tracker_ok_insert:
  assumes t: "tracker_ok t"
  shows "tracker_ok (snd (tracker_insert g s t))"
proof (cases "fst (tracker_insert g s t)")
  case True
  let ?t' = "snd (tracker_insert g s t)" and ?d = "dom (ct_ranges_by_subgroup t)"
  obtain rs where rs: "rs \<noteq> []" "ranges_ok rs" "ct_ranges_by_subgroup ?t' = (ct_ranges_by_subgroup t)(s \<mapsto> rs)"
    "ct_range_count ?t' + length (ranges_of t s) = ct_range_count t + length rs"
    "ct_range_count ?t' \<le> kMaximumSparseRanges"
    using tracker_insert_outcome [OF t, of g s] True by (auto simp: insert_outcome_def)
  have fin: "finite ?d" and sum: "ct_range_count t = (\<Sum>x \<in> ?d. length (ranges_of t x))"
    using t by (auto simp: tracker_ok_def)
  have others: "(\<Sum>x \<in> ?d - {s}. length (ranges_of ?t' x)) = (\<Sum>x \<in> ?d - {s}. length (ranges_of t x))"
    by (rule sum.cong) (auto simp: ranges_of_upd [OF rs(3)])
  have "(\<Sum>x \<in> insert s ?d. length (ranges_of ?t' x)) = length rs + (\<Sum>x \<in> ?d - {s}. length (ranges_of t x))"
    using fin others by (simp add: sum.insert_remove ranges_of_upd [OF rs(3)])
  moreover have "(\<Sum>x \<in> ?d. length (ranges_of t x)) =
      length (ranges_of t s) + (\<Sum>x \<in> ?d - {s}. length (ranges_of t x))"
  proof (cases "s \<in> ?d")
    case True
    then show ?thesis using fin by (simp add: sum.remove)
  next
    case False
    then have "ranges_of t s = []" by (auto simp: ranges_of_def split: option.splits)
    then show ?thesis using False by simp
  qed
  ultimately have "ct_range_count ?t' = (\<Sum>x \<in> insert s ?d. length (ranges_of ?t' x))"
    using rs(4) sum by simp
  moreover have "dom (ct_ranges_by_subgroup ?t') = insert s ?d" using rs(3) by auto
  ultimately show ?thesis using t rs fin by (auto simp: tracker_ok_def)
next
  case False
  then show ?thesis
    using tracker_insert_outcome [OF t, of g s] t
    by (auto simp: insert_outcome_def tracker_ok_def ranges_of_def)
qed

lemma tracker_contains_insert:
  assumes t: "tracker_ok t"
  shows "tracker_contains (snd (tracker_insert g s t)) x y \<longleftrightarrow>
    tracker_contains t x y \<or> fst (tracker_insert g s t) \<and> x = g \<and> y = s"
proof -
  have "covered (ranges_of (snd (tracker_insert g s t)) y) x \<longleftrightarrow>
      covered (ranges_of t y) x \<or> fst (tracker_insert g s t) \<and> x = g \<and> y = s"
  proof (cases "fst (tracker_insert g s t)")
    case True
    then show ?thesis
      using tracker_insert_outcome [OF t, of g s] by (auto simp: insert_outcome_def ranges_of_upd split: if_splits)
  next
    case False
    then show ?thesis
      using tracker_insert_outcome [OF t, of g s] by (auto simp: insert_outcome_def ranges_of_def)
  qed
  then show ?thesis using t tracker_ok_insert [OF t] by (simp add: tracker_contains_covered)
qed

interpretation completion: bounded_set new_tracker "\<lambda>t (g, s). tracker_contains t g s"
    "\<lambda>(g, s) t. tracker_insert g s t" tracker_ok
proof
  show "tracker_ok new_tracker" by (rule tracker_ok_new)
  show "tracker_ok t \<Longrightarrow> tracker_ok (snd ((case x of (g, s) \<Rightarrow> tracker_insert g s) t))" for t x
    by (cases x) (simp add: tracker_ok_insert)
  show "\<not> (case y of (g, s) \<Rightarrow> tracker_contains new_tracker g s)" for y
    by (cases y) (simp add: tracker_contains_def new_tracker_def)
  show "tracker_ok t \<Longrightarrow> (case y of (g, s) \<Rightarrow> tracker_contains (snd ((case x of (g, s) \<Rightarrow> tracker_insert g s) t)) g s) \<longleftrightarrow>
      (case y of (g, s) \<Rightarrow> tracker_contains t g s) \<or>
      fst ((case x of (g, s) \<Rightarrow> tracker_insert g s) t) \<and> y = x" for t x y
    by (cases x, cases y) (auto simp: tracker_contains_insert)
qed

definition complete_all :: "(u64 \<times> u64) list \<Rightarrow> CompletionTracker \<Rightarrow> CompletionTracker" where
  "complete_all ks t = fold (\<lambda>k t. snd ((case k of (g, s) \<Rightarrow> tracker_insert g s) t)) ks t"

lemma exhausted_insert:
  "ct_exhausted (snd (tracker_insert g s t)) \<longleftrightarrow> ct_exhausted t \<or> \<not> fst (tracker_insert g s t)"
  by (simp add: tracker_insert_def Let_def)

lemma accepted_all:
  "\<not> ct_exhausted (complete_all ks t) \<Longrightarrow>
     accepted (\<lambda>(g, s). tracker_insert g s) ks t = ks \<and> \<not> ct_exhausted t"
proof (induction ks arbitrary: t)
  case (Cons k ks)
  obtain g s where k: "k = (g, s)" by (cases k)
  have "\<not> ct_exhausted (complete_all ks (snd (tracker_insert g s t)))"
    using Cons.prems by (simp add: complete_all_def k)
  then show ?case using Cons.IH [of "snd (tracker_insert g s t)"] by (simp add: k exhausted_insert)
qed (simp add: complete_all_def)

lemma accepted_subset: "set (accepted add ks t) \<subseteq> set ks"
  by (induction ks arbitrary: t) auto

lemma tracker_ok_complete_all: "tracker_ok (complete_all ks new_tracker)"
  unfolding complete_all_def by (rule completion.inv_fold [OF tracker_ok_new])

lemma card_dom_le_count: "tracker_ok t \<Longrightarrow> card (dom (ct_ranges_by_subgroup t)) \<le> ct_range_count t"
proof -
  assume t: "tracker_ok t"
  have "1 \<le> length (ranges_of t s)" if "s \<in> dom (ct_ranges_by_subgroup t)" for s
    using t that by (fastforce simp: tracker_ok_def ranges_of_def Suc_le_eq)
  then have "(\<Sum>s \<in> dom (ct_ranges_by_subgroup t). 1) \<le>
      (\<Sum>s \<in> dom (ct_ranges_by_subgroup t). length (ranges_of t s))"
    by (rule sum_mono)
  then show ?thesis using t by (simp add: tracker_ok_def)
qed

text \<open>C18: The compact ranges are exact: after any sequence of completions the tracker contains only
  subgroups that completed, and all of them unless it reported that its history is exhausted; its storage
  never exceeds 512 entries.\<close>

theorem completed_subgroups_exact:
  assumes "t = complete_all ks new_tracker"
  shows "(tracker_contains t g s \<longrightarrow> (g, s) \<in> set ks) \<and>
    (\<not> ct_exhausted t \<longrightarrow> (g, s) \<in> set ks \<longrightarrow> tracker_contains t g s) \<and>
    storage_entry_count t \<le> 2 * kMaximumSparseRanges"
proof -
  have run: "tracker_contains t g s \<longleftrightarrow> (g, s) \<in> set (accepted (\<lambda>(g, s). tracker_insert g s) ks new_tracker)"
    using completion.member_run [of ks "(g, s)"] assms by (simp add: complete_all_def)
  have ok: "tracker_ok t" using tracker_ok_complete_all assms by simp
  then have "storage_entry_count t \<le> 2 * kMaximumSparseRanges"
    using card_dom_le_count [OF ok] by (simp add: storage_entry_count_def tracker_ok_def)
  moreover have "accepted (\<lambda>(g, s). tracker_insert g s) ks new_tracker = ks" if "\<not> ct_exhausted t"
    using that accepted_all assms by simp
  ultimately show ?thesis using run accepted_subset by fastforce
qed

theorem completed_subgroups_exact_witness:
  "tracker_contains (complete_all [(7, 0), (5, 0), (6, 0)] new_tracker) 6 0 \<and>
   storage_entry_count (complete_all [(7, 0), (5, 0), (6, 0)] new_tracker) \<le> 512"
  using completed_subgroups_exact
    [of "complete_all [(7, 0), (5, 0), (6, 0)] new_tracker" "[(7, 0), (5, 0), (6, 0)]" 6 0]
  by (simp add: complete_all_def new_tracker_def tracker_insert_def upper_bound_def before_bound_def
      kMaximumSparseRanges_def)

lemma complete_contiguous:
  "unat k + n < 2 ^ 64 \<Longrightarrow>
   complete_all (map (\<lambda>i. (k + of_nat i, s)) [0..<Suc n]) new_tracker =
     \<lparr>ct_ranges_by_subgroup = [s \<mapsto> [(k, k + of_nat n)]], ct_range_count = 1, ct_exhausted = False\<rparr>"
proof (induction n)
  case 0
  then show ?case
    by (simp add: fun_eq_iff complete_all_def new_tracker_def tracker_insert_def upper_bound_def before_bound_def
      kMaximumSparseRanges_def)
next
  case (Suc n)
  have n: "unat (k + of_nat n) = unat k + n" "unat (k + of_nat (Suc n)) = unat k + Suc n"
    using Suc.prems by (auto simp: unat_word_ariths unat_of_nat)
  then have ne: "k + of_nat n \<noteq> - 1" and le: "k \<le> k + of_nat (Suc n)" and lt: "\<not> k + of_nat (Suc n) \<le> k + of_nat n"
    using Suc.prems by (auto simp: word_le_nat_alt unsigned_minus_1_eq_mask mask_eq_exp_minus_1 word_unat_eq_iff)
  have "complete_all (map (\<lambda>i. (k + of_nat i, s)) [0..<Suc (Suc n)]) new_tracker =
      snd (tracker_insert (k + of_nat (Suc n)) s (complete_all (map (\<lambda>i. (k + of_nat i, s)) [0..<Suc n]) new_tracker))"
    by (simp add: complete_all_def)
  also have "\<dots> = \<lparr>ct_ranges_by_subgroup = [s \<mapsto> [(k, k + of_nat (Suc n))]], ct_range_count = 1, ct_exhausted = False\<rparr>"
    using Suc ne le lt
    by (simp add: fun_eq_iff tracker_insert_def upper_bound_def before_bound_def add.assoc add.commute)
  finally show ?case .
qed

text \<open>A track whose groups complete in order never exhausts the history: any number of consecutive
  groups of one subgroup is a single range.\<close>

theorem in_order_completion_is_one_range:
  assumes "unat k + n < 2 ^ 64" and "t = complete_all (map (\<lambda>i. (k + of_nat i, s)) [0..<Suc n]) new_tracker"
  shows "ct_range_count t = 1 \<and> \<not> ct_exhausted t \<and>
    (\<forall>g. tracker_contains t g s \<longleftrightarrow> k \<le> g \<and> g \<le> k + of_nat n)"
proof -
  have t: "t = \<lparr>ct_ranges_by_subgroup = [s \<mapsto> [(k, k + of_nat n)]], ct_range_count = 1, ct_exhausted = False\<rparr>"
    using complete_contiguous [OF assms(1)] assms(2) by simp
  then show ?thesis by (auto simp: tracker_contains_def ranges_contain_def before_bound_def)
qed

theorem in_order_completion_is_one_range_witness:
  "ct_range_count (complete_all (map (\<lambda>i. (100 + of_nat i, 0)) [0..<Suc 1000]) new_tracker) = 1"
  using in_order_completion_is_one_range [of 100 1000 _ 0] by simp

end
