(* ===== verification/Ordered_Map.thy ===== *)
theory Ordered_Map
  imports Prelude
begin

text \<open>
  \<open>std::map\<close> as the list of its entries in key order: what the components that iterate over a map need.
  Lookup is \<open>map_of\<close>; insertion and removal keep the order. \<open>std::set\<close> is the same with unit values
  where the code iterates over it.
\<close>

type_synonym ('k, 'v) omap = "('k \<times> 'v) list"

definition omap_ok :: "('k :: linorder, 'v) omap \<Rightarrow> bool" where
  "omap_ok m \<longleftrightarrow> sorted_wrt (<) (map fst m)"

text \<open>\<open>insert_or_assign\<close>, \<open>erase\<close>, and \<open>emplace\<close> (which keeps an existing value).\<close>

fun omap_put :: "'k :: linorder \<Rightarrow> 'v \<Rightarrow> ('k, 'v) omap \<Rightarrow> ('k, 'v) omap" where
  "omap_put k v [] = [(k, v)]"
| "omap_put k v ((k', v') # m) =
     (if k < k' then (k, v) # (k', v') # m
      else if k = k' then (k, v) # m
      else (k', v') # omap_put k v m)"

definition omap_erase :: "'k :: linorder \<Rightarrow> ('k, 'v) omap \<Rightarrow> ('k, 'v) omap" where
  "omap_erase k m = filter (\<lambda>e. fst e \<noteq> k) m"

definition omap_emplace :: "'k :: linorder \<Rightarrow> 'v \<Rightarrow> ('k, 'v) omap \<Rightarrow> ('k, 'v) omap" where
  "omap_emplace k v m = (if map_of m k = None then omap_put k v m else m)"

subsection \<open>Laws\<close>

lemma omap_ok_Nil [simp]: "omap_ok []"
  by (simp add: omap_ok_def)

lemma omap_ok_Cons: "omap_ok (e # m) \<longleftrightarrow> (\<forall>e' \<in> set m. fst e < fst e') \<and> omap_ok m"
  by (auto simp: omap_ok_def)

lemma omap_ok_distinct: "omap_ok m \<Longrightarrow> distinct (map fst m)"
  by (induction m) (auto simp: omap_ok_Cons)

lemma set_omap_put: "set (omap_put k v m) \<subseteq> insert (k, v) (set m)"
  by (induction k v m rule: omap_put.induct) auto

lemma omap_ok_put [simp]: "omap_ok m \<Longrightarrow> omap_ok (omap_put k v m)"
proof (induction k v m rule: omap_put.induct)
  case (2 k v k' v' m)
  then show ?case using set_omap_put [of k v m] by (auto simp: omap_ok_Cons dest: order.strict_trans)
qed (simp add: omap_ok_Cons)

lemma map_of_omap_put [simp]: "omap_ok m \<Longrightarrow> map_of (omap_put k v m) = (map_of m)(k \<mapsto> v)"
proof (induction k v m rule: omap_put.induct)
  case (2 k v k' v' m)
  then show ?case by (auto simp: omap_ok_Cons fun_eq_iff)
qed simp

lemma omap_ok_erase [simp]: "omap_ok m \<Longrightarrow> omap_ok (omap_erase k m)"
  by (auto simp: omap_ok_def omap_erase_def sorted_wrt_map sorted_wrt_filter)

lemma map_of_omap_erase [simp]: "map_of (omap_erase k m) = (map_of m)(k := None)"
  by (induction m) (auto simp: omap_erase_def fun_eq_iff)

lemma set_omap_erase: "set (omap_erase k m) = {e \<in> set m. fst e \<noteq> k}"
  by (simp add: omap_erase_def)

lemma omap_ok_emplace [simp]: "omap_ok m \<Longrightarrow> omap_ok (omap_emplace k v m)"
  by (simp add: omap_emplace_def)

lemma map_of_omap_emplace [simp]:
  "omap_ok m \<Longrightarrow> map_of (omap_emplace k v m) = (if map_of m k = None then (map_of m)(k \<mapsto> v) else map_of m)"
  by (simp add: omap_emplace_def)

lemma omap_lookup_iff: "omap_ok m \<Longrightarrow> map_of m k = Some v \<longleftrightarrow> (k, v) \<in> set m"
  using omap_ok_distinct [of m] by simp

lemma omap_put_lookup_same: "omap_ok m \<Longrightarrow> map_of m k = Some v \<Longrightarrow> omap_put k v m = m"
proof (induction k v m rule: omap_put.induct)
  case (2 k v k' v' m)
  then show ?case by (auto simp: omap_ok_Cons dest!: map_of_SomeD split: if_splits)
qed simp

end
