(* ===== verification/Priority_Scheduler.thy ===== *)
theory Priority_Scheduler
  imports Prelude "HOL-Library.Product_Lexorder"
begin

text \<open>
  The priority scheduler of \<open>src/transport/moqt_session.cpp\<close> (\<open>priority_scheduler_internal\<close>): the order
  in which objects that wait for the transport are sent, within one request (\<open>precedes\<close>) and across
  requests (\<open>precedes_cross_request\<close>), and the transport class an object's two priorities map to. The
  source keeps candidates in a \<open>std::set\<close> and a heap with these comparators, which is defined only for a
  strict weak order; the interface \<open>comparator\<close> states that, with the set's insertion proved once for
  every order that meets it. The counters kept for tests are not modelled.
\<close>

record CandidatePriority =
  cp_subscriber_priority :: u8
  cp_publisher_priority :: u8
  cp_media_time_us :: u64
  cp_request_fairness_round :: u64
  cp_group_order :: u8
  cp_group_id :: u64
  cp_subgroup_id :: u64
  cp_object_id :: u64
  cp_request_id :: u64
  cp_plan_index :: nat

definition precedes :: "CandidatePriority \<Rightarrow> CandidatePriority \<Rightarrow> bool" where
  "precedes first second =
     (if cp_subscriber_priority first \<noteq> cp_subscriber_priority second then
        cp_subscriber_priority first < cp_subscriber_priority second
      else if cp_publisher_priority first \<noteq> cp_publisher_priority second then
        cp_publisher_priority first < cp_publisher_priority second
      else if (cp_request_fairness_round first, cp_request_id first) \<noteq>
              (cp_request_fairness_round second, cp_request_id second) then
        (cp_request_fairness_round first, cp_request_id first) <
        (cp_request_fairness_round second, cp_request_id second)
      else
      let first_group_order = (if cp_group_order first = 2 then 2 else 1) :: u8;
          second_group_order = (if cp_group_order second = 2 then 2 else 1) :: u8 in
      if first_group_order \<noteq> second_group_order then first_group_order < second_group_order
      else if cp_group_id first \<noteq> cp_group_id second then
        (if first_group_order = 2 then cp_group_id first > cp_group_id second
         else cp_group_id first < cp_group_id second)
      else if cp_subgroup_id first \<noteq> cp_subgroup_id second then cp_subgroup_id first < cp_subgroup_id second
      else if cp_object_id first \<noteq> cp_object_id second then cp_object_id first < cp_object_id second
      else (cp_request_id first, cp_plan_index first) < (cp_request_id second, cp_plan_index second))"

definition precedes_cross_request :: "CandidatePriority \<Rightarrow> CandidatePriority \<Rightarrow> bool" where
  "precedes_cross_request first second =
     (if cp_subscriber_priority first \<noteq> cp_subscriber_priority second then
        cp_subscriber_priority first < cp_subscriber_priority second
      else if cp_publisher_priority first \<noteq> cp_publisher_priority second then
        cp_publisher_priority first < cp_publisher_priority second
      else if cp_media_time_us first \<noteq> cp_media_time_us second then
        cp_media_time_us first < cp_media_time_us second
      else precedes first second)"

text \<open>\<open>std::uint32_t\<close> arithmetic, narrowed to the byte returned.\<close>

definition object_transport_priority :: "u8 \<Rightarrow> u8 \<Rightarrow> u8" where
  "object_transport_priority subscriber_priority publisher_priority =
     (let tuple_rank = push_bit 8 (ucast subscriber_priority) OR ucast publisher_priority :: u32 in
      ucast (2 + (tuple_rank * (254 - 1)) div 0xffff))"

subsection \<open>Ordered sets with a comparator\<close>

text \<open>
  What \<open>std::set\<close> and the heap algorithms require of a comparator. \<open>set_insert\<close> is \<open>std::set::insert\<close> on
  the elements in order: an element equivalent to one that is there is not inserted.
\<close>

fun set_insert :: "('a \<Rightarrow> 'a \<Rightarrow> bool) \<Rightarrow> 'a \<Rightarrow> 'a list \<Rightarrow> 'a list" where
  "set_insert lt x [] = [x]"
| "set_insert lt x (y # ys) =
     (if lt x y then x # y # ys else if lt y x then y # set_insert lt x ys else y # ys)"

locale comparator =
  fixes lt :: "'a \<Rightarrow> 'a \<Rightarrow> bool"
  assumes irreflexive: "\<not> lt x x"
    and transitive: "lt x y \<Longrightarrow> lt y z \<Longrightarrow> lt x z"
    and equivalence_transitive:
      "\<not> lt x y \<Longrightarrow> \<not> lt y x \<Longrightarrow> \<not> lt y z \<Longrightarrow> \<not> lt z y \<Longrightarrow> \<not> lt x z \<and> \<not> lt z x"
begin

lemma asymmetric: "lt x y \<Longrightarrow> \<not> lt y x"
  using irreflexive transitive by blast

lemma less_equivalent: "lt x y \<Longrightarrow> \<not> lt y z \<Longrightarrow> \<not> lt z y \<Longrightarrow> lt x z"
  using equivalence_transitive transitive asymmetric by metis

lemma set_insert_members: "set (set_insert lt x ys) \<subseteq> insert x (set ys)"
  by (induction ys) auto

lemma set_insert_keeps: "set ys \<subseteq> set (set_insert lt x ys)"
  by (induction ys) auto

lemma set_insert_sorted: "sorted_wrt lt ys \<Longrightarrow> sorted_wrt lt (set_insert lt x ys)"
proof (induction ys)
  case (Cons y ys)
  show ?case
  proof (cases "lt x y")
    case True
    then show ?thesis using Cons.prems by (auto dest: transitive)
  next
    case False
    then show ?thesis using Cons set_insert_members [of x ys] by auto
  qed
qed simp

lemma set_insert_equivalent: "\<exists>y \<in> set (set_insert lt x ys). \<not> lt x y \<and> \<not> lt y x"
  by (induction ys) (auto simp: irreflexive)

lemma sorted_head_least: "sorted_wrt lt (y # ys) \<Longrightarrow> z \<in> set (y # ys) \<Longrightarrow> \<not> lt z y"
  using asymmetric irreflexive by auto

lemma fold_set_insert_sorted:
  "sorted_wrt lt ys \<Longrightarrow> sorted_wrt lt (fold (set_insert lt) xs ys)"
  by (induction xs arbitrary: ys) (simp_all add: set_insert_sorted)

lemma fold_set_insert_members:
  "set (fold (set_insert lt) xs ys) \<subseteq> set xs \<union> set ys"
proof (induction xs arbitrary: ys)
  case (Cons x xs)
  then show ?case using set_insert_members [of x ys] by fastforce
qed simp

lemma fold_set_insert_keeps: "set ys \<subseteq> set (fold (set_insert lt) xs ys)"
proof (induction xs arbitrary: ys)
  case (Cons x xs)
  then show ?case using set_insert_keeps [of ys x] by fastforce
qed simp

lemma fold_set_insert_equivalent:
  "x \<in> set xs \<Longrightarrow> \<exists>y \<in> set (fold (set_insert lt) xs ys). \<not> lt x y \<and> \<not> lt y x"
proof (induction xs arbitrary: ys)
  case (Cons z xs)
  then show ?case
    using set_insert_equivalent [of z ys] fold_set_insert_keeps [of "set_insert lt z ys" xs]
    by (cases "x = z") auto
qed simp

end

subsection \<open>The scheduling order\<close>

text \<open>
  The order is that of a tuple: descending group order (2) compares groups by their complement.
\<close>

definition normal_group_order :: "u8 \<Rightarrow> u8" where
  "normal_group_order g = (if g = 2 then 2 else 1)"

definition local_key :: "CandidatePriority \<Rightarrow> (u8 \<times> int) \<times> (u64 \<times> u64) \<times> nat" where
  "local_key c =
     ((normal_group_order (cp_group_order c),
       if cp_group_order c = 2 then - uint (cp_group_id c) else uint (cp_group_id c)),
      (cp_subgroup_id c, cp_object_id c), cp_plan_index c)"

definition priority_key ::
    "CandidatePriority \<Rightarrow> (u8 \<times> u8) \<times> (u64 \<times> u64) \<times> (u8 \<times> int) \<times> (u64 \<times> u64) \<times> nat" where
  "priority_key c =
     ((cp_subscriber_priority c, cp_publisher_priority c),
      (cp_request_fairness_round c, cp_request_id c), local_key c)"

definition cross_request_key ::
    "CandidatePriority \<Rightarrow> (u8 \<times> u8) \<times> u64 \<times> (u64 \<times> u64) \<times> (u8 \<times> int) \<times> (u64 \<times> u64) \<times> nat" where
  "cross_request_key c =
     ((cp_subscriber_priority c, cp_publisher_priority c), cp_media_time_us c,
      (cp_request_fairness_round c, cp_request_id c), local_key c)"

lemma precedes_key: "precedes a b \<longleftrightarrow> priority_key a < priority_key b"
  by (auto simp: precedes_def priority_key_def local_key_def normal_group_order_def Let_def less_prod_def'
      word_less_def [symmetric] word_uint_eq_iff [symmetric])

lemma precedes_cross_request_key:
  "precedes_cross_request a b \<longleftrightarrow> cross_request_key a < cross_request_key b"
  by (auto simp: precedes_cross_request_def precedes_key cross_request_key_def priority_key_def)

interpretation frontier_order: comparator precedes
  by unfold_locales (auto simp: precedes_key)

interpretation cross_order: comparator precedes_cross_request
  by unfold_locales (auto simp: precedes_cross_request_key)

lemma frontier_equivalent:
  "\<not> precedes a b \<and> \<not> precedes b a \<longleftrightarrow> priority_key a = priority_key b"
  by (auto simp: precedes_key)

text \<open>The set of frontiers of a request always offers a most urgent candidate: whatever candidates
  were inserted, in any order, the first of the set is one of them, none of them precedes it, none has a
  higher subscriber or publisher priority, and every candidate is in the set or has an equal one there.\<close>

theorem scheduler_offers_most_urgent:
  assumes "fold (set_insert precedes) cs [] = c # rest"
  shows "c \<in> set cs \<and>
    (\<forall>d \<in> set cs. \<not> precedes d c \<and>
       (cp_subscriber_priority c, cp_publisher_priority c) \<le> (cp_subscriber_priority d, cp_publisher_priority d) \<and>
       (\<exists>e \<in> set (c # rest). cp_request_id e = cp_request_id d \<and> cp_plan_index e = cp_plan_index d)) \<and>
    sorted_wrt precedes (c # rest)"
proof -
  have sorted: "sorted_wrt precedes (c # rest)"
    using frontier_order.fold_set_insert_sorted [of "[]" cs] assms by simp
  have c: "c \<in> set cs" using frontier_order.fold_set_insert_members [of cs "[]"] assms by auto
  have rep: "\<exists>e \<in> set (c # rest). priority_key d = priority_key e" if "d \<in> set cs" for d
    using frontier_order.fold_set_insert_equivalent [OF that, of "[]"] assms
    by (simp add: frontier_equivalent)
  have "\<not> precedes d c" if "d \<in> set cs" for d
    using rep [OF that] frontier_order.sorted_head_least [OF sorted] by (auto simp: precedes_key)
  moreover have "(cp_subscriber_priority c, cp_publisher_priority c) \<le>
      (cp_subscriber_priority d, cp_publisher_priority d)" if "\<not> precedes d c" for d
    using that unfolding precedes_key priority_key_def by (auto simp: less_prod_def' less_eq_prod_def)
  moreover have "\<exists>e \<in> set (c # rest). cp_request_id e = cp_request_id d \<and> cp_plan_index e = cp_plan_index d"
    if "d \<in> set cs" for d
    using rep [OF that] by (auto simp: priority_key_def local_key_def)
  ultimately show ?thesis using c sorted by blast
qed

definition example_candidate :: "u8 \<Rightarrow> nat \<Rightarrow> CandidatePriority" where
  "example_candidate priority index =
     \<lparr>cp_subscriber_priority = priority, cp_publisher_priority = 128, cp_media_time_us = 0,
      cp_request_fairness_round = 0, cp_group_order = 1, cp_group_id = 0, cp_subgroup_id = 0,
      cp_object_id = 0, cp_request_id = 1, cp_plan_index = index\<rparr>"

theorem scheduler_offers_most_urgent_witness:
  "\<not> precedes (example_candidate 128 0) (example_candidate 64 1)"
  using scheduler_offers_most_urgent
    [of "[example_candidate 128 0, example_candidate 64 1]" "example_candidate 64 1" "[example_candidate 128 0]"]
  by (simp add: precedes_def example_candidate_def)

subsection \<open>Transport classes\<close>

lemma unat_ucast_u8_u32 [simp]: "unat (ucast (x :: u8) :: u32) = unat x"
proof -
  have "take_bit 32 (unat x) = unat x" using unat_u8_less [of x] by (simp add: take_bit_nat_eq_self)
  then show ?thesis by (simp add: unsigned_ucast_eq)
qed

lemma unat_object_transport_priority:
  "unat (object_transport_priority s p) = 2 + ((unat s * 256 + unat p) * 253) div 65535"
proof -
  let ?rank = "push_bit 8 (ucast s) OR ucast p :: u32"
  have "?rank = push_bit 8 (ucast s) + ucast p"
    by (rule disjunctive_add_eq_or [symmetric], rule bit_word_eqI) (auto simp: bit_simps dest: bit_imp_le_length)
  moreover have "unat (push_bit 8 (ucast s :: u32)) = unat s * 256"
    using unat_u8_less [of s] by (simp add: push_bit_eq_mult unat_word_ariths)
  ultimately have rank: "unat ?rank = unat s * 256 + unat p"
    using unat_u8_less [of s] unat_u8_less [of p] by (simp add: unat_word_ariths)
  have le: "unat s * 256 + unat p \<le> 65535" using unat_u8_less [of s] unat_u8_less [of p] by simp
  have "unat (?rank * (254 - 1)) = (unat s * 256 + unat p) * 253"
    using le by (simp add: unat_word_ariths rank)
  then have "unat (2 + (?rank * (254 - 1)) div 0xffff) = 2 + ((unat s * 256 + unat p) * 253) div 65535"
    using le by (simp add: unat_word_ariths unat_div)
  moreover have "2 + ((unat s * 256 + unat p) * 253) div 65535 < 256"
    using div_le_mono [OF mult_le_mono1 [OF le, of 253], of 65535] by simp
  ultimately show ?thesis
    by (simp add: object_transport_priority_def Let_def unsigned_ucast_eq take_bit_nat_eq_self)
qed

text \<open>An object's two priorities map to the transport classes 2 to 255, keeping their order: a more
  urgent pair, the subscriber's priority first, never gets a less urgent class, the most urgent pair gets
  class 2 and the least urgent class 255.\<close>

theorem transport_priority_monotone:
  assumes "s < s' \<or> s = s' \<and> p \<le> p'"
  shows "2 \<le> object_transport_priority s p \<and>
    object_transport_priority s p \<le> object_transport_priority s' p' \<and>
    object_transport_priority 0 0 = 2 \<and> object_transport_priority 255 255 = 255"
proof -
  have "unat s * 256 + unat p \<le> unat s' * 256 + unat p'"
    using assms unat_u8_less [of p] by (auto simp: word_less_nat_alt word_le_nat_alt)
  then have "((unat s * 256 + unat p) * 253) div 65535 \<le> ((unat s' * 256 + unat p') * 253) div 65535"
    by (intro div_le_mono) simp
  then have "object_transport_priority s p \<le> object_transport_priority s' p'"
    by (simp add: word_le_nat_alt unat_object_transport_priority)
  moreover have "2 \<le> object_transport_priority s p"
    by (simp add: word_le_nat_alt unat_object_transport_priority)
  moreover have "object_transport_priority 0 0 = 2 \<and> object_transport_priority 255 255 = 255"
    by (simp add: word_unat_eq_iff unat_object_transport_priority)
  ultimately show ?thesis by blast
qed

theorem transport_priority_monotone_witness:
  "object_transport_priority 64 200 \<le> object_transport_priority 128 0"
  using transport_priority_monotone [of 64 128 200 0] by simp

end
