(* ===== verification/Control_Subscribe.thy ===== *)
theory Control_Subscribe
  imports Control_Decode
begin

text \<open>
  The decoders of \<open>src/transport/moqt_control_messages.cpp\<close> for subscription state: the location
  filter and FILL_PARAMETERS, SUBSCRIBE and TRACK_STATUS, SUBSCRIBE_TRACKS, REQUEST_UPDATE, the archived
  SUBSCRIBE_UPDATE, FETCH and PUBLISH_OK. \<open>std::size_t\<close> members are 64-bit words.
\<close>

subsection \<open>Messages\<close>

record SubscriptionFilter =
  sf_filter_type :: u64
  sf_start_group_id :: u64
  sf_start_object_id :: u64
  sf_end_group_id :: u64
  sf_end_object_id :: "u64 option"

record SubscribeTracksMessage =
  st_request_id :: u64
  st_track_namespace_prefix :: "string list"
  st_forward :: u8
  st_group_order :: u8
  st_subscription_filter :: "SubscriptionFilter option"
  st_has_unnegotiated_range_filter :: bool
  st_fill_requested :: bool
  st_malformed_authorization_token :: bool
  st_authorization_token_cache_overflow :: bool
  st_unknown_authorization_token_alias :: bool

record DeliveryTimeouts =
  object_ms :: u64
  subgroup_ms :: u64

record LocationFilterForm =
  lf_type :: u64
  lf_start_group :: u64
  lf_start_object :: u64
  lf_end_group_delta :: u64
  lf_end_object :: u64

record SubscribeMessage =
  sub_request_id :: u64
  sub_track_namespace :: "string list"
  sub_track_name :: string
  sub_subscriber_priority :: u8
  sub_group_order :: u8
  sub_forward :: u8
  sub_filter_type :: u64
  sub_start_group_id :: u64
  sub_start_object_id :: u64
  sub_end_group_id :: u64
  sub_end_object_id :: "u64 option"
  sub_delivery_timeouts :: DeliveryTimeouts
  sub_fill_requested :: bool
  sub_location_filter :: "LocationFilterForm option"
  sub_fill_location_filter :: "LocationFilterForm option"
  sub_has_unnegotiated_range_filter :: bool
  sub_malformed_authorization_token :: bool
  sub_authorization_token_cache_overflow :: bool
  sub_unknown_authorization_token_alias :: bool

record FetchMessage =
  fetch_request_id :: u64
  fetch_type :: u64
  fetch_joining_request_id :: u64
  fetch_joining_start :: u64
  fetch_malformed_authorization_token :: bool
  fetch_authorization_token_cache_overflow :: bool
  fetch_unknown_authorization_token_alias :: bool

record RequestUpdateMessage =
  ru_request_id :: u64
  ru_existing_request_id :: "u64 option"
  ru_object_delivery_timeout_ms :: "u64 option"
  ru_subgroup_delivery_timeout_ms :: "u64 option"
  ru_subscriber_priority :: "u8 option"
  ru_forward :: "u8 option"
  ru_subscription_filter :: "SubscriptionFilter option"
  ru_new_group_request :: "u64 option"
  ru_track_namespace_prefix :: "string list option"
  ru_has_unnegotiated_range_filter :: bool
  ru_has_authorization_token :: bool
  ru_fill_requested :: bool

record SubscribeUpdateMessage =
  su_request_id :: u64
  su_subscription_request_id :: u64
  su_start_group_id :: u64
  su_start_object_id :: u64
  su_end_group_plus_one :: u64
  su_subscriber_priority :: u8
  su_forward :: u8

record PublishOk =
  ok_request_id :: u64
  ok_forward :: u8
  ok_subscriber_priority :: u8
  ok_group_order :: u8
  ok_filter_type :: u64
  ok_start_group_id :: u64
  ok_start_object_id :: u64
  ok_end_group_id :: u64
  ok_end_object_id :: "u64 option"
  ok_delivery_timeouts :: DeliveryTimeouts

text \<open>The default member values.\<close>

definition no_timeouts :: DeliveryTimeouts where
  "no_timeouts = \<lparr>object_ms = 0, subgroup_ms = 0\<rparr>"

definition default_subscribe :: SubscribeMessage where
  "default_subscribe =
     \<lparr>sub_request_id = 0, sub_track_namespace = [], sub_track_name = [], sub_subscriber_priority = 0,
      sub_group_order = 0, sub_forward = 0, sub_filter_type = 0, sub_start_group_id = 0,
      sub_start_object_id = 0, sub_end_group_id = 0, sub_end_object_id = None,
      sub_delivery_timeouts = no_timeouts, sub_fill_requested = False, sub_location_filter = None,
      sub_fill_location_filter = None, sub_has_unnegotiated_range_filter = False,
      sub_malformed_authorization_token = False, sub_authorization_token_cache_overflow = False,
      sub_unknown_authorization_token_alias = False\<rparr>"

definition default_request_update :: RequestUpdateMessage where
  "default_request_update =
     \<lparr>ru_request_id = 0, ru_existing_request_id = None, ru_object_delivery_timeout_ms = None,
      ru_subgroup_delivery_timeout_ms = None, ru_subscriber_priority = None, ru_forward = None,
      ru_subscription_filter = None, ru_new_group_request = None, ru_track_namespace_prefix = None,
      ru_has_unnegotiated_range_filter = False, ru_has_authorization_token = False,
      ru_fill_requested = False\<rparr>"

definition filter_of :: "SubscribeMessage \<Rightarrow> SubscriptionFilter" where
  "filter_of m = \<lparr>sf_filter_type = sub_filter_type m, sf_start_group_id = sub_start_group_id m,
     sf_start_object_id = sub_start_object_id m, sf_end_group_id = sub_end_group_id m,
     sf_end_object_id = sub_end_object_id m\<rparr>"

subsection \<open>Location filters\<close>

definition location_field_counts :: "nat list" where
  "location_field_counts = [0, 1, 2, 3, 4, 0]"

text \<open>\<open>draft22_location_filter_end\<close>; the failure carries \<open>*unknown_type\<close>.\<close>

definition draft22_location_filter_end :: "bytes \<Rightarrow> nat \<Rightarrow> nat \<Rightarrow> bool + nat" where
  "draft22_location_filter_end bs offset limit =
     (let read = (\<lambda>offset. decode_moqint_impl (take limit bs) offset kDraft22) in
      case read offset of
        Inl _ \<Rightarrow> Inl False
      | Inr (type, offset) \<Rightarrow>
          if type > 5 then Inl True
          else
            (case repeatE (location_field_counts ! unat type)
                (\<lambda>offset. bindE (read offset) (\<lambda>(field, offset). Inr offset)) offset of
               Inl _ \<Rightarrow> Inl False | Inr offset \<Rightarrow> Inr offset))"

text \<open>
  \<open>read_parameter_length\<close> for every parameter but draft-23 FILL_PARAMETERS; the length and the offset
  of the value. \<open>walk_fill_parameters\<close>, which the C++ declares ahead of it, only asks for the length of
  a LOCATION_FILTER, so the two functions are not mutually recursive.
\<close>

definition read_plain_parameter_length ::
    "bytes \<Rightarrow> nat \<Rightarrow> nat \<Rightarrow> DraftVersion \<Rightarrow> u64 \<Rightarrow> (nat \<times> nat) decoded" where
  "read_plain_parameter_length bs offset limit draft parameter_type =
     (if is_draft22_or_later draft \<and> parameter_type = 0x21 then
        (case draft22_location_filter_end bs offset limit of
           Inl unknown_type \<Rightarrow> if unknown_type then reject_noting draft kFaultInvalidParameter else reject
         | Inr typed_end \<Rightarrow> Inr (typed_end - offset, offset))
      else
        bindE (decode_moqint_impl bs offset draft) (\<lambda>(len, offset).
        if fits offset (unat len) limit then Inr (unat len, offset) else reject))"

lemma read_filter_fields_term:
  "decode_moqint_impl bs offset draft = Inr (v, offset') \<Longrightarrow> offset < limit \<Longrightarrow> limit - offset' < limit - offset"
  using decode_moqint_progress [of bs offset draft v offset'] by auto

function read_filter_fields :: "bytes \<Rightarrow> nat \<Rightarrow> nat \<Rightarrow> u64 list \<Rightarrow> (u64 list \<times> nat) decoded" where
  "read_filter_fields bs offset limit acc =
     (if offset < limit then
        (if length acc = 4 then reject
         else case decode_moqint_impl (take limit bs) offset kDraft21 of
           Inl f \<Rightarrow> Inl f
         | Inr (v, offset') \<Rightarrow> read_filter_fields bs offset' limit (acc @ [v]))
      else Inr (acc, offset))"
  by pat_completeness auto
termination
  by (relation "measure (\<lambda>(bs, offset, limit, acc). limit - offset)") (auto dest: read_filter_fields_term)

declare read_filter_fields.simps [simp del]

text \<open>The subscription filter that \<open>count\<close> fields stand for; \<open>None\<close> is an end group that overflows.\<close>

definition location_filter_model :: "u64 list \<Rightarrow> SubscribeMessage \<Rightarrow> SubscribeMessage option" where
  "location_filter_model fs message =
     (let message = message\<lparr>sub_filter_type := 0, sub_start_group_id := 0, sub_start_object_id := 0,
                       sub_end_group_id := 0, sub_end_object_id := None\<rparr> in
      case fs of
        [] \<Rightarrow> Some message
      | [a] \<Rightarrow> Some (message\<lparr>sub_filter_type := if a = 0 then 0x01 else 0x02\<rparr>)
      | [a, b] \<Rightarrow>
          if a = 0 \<and> b = 0 then Some (message\<lparr>sub_filter_type := 0x02\<rparr>)
          else Some (message\<lparr>sub_filter_type := 0x03, sub_start_group_id := a, sub_start_object_id := b\<rparr>)
      | a # b # c # rest \<Rightarrow>
          if c > - 1 - a then None
          else Some (message\<lparr>sub_filter_type := 0x04, sub_start_group_id := a, sub_start_object_id := b,
                      sub_end_group_id := a + c,
                      sub_end_object_id := (case rest of [d] \<Rightarrow> Some d | _ \<Rightarrow> None)\<rparr>))"

definition not_overflowed :: "'a decoded \<Rightarrow> (bool \<times> decode_failure) + 'a" where
  "not_overflowed m = (case m of Inl f \<Rightarrow> Inl (False, f) | Inr r \<Rightarrow> Inr r)"

text \<open>The checks and assignments that follow the fields.\<close>

definition location_filter_result ::
    "DraftVersion \<Rightarrow> u64 option \<Rightarrow> u64 list \<Rightarrow> SubscribeMessage \<Rightarrow> (bool \<times> decode_failure) + SubscribeMessage" where
  "location_filter_result draft explicit_type fs message =
     (let count = length fs; field = (\<lambda>i. if i < count then fs ! i else 0) in
      if (case explicit_type of None \<Rightarrow> False | Some t \<Rightarrow> count \<noteq> location_field_counts ! unat t) then
        Inl (False, Rejected 0)
      else
      case location_filter_model fs message of
        None \<Rightarrow> Inl (True, Rejected (note_decode_fault draft kFaultDeltaEncodingOverflow 0))
      | Some message \<Rightarrow>
          let message = (if explicit_type = Some 5 then message\<lparr>sub_filter_type := 0x02\<rparr> else message);
              message = (if explicit_type = Some 2
                         then message\<lparr>sub_filter_type := 0x03, sub_start_group_id := field 0,
                                sub_start_object_id := field 1\<rparr> else message);
              form_type = (case explicit_type of Some t \<Rightarrow> t
                 | None \<Rightarrow> if count = 2 \<and> field 0 = 0 \<and> field 1 = 0 then 5 else of_nat count) in
          Inr (message\<lparr>sub_location_filter := Some
                 \<lparr>lf_type = form_type, lf_start_group = field 0, lf_start_object = field 1,
                  lf_end_group_delta = field 2, lf_end_object = field 3\<rparr>\<rparr>))"

text \<open>
  \<open>decode_location_filter\<close>. A failure carries \<open>*overflowed\<close>. On success the offset is \<open>limit\<close>.
\<close>

definition decode_location_filter ::
    "bytes \<Rightarrow> nat \<Rightarrow> nat \<Rightarrow> SubscribeMessage \<Rightarrow> DraftVersion \<Rightarrow> (bool \<times> decode_failure) + SubscribeMessage" where
  "decode_location_filter bs offset limit message draft =
     bindE (not_overflowed (if is_draft22_or_later draft then
              bindE (decode_moqint_impl (take limit bs) offset draft) (\<lambda>(type, offset).
              if type > 5 then reject_noting draft kFaultInvalidParameter else Inr (Some type, offset))
            else Inr (None, offset))) (\<lambda>(explicit_type, offset).
     bindE (not_overflowed (read_filter_fields bs offset limit [])) (\<lambda>(fs, offset).
     bindE (location_filter_result draft explicit_type fs message) (\<lambda>message.
     if offset = limit then Inr message else Inl (False, Rejected 0))))"

text \<open>Callers that pass no \<open>overflowed\<close>.\<close>

definition decode_location_filter_simple ::
    "bytes \<Rightarrow> nat \<Rightarrow> nat \<Rightarrow> SubscribeMessage \<Rightarrow> DraftVersion \<Rightarrow> SubscribeMessage decoded" where
  "decode_location_filter_simple bs offset limit message draft =
     (case decode_location_filter bs offset limit message draft of
        Inl (_, f) \<Rightarrow> Inl f | Inr message \<Rightarrow> Inr message)"

definition decode_subscribe_filter ::
    "bytes \<Rightarrow> nat \<Rightarrow> nat \<Rightarrow> DraftVersion \<Rightarrow> SubscribeMessage \<Rightarrow> SubscribeMessage decoded" where
  "decode_subscribe_filter bs offset limit draft message =
     (if is_draft21_or_later draft then decode_location_filter_simple bs offset limit message draft
      else
      bindE (decode_moqint_impl bs offset draft) (\<lambda>(filter_type, offset).
      let message = message\<lparr>sub_filter_type := filter_type\<rparr> in
      if filter_type < 0x01 \<or> filter_type > 0x04 then reject
      else
      bindE (if filter_type = 0x03 \<or> filter_type = 0x04 then
               bindE (decode_moqint_impl bs offset draft) (\<lambda>(group_id, offset).
               bindE (decode_moqint_impl bs offset draft) (\<lambda>(object_id, offset).
               let message = message\<lparr>sub_start_group_id := group_id, sub_start_object_id := object_id\<rparr> in
               if filter_type = 0x04 then
                 bindE (decode_moqint_impl bs offset draft) (\<lambda>(end_group_id, offset).
                 if draft = kDraft17 \<or> draft = kDraft18 then
                   (if end_group_id > - 1 - group_id then reject
                    else Inr (message\<lparr>sub_end_group_id := end_group_id + group_id\<rparr>, offset))
                 else Inr (message\<lparr>sub_end_group_id := end_group_id\<rparr>, offset))
               else Inr (message, offset)))
             else Inr (message\<lparr>sub_start_group_id := 0, sub_start_object_id := 0, sub_end_group_id := 0\<rparr>,
                       offset)) (\<lambda>(message, offset).
      if offset = limit then Inr message else reject)))"

subsection \<open>FILL_PARAMETERS\<close>

definition fill_parameter ::
    "bytes \<Rightarrow> nat \<Rightarrow> DraftVersion \<Rightarrow> nat \<times> u64 \<times> LocationFilterForm option \<Rightarrow>
     (nat \<times> u64 \<times> LocationFilterForm option) decoded" where
  "fill_parameter bs limit draft = (\<lambda>(offset, previous_type, location_filter).
     let scope = take limit bs in
     if offset \<ge> limit then reject
     else
     bindE (decode_parameter_type_simple scope offset draft previous_type True None) (\<lambda>(type, offset).
     if type = 0x0A \<or> type = 0x20 \<or> type = 0x22 then
       bindE (decode_numeric_message_parameter scope offset draft type) (\<lambda>(value, offset).
       if (type = 0x20 \<and> value > 255) \<or> (type = 0x22 \<and> value \<noteq> 1 \<and> value \<noteq> 2) then
         reject_noting draft kFaultInvalidParameter
       else Inr (offset, type, location_filter))
     else if type = 0x21 then
       bindE (read_plain_parameter_length scope offset limit draft type) (\<lambda>(len, offset).
       let filter_end = offset + len in
       bindE (decode_location_filter_simple bs offset filter_end default_subscribe draft) (\<lambda>filter.
       Inr (filter_end, type, sub_location_filter filter)))
     else if type \<in> {0x25, 0x26, 0x27, 0x28} then
       bindE (decode_moqint_impl scope offset draft) (\<lambda>(len, offset).
       if unat len > limit - offset then reject
       else Inr (offset + unat len, type, location_filter))
     else reject_noting draft kFaultInvalidParameter))"

text \<open>\<open>walk_fill_parameters\<close>: the offset past the value and the nested LOCATION_FILTER.\<close>

definition walk_fill_parameters ::
    "bytes \<Rightarrow> nat \<Rightarrow> nat \<Rightarrow> DraftVersion \<Rightarrow> LocationFilterForm option \<Rightarrow>
     (nat \<times> LocationFilterForm option) decoded" where
  "walk_fill_parameters bs offset limit draft location_filter =
     (if \<not> is_draft21_or_later draft then reject
      else
      bindE (decode_moqint_impl (take limit bs) offset draft) (\<lambda>(count, offset).
      bindE (repeatE (unat count) (fill_parameter bs limit draft) (offset, 0, location_filter))
        (\<lambda>(offset, _, location_filter). Inr (offset, location_filter))))"

definition read_parameter_length ::
    "bytes \<Rightarrow> nat \<Rightarrow> nat \<Rightarrow> DraftVersion \<Rightarrow> u64 \<Rightarrow> (nat \<times> nat) decoded" where
  "read_parameter_length bs offset limit draft parameter_type =
     (if is_draft23_or_later draft \<and> parameter_type = 0x23 then
        bindE (walk_fill_parameters bs offset limit draft None) (\<lambda>(walk, _). Inr (walk - offset, offset))
      else read_plain_parameter_length bs offset limit draft parameter_type)"

definition validate_fill_parameters ::
    "bytes \<Rightarrow> nat \<Rightarrow> nat \<Rightarrow> DraftVersion \<Rightarrow> LocationFilterForm option \<Rightarrow> LocationFilterForm option decoded" where
  "validate_fill_parameters bs start limit draft location_filter =
     bindE (walk_fill_parameters bs start limit draft location_filter) (\<lambda>(offset, location_filter).
     if offset = limit then Inr location_filter else reject)"

subsection \<open>SUBSCRIBE and TRACK_STATUS\<close>

definition note_subscribe_token :: "DraftVersion \<Rightarrow> bool \<times> bool \<times> bool \<Rightarrow> SubscribeMessage \<Rightarrow> SubscribeMessage" where
  "note_subscribe_token draft token message =
     (case token of (valid, is_register, uses_alias) \<Rightarrow>
        if \<not> valid then message\<lparr>sub_malformed_authorization_token := True\<rparr>
        else message\<lparr>
          sub_unknown_authorization_token_alias :=
            sub_unknown_authorization_token_alias message \<or> (is_draft18_or_later draft \<and> uses_alias),
          sub_authorization_token_cache_overflow :=
            sub_authorization_token_cache_overflow message \<or> (is_draft18_or_later draft \<and> is_register)\<rparr>)"

text \<open>The \<open>switch\<close> over the even parameter types.\<close>

definition set_numeric_subscribe_parameter ::
    "DraftVersion \<Rightarrow> u64 \<Rightarrow> u64 \<Rightarrow> SubscribeMessage \<Rightarrow> SubscribeMessage decoded" where
  "set_numeric_subscribe_parameter draft parameter_type value message =
     (if parameter_type = 0x02 then
        (if \<not> is_draft18_or_later draft \<and> value = 0 then reject
         else Inr (message\<lparr>sub_delivery_timeouts := (sub_delivery_timeouts message)\<lparr>object_ms := value\<rparr>\<rparr>))
      else if parameter_type = 0x06 then
        (if is_draft18_or_later draft then
           Inr (message\<lparr>sub_delivery_timeouts := (sub_delivery_timeouts message)\<lparr>subgroup_ms := value\<rparr>\<rparr>)
         else if draft = kDraft16 then reject
         else Inr message)
      else if parameter_type = kParamForward then
        (if is_draft23_or_later draft \<or> value > 1 then reject_noting draft kFaultInvalidParameter
         else Inr (message\<lparr>sub_forward := ucast value\<rparr>))
      else if parameter_type = kParamSubscriberPriority then
        (if value > 255 then reject_noting draft kFaultInvalidParameter
         else Inr (message\<lparr>sub_subscriber_priority := ucast value\<rparr>))
      else if parameter_type = kParamGroupOrder then
        (if value \<noteq> 0x1 \<and> value \<noteq> 0x2 then reject_noting draft kFaultInvalidParameter
         else Inr (message\<lparr>sub_group_order := ucast value\<rparr>))
      else if parameter_type = 0x32 then Inr message
      else reject_noting draft kFaultInvalidParameter)"

text \<open>The \<open>switch\<close> over the odd parameter types, whose value is \<open>[offset, parameter_end)\<close>.\<close>

definition set_bytes_subscribe_parameter ::
    "bytes \<Rightarrow> nat \<Rightarrow> nat \<Rightarrow> DraftVersion \<Rightarrow> u64 \<Rightarrow> SubscribeMessage \<Rightarrow> SubscribeMessage decoded" where
  "set_bytes_subscribe_parameter bs offset parameter_end draft parameter_type message =
     (if parameter_type = kParamAuthorizationToken then
        Inr (note_subscribe_token draft (valid_authorization_token bs offset parameter_end draft) message)
      else if parameter_type = kParamFillParameters then
        (if sub_fill_requested message then reject_noting draft kFaultInvalidParameter
         else if \<not> is_draft21_or_later draft then reject
         else
         bindE (validate_fill_parameters bs offset parameter_end draft (sub_fill_location_filter message))
           (\<lambda>fill_filter.
         Inr (message\<lparr>sub_fill_location_filter := fill_filter, sub_fill_requested := True\<rparr>)))
      else if parameter_type = 0x21 then decode_subscribe_filter bs offset parameter_end draft message
      else reject_noting draft kFaultInvalidParameter)"

definition decode_subscribe_parameter ::
    "bytes \<Rightarrow> nat \<Rightarrow> DraftVersion \<Rightarrow> nat \<times> u64 \<times> SubscribeMessage \<Rightarrow>
     (nat \<times> u64 \<times> SubscribeMessage) decoded" where
  "decode_subscribe_parameter bs payload_end draft = (\<lambda>(offset, previous_parameter_type, message).
     bindE (decode_parameter_type_simple bs offset draft previous_parameter_type True None)
       (\<lambda>(parameter_type, offset).
     if is_draft21_or_later draft \<and> parameter_type \<ge> 0x25 \<and> parameter_type \<le> 0x29 then
       bindE (decode_moqint_impl (take payload_end bs) offset draft) (\<lambda>(len, offset).
       if \<not> fits offset (unat len) payload_end then reject
       else Inr (offset + unat len, parameter_type,
              message\<lparr>sub_has_unnegotiated_range_filter :=
                sub_has_unnegotiated_range_filter message \<or> len \<noteq> 0\<rparr>))
     else if is_draft21_or_later draft \<and> parameter_type = kParamIncludeProperties then
       (case decode_include_properties bs offset payload_end of
          None \<Rightarrow> reject_noting draft kFaultInvalidParameter
        | Some offset \<Rightarrow> Inr (offset, parameter_type, message))
     else if is_draft23_or_later draft \<and> parameter_type = kParamPaused then
       (case decode_paused_as_forward bs offset payload_end of
          None \<Rightarrow> reject_noting draft kFaultInvalidParameter
        | Some (forward, offset) \<Rightarrow> Inr (offset, parameter_type, message\<lparr>sub_forward := forward\<rparr>))
     else if parameter_type AND 1 = 0 then
       bindE (decode_numeric_message_parameter bs offset draft parameter_type) (\<lambda>(value, offset).
       bindE (set_numeric_subscribe_parameter draft parameter_type value message) (\<lambda>message.
       Inr (offset, parameter_type, message)))
     else
       bindE (read_parameter_length bs offset payload_end draft parameter_type)
         (\<lambda>(parameter_length, offset).
       bindE (set_bytes_subscribe_parameter bs offset (offset + parameter_length) draft parameter_type
                message) (\<lambda>message.
       Inr (offset + parameter_length, parameter_type, message)))))"

text \<open>The Full Track Name limit, checked field by field.\<close>

fun full_track_name_fits :: "u64 \<Rightarrow> string list \<Rightarrow> bool" where
  "full_track_name_fits full_track_name_length [] = True"
| "full_track_name_fits full_track_name_length (field # fs) =
     (if of_nat (length field) > 4096 - full_track_name_length then False
      else full_track_name_fits (full_track_name_length + of_nat (length field)) fs)"

text \<open>The positional fields of draft 14.\<close>

definition decode_draft14_subscribe :: "bytes \<Rightarrow> nat \<Rightarrow> nat \<Rightarrow> SubscribeMessage \<Rightarrow> SubscribeMessage decoded" where
  "decode_draft14_subscribe bs offset payload_end message =
     (if offset + 3 > payload_end then reject
      else
      let message = message\<lparr>sub_subscriber_priority := bs ! offset, sub_group_order := bs ! (offset + 1),
                      sub_forward := bs ! (offset + 2)\<rparr>;
          offset = offset + 3 in
      if sub_group_order message = 0 \<or> sub_group_order message > 2 \<or> sub_forward message > 1 then reject
      else
      bindE (decode_moqint_impl bs offset kDraft14) (\<lambda>(filter_type, offset).
      let message = message\<lparr>sub_filter_type := filter_type\<rparr> in
      if filter_type < 0x01 \<or> filter_type > 0x04 then reject
      else
      bindE (if filter_type = 0x03 \<or> filter_type = 0x04 then
               bindE (decode_moqint_impl bs offset kDraft14) (\<lambda>(group_id, offset).
               bindE (decode_moqint_impl bs offset kDraft14) (\<lambda>(object_id, offset).
               let message = message\<lparr>sub_start_group_id := group_id, sub_start_object_id := object_id\<rparr> in
               if filter_type = 0x04 then
                 bindE (decode_moqint_impl bs offset kDraft14) (\<lambda>(end_group_id, offset).
                 Inr (message\<lparr>sub_end_group_id := end_group_id\<rparr>, offset))
               else Inr (message, offset)))
             else Inr (message\<lparr>sub_start_group_id := 0, sub_start_object_id := 0, sub_end_group_id := 0\<rparr>,
                       offset)) (\<lambda>(message, offset).
      bindE (decode_moqint_impl bs offset kDraft14) (\<lambda>(parameter_count, offset).
      if parameter_count = 0 \<and> offset = payload_end then Inr message else reject))))"

definition subscribe_parameter_defaults :: "SubscribeMessage \<Rightarrow> SubscribeMessage" where
  "subscribe_parameter_defaults message =
     message\<lparr>sub_subscriber_priority := 128, sub_group_order := 0, sub_forward := 1, sub_filter_type := 0,
       sub_start_group_id := 0, sub_start_object_id := 0, sub_end_group_id := 0, sub_end_object_id := None,
       sub_fill_requested := False, sub_location_filter := None, sub_fill_location_filter := None\<rparr>"

definition decode_subscribe_message ::
    "bytes \<Rightarrow> DraftVersion \<Rightarrow> SubscribeMessage \<Rightarrow> SubscribeMessage decoded" where
  "decode_subscribe_message bs draft message =
     bindE (parse_control_length_message bs draft kSubscribeType) (\<lambda>(payload_offset, payload_length).
     let payload_end = payload_offset + payload_length in
     bindE (decode_moqint_impl bs payload_offset draft) (\<lambda>(request_id, offset).
     bindE (if draft = kDraft17 then
              bindE (decode_moqint_impl bs offset draft) (\<lambda>(required_request_id_delta, offset).
              if required_request_id_delta * 2 > request_id then reject else Inr offset)
            else Inr offset) (\<lambda>offset.
     bindE (decode_track_namespace (take payload_end bs) offset draft) (\<lambda>(track_namespace, offset).
     bindE (decode_moqint_impl bs offset draft) (\<lambda>(track_name_length, offset).
     if \<not> fits offset (unat track_name_length) payload_end then reject
     else if is_draft18_or_later draft \<and>
             (track_name_length > 4096 \<or> \<not> full_track_name_fits track_name_length track_namespace) then reject
     else if is_draft23_or_later draft \<and> track_name_length = 0 then reject
     else
     let message = message\<lparr>sub_request_id := request_id, sub_track_namespace := track_namespace,
                     sub_track_name := of_bytes (slice bs offset (unat track_name_length))\<rparr>;
         offset = offset + unat track_name_length in
     if draft = kDraft14 then decode_draft14_subscribe bs offset payload_end message
     else
     bindE (decode_moqint_impl bs offset draft) (\<lambda>(parameter_count, offset).
     bindE (repeatE (unat parameter_count) (decode_subscribe_parameter bs payload_end draft)
              (offset, 0, subscribe_parameter_defaults message)) (\<lambda>(offset, _, message).
     if offset = payload_end then Inr message else reject)))))))"

definition decode_track_status_message ::
    "bytes \<Rightarrow> DraftVersion \<Rightarrow> SubscribeMessage \<Rightarrow> SubscribeMessage decoded" where
  "decode_track_status_message bs draft message =
     (if \<not> is_draft18_or_later draft \<or> bs = [] \<or> bs ! 0 \<noteq> 0x0d then reject
      else decode_subscribe_message (bs[0 := ucast kSubscribeType]) draft message)"

subsection \<open>SUBSCRIBE_TRACKS\<close>

definition allowed_in_draft23_subscribe_tracks :: "u64 \<Rightarrow> bool" where
  "allowed_in_draft23_subscribe_tracks parameter_type \<longleftrightarrow>
     parameter_type \<in> {0x02, kParamAuthorizationToken, 0x06, kParamSubscriberPriority, 0x21, kParamGroupOrder,
       kParamFillParameters, 0x25, 0x26, 0x27, 0x28, 0x29, kParamIncludeProperties}"

definition note_tracks_token ::
    "DraftVersion \<Rightarrow> bool \<times> bool \<times> bool \<Rightarrow> SubscribeTracksMessage \<Rightarrow> SubscribeTracksMessage" where
  "note_tracks_token draft token message =
     (case token of (valid, is_register, uses_alias) \<Rightarrow>
        if \<not> valid then message\<lparr>st_malformed_authorization_token := True\<rparr>
        else message\<lparr>
          st_unknown_authorization_token_alias :=
            st_unknown_authorization_token_alias message \<or> (is_draft18_or_later draft \<and> uses_alias),
          st_authorization_token_cache_overflow :=
            st_authorization_token_cache_overflow message \<or> (is_draft18_or_later draft \<and> is_register)\<rparr>)"

definition set_numeric_tracks_parameter ::
    "DraftVersion \<Rightarrow> u64 \<Rightarrow> u64 \<Rightarrow> SubscribeTracksMessage \<Rightarrow> SubscribeTracksMessage decoded" where
  "set_numeric_tracks_parameter draft parameter_type value message =
     (if parameter_type = kParamForward then
        (if value > 1 then reject_noting draft kFaultInvalidParameter
         else Inr (message\<lparr>st_forward := ucast value\<rparr>))
      else if parameter_type = kParamGroupOrder \<and> is_draft21_or_later draft then
        (if value \<noteq> 0x1 \<and> value \<noteq> 0x2 then reject_noting draft kFaultInvalidParameter
         else Inr (message\<lparr>st_group_order := ucast value\<rparr>))
      else Inr message)"

definition set_bytes_tracks_parameter ::
    "bytes \<Rightarrow> nat \<Rightarrow> nat \<Rightarrow> DraftVersion \<Rightarrow> u64 \<Rightarrow> SubscribeTracksMessage \<Rightarrow> SubscribeTracksMessage decoded" where
  "set_bytes_tracks_parameter bs offset parameter_end draft parameter_type message =
     (let message = (if parameter_type = kParamAuthorizationToken
                     then note_tracks_token draft (valid_authorization_token bs offset parameter_end draft) message
                     else message) in
      if parameter_type = kParamFillParameters \<and> is_draft21_or_later draft then
        (if st_fill_requested message then reject_noting draft kFaultInvalidParameter
         else
         bindE (validate_fill_parameters bs offset parameter_end draft None) (\<lambda>_.
         Inr (message\<lparr>st_fill_requested := True\<rparr>)))
      else if parameter_type = 0x21 \<and> is_draft21_or_later draft then
        bindE (decode_location_filter_simple bs offset parameter_end default_subscribe draft)
          (\<lambda>decoded_filter. Inr (message\<lparr>st_subscription_filter := Some (filter_of decoded_filter)\<rparr>))
      else Inr message)"

definition decode_subscribe_tracks_parameter ::
    "bytes \<Rightarrow> nat \<Rightarrow> DraftVersion \<Rightarrow> nat \<times> u64 \<times> SubscribeTracksMessage \<Rightarrow>
     (nat \<times> u64 \<times> SubscribeTracksMessage) decoded" where
  "decode_subscribe_tracks_parameter bs payload_end draft = (\<lambda>(offset, previous_parameter_type, message).
     bindE (decode_parameter_type_simple bs offset draft previous_parameter_type True
              (Some kParamAuthorizationToken)) (\<lambda>(parameter_type, offset).
     if is_draft21_or_later draft \<and> parameter_type \<ge> 0x25 \<and> parameter_type \<le> 0x29 then
       bindE (decode_moqint_impl (take payload_end bs) offset draft) (\<lambda>(len, offset).
       if \<not> fits offset (unat len) payload_end then reject
       else Inr (offset + unat len, parameter_type,
              message\<lparr>st_has_unnegotiated_range_filter :=
                st_has_unnegotiated_range_filter message \<or> len \<noteq> 0\<rparr>))
     else if is_draft21_or_later draft \<and> parameter_type = kParamIncludeProperties then
       (case decode_include_properties bs offset payload_end of
          None \<Rightarrow> reject_noting draft kFaultInvalidParameter
        | Some offset \<Rightarrow> Inr (offset, parameter_type, message))
     else if is_draft23_or_later draft \<and> parameter_type = kParamPaused then
       (case decode_paused_as_forward bs offset payload_end of
          None \<Rightarrow> reject_noting draft kFaultInvalidParameter
        | Some (forward, offset) \<Rightarrow> Inr (offset, parameter_type, message\<lparr>st_forward := forward\<rparr>))
     else if is_draft23_or_later draft \<and> \<not> allowed_in_draft23_subscribe_tracks parameter_type then
       reject_noting draft kFaultInvalidParameter
     else if parameter_type AND 1 = 0 then
       bindE (decode_numeric_message_parameter bs offset draft parameter_type) (\<lambda>(value, offset).
       bindE (set_numeric_tracks_parameter draft parameter_type value message) (\<lambda>message.
       Inr (offset, parameter_type, message)))
     else
       bindE (read_parameter_length bs offset payload_end draft parameter_type)
         (\<lambda>(parameter_length, offset).
       bindE (set_bytes_tracks_parameter bs offset (offset + parameter_length) draft parameter_type message)
         (\<lambda>message. Inr (offset + parameter_length, parameter_type, message)))))"

definition decode_subscribe_tracks_message ::
    "bytes \<Rightarrow> DraftVersion \<Rightarrow> SubscribeTracksMessage \<Rightarrow> SubscribeTracksMessage decoded" where
  "decode_subscribe_tracks_message bs draft message =
     (if \<not> is_draft18_or_later draft then reject
      else
      bindE (parse_control_length_message bs draft kSubscribeTracksType) (\<lambda>(payload_offset, payload_length).
      let payload_end = payload_offset + payload_length in
      bindE (decode_moqint_impl bs payload_offset draft) (\<lambda>(request_id, offset).
      bindE (decode_track_namespace (take payload_end bs) offset draft) (\<lambda>(prefix, offset).
      if length prefix > 32 then reject
      else
      bindE (decode_moqint_impl bs offset draft) (\<lambda>(parameter_count, offset).
      bindE (repeatE (unat parameter_count) (decode_subscribe_tracks_parameter bs payload_end draft)
               (offset, 0, message\<lparr>st_request_id := request_id, st_track_namespace_prefix := prefix,
                  st_forward := 1\<rparr>)) (\<lambda>(offset, _, message).
      if offset = payload_end then Inr message else reject))))))"

subsection \<open>SUBSCRIBE_UPDATE before draft 16\<close>

definition decode_subscribe_update_message :: "bytes \<Rightarrow> SubscribeUpdateMessage decoded" where
  "decode_subscribe_update_message bs =
     bindE (parse_control_length_message bs kDraft16 kSubscribeUpdateType) (\<lambda>(payload_offset, payload_length).
     let payload_end = payload_offset + payload_length in
     bindE (decode_varint_impl bs payload_offset) (\<lambda>(request_id, offset).
     bindE (decode_varint_impl bs offset) (\<lambda>(subscription_request_id, offset).
     bindE (decode_varint_impl bs offset) (\<lambda>(start_group_id, offset).
     bindE (decode_varint_impl bs offset) (\<lambda>(start_object_id, offset).
     bindE (decode_varint_impl bs offset) (\<lambda>(end_group_plus_one, offset).
     if offset + 2 > payload_end then reject
     else
     let message = \<lparr>su_request_id = request_id, su_subscription_request_id = subscription_request_id,
           su_start_group_id = start_group_id, su_start_object_id = start_object_id,
           su_end_group_plus_one = end_group_plus_one, su_subscriber_priority = bs ! offset,
           su_forward = bs ! (offset + 1)\<rparr> in
     if su_forward message > 1 then reject
     else
     bindE (decode_varint_impl bs (offset + 2)) (\<lambda>(parameter_count, offset).
     if parameter_count = 0 \<and> offset = payload_end then Inr message else reject)))))))"

subsection \<open>FETCH\<close>

definition note_fetch_token :: "bool \<times> bool \<times> bool \<Rightarrow> FetchMessage \<Rightarrow> FetchMessage" where
  "note_fetch_token token message =
     (case token of (valid, is_register, uses_alias) \<Rightarrow>
        if \<not> valid then message\<lparr>fetch_malformed_authorization_token := True\<rparr>
        else message\<lparr>
          fetch_unknown_authorization_token_alias := fetch_unknown_authorization_token_alias message \<or> uses_alias,
          fetch_authorization_token_cache_overflow :=
            fetch_authorization_token_cache_overflow message \<or> is_register\<rparr>)"

definition decode_fetch_parameter ::
    "bytes \<Rightarrow> nat \<Rightarrow> DraftVersion \<Rightarrow> nat \<times> u64 \<times> FetchMessage \<Rightarrow> (nat \<times> u64 \<times> FetchMessage) decoded" where
  "decode_fetch_parameter bs payload_end draft = (\<lambda>(offset, previous_parameter_type, message).
     let bounded = take payload_end bs in
     bindE (decode_parameter_type_simple bs offset draft previous_parameter_type True None)
       (\<lambda>(parameter_type, offset).
     if parameter_type AND 1 = 0 then
       bindE (decode_numeric_message_parameter bounded offset draft parameter_type) (\<lambda>(value, offset).
       Inr (offset, parameter_type, message))
     else
       bindE (decode_moqint_impl bounded offset draft) (\<lambda>(parameter_length, offset).
       if \<not> fits offset (unat parameter_length) payload_end then reject
       else Inr (offset + unat parameter_length, parameter_type,
         if parameter_type = kParamAuthorizationToken
         then note_fetch_token
                (valid_authorization_token bs offset (offset + unat parameter_length) draft) message
         else message))))"

definition decode_fetch_message :: "bytes \<Rightarrow> DraftVersion \<Rightarrow> FetchMessage \<Rightarrow> FetchMessage decoded" where
  "decode_fetch_message bs draft message =
     (if draft \<noteq> kDraft18 then reject
      else
      bindE (parse_control_length_message bs draft 0x16) (\<lambda>(payload_offset, payload_length).
      let payload_end = payload_offset + payload_length; bounded = take payload_end bs in
      bindE (decode_moqint_impl bounded payload_offset draft) (\<lambda>(request_id, offset).
      bindE (decode_moqint_impl bounded offset draft) (\<lambda>(type, offset).
      let message = message\<lparr>fetch_request_id := request_id, fetch_type := type\<rparr> in
      bindE (if type = 0x1 then
               bindE (decode_track_namespace bounded offset draft) (\<lambda>(track_namespace, offset).
               bindE (decode_moqint_impl bounded offset draft) (\<lambda>(track_name_length, offset).
               if \<not> fits offset (unat track_name_length) payload_end then reject
               else
               bindE (repeatE 4 (\<lambda>offset. bindE (decode_moqint_impl bounded offset draft)
                        (\<lambda>(field, offset). Inr offset)) (offset + unat track_name_length)) (\<lambda>offset.
               Inr (message, offset))))
             else if type = 0x2 \<or> type = 0x3 then
               bindE (decode_moqint_impl bounded offset draft) (\<lambda>(joining_request_id, offset).
               bindE (decode_moqint_impl bounded offset draft) (\<lambda>(joining_start, offset).
               Inr (message\<lparr>fetch_joining_request_id := joining_request_id,
                      fetch_joining_start := joining_start\<rparr>, offset)))
             else reject) (\<lambda>(message, offset).
      bindE (decode_moqint_impl bounded offset draft) (\<lambda>(parameters, offset).
      bindE (repeatE (unat parameters) (decode_fetch_parameter bs payload_end draft) (offset, 0, message))
        (\<lambda>(offset, _, message).
      if offset = payload_end then Inr message else reject)))))))"

subsection \<open>REQUEST_UPDATE\<close>

datatype RequestUpdateDecodeError =
    KeyValueFormatting
  | Semantic
  | AuthTokenCacheOverflow
  | UnknownAuthTokenAlias

type_synonym 'a update_decoded = "(RequestUpdateDecodeError \<times> decode_failure) + 'a"

text \<open>\<open>return fail(error)\<close> after a decoder that returned false, and without one.\<close>

definition failing :: "RequestUpdateDecodeError \<Rightarrow> 'a decoded \<Rightarrow> 'a update_decoded" where
  "failing error m = (case m of Inl f \<Rightarrow> Inl (error, f) | Inr r \<Rightarrow> Inr r)"

definition fail_update :: "RequestUpdateDecodeError \<Rightarrow> 'a update_decoded" where
  "fail_update error = Inl (error, Rejected 0)"

definition set_numeric_update_parameter ::
    "DraftVersion \<Rightarrow> u64 \<Rightarrow> u64 \<Rightarrow> RequestUpdateMessage \<Rightarrow> RequestUpdateMessage update_decoded" where
  "set_numeric_update_parameter draft parameter_type value message =
     (if parameter_type = 0x02 then
        (if ru_object_delivery_timeout_ms message \<noteq> None \<or> (draft = kDraft16 \<and> value = 0) then
           fail_update Semantic
         else Inr (message\<lparr>ru_object_delivery_timeout_ms := Some value\<rparr>))
      else if parameter_type = 0x06 then
        (if \<not> is_draft18_or_later draft \<or> ru_subgroup_delivery_timeout_ms message \<noteq> None then
           fail_update Semantic
         else Inr (message\<lparr>ru_subgroup_delivery_timeout_ms := Some value\<rparr>))
      else if parameter_type = 0x08 then
        (if is_draft18_or_later draft then fail_update Semantic else Inr message)
      else if parameter_type = kParamForward then
        (if is_draft23_or_later draft \<or> ru_forward message \<noteq> None \<or> value > 1 then fail_update Semantic
         else Inr (message\<lparr>ru_forward := Some (ucast value)\<rparr>))
      else if parameter_type = kParamSubscriberPriority then
        (if ru_subscriber_priority message \<noteq> None \<or> value > 255 then fail_update Semantic
         else Inr (message\<lparr>ru_subscriber_priority := Some (ucast value)\<rparr>))
      else if parameter_type = kParamGroupOrder then
        (if is_draft18_or_later draft then fail_update Semantic else Inr message)
      else if parameter_type = 0x32 then
        (if ru_new_group_request message \<noteq> None then fail_update Semantic
         else Inr (message\<lparr>ru_new_group_request := Some value\<rparr>))
      else failing Semantic (reject_noting draft kFaultInvalidParameter))"

text \<open>The second look at an authorization token, which draft 18 and later take.\<close>

definition check_update_token :: "bytes \<Rightarrow> nat \<Rightarrow> nat \<Rightarrow> DraftVersion \<Rightarrow> unit update_decoded" where
  "check_update_token bs token_offset parameter_end draft =
     (if \<not> is_draft18_or_later draft then Inr ()
      else
      bindE (failing KeyValueFormatting (decode_moqint_impl bs token_offset draft))
        (\<lambda>(alias_type, token_offset).
      if alias_type = 0x00 \<or> alias_type = 0x02 then fail_update UnknownAuthTokenAlias
      else if alias_type = 0x01 then
        bindE (failing KeyValueFormatting (decode_moqint_impl bs token_offset draft)) (\<lambda>(alias, token_offset).
        bindE (failing KeyValueFormatting (decode_moqint_impl bs token_offset draft))
          (\<lambda>(token_type, token_offset).
        if token_offset < parameter_end then fail_update AuthTokenCacheOverflow else Inr ()))
      else Inr ()))"

definition decode_update_filter ::
    "bytes \<Rightarrow> nat \<Rightarrow> nat \<Rightarrow> DraftVersion \<Rightarrow> SubscriptionFilter update_decoded" where
  "decode_update_filter bs offset parameter_end draft =
     (if is_draft21_or_later draft then
        (case decode_location_filter bs offset parameter_end default_subscribe draft of
           Inl (overflowed, f) \<Rightarrow> Inl (if overflowed then Semantic else KeyValueFormatting, f)
         | Inr decoded_filter \<Rightarrow> Inr (filter_of decoded_filter))
      else
        bindE (failing KeyValueFormatting
                 (decode_subscribe_filter bs offset parameter_end draft default_subscribe)) (\<lambda>decoded_filter.
        Inr (filter_of decoded_filter)))"

definition set_bytes_update_parameter ::
    "bytes \<Rightarrow> nat \<Rightarrow> nat \<Rightarrow> DraftVersion \<Rightarrow> u64 \<Rightarrow> RequestUpdateMessage \<Rightarrow>
     RequestUpdateMessage update_decoded" where
  "set_bytes_update_parameter bs offset parameter_end draft parameter_type message =
     (if parameter_type = kParamAuthorizationToken then
        (if \<not> fst (valid_authorization_token bs offset parameter_end draft) then fail_update KeyValueFormatting
         else
         bindE (check_update_token bs offset parameter_end draft) (\<lambda>_.
         Inr (message\<lparr>ru_has_authorization_token := True\<rparr>)))
      else if parameter_type = 0x09 then
        (if is_draft18_or_later draft then fail_update Semantic else Inr message)
      else if parameter_type = kParamFillParameters then
        (if \<not> is_draft21_or_later draft \<or> ru_fill_requested message then fail_update Semantic
         else
         bindE (failing Semantic (validate_fill_parameters bs offset parameter_end draft None)) (\<lambda>_.
         Inr (message\<lparr>ru_fill_requested := True\<rparr>)))
      else if parameter_type = 0x21 then
        (if ru_subscription_filter message \<noteq> None then fail_update Semantic
         else
         bindE (decode_update_filter bs offset parameter_end draft) (\<lambda>filter.
         Inr (message\<lparr>ru_subscription_filter := Some filter\<rparr>)))
      else failing Semantic (reject_noting draft kFaultInvalidParameter))"

definition decode_update_parameter_type ::
    "bytes \<Rightarrow> nat \<Rightarrow> DraftVersion \<Rightarrow> u64 \<Rightarrow> (u64 \<times> nat) update_decoded" where
  "decode_update_parameter_type bs offset draft previous_parameter_type =
     (case decode_parameter_type bs offset draft previous_parameter_type True
             (Some kParamAuthorizationToken) of
        Inl (ProtocolViolation, f) \<Rightarrow> Inl (Semantic, f)
      | Inl (Encoding, f) \<Rightarrow> Inl (KeyValueFormatting, f)
      | Inr r \<Rightarrow> Inr r)"

definition decode_request_update_parameter ::
    "bytes \<Rightarrow> nat \<Rightarrow> DraftVersion \<Rightarrow> u64 \<Rightarrow> nat \<times> u64 \<times> RequestUpdateMessage \<Rightarrow>
     (nat \<times> u64 \<times> RequestUpdateMessage) update_decoded" where
  "decode_request_update_parameter bs payload_end draft discovery_request_type =
     (\<lambda>(offset, previous_parameter_type, message).
     bindE (decode_update_parameter_type bs offset draft previous_parameter_type) (\<lambda>(parameter_type, offset).
     if is_draft22_or_later draft \<and> parameter_type = 0x34 \<and>
        (discovery_request_type = 0x50 \<or> discovery_request_type = 0x51) then
       (if ru_track_namespace_prefix message \<noteq> None then fail_update KeyValueFormatting
        else
        bindE (failing KeyValueFormatting (decode_track_namespace (take payload_end bs) offset draft))
          (\<lambda>(prefix, offset).
        Inr (offset, parameter_type, message\<lparr>ru_track_namespace_prefix := Some prefix\<rparr>)))
     else if is_draft22_or_later draft \<and> parameter_type = 0x29 \<and> discovery_request_type = 0x51 then
       bindE (failing KeyValueFormatting (read_parameter_length bs offset payload_end draft parameter_type))
         (\<lambda>(len, offset).
       Inr (offset + len, parameter_type,
            message\<lparr>ru_has_unnegotiated_range_filter :=
              ru_has_unnegotiated_range_filter message \<or> len \<noteq> 0\<rparr>))
     else if is_draft23_or_later draft \<and> parameter_type = kParamPaused then
       (case (if ru_forward message \<noteq> None then None else decode_paused_as_forward bs offset payload_end) of
          None \<Rightarrow> failing Semantic (reject_noting draft kFaultInvalidParameter)
        | Some (forward, offset) \<Rightarrow> Inr (offset, parameter_type, message\<lparr>ru_forward := Some forward\<rparr>))
     else if parameter_type AND 1 = 0 then
       bindE (failing KeyValueFormatting (decode_numeric_message_parameter bs offset draft parameter_type))
         (\<lambda>(value, offset).
       bindE (set_numeric_update_parameter draft parameter_type value message) (\<lambda>message.
       Inr (offset, parameter_type, message)))
     else
       bindE (failing KeyValueFormatting (read_parameter_length bs offset payload_end draft parameter_type))
         (\<lambda>(parameter_length, offset).
       let parameter_end = offset + parameter_length in
       bindE (set_bytes_update_parameter bs offset parameter_end draft parameter_type message) (\<lambda>message.
       Inr (parameter_end, parameter_type, message)))))"

definition decode_request_update_message ::
    "bytes \<Rightarrow> DraftVersion \<Rightarrow> u64 \<Rightarrow> RequestUpdateMessage update_decoded" where
  "decode_request_update_message bs draft discovery_request_type =
     (if draft \<noteq> kDraft16 \<and> \<not> is_draft18_or_later draft then fail_update Semantic
      else
      bindE (failing Semantic (parse_control_length_message bs draft kSubscribeUpdateType))
        (\<lambda>(payload_offset, payload_length).
      let payload_end = payload_offset + payload_length in
      bindE (failing Semantic (decode_moqint_impl bs payload_offset draft)) (\<lambda>(request_id, offset).
      let message = default_request_update\<lparr>ru_request_id := request_id\<rparr> in
      bindE (if draft = kDraft16 then
               bindE (failing Semantic (decode_moqint_impl bs offset draft)) (\<lambda>(existing_request_id, offset).
               Inr (message\<lparr>ru_existing_request_id := Some existing_request_id\<rparr>, offset))
             else Inr (message, offset)) (\<lambda>(message, offset).
      bindE (failing KeyValueFormatting (decode_moqint_impl bs offset draft)) (\<lambda>(parameter_count, offset).
      bindE (repeatE (unat parameter_count)
               (decode_request_update_parameter bs payload_end draft discovery_request_type)
               (offset, 0, message)) (\<lambda>(offset, _, message).
      if offset = payload_end then Inr message else fail_update KeyValueFormatting))))))"

subsection \<open>PUBLISH_OK\<close>

definition decode_draft14_publish_parameter :: "bytes \<Rightarrow> nat \<Rightarrow> nat \<Rightarrow> nat decoded" where
  "decode_draft14_publish_parameter bs payload_end offset =
     bindE (decode_moqint_impl bs offset kDraft14) (\<lambda>(parameter_type, offset).
     bindE (decode_moqint_impl bs offset kDraft14) (\<lambda>(parameter_length, offset).
     if \<not> fits offset (unat parameter_length) payload_end then reject
     else Inr (offset + unat parameter_length)))"

definition decode_draft14_publish_ok :: "bytes \<Rightarrow> nat \<Rightarrow> nat \<Rightarrow> PublishOk \<Rightarrow> PublishOk decoded" where
  "decode_draft14_publish_ok bs offset payload_end message =
     (if offset + 3 > payload_end then reject
      else
      let message = message\<lparr>ok_forward := bs ! offset, ok_subscriber_priority := bs ! (offset + 1),
                      ok_group_order := bs ! (offset + 2)\<rparr>;
          offset = offset + 3 in
      if ok_group_order message = 0 \<or> ok_group_order message > 2 \<or> ok_forward message > 1 then reject
      else
      bindE (decode_moqint_impl bs offset kDraft14) (\<lambda>(filter_type, offset).
      let message = message\<lparr>ok_filter_type := filter_type\<rparr> in
      bindE (if filter_type = 0x03 \<or> filter_type = 0x04 then
               bindE (decode_moqint_impl bs offset kDraft14) (\<lambda>(start_group_id, offset).
               bindE (decode_moqint_impl bs offset kDraft14) (\<lambda>(start_object_id, offset).
               let message = message\<lparr>ok_start_group_id := start_group_id,
                               ok_start_object_id := start_object_id\<rparr> in
               if filter_type = 0x04 then
                 bindE (decode_moqint_impl bs offset kDraft14) (\<lambda>(end_group_id, offset).
                 Inr (message\<lparr>ok_end_group_id := end_group_id\<rparr>, offset))
               else Inr (message, offset)))
             else Inr (message, offset)) (\<lambda>(message, offset).
      bindE (decode_moqint_impl bs offset kDraft14) (\<lambda>(parameter_count, offset).
      bindE (repeatE (unat parameter_count) (decode_draft14_publish_parameter bs payload_end) offset)
        (\<lambda>offset.
      if offset = payload_end then Inr message else reject)))))"

definition set_numeric_publish_ok_parameter ::
    "DraftVersion \<Rightarrow> u64 \<Rightarrow> u64 \<Rightarrow> PublishOk \<Rightarrow> PublishOk decoded" where
  "set_numeric_publish_ok_parameter draft parameter_type value message =
     (if parameter_type = 0x02 then
        (if \<not> is_draft18_or_later draft \<and> value = 0 then reject
         else Inr (message\<lparr>ok_delivery_timeouts := (ok_delivery_timeouts message)\<lparr>object_ms := value\<rparr>\<rparr>))
      else if parameter_type = 0x06 then
        (if is_draft18_or_later draft then
           Inr (message\<lparr>ok_delivery_timeouts := (ok_delivery_timeouts message)\<lparr>subgroup_ms := value\<rparr>\<rparr>)
         else if draft = kDraft16 then reject
         else Inr message)
      else if parameter_type = 0x08 then Inr message
      else if parameter_type = kParamForward then
        (if value > 1 then reject else Inr (message\<lparr>ok_forward := ucast value\<rparr>))
      else if parameter_type = kParamSubscriberPriority then
        (if value > 255 then reject_noting draft kFaultInvalidParameter
         else Inr (message\<lparr>ok_subscriber_priority := ucast value\<rparr>))
      else if parameter_type = kParamGroupOrder then
        (if value \<noteq> 0x1 \<and> value \<noteq> 0x2 then reject_noting draft kFaultInvalidParameter
         else Inr (message\<lparr>ok_group_order := ucast value\<rparr>))
      else if parameter_type = 0x32 then Inr message
      else reject)"

definition set_publish_ok_filter :: "SubscribeMessage \<Rightarrow> PublishOk \<Rightarrow> PublishOk" where
  "set_publish_ok_filter filter_message message =
     message\<lparr>ok_filter_type := sub_filter_type filter_message,
       ok_start_group_id := sub_start_group_id filter_message,
       ok_start_object_id := sub_start_object_id filter_message,
       ok_end_group_id := sub_end_group_id filter_message,
       ok_end_object_id := sub_end_object_id filter_message\<rparr>"

definition decode_publish_ok_parameter ::
    "bytes \<Rightarrow> nat \<Rightarrow> DraftVersion \<Rightarrow> nat \<times> u64 \<times> PublishOk \<Rightarrow> (nat \<times> u64 \<times> PublishOk) decoded" where
  "decode_publish_ok_parameter bs payload_end draft = (\<lambda>(offset, previous_parameter_type, message).
     bindE (decode_parameter_type_simple bs offset draft previous_parameter_type True None)
       (\<lambda>(parameter_type, offset).
     if is_draft21_or_later draft \<and> parameter_type \<noteq> 0x08 then reject
     else if parameter_type AND 1 = 0 then
       bindE (decode_numeric_message_parameter bs offset draft parameter_type) (\<lambda>(value, offset).
       bindE (set_numeric_publish_ok_parameter draft parameter_type value message) (\<lambda>message.
       Inr (offset, parameter_type, message)))
     else
       bindE (read_parameter_length bs offset payload_end draft parameter_type)
         (\<lambda>(parameter_length, offset).
       if parameter_type = 0x21 then
         bindE (decode_subscribe_filter bs offset (offset + parameter_length) draft default_subscribe)
           (\<lambda>filter_message.
         Inr (offset + parameter_length, parameter_type, set_publish_ok_filter filter_message message))
       else reject)))"

definition publish_ok_parameter_defaults :: "PublishOk \<Rightarrow> PublishOk" where
  "publish_ok_parameter_defaults message =
     message\<lparr>ok_forward := 1, ok_subscriber_priority := 128, ok_group_order := 0, ok_filter_type := 0,
       ok_start_group_id := 0, ok_start_object_id := 0, ok_end_group_id := 0, ok_end_object_id := None\<rparr>"

definition decode_publish_ok :: "bytes \<Rightarrow> DraftVersion \<Rightarrow> PublishOk \<Rightarrow> PublishOk decoded" where
  "decode_publish_ok bs draft message =
     (let request_ok_alias = is_draft18_or_later draft in
      bindE (if request_ok_alias then parse_control_length_message bs draft kRequestOkType
             else parse_publish_family_message bs draft kPublishOkType) (\<lambda>(payload_offset, payload_length).
      if \<not> fits payload_offset payload_length (length bs) then reject
      else
      let payload_end = payload_offset + payload_length in
      bindE (if \<not> request_ok_alias then decode_moqint_impl bs payload_offset draft
             else Inr (0, payload_offset)) (\<lambda>(request_id, offset).
      let message = message\<lparr>ok_request_id := request_id\<rparr> in
      if draft = kDraft14 then decode_draft14_publish_ok bs offset payload_end message
      else
      bindE (decode_moqint_impl bs offset draft) (\<lambda>(parameter_count, offset).
      bindE (repeatE (unat parameter_count) (decode_publish_ok_parameter bs payload_end draft)
               (offset, 0, publish_ok_parameter_defaults message)) (\<lambda>(offset, _, message).
      if offset = payload_end then Inr message else reject)))))"

definition apply_publish_ok_settings :: "PublishOk \<Rightarrow> SubscribeMessage \<Rightarrow> SubscribeMessage" where
  "apply_publish_ok_settings publish_ok settings =
     settings\<lparr>sub_subscriber_priority := ok_subscriber_priority publish_ok,
       sub_group_order := ok_group_order publish_ok, sub_forward := ok_forward publish_ok,
       sub_filter_type := ok_filter_type publish_ok, sub_start_group_id := ok_start_group_id publish_ok,
       sub_start_object_id := ok_start_object_id publish_ok, sub_end_group_id := ok_end_group_id publish_ok,
       sub_end_object_id := ok_end_object_id publish_ok,
       sub_delivery_timeouts := ok_delivery_timeouts publish_ok\<rparr>"

subsection \<open>Spans\<close>

lemma draft22_location_filter_end_bounds:
  assumes "draft22_location_filter_end bs offset limit = Inr e"
  shows "offset < e \<and> e \<le> limit"
proof -
  let ?step = "\<lambda>offset. bindE (decode_moqint_impl (take limit bs) offset kDraft22) (\<lambda>(field, offset). Inr offset)"
  obtain t o1 n where t: "decode_moqint_impl (take limit bs) offset kDraft22 = Inr (t, o1)"
    and r: "repeatE n ?step o1 = Inr e"
    using assms by (auto simp: draft22_location_filter_end_def Let_def split: sum.splits if_split_asm)
  have "yields (repeatE n ?step o1) (\<lambda>u. o1 \<le> u \<and> u \<le> limit)"
    using decode_moqint_progress [OF t] by (intro yields_repeatE yields_intro) auto
  with r decode_moqint_progress [OF t] show ?thesis by (auto dest: yieldsD)
qed

lemma read_plain_parameter_length_bounds:
  "read_plain_parameter_length bs offset limit draft type = Inr (len, offset') \<Longrightarrow>
   offset \<le> offset' \<and> offset < offset' + len \<and> offset' + len \<le> limit"
  by (auto simp: read_plain_parameter_length_def fits_iff split: if_split_asm sum.splits
      dest!: draft22_location_filter_end_bounds decode_moqint_progress)

lemma yields_bindE_read_plain [yields_intro]:
  "(\<And>len offset'. offset \<le> offset' \<Longrightarrow> offset < offset' + len \<Longrightarrow> offset' + len \<le> limit \<Longrightarrow>
     yields (f len offset') P) \<Longrightarrow>
   yields (bindE (read_plain_parameter_length bs offset limit draft type) (\<lambda>(len, offset'). f len offset')) P"
  by (rule yields_bindE_pair) (auto dest: read_plain_parameter_length_bounds)

lemma fill_parameter_bounds:
  "yields (fill_parameter bs limit draft (offset, prev, lf)) (\<lambda>(offset', _). offset < offset' \<and> offset' \<le> limit)"
  unfolding fill_parameter_def
  by (simp only: prod.case, intro yields_intro yields_bindE_any) (auto)

lemma walk_fill_parameters_bounds:
  assumes "walk_fill_parameters bs offset limit draft lf = Inr (offset', lf')"
  shows "offset < offset' \<and> offset' \<le> limit"
proof -
  have step: "yields (fill_parameter bs limit draft s) (\<lambda>(o2, _). k < o2 \<and> o2 \<le> limit)"
    if "case s of (o1, _) \<Rightarrow> k < o1 \<and> o1 \<le> limit" for s k
    using that fill_parameter_bounds [of bs limit draft "fst s" "fst (snd s)" "snd (snd s)"]
    by (auto elim!: yields_mono)
  have "yields (walk_fill_parameters bs offset limit draft lf) (\<lambda>(o2, _). offset < o2 \<and> o2 \<le> limit)"
    unfolding walk_fill_parameters_def
    by (intro yields_intro yields_bindE [OF yields_repeatE [where P = "\<lambda>(o2, _). offset < o2 \<and> o2 \<le> limit"]] step)
      auto
  then show ?thesis using assms by (auto dest: yieldsD)
qed

lemma read_parameter_length_bounds:
  "read_parameter_length bs offset limit draft type = Inr (len, offset') \<Longrightarrow>
   offset \<le> offset' \<and> offset < offset' + len \<and> offset' + len \<le> limit"
  by (auto simp: read_parameter_length_def split: if_split_asm
      dest!: walk_fill_parameters_bounds read_plain_parameter_length_bounds)

lemma yields_bindE_read_parameter [yields_intro]:
  "(\<And>len offset'. offset \<le> offset' \<Longrightarrow> offset < offset' + len \<Longrightarrow> offset' + len \<le> limit \<Longrightarrow>
     yields (f len offset') P) \<Longrightarrow>
   yields (bindE (read_parameter_length bs offset limit draft type) (\<lambda>(len, offset'). f len offset')) P"
  by (rule yields_bindE_pair) (auto dest: read_parameter_length_bounds)

lemma decode_subscribe_parameter_bounds:
  assumes "length bs \<le> limit"
  shows "yields (decode_subscribe_parameter bs limit draft (offset, prev, m))
     (\<lambda>(offset', _). offset < offset' \<and> offset' \<le> limit)"
  unfolding decode_subscribe_parameter_def
  using assms by (simp only: prod.case, intro yields_intro yields_bindE_any)
    (auto simp: fits_iff dest!: decode_include_properties_progress decode_paused_progress)


subsection \<open>Filters\<close>

text \<open>An absolute range does not end before it starts.\<close>

definition range_ok :: "SubscribeMessage \<Rightarrow> bool" where
  "range_ok m \<longleftrightarrow> (sub_filter_type m = 0x04 \<longrightarrow> sub_start_group_id m \<le> sub_end_group_id m)"

text \<open>The members a filter decoder leaves alone.\<close>

definition same_request :: "SubscribeMessage \<Rightarrow> SubscribeMessage \<Rightarrow> bool" where
  "same_request m m' \<longleftrightarrow> sub_request_id m' = sub_request_id m \<and> sub_track_namespace m' = sub_track_namespace m \<and>
     sub_track_name m' = sub_track_name m \<and> sub_forward m' = sub_forward m \<and>
     sub_group_order m' = sub_group_order m \<and> sub_subscriber_priority m' = sub_subscriber_priority m"

lemma same_request_refl [simp, intro]: "same_request m m"
  by (simp add: same_request_def)

lemma location_filter_model_ok:
  "location_filter_model fs m = Some m' \<Longrightarrow> range_ok m' \<and> same_request m m'"
  by (auto simp: location_filter_model_def range_ok_def same_request_def Let_def intro: add_guarded_le
      split: list.splits if_split_asm)

lemma yields_location_filter_result:
  "yields (location_filter_result draft t fs m) (\<lambda>m'. range_ok m' \<and> same_request m m')"
  unfolding location_filter_result_def
  by (intro yields_intro; (drule location_filter_model_ok)?; simp add: range_ok_def same_request_def)

lemma yields_location_filter:
  "yields (decode_location_filter bs offset limit m draft) (\<lambda>m'. range_ok m' \<and> same_request m m')"
  unfolding decode_location_filter_def
  by (rule yields_bindE_any, intro yields_intro, rule yields_bindE_any,
      intro yields_intro yields_bindE [OF yields_location_filter_result]) simp

lemma yields_location_filter_simple:
  "yields (decode_location_filter_simple bs offset limit m draft) (\<lambda>m'. range_ok m' \<and> same_request m m')"
  unfolding decode_location_filter_simple_def
  by (intro yields_intro) (auto dest: yieldsD [OF yields_location_filter])

text \<open>
  Before draft 17 the end group is the absolute one of the peer, which nothing compares with the start.
\<close>

lemma yields_subscribe_filter:
  "yields (decode_subscribe_filter bs offset limit draft m)
     (\<lambda>m'. same_request m m' \<and> (draft \<noteq> kDraft14 \<and> draft \<noteq> kDraft16 \<longrightarrow> range_ok m'))"
  unfolding decode_subscribe_filter_def
  by (intro yields_intro)
    (auto simp: range_ok_def same_request_def draft_predicates intro: add_guarded_le
      intro!: yields_mono [OF yields_location_filter_simple], auto simp: add.commute intro!: add_guarded_le,
      cases draft, simp_all)


subsection \<open>SUBSCRIBE\<close>

text \<open>What holds of the message under construction from the defaults on, whatever parameters come.\<close>

definition subscribe_ok :: "DraftVersion \<Rightarrow> SubscribeMessage \<Rightarrow> bool" where
  "subscribe_ok draft m \<longleftrightarrow> sub_forward m \<le> 1 \<and> sub_group_order m \<le> 2 \<and>
     (draft \<noteq> kDraft14 \<and> draft \<noteq> kDraft16 \<longrightarrow> range_ok m)"

definition same_track :: "SubscribeMessage \<Rightarrow> SubscribeMessage \<Rightarrow> bool" where
  "same_track m m' \<longleftrightarrow> sub_request_id m' = sub_request_id m \<and>
     sub_track_namespace m' = sub_track_namespace m \<and> sub_track_name m' = sub_track_name m"

lemma same_track_refl [simp, intro]: "same_track m m"
  by (simp add: same_track_def)

lemma same_track_trans [trans]: "same_track a b \<Longrightarrow> same_track b c \<Longrightarrow> same_track a c"
  by (simp add: same_track_def)

lemma subscribe_ok_filter:
  "same_request m m' \<Longrightarrow> (draft \<noteq> kDraft14 \<and> draft \<noteq> kDraft16 \<longrightarrow> range_ok m') \<Longrightarrow> subscribe_ok draft m \<Longrightarrow>
   subscribe_ok draft m' \<and> same_track m m'"
  by (simp add: subscribe_ok_def same_request_def same_track_def)

lemma ucast_le_u8: "v \<le> of_nat n \<Longrightarrow> n < 256 \<Longrightarrow> (ucast (v :: u64) :: u8) \<le> of_nat n"
proof -
  assume v: "v \<le> of_nat n" and n: "n < 256"
  have u: "unat v \<le> n" using v n by (simp add: word_le_nat_alt)
  then have "unat (ucast v :: u8) = unat v" using n by (simp add: unsigned_ucast_eq take_bit_nat_eq_self)
  then show ?thesis using u n by (simp add: word_le_nat_alt)
qed

lemma set_numeric_subscribe_ok:
  assumes "subscribe_ok draft m"
  shows "yields (set_numeric_subscribe_parameter draft type v m) (\<lambda>m'. subscribe_ok draft m' \<and> same_track m m')"
  unfolding set_numeric_subscribe_parameter_def
  using assms ucast_le_u8 [of v 1]
  by (intro yields_intro) (auto simp: subscribe_ok_def same_track_def range_ok_def not_less)

lemma set_bytes_subscribe_ok:
  assumes "subscribe_ok draft m"
  shows "yields (set_bytes_subscribe_parameter bs offset e draft type m)
    (\<lambda>m'. subscribe_ok draft m' \<and> same_track m m')"
  unfolding set_bytes_subscribe_parameter_def
  using assms
  by (intro yields_intro yields_bindE_any)
    (auto simp: note_subscribe_token_def subscribe_ok_def same_track_def range_ok_def split: prod.split
      intro!: yields_mono [OF yields_subscribe_filter] dest: subscribe_ok_filter [rotated 2] simp: same_request_def)

lemma decode_subscribe_parameter_ok:
  assumes "subscribe_ok draft m"
  shows "yields (decode_subscribe_parameter bs limit draft (offset, prev, m))
    (\<lambda>(_, _, m'). subscribe_ok draft m' \<and> same_track m m')"
  unfolding decode_subscribe_parameter_def
  using assms
  apply (simp only: prod.case, intro yields_intro yields_bindE [OF set_numeric_subscribe_ok] yields_bindE [OF set_bytes_subscribe_ok])
  by (auto simp: subscribe_ok_def same_track_def range_ok_def dest: decode_paused_progress)


lemma full_track_name_fits_sum:
  "full_track_name_fits n fs \<Longrightarrow> unat n \<le> 4096 \<Longrightarrow> \<forall>f \<in> set fs. length f \<le> 4096 \<Longrightarrow>
   unat n + sum_list (map length fs) \<le> 4096"
proof (induction fs arbitrary: n)
  case (Cons f fs)
  have l: "length f \<le> 4096" "unat (of_nat (length f) :: u64) = length f" using Cons.prems(3) by simp_all
  have "unat (4096 - n) = 4096 - unat n" using Cons.prems(2) by (simp add: unat_sub word_le_nat_alt)
  then have f: "length f \<le> 4096 - unat n" using Cons.prems(1) l
    by (auto simp: word_less_nat_alt split: if_split_asm)
  then have "unat (n + of_nat (length f)) = unat n + length f"
    using Cons.prems(2) l by (simp add: unat_word_ariths)
  moreover from this have "unat (n + of_nat (length f)) \<le> 4096" using Cons.prems(2) f by simp
  ultimately show ?case using Cons.IH [of "n + of_nat (length f)"] Cons.prems by (auto split: if_split_asm)
qed simp

lemma decode_draft14_subscribe_ok:
  "yields (decode_draft14_subscribe bs offset limit m) (\<lambda>m'. subscribe_ok kDraft14 m' \<and> same_track m m')"
  unfolding decode_draft14_subscribe_def
  by (intro yields_intro) (auto simp: subscribe_ok_def same_track_def not_less)

definition track_name_ok :: "DraftVersion \<Rightarrow> SubscribeMessage \<Rightarrow> bool" where
  "track_name_ok draft m \<longleftrightarrow> (is_draft18_or_later draft \<longrightarrow>
     length (sub_track_namespace m) \<le> 32 \<and> [] \<notin> set (sub_track_namespace m) \<and>
     length (sub_track_name m) + sum_list (map length (sub_track_namespace m)) \<le> 4096) \<and>
   (is_draft23_or_later draft \<longrightarrow> sub_track_name m \<noteq> [])"

lemma track_name_ok_same: "same_track m m' \<Longrightarrow> track_name_ok draft m \<Longrightarrow> track_name_ok draft m'"
  by (simp add: same_track_def track_name_ok_def)

lemma track_name_okI:
  assumes "decode_track_namespace bs offset draft = Inr (ns, offset')"
    and "fits offset'' (unat n) (length bs)"
    and "\<not> (is_draft18_or_later draft \<and> (n > 4096 \<or> \<not> full_track_name_fits n ns))"
    and "\<not> (is_draft23_or_later draft \<and> n = 0)"
    and "sub_track_namespace m = ns" "sub_track_name m = of_bytes (slice bs offset'' (unat n))"
  shows "track_name_ok draft m"
proof -
  have l: "length (sub_track_name m) = unat n" using assms(2,6) by simp
  have "length (sub_track_namespace m) \<le> 32 \<and> [] \<notin> set (sub_track_namespace m) \<and>
     unat n + sum_list (map length (sub_track_namespace m)) \<le> 4096" if d: "is_draft18_or_later draft"
  proof -
    note limits = decode_track_namespace_limits [OF assms(1) d]
    have "\<forall>f \<in> set ns. length f \<le> 4096" using limits member_le_sum_list [of _ "map length ns"] by fastforce
    moreover have "unat n \<le> 4096" "full_track_name_fits n ns"
      using assms(3) d by (auto simp: word_less_nat_alt not_less)
    ultimately show ?thesis using limits full_track_name_fits_sum [of n ns] assms(5) by simp
  qed
  moreover have "sub_track_name m \<noteq> []" if "is_draft23_or_later draft"
    using l assms(4) that by (auto simp: unat_eq_0)
  ultimately show ?thesis using l by (simp add: track_name_ok_def)
qed

lemma subscribe_parameters_ok:
  assumes "subscribe_ok draft m0"
  shows "yields (repeatE n (decode_subscribe_parameter bs limit draft) (offset, prev, m0))
    (\<lambda>(_, _, m'). subscribe_ok draft m' \<and> same_track m0 m')"
proof (rule yields_repeatE)
  fix s :: "nat \<times> u64 \<times> SubscribeMessage"
  assume s: "case s of (_, _, m') \<Rightarrow> subscribe_ok draft m' \<and> same_track m0 m'"
  obtain o1 p1 m1 where "s = (o1, p1, m1)" by (cases s)
  with s decode_subscribe_parameter_ok [of draft m1 bs limit o1 p1]
  show "yields (decode_subscribe_parameter bs limit draft s) (\<lambda>(_, _, m'). subscribe_ok draft m' \<and> same_track m0 m')"
    by (auto elim!: yields_mono intro: same_track_trans)
qed (use assms in simp)

lemma subscribe_ok_defaults: "subscribe_ok draft (subscribe_parameter_defaults m)"
  by (simp add: subscribe_ok_def subscribe_parameter_defaults_def range_ok_def)

lemma same_track_defaults [simp]: "same_track (subscribe_parameter_defaults m) m' = same_track m m'"
  by (simp add: subscribe_parameter_defaults_def same_track_def)

lemma track_name_ok_message:
  assumes "same_track (m\<lparr>sub_request_id := r, sub_track_namespace := ns,
       sub_track_name := of_bytes (slice bs offset'' (unat n))\<rparr>) m'"
    and "decode_track_namespace bs offset draft = Inr (ns, offset')" and "fits offset'' (unat n) (length bs)"
    and "\<not> (is_draft18_or_later draft \<and> (n > 4096 \<or> \<not> full_track_name_fits n ns))"
    and "\<not> (is_draft23_or_later draft \<and> n = 0)"
  shows "track_name_ok draft m'"
  using assms by (intro track_name_okI [OF assms(2-5)]) (simp_all add: same_track_def)

lemma decode_subscribe_message_yields:
  "yields (decode_subscribe_message bs draft m) (\<lambda>m'. subscribe_ok draft m' \<and> track_name_ok draft m')"
  unfolding decode_subscribe_message_def
  apply (rule yields_bindE_pair)
  apply (drule parse_control_length_bounds)
  apply (intro yields_intro yields_bindE [OF subscribe_parameters_ok] decode_draft14_subscribe_ok [THEN yields_mono])
  apply (simp_all only: subscribe_ok_defaults same_track_defaults take_all [OF order_refl] prod.case prod.inject not_not simp_thms)
  apply (elim conjE; (intro conjI)?; (assumption | erule (4) track_name_ok_message | simp add: track_name_ok_def draft_predicates))+
  done

subsection \<open>Counted parameter loops\<close>

lemma decode_subscribe_tracks_parameter_bounds:
  "yields (decode_subscribe_tracks_parameter bs (length bs) draft (offset, prev, m))
     (\<lambda>(offset', _). offset < offset' \<and> offset' \<le> length bs)"
  unfolding decode_subscribe_tracks_parameter_def
  by (simp only: prod.case, intro yields_intro yields_bindE_any)
    (auto simp: fits_iff dest!: decode_include_properties_progress decode_paused_progress)

lemma decode_fetch_parameter_bounds:
  "yields (decode_fetch_parameter bs (length bs) draft (offset, prev, m))
     (\<lambda>(offset', _). offset < offset' \<and> offset' \<le> length bs)"
  unfolding decode_fetch_parameter_def
  by (simp only: prod.case, intro yields_intro) (auto simp: fits_iff)

lemma decode_publish_ok_parameter_bounds:
  "yields (decode_publish_ok_parameter bs (length bs) draft (offset, prev, m))
     (\<lambda>(offset', _). offset < offset' \<and> offset' \<le> length bs)"
  unfolding decode_publish_ok_parameter_def
  by (simp only: prod.case, intro yields_intro yields_bindE_any) auto

lemma failing_eq_Inr [simp]: "failing e m = Inr r \<longleftrightarrow> m = Inr r"
  by (simp add: failing_def split: sum.split)

lemma yields_bindE_failing [yields_intro]:
  "(\<And>x. m = Inr x \<Longrightarrow> yields (f x) P) \<Longrightarrow> yields (bindE (failing e m) f) P"
  by (cases m) (simp_all add: failing_def)

lemma yields_failing_reject [yields_intro]: "yields (failing e (reject_noting draft code)) P"
  by (simp add: failing_def reject_noting_def)

lemma yields_fail_update [yields_intro]: "yields (fail_update e) P"
  by (simp add: fail_update_def)

lemma decode_update_parameter_type_progress:
  "decode_update_parameter_type bs offset draft prev = Inr (t, offset') \<Longrightarrow> offset < offset' \<and> offset' \<le> length bs"
  by (auto simp: decode_update_parameter_type_def split: sum.splits ParameterTypeDecodeError.splits
      dest!: decode_parameter_type_progress)

lemma yields_bindE_update_parameter_type [yields_intro]:
  "(\<And>t offset'. offset < offset' \<Longrightarrow> offset' \<le> length bs \<Longrightarrow> yields (f t offset') P) \<Longrightarrow>
   yields (bindE (decode_update_parameter_type bs offset draft prev) (\<lambda>(t, offset'). f t offset')) P"
  by (rule yields_bindE_pair) (auto dest: decode_update_parameter_type_progress)

lemma decode_request_update_parameter_bounds:
  "yields (decode_request_update_parameter bs (length bs) draft dt (offset, prev, m))
     (\<lambda>(offset', _). offset < offset' \<and> offset' \<le> length bs)"
  unfolding decode_request_update_parameter_def
  by (simp only: prod.case, intro yields_intro yields_bindE_any)
    (auto split: if_split_asm dest!: decode_paused_progress read_parameter_length_bounds decode_numeric_progress
      decode_track_namespace_progress)

interpretation subscribe_loop: counted_loop "decode_subscribe_parameter bs (length bs) draft" fst "length bs"
  for bs draft
  by unfold_locales (auto dest: yieldsD [OF decode_subscribe_parameter_bounds [OF order_refl]])

interpretation subscribe_tracks_loop:
  counted_loop "decode_subscribe_tracks_parameter bs (length bs) draft" fst "length bs" for bs draft
  by unfold_locales (auto dest: yieldsD [OF decode_subscribe_tracks_parameter_bounds])

interpretation fetch_loop: counted_loop "decode_fetch_parameter bs (length bs) draft" fst "length bs" for bs draft
  by unfold_locales (auto dest: yieldsD [OF decode_fetch_parameter_bounds])

interpretation publish_ok_loop: counted_loop "decode_publish_ok_parameter bs (length bs) draft" fst "length bs"
  for bs draft
  by unfold_locales (auto dest: yieldsD [OF decode_publish_ok_parameter_bounds])

interpretation request_update_loop:
  counted_loop "decode_request_update_parameter bs (length bs) draft dt" fst "length bs" for bs draft dt
  by unfold_locales (auto dest: yieldsD [OF decode_request_update_parameter_bounds])

interpretation fill_loop: counted_loop "fill_parameter bs limit draft" fst limit for bs limit draft
  by unfold_locales (auto dest: yieldsD [OF fill_parameter_bounds])

subsection \<open>Properties\<close>

lemmas [wire_eval] =
  uses_moq_vi64_def draft_predicates Let_def fits_def slice_def of_bytes_def char_of_def bit_iff_odd
  message_types parameter_types parse_control_length_message_def read_control_length_def
  decode_track_namespace_def decode_namespace_field_def string_vector_max_size_def
  decode_parameter_type_simple_def decode_parameter_type_def decode_numeric_message_parameter_def
  decode_paused_as_forward_def

lemmas [wire_eval] =
  decode_subscribe_message_def decode_subscribe_parameter_def set_numeric_subscribe_parameter_def
  set_bytes_subscribe_parameter_def subscribe_parameter_defaults_def default_subscribe_def
  read_parameter_length_def read_plain_parameter_length_def draft22_location_filter_end_def
  location_field_counts_def decode_subscribe_filter_def decode_location_filter_simple_def
  decode_location_filter_def location_filter_result_def read_filter_fields.simps location_filter_model_def not_overflowed_def


lemma subscribe_example:
  "decode_subscribe_message [0x03, 15, 7, 1, 1, 0x61, 1, 0x62, 2, 0x11, 0, 0x10, 4, 5, 6, 7, 8]
     kDraft23 default_subscribe =
   Inr (default_subscribe\<lparr>sub_request_id := 7, sub_track_namespace := [''a''], sub_track_name := ''b'',
     sub_subscriber_priority := 128, sub_forward := 1, sub_filter_type := 4, sub_start_group_id := 5,
     sub_start_object_id := 6, sub_end_group_id := 12, sub_end_object_id := Some 8,
     sub_location_filter := Some \<lparr>lf_type = 4, lf_start_group = 5, lf_start_object = 6,
       lf_end_group_delta = 7, lf_end_object = 8\<rparr>\<rparr>)"
  by (simp add: wire_eval del: bindE_eq_Inr cong: bindE_weak_cong)

text \<open>C1: Whatever SUBSCRIBE a peer sends and whatever the decoder was handed to fill, an accepted
  message has a FORWARD of 0 or 1, a GROUP_ORDER of at most 2 and, from draft 17 on, an absolute range
  whose end group is not before its start group (the objects within the groups are not compared); from
  draft 18 on its namespace has at most 32 non-empty fields and the Full Track Name at most 4096 bytes,
  and from draft 23 on the Track Name is not empty.\<close>

theorem decode_subscribe_message_valid:
  assumes "decode_subscribe_message bs draft m = Inr m'"
  shows "sub_forward m' \<le> 1 \<and> sub_group_order m' \<le> 2 \<and>
    (draft \<noteq> kDraft14 \<and> draft \<noteq> kDraft16 \<and> sub_filter_type m' = 0x04 \<longrightarrow>
       sub_start_group_id m' \<le> sub_end_group_id m') \<and>
    (is_draft18_or_later draft \<longrightarrow>
       length (sub_track_namespace m') \<le> 32 \<and> [] \<notin> set (sub_track_namespace m') \<and>
       length (sub_track_name m') + sum_list (map length (sub_track_namespace m')) \<le> 4096) \<and>
    (is_draft23_or_later draft \<longrightarrow> sub_track_name m' \<noteq> [])"
  using yieldsD [OF decode_subscribe_message_yields assms]
  by (simp add: subscribe_ok_def range_ok_def track_name_ok_def)

theorem decode_subscribe_message_valid_witness:
  "\<exists>m. decode_subscribe_message [0x03, 15, 7, 1, 1, 0x61, 1, 0x62, 2, 0x11, 0, 0x10, 4, 5, 6, 7, 8]
       kDraft23 default_subscribe = Inr m \<and> sub_filter_type m = 4 \<and>
     sub_start_group_id m \<le> sub_end_group_id m \<and> sub_track_name m \<noteq> []"
  using decode_subscribe_message_valid [OF subscribe_example] subscribe_example
  by (auto simp: draft_predicates)

text \<open>A parameter count costs a peer its bytes: in every request and response decoder a count above
  the length of the message runs the loop at most once per byte, plus once, and then fails, whatever
  64-bit count was announced.\<close>

theorem parameter_counts_bounded:
  assumes "length bs < n"
  shows "repeatE n (decode_subscribe_parameter bs (length bs) draft) s1 =
       repeatE (Suc (length bs)) (decode_subscribe_parameter bs (length bs) draft) s1 \<and>
     repeatE n (decode_subscribe_tracks_parameter bs (length bs) draft) s2 =
       repeatE (Suc (length bs)) (decode_subscribe_tracks_parameter bs (length bs) draft) s2 \<and>
     repeatE n (decode_request_update_parameter bs (length bs) draft dt) s3 =
       repeatE (Suc (length bs)) (decode_request_update_parameter bs (length bs) draft dt) s3 \<and>
     repeatE n (decode_publish_ok_parameter bs (length bs) draft) s4 =
       repeatE (Suc (length bs)) (decode_publish_ok_parameter bs (length bs) draft) s4 \<and>
     repeatE n (decode_request_ok_parameter bs (length bs) draft) s5 =
       repeatE (Suc (length bs)) (decode_request_ok_parameter bs (length bs) draft) s5 \<and>
     repeatE n (decode_fetch_parameter bs (length bs) draft) s6 =
       repeatE (Suc (length bs)) (decode_fetch_parameter bs (length bs) draft) s6 \<and>
     repeatE n (decode_subscribe_namespace_parameter bs (length bs) draft) s7 =
       repeatE (Suc (length bs)) (decode_subscribe_namespace_parameter bs (length bs) draft) s7 \<and>
     (\<exists>e. repeatE n (decode_subscribe_parameter bs (length bs) draft) s1 = Inl e)"
  using subscribe_loop.count_bounded [OF assms] subscribe_tracks_loop.count_bounded [OF assms]
    request_update_loop.count_bounded [OF assms] publish_ok_loop.count_bounded [OF assms]
    request_ok_loop.count_bounded [OF assms] fetch_loop.count_bounded [OF assms]
    subscribe_namespace_loop.count_bounded [OF assms]
  by blast

theorem parameter_counts_bounded_witness:
  "\<exists>e. repeatE 18446744073709551615 (decode_subscribe_parameter [0x20, 1] (length [0x20 :: u8, 1]) kDraft18) (0, 0, default_subscribe) =
     Inl e"
proof -
  have "length [0x20 :: u8, 1] < 18446744073709551615" by simp
  from parameter_counts_bounded [OF this, of kDraft18 "(0, 0, default_subscribe)"] show ?thesis by blast
qed

lemma read_filter_fields_ok:
  assumes "length acc + length fs \<le> 4"
  shows "read_filter_fields (pre @ concat (map (moqint_bytes kDraft21) fs) @ rest) (length pre)
     (length pre + length (concat (map (moqint_bytes kDraft21) fs))) acc =
    Inr (acc @ fs, length pre + length (concat (map (moqint_bytes kDraft21) fs)))"
  using assms
proof (induction fs arbitrary: pre acc)
  case Nil
  then show ?case by (simp add: read_filter_fields.simps)
next
  case (Cons f fs)
  let ?e = "concat (map (moqint_bytes kDraft21) fs)"
  have ok: "moqint_ok kDraft21 f" by (simp add: moqint_ok_def uses_moq_vi64_def draft_predicates)
  then have "moqint_bytes kDraft21 f \<noteq> []" by simp
  moreover have "decode_moqint_impl (pre @ moqint_bytes kDraft21 f @ ?e) (length pre) kDraft21 =
      Inr (f, length pre + length (moqint_bytes kDraft21 f))"
    by (rule decode_moqint_append [OF ok])
  moreover have "read_filter_fields ((pre @ moqint_bytes kDraft21 f) @ ?e @ rest)
      (length (pre @ moqint_bytes kDraft21 f)) (length (pre @ moqint_bytes kDraft21 f) + length ?e) (acc @ [f]) =
    Inr ((acc @ [f]) @ fs, length (pre @ moqint_bytes kDraft21 f) + length ?e)"
    using Cons.prems by (intro Cons.IH) simp
  ultimately show ?case using Cons.prems
    by (subst read_filter_fields.simps) (simp add: add.assoc)
qed

text \<open>How the two forms of LOCATION_FILTER write the same filter: draft 21 has only the fields, draft 22
  puts the type before them and writes Next Object, which draft 21 writes as two zeros, without any.\<close>

definition location_filter_type :: "u64 list \<Rightarrow> u64" where
  "location_filter_type fs = (if fs = [0, 0] then 5 else of_nat (length fs))"

definition draft21_filter_bytes :: "u64 list \<Rightarrow> bytes" where
  "draft21_filter_bytes fs = concat (map (moqint_bytes kDraft21) fs)"

definition draft22_filter_bytes :: "u64 list \<Rightarrow> bytes" where
  "draft22_filter_bytes fs = moqint_bytes kDraft22 (location_filter_type fs) @
     (if fs = [0, 0] then [] else concat (map (moqint_bytes kDraft21) fs))"

lemma draft22_filter_prefix:
  fixes rest :: bytes
  assumes "length fs \<le> 4"
  shows "decode_moqint_impl (pre @ draft22_filter_bytes fs) (length pre) kDraft22 =
    Inr (location_filter_type fs, length pre + length (moqint_bytes kDraft22 (location_filter_type fs)))"
  using decode_moqint_append [of kDraft22 "location_filter_type fs" pre]
  by (simp add: draft22_filter_bytes_def moqint_ok_def uses_moq_vi64_def draft_predicates)

text \<open>The two wire forms of LOCATION_FILTER mean the same: every filter of up to four fields decodes
  to the same subscription filter and the same recorded form from its draft-21 bytes as from its
  draft-22 bytes, and an end group that overflows is an error in both.\<close>

theorem location_filter_forms_agree:
  assumes "length fs \<le> 4"
  shows "decode_location_filter (pre @ draft21_filter_bytes fs @ rest) (length pre)
       (length pre + length (draft21_filter_bytes fs)) m kDraft21 =
     decode_location_filter (pre @ draft22_filter_bytes fs @ rest) (length pre)
       (length pre + length (draft22_filter_bytes fs)) m kDraft22"
proof -
  let ?t = "moqint_bytes kDraft22 (location_filter_type fs)"
  let ?fs = "if fs = [0, 0] then [] else fs"
  have b22: "draft22_filter_bytes fs = ?t @ draft21_filter_bytes ?fs"
    by (simp add: draft22_filter_bytes_def draft21_filter_bytes_def)
  have r21: "read_filter_fields (pre @ draft21_filter_bytes fs @ rest) (length pre)
      (length pre + length (draft21_filter_bytes fs)) [] =
      Inr (fs, length pre + length (draft21_filter_bytes fs))"
    using read_filter_fields_ok [of "[]" fs pre rest] assms by (simp add: draft21_filter_bytes_def)
  have l: "length ([] :: u64 list) + length ?fs \<le> 4" using assms by simp
  have r22: "read_filter_fields (pre @ draft22_filter_bytes fs @ rest) (length pre + length ?t)
      (length pre + length (draft22_filter_bytes fs)) [] =
      Inr (?fs, length pre + length (draft22_filter_bytes fs))"
    using read_filter_fields_ok [OF l, of "pre @ ?t" rest]
    by (simp add: b22 draft21_filter_bytes_def add.assoc split del: if_split)
  note p22 = draft22_filter_prefix [OF assms, of pre]
  have cs: "fs = [] \<or> (\<exists>a. fs = [a]) \<or> (\<exists>a b. fs = [a, b]) \<or> (\<exists>a b c. fs = [a, b, c]) \<or>
      (\<exists>a b c d. fs = [a, b, c, d])"
    using assms by (auto simp: length_Suc_conv le_Suc_eq numeral_eq_Suc)
  then have t: "\<not> location_filter_type fs > 5"
    and c: "length ?fs = location_field_counts ! unat (location_filter_type fs)"
    by (auto simp: location_filter_type_def location_field_counts_def)
  have "location_filter_result kDraft21 None fs m =
      location_filter_result kDraft22 (Some (location_filter_type fs)) ?fs m"
    using cs by (elim disjE exE)
      (simp_all add: location_filter_result_def location_filter_type_def location_field_counts_def
        location_filter_model_def note_decode_fault_def draft_predicates Let_def del: bindE_eq_Inr)
  then show ?thesis
    by (simp add: decode_location_filter_def draft_predicates not_overflowed_def r21 r22 p22 t
        split del: if_split)
qed


theorem location_filter_forms_agree_witness:
  "decode_location_filter ([9] @ draft21_filter_bytes [5, 0, 3] @ [1]) 1 4 default_subscribe kDraft21 =
   decode_location_filter ([9] @ draft22_filter_bytes [5, 0, 3] @ [1]) 1 5 default_subscribe kDraft22"
proof -
  have "length (draft21_filter_bytes [5, 0, 3]) = 3" "length (draft22_filter_bytes [5, 0, 3]) = 4"
    by (simp_all add: draft21_filter_bytes_def draft22_filter_bytes_def location_filter_type_def moqint_bytes_eval)
  with location_filter_forms_agree [of "[5, 0, 3]" "[9]" "[1]" default_subscribe] show ?thesis by simp
qed

text \<open>On draft 17 a SUBSCRIBE whose Required Request ID Delta is \<open>2 ^ 63\<close> is accepted with Request ID
  0: the check doubles the delta in 64 bits, where it is 0, so the delta is not compared at all.\<close>

theorem subscribe_draft17_delta_wraps:
  "\<exists>m. decode_subscribe_message
       ([0x03, 0, 13] @ moqint_bytes kDraft17 0 @ moqint_bytes kDraft17 (2 ^ 63) @ [0, 0, 0]) kDraft17
       default_subscribe = Inr m \<and> sub_request_id m = 0"
proof -
  have d: "moqint_bytes kDraft17 9223372036854775808 = [0xff, 0x80, 0, 0, 0, 0, 0, 0, 0]"
    "moqint_bytes kDraft17 0 = [0]" by (simp_all add: moqint_bytes_eval)
  have "decode_moqint_impl [0x03, 0, 13, 0, 0xff, 0x80, 0, 0, 0, 0, 0, 0, 0, 0, 0, 0]
      (Suc (Suc (Suc (Suc 0)))) kDraft17 = Inr (9223372036854775808, 13)"
    by (simp add: moqint_eval)
  then show ?thesis by (simp add: d wire_eval del: bindE_eq_Inr cong: bindE_weak_cong)
qed

end
