(* ===== verification/Session_Rules.thy ===== *)
theory Session_Rules
  imports Control_Subscribe
begin

text \<open>
  The rules a session of \<open>src/transport/moqt_session.cpp\<close> applies to what its peer sends: how a
  violation closes the session in each draft, which request ids are valid, and how delivery timeouts and
  priorities of several subscriptions combine. An operation that fails after closing the transport is
  \<open>Inl (Closed code message)\<close>; one that fails without closing is \<open>Inl (Failed message)\<close>, and one that an
  exception leaves is \<open>Inl (Thrown e)\<close>. The decode fault that \<open>protocol_violation\<close> takes from the thread is an argument.
\<close>

datatype session_failure = Closed u64 string | Failed string | Thrown exn

type_synonym 'a session = "session_failure + 'a"

subsection \<open>Error codes\<close>

definition kCancelledErrorCode :: u64 where "kCancelledErrorCode = 0x1"
definition kProtocolViolationErrorCode :: u64 where "kProtocolViolationErrorCode = 0x3"
definition kDoesNotExistLegacyRequestErrorCode :: u64 where "kDoesNotExistLegacyRequestErrorCode = 0x02"
definition kDoesNotExistRequestErrorCode :: u64 where "kDoesNotExistRequestErrorCode = 0x10"
definition kSessionDeliveryTimeoutErrorCode :: u64 where "kSessionDeliveryTimeoutErrorCode = 0x02"
definition kInvalidRequestIdErrorCode :: u64 where "kInvalidRequestIdErrorCode = 0x04"
definition kKeyValueFormattingErrorCode :: u64 where "kKeyValueFormattingErrorCode = 0x06"
definition kTooManyRequestsErrorCode :: u64 where "kTooManyRequestsErrorCode = 0x07"
definition kInvalidStreamHeaderErrorCode :: u64 where "kInvalidStreamHeaderErrorCode = 0x200"
definition kUnexpectedMessageErrorCode :: u64 where "kUnexpectedMessageErrorCode = 0x303"
definition kRoleViolationErrorCode :: u64 where "kRoleViolationErrorCode = 0x304"
definition kClosedControlStreamErrorCode :: u64 where "kClosedControlStreamErrorCode = 0x306"
definition kFieldLengthExceededErrorCode :: u64 where "kFieldLengthExceededErrorCode = 0x401"

lemmas session_codes =
  kCancelledErrorCode_def kProtocolViolationErrorCode_def kDoesNotExistLegacyRequestErrorCode_def
  kDoesNotExistRequestErrorCode_def kInvalidRequestIdErrorCode_def kKeyValueFormattingErrorCode_def
  kTooManyRequestsErrorCode_def kInvalidStreamHeaderErrorCode_def kUnexpectedMessageErrorCode_def
  kRoleViolationErrorCode_def kClosedControlStreamErrorCode_def kFieldLengthExceededErrorCode_def

subsection \<open>Violations\<close>

definition close_session :: "u64 \<Rightarrow> string \<Rightarrow> 'a session" where
  "close_session error_code message = Inl (Closed error_code message)"

definition protocol_violation :: "u64 \<Rightarrow> string \<Rightarrow> 'a session" where
  "protocol_violation fault message =
     close_session (if fault \<noteq> 0 then fault else kProtocolViolationErrorCode) message"

text \<open>The fault a failed decoder left for \<open>protocol_violation\<close>.\<close>

definition fault_of :: "decode_failure \<Rightarrow> u64" where
  "fault_of f = (case f of Rejected code \<Rightarrow> code | Raised _ \<Rightarrow> 0)"

definition session_violation :: "u64 \<Rightarrow> DraftVersion \<Rightarrow> u64 \<Rightarrow> string \<Rightarrow> 'a session" where
  "session_violation fault draft draft23_error_code message =
     (if \<not> is_draft23_or_later draft then protocol_violation fault message
      else close_session draft23_error_code message)"

definition unsupported_request_violation :: "u64 \<Rightarrow> DraftVersion \<Rightarrow> u64 \<Rightarrow> bytes \<Rightarrow> string \<Rightarrow> 'a session" where
  "unsupported_request_violation fault draft request_type message_bytes message =
     (if is_draft23_or_later draft then
        (if request_type \<notin> set [0x03, 0x06, 0x0d, 0x16, 0x1d, 0x50, 0x51] then
           close_session kUnexpectedMessageErrorCode ''request stream began with a message that is not a request''
         else if fault \<noteq> 0 then close_session fault message
         else case diagnose_malformed_request message_bytes draft of
             Inr code \<Rightarrow> if code \<noteq> 0 then close_session code message else protocol_violation 0 message
           | Inl e \<Rightarrow> Inl (Thrown e))
      else protocol_violation fault message)"

definition check_control_message_length :: "DraftVersion \<Rightarrow> bytes \<Rightarrow> unit session" where
  "check_control_message_length draft pending =
     (if \<not> control_message_exceeds_limit pending draft then Inr ()
      else close_session kFieldLengthExceededErrorCode ''control message exceeds MAX_CONTROL_MESSAGE_SIZE'')"

definition authorization_token_status :: "bool \<Rightarrow> bool \<Rightarrow> bool \<Rightarrow> unit session" where
  "authorization_token_status malformed cache_overflow unknown_alias =
     (if malformed then close_session kKeyValueFormattingErrorCode ''malformed AUTHORIZATION_TOKEN structure''
      else if cache_overflow then
        close_session 0x13 ''AUTHORIZATION_TOKEN registration exceeds the zero-byte cache''
      else if unknown_alias then close_session 0x17 ''unregistered AUTHORIZATION_TOKEN alias''
      else Inr ())"

definition does_not_exist_request_error_code :: "DraftVersion \<Rightarrow> u64" where
  "does_not_exist_request_error_code draft =
     (if is_draft18_or_later draft then kDoesNotExistRequestErrorCode else kDoesNotExistLegacyRequestErrorCode)"

definition request_update_decode_failure :: "u64 \<Rightarrow> RequestUpdateDecodeError \<Rightarrow> string \<Rightarrow> 'a session" where
  "request_update_decode_failure fault error message =
     (if error = KeyValueFormatting then close_session kKeyValueFormattingErrorCode message
      else if error = AuthTokenCacheOverflow then close_session 0x13 message
      else if error = UnknownAuthTokenAlias then close_session 0x17 message
      else protocol_violation fault message)"

definition unexpected_requester_message :: "DraftVersion \<Rightarrow> u64 \<Rightarrow> unit session" where
  "unexpected_requester_message draft message_type =
     (if \<not> is_draft23_or_later draft \<or> message_type = 0x02 \<or> message_type = 0x10 then Inr ()
      else if message_type = 0x22 then
        close_session kRoleViolationErrorCode ''PUBLISH_STATE_NOTIFY received by the publisher of the subscription''
      else close_session kUnexpectedMessageErrorCode ''unexpected message on a request stream'')"

subsection \<open>Draft behaviour\<close>

definition uses_peer_max_request_id :: "DraftVersion \<Rightarrow> bool" where
  "uses_peer_max_request_id draft \<longleftrightarrow> draft \<noteq> kDraft17 \<and> \<not> is_draft18_or_later draft"

definition uses_request_streams :: "DraftVersion \<Rightarrow> bool" where
  "uses_request_streams draft \<longleftrightarrow> draft = kDraft17 \<or> is_draft18_or_later draft"

definition uses_priority_scheduler :: "DraftVersion \<Rightarrow> bool" where
  "uses_priority_scheduler draft \<longleftrightarrow> draft = kDraft16 \<or> is_draft18_or_later draft"

definition subscription_forwards_objects :: "DraftVersion \<Rightarrow> u8 \<Rightarrow> bool" where
  "subscription_forwards_objects draft forward \<longleftrightarrow> \<not> uses_priority_scheduler draft \<or> forward \<noteq> 0"

definition is_known_peer_unidirectional_stream_type :: "u64 \<Rightarrow> DraftVersion \<Rightarrow> bool" where
  "is_known_peer_unidirectional_stream_type type draft =
     (if type = 0x05 \<or> type = 0x2f00 \<or> type = 0x132b3e28 then True
      else if \<not> is_draft18_or_later draft then False
      else if is_draft23_or_later draft \<and> type AND 0x06 = 0x06 then False
      else type \<le> 0x7f \<and> type AND 0x90 = 0x10)"

definition subscribe_tracks_overlap_error_code :: "DraftVersion \<Rightarrow> u64" where
  "subscribe_tracks_overlap_error_code draft = (if is_draft23_or_later draft then 0x3 else 0x30)"

definition is_request_stream :: "u64 \<Rightarrow> bool" where
  "is_request_stream stream_id \<longleftrightarrow> stream_id AND 0x2 = 0"

definition live_srt_resource_reset_code :: "DraftVersion \<Rightarrow> u64" where
  "live_srt_resource_reset_code draft = (if uses_request_streams draft then 0x05 else 0x01)"

subsection \<open>Request ids of the peer\<close>

record PeerRequestIdValidator =
  id_draft :: DraftVersion
  advertised_max :: u64
  next_draft16_request_id :: u64
  draft18_request_ids :: "u64 set"

definition advertised_max_request_id :: "bool \<Rightarrow> u64" where
  "advertised_max_request_id webtransport = (if webtransport then 128 else 100)"

definition new_validator :: "DraftVersion \<Rightarrow> u64 \<Rightarrow> PeerRequestIdValidator" where
  "new_validator draft advertised =
     \<lparr>id_draft = draft, advertised_max = advertised, next_draft16_request_id = 1,
      draft18_request_ids = {}\<rparr>"

definition validate :: "u64 \<Rightarrow> PeerRequestIdValidator \<Rightarrow> PeerRequestIdValidator session" where
  "validate request_id v =
     (if id_draft v \<noteq> kDraft16 \<and> \<not> is_draft18_or_later (id_draft v) then Inr v
      else if id_draft v = kDraft16 \<and> request_id \<ge> advertised_max v then
        close_session kTooManyRequestsErrorCode ''peer request id exceeds advertised maximum''
      else if request_id AND 0x1 = 0 then
        close_session kInvalidRequestIdErrorCode ''peer request id has invalid parity''
      else if id_draft v = kDraft16 then
        (if request_id \<noteq> next_draft16_request_id v then
           close_session kInvalidRequestIdErrorCode ''peer request id is not next in sequence''
         else Inr (v\<lparr>next_draft16_request_id := next_draft16_request_id v + 2\<rparr>))
      else if request_id \<in> draft18_request_ids v then
        close_session kInvalidRequestIdErrorCode ''peer request id is duplicated''
      else Inr (v\<lparr>draft18_request_ids := insert request_id (draft18_request_ids v)\<rparr>))"

subsection \<open>Deadlines and timeouts\<close>

text \<open>
  Time points are counts of nanoseconds, as in \<open>std::chrono::steady_clock\<close> of the supported standard
  libraries; \<open>duration_cast\<close> of a non-negative duration rounds down.
\<close>

definition time_point_max :: int where "time_point_max = 2 ^ 63 - 1"

definition deadline_after :: "int \<Rightarrow> u64 \<Rightarrow> int option" where
  "deadline_after start timeout_ms =
     (if timeout_ms = 0 then None
      else
      let nonnegative_start = max start 0;
          remaining_ms = (time_point_max - nonnegative_start) div 1000000 in
      if uint timeout_ms > remaining_ms \<or> uint timeout_ms > 2 ^ 63 - 1 then Some time_point_max
      else Some (start + uint timeout_ms * 1000000))"

definition deadline_reached :: "int \<Rightarrow> int option \<Rightarrow> int option \<Rightarrow> bool" where
  "deadline_reached now object_deadline subgroup_deadline \<longleftrightarrow>
     (case object_deadline of None \<Rightarrow> False | Some d \<Rightarrow> now \<ge> d) \<or>
     (case subgroup_deadline of None \<Rightarrow> False | Some d \<Rightarrow> now \<ge> d)"

definition timeouts_for_draft :: "DraftVersion \<Rightarrow> DeliveryTimeouts \<Rightarrow> DeliveryTimeouts" where
  "timeouts_for_draft draft timeouts =
     (if draft \<noteq> kDraft16 \<and> \<not> is_draft18_or_later draft then no_timeouts
      else if \<not> is_draft18_or_later draft then timeouts\<lparr>subgroup_ms := 0\<rparr>
      else timeouts)"

definition smaller_nonzero_timeout :: "u64 \<Rightarrow> u64 \<Rightarrow> u64" where
  "smaller_nonzero_timeout first second =
     (if first = 0 then second else if second = 0 then first else min first second)"

definition merge_delivery_timeouts :: "DeliveryTimeouts \<Rightarrow> DeliveryTimeouts \<Rightarrow> DeliveryTimeouts" where
  "merge_delivery_timeouts first second =
     first\<lparr>object_ms := smaller_nonzero_timeout (object_ms first) (object_ms second),
           subgroup_ms := smaller_nonzero_timeout (subgroup_ms first) (subgroup_ms second)\<rparr>"

text \<open>The map from request ids to subscriptions, in its order.\<close>

type_synonym subscriptions = "(u64 \<times> SubscribeMessage) list"

definition delivery_timeouts_for_track :: "subscriptions \<Rightarrow> string \<Rightarrow> DeliveryTimeouts \<Rightarrow> DeliveryTimeouts" where
  "delivery_timeouts_for_track subscriptions track publisher_timeouts =
     foldl (\<lambda>effective (request_id, subscribe).
         if sub_track_name subscribe = track
         then merge_delivery_timeouts effective (sub_delivery_timeouts subscribe) else effective)
       publisher_timeouts subscriptions"

definition subscriber_priority_for_track :: "subscriptions \<Rightarrow> string \<Rightarrow> u8 \<Rightarrow> u8" where
  "subscriber_priority_for_track subscriptions track fallback =
     (case foldl (\<lambda>priority (request_id, subscribe).
         if sub_track_name subscribe \<noteq> track then priority
         else Some (case priority of
             Some p \<Rightarrow> min p (sub_subscriber_priority subscribe)
           | None \<Rightarrow> sub_subscriber_priority subscribe)) None subscriptions of
        Some p \<Rightarrow> p | None \<Rightarrow> fallback)"

text \<open>\<open>note_delivery_timeouts\<close>: the drain bound given to the transport, if any.\<close>

definition note_delivery_timeouts :: "DeliveryTimeouts \<Rightarrow> u64 option" where
  "note_delivery_timeouts timeouts =
     (let close_drain_timeout_ms = max (object_ms timeouts) (subgroup_ms timeouts) in
      if close_drain_timeout_ms \<noteq> 0 then Some close_drain_timeout_ms else None)"

subsection \<open>Request ids\<close>

fun validate_all :: "u64 list \<Rightarrow> PeerRequestIdValidator \<Rightarrow> PeerRequestIdValidator session" where
  "validate_all [] v = Inr v"
| "validate_all (i # ids) v = bindE (validate i v) (validate_all ids)"

lemma validate_all_draft16:
  "id_draft v = kDraft16 \<Longrightarrow>
   (\<exists>v'. validate_all ids v = Inr v') \<longleftrightarrow>
     ids = map (\<lambda>i. next_draft16_request_id v + of_nat (2 * i)) [0..<length ids] \<and>
     (\<forall>i \<in> set ids. i < advertised_max v \<and> i AND 1 \<noteq> 0)"
proof (induction ids arbitrary: v)
  case (Cons i ids)
  have shift: "map (\<lambda>i. a + of_nat (2 * i)) [0..<Suc n] =
      a # map (\<lambda>i. (a + 2) + of_nat (2 * i)) [0..<n]" for a :: u64 and n
    by (simp only: upt_rec [of 0 "Suc n"] map_Suc_upt [symmetric]) (simp add: algebra_simps)
  let ?v = "v\<lparr>next_draft16_request_id := next_draft16_request_id v + 2\<rparr>"
  have step: "validate i v = (if i < advertised_max v \<and> i AND 1 \<noteq> 0 \<and> i = next_draft16_request_id v
      then Inr ?v else Inl (the (case validate i v of Inl e \<Rightarrow> Some e | Inr _ \<Rightarrow> None)))"
    using Cons.prems by (auto simp: validate_def close_session_def not_le is_draft18_or_later_def
        is_draft21_or_later_def is_draft22_or_later_def is_draft23_or_later_def)
  have "(\<exists>v'. validate_all (i # ids) v = Inr v') \<longleftrightarrow>
      i < advertised_max v \<and> i AND 1 \<noteq> 0 \<and> i = next_draft16_request_id v \<and> (\<exists>v'. validate_all ids ?v = Inr v')"
    by (subst validate_all.simps, subst step) auto
  then show ?case using Cons.IH [of ?v] Cons.prems by (simp only: length_Cons shift) auto
qed simp

lemma validate_all_draft18:
  "is_draft18_or_later (id_draft v) \<Longrightarrow>
   (\<exists>v'. validate_all ids v = Inr v') \<longleftrightarrow>
     distinct ids \<and> (\<forall>i \<in> set ids. i AND 1 \<noteq> 0 \<and> i \<notin> draft18_request_ids v)"
proof (induction ids arbitrary: v)
  case (Cons i ids)
  let ?v = "v\<lparr>draft18_request_ids := insert i (draft18_request_ids v)\<rparr>"
  have ne: "id_draft v \<noteq> kDraft16" using Cons.prems by (auto simp: is_draft18_or_later_def
        is_draft21_or_later_def is_draft22_or_later_def is_draft23_or_later_def)
  have "(\<exists>v'. validate_all (i # ids) v = Inr v') \<longleftrightarrow>
      i AND 1 \<noteq> 0 \<and> i \<notin> draft18_request_ids v \<and> (\<exists>v'. validate_all ids ?v = Inr v')"
    using Cons.prems ne by (auto simp: validate_def close_session_def)
  then show ?case using Cons.IH [of ?v] Cons.prems by auto
qed simp

text \<open>C19: The ids of a peer's requests that a session accepts are, on draft 16, exactly 1, 3, 5 and so on
  in order and below the advertised maximum, and from draft 18 on exactly the sequences of odd ids
  without repetition; so no accepted id is ever used twice.\<close>

theorem peer_request_ids_unique:
  assumes "draft = kDraft16 \<or> is_draft18_or_later draft"
  shows "(\<exists>v. validate_all ids (new_validator draft m) = Inr v) \<longleftrightarrow>
    (if draft = kDraft16
     then ids = map (\<lambda>i. of_nat (2 * i + 1)) [0..<length ids] \<and> (\<forall>i \<in> set ids. i < m)
     else distinct ids \<and> (\<forall>i \<in> set ids. i AND 1 \<noteq> 0))"
proof (cases "draft = kDraft16")
  case True
  have "of_nat (2 * i + 1) AND (1 :: u64) \<noteq> 0" for i
    by (simp add: and_one_eq odd_iff_mod_2_eq_one [symmetric])
  moreover have "map (\<lambda>i. 1 + of_nat (2 * i)) [0..<length ids] = map (\<lambda>i. of_nat (2 * i + 1) :: u64) [0..<length ids]"
    by simp
  ultimately show ?thesis
    using validate_all_draft16 [of "new_validator draft m" ids] True
    by (simp add: new_validator_def) (metis (no_types, lifting) imageE list.set_map)
next
  case False
  then show ?thesis
    using validate_all_draft18 [of "new_validator draft m" ids] assms by (simp add: new_validator_def)
qed

theorem peer_request_ids_unique_witness:
  "(\<exists>v. validate_all [7, 3, 9] (new_validator kDraft18 100) = Inr v) \<and>
   \<not> (\<exists>v. validate_all [1, 5] (new_validator kDraft16 100) = Inr v)"
  using peer_request_ids_unique [of kDraft18 "[7, 3, 9]" 100] peer_request_ids_unique [of kDraft16 "[1, 5]" 100]
  by (simp add: is_draft18_or_later_def)

subsection \<open>Deadlines\<close>

text \<open>A delivery deadline is the time of the timeout, cut off at the largest time point instead of
  overflowing: for every start from the clock's epoch on and every 64-bit timeout.\<close>

theorem deadline_after_exact:
  assumes "0 \<le> start" and "start \<le> time_point_max" and "timeout_ms \<noteq> 0"
  shows "deadline_after start timeout_ms = Some (min (start + uint timeout_ms * 1000000) time_point_max) \<and>
    deadline_after start 0 = None"
proof -
  have "(time_point_max - start) div 1000000 < uint timeout_ms \<longleftrightarrow> time_point_max < start + uint timeout_ms * 1000000"
    using assms by (auto simp: div_less_iff_less_mult)
  moreover have "time_point_max < start + uint timeout_ms * 1000000" if "uint timeout_ms > 2 ^ 63 - 1"
    using that assms by (simp add: time_point_max_def)
  ultimately show ?thesis using assms by (auto simp: deadline_after_def Let_def max_def)
qed

theorem deadline_after_exact_witness:
  "deadline_after 5 3 = Some 3000005 \<and> deadline_after 5 (- 1) = Some time_point_max"
  using deadline_after_exact [of 5 3] deadline_after_exact [of 5 "- 1"]
  by (simp add: time_point_max_def unsigned_minus_1_eq_mask mask_eq_exp_minus_1 uint_word_ariths)

subsection \<open>Settings of several subscriptions\<close>

definition least_timeout :: "u64 \<Rightarrow> u64 set \<Rightarrow> bool" where
  "least_timeout t T \<longleftrightarrow> (if t = 0 then T \<subseteq> {0} else t \<in> T \<and> (\<forall>u \<in> T. u \<noteq> 0 \<longrightarrow> t \<le> u))"

lemma least_timeout_single: "least_timeout t {t}"
  by (simp add: least_timeout_def)

lemma least_timeout_step:
  "least_timeout r (insert (smaller_nonzero_timeout t u) T) \<Longrightarrow> least_timeout r (insert t (insert u T))"
  by (auto simp: least_timeout_def smaller_nonzero_timeout_def min_def split: if_splits)

lemma least_timeout_foldl: "least_timeout (foldl smaller_nonzero_timeout t ts) (insert t (set ts))"
proof (induction ts arbitrary: t)
  case (Cons u ts)
  then show ?case using least_timeout_step by simp
qed (simp add: least_timeout_def)

definition subscriptions_to :: "string \<Rightarrow> subscriptions \<Rightarrow> SubscribeMessage list" where
  "subscriptions_to track subscriptions = filter (\<lambda>m. sub_track_name m = track) (map snd subscriptions)"

lemma delivery_timeouts_foldl:
  "object_ms (delivery_timeouts_for_track subs track p) = foldl smaller_nonzero_timeout (object_ms p)
     (map (\<lambda>m. object_ms (sub_delivery_timeouts m)) (subscriptions_to track subs))"
  "subgroup_ms (delivery_timeouts_for_track subs track p) = foldl smaller_nonzero_timeout (subgroup_ms p)
     (map (\<lambda>m. subgroup_ms (sub_delivery_timeouts m)) (subscriptions_to track subs))"
  by (induction subs arbitrary: p)
    (auto simp: delivery_timeouts_for_track_def subscriptions_to_def merge_delivery_timeouts_def)

lemma subscriber_priority_foldl:
  "foldl (\<lambda>priority (request_id, subscribe).
         if sub_track_name subscribe \<noteq> track then priority
         else Some (case priority of
             Some p \<Rightarrow> min p (sub_subscriber_priority subscribe)
           | None \<Rightarrow> sub_subscriber_priority subscribe)) p0 subs =
   (let ps = (case p0 of None \<Rightarrow> [] | Some p \<Rightarrow> [p]) @ map sub_subscriber_priority (subscriptions_to track subs) in
    if ps = [] then None else Some (foldl min (hd ps) (tl ps)))"
  by (induction subs arbitrary: p0)
    (auto simp: subscriptions_to_def Let_def split: option.splits)

lemma foldl_min:
  fixes p :: "'a :: linorder"
  shows "foldl min p ps \<in> set (p # ps) \<and> (\<forall>q \<in> set (p # ps). foldl min p ps \<le> q)"
proof (induction ps arbitrary: p)
  case (Cons q ps)
  have "min p q = p \<or> min p q = q" by (simp add: min_def)
  then show ?case using Cons.IH [of "min p q"] by (auto dest: order.trans [OF _ min.cobounded1] order.trans [OF _ min.cobounded2])
qed simp

text \<open>A track that several subscriptions share is delivered under the strictest of them, in whatever
  order they came: its object and subgroup timeouts are the least non-zero ones of the publisher and the
  subscriptions, absent only if all are, and its priority is the most urgent, or the fallback when
  nothing subscribes to the track.\<close>

theorem shared_track_settings:
  assumes "ms = subscriptions_to track subs"
  shows "least_timeout (object_ms (delivery_timeouts_for_track subs track p))
      (insert (object_ms p) (set (map (\<lambda>m. object_ms (sub_delivery_timeouts m)) ms))) \<and>
    least_timeout (subgroup_ms (delivery_timeouts_for_track subs track p))
      (insert (subgroup_ms p) (set (map (\<lambda>m. subgroup_ms (sub_delivery_timeouts m)) ms))) \<and>
    (if ms = [] then subscriber_priority_for_track subs track fallback = fallback
     else subscriber_priority_for_track subs track fallback \<in> set (map sub_subscriber_priority ms) \<and>
       (\<forall>m \<in> set ms. subscriber_priority_for_track subs track fallback \<le> sub_subscriber_priority m))"
proof -
  let ?p = "foldl min (sub_subscriber_priority (hd ms)) (map sub_subscriber_priority (tl ms))"
  have "subscriber_priority_for_track subs track fallback = (if ms = [] then fallback else ?p)"
    using subscriber_priority_foldl [of track None subs] assms
    by (simp add: subscriber_priority_for_track_def hd_map map_tl)
  moreover have "?p \<in> set (map sub_subscriber_priority ms) \<and> (\<forall>m \<in> set ms. ?p \<le> sub_subscriber_priority m)"
    if "ms \<noteq> []"
    using foldl_min [of "sub_subscriber_priority (hd ms)" "map sub_subscriber_priority (tl ms)"] that
    by (cases ms) auto
  ultimately show ?thesis
    by (simp add: delivery_timeouts_foldl assms [symmetric] del: set_map list.set_map)
      (simp only: least_timeout_foldl least_timeout_single simp_thms)
qed

theorem shared_track_settings_witness:
  "least_timeout (object_ms (delivery_timeouts_for_track
      [(1, default_subscribe\<lparr>sub_delivery_timeouts := \<lparr>object_ms = 500, subgroup_ms = 0\<rparr>\<rparr>)] []
      \<lparr>object_ms = 900, subgroup_ms = 0\<rparr>)) {900, 500}"
  using shared_track_settings [where track = "[]" and p = "\<lparr>object_ms = 900, subgroup_ms = 0\<rparr>" and
      subs = "[(1, default_subscribe\<lparr>sub_delivery_timeouts := \<lparr>object_ms = 500, subgroup_ms = 0\<rparr>\<rparr>)]", OF refl]
  by (simp add: subscriptions_to_def default_subscribe_def)

end
