(* ===== verification/Object_Stream.thy ===== *)
theory Object_Stream
  imports Control_Framing "HOL-Library.Multiset"
begin

text \<open>
  The data stream encoders of \<open>src/transport/moqt_control_messages.cpp\<close>:
  \<open>encode_subgroup_header\<close>, \<open>encode_subgroup_object\<close> and \<open>serialize_object_properties\<close>. All three throw
  \<open>std::invalid_argument\<close>, which is \<open>Inl\<close>. A receiver, written from the format the encoders document,
  reads back what they write: the object ids from their deltas, the properties in id order.
\<close>

subsection \<open>Object properties\<close>

datatype property_value = Integer_Value u64 | Bytes_Value bytes

record ObjectProperty =
  prop_id :: u64
  prop_value :: property_value

text \<open>
  The loop body. The state is the block, \<open>previous\<close> and \<open>first\<close>. \<open>std::get_if\<close> on the other
  alternative of the variant is null.
\<close>

definition serialize_object_property ::
    "ObjectProperty \<Rightarrow> bytes \<times> u64 \<times> bool \<Rightarrow> exn + (bytes \<times> u64 \<times> bool)" where
  "serialize_object_property p = (\<lambda>(out, previous, first).
     if \<not> first \<and> prop_id p = previous then Inl (Invalid_Argument ''duplicate object property ID'')
     else
     let out = snd (append_vi64 out (prop_id p - previous)) in
     bindE (if prop_id p mod 2 = 0 then
              (case prop_value p of
                 Integer_Value v \<Rightarrow> Inr (snd (append_vi64 out v))
               | Bytes_Value _ \<Rightarrow> Inl (Invalid_Argument ''even object property ID requires integer value''))
            else
              (case prop_value p of
                 Integer_Value _ \<Rightarrow>
                   Inl (Invalid_Argument ''odd object property ID requires at most 65535 bytes'')
               | Bytes_Value v \<Rightarrow>
                   if length v > 65535 then
                     Inl (Invalid_Argument ''odd object property ID requires at most 65535 bytes'')
                   else
                   let out = snd (append_vi64 out (of_nat (length v))) in
                   if length out > 65536 \<or> length v > 65536 - length out then
                     Inl (Invalid_Argument ''object property block exceeds 64 KiB'')
                   else Inr (out @ v))) (\<lambda>out.
     if length out > 65536 then Inl (Invalid_Argument ''object property block exceeds 64 KiB'')
     else Inr (out, prop_id p, False)))"

fun serialize_sorted_properties ::
    "ObjectProperty list \<Rightarrow> bytes \<times> u64 \<times> bool \<Rightarrow> exn + (bytes \<times> u64 \<times> bool)" where
  "serialize_sorted_properties [] s = Inr s"
| "serialize_sorted_properties (p # ps) s =
     bindE (serialize_object_property p s) (serialize_sorted_properties ps)"

text \<open>
  \<open>std::sort\<close> does not order properties with equal ids; they make the call throw in any order, so
  the stable sort of the library stands for it.
\<close>

definition serialize_object_properties :: "ObjectProperty list \<Rightarrow> exn + bytes" where
  "serialize_object_properties properties =
     (if length properties > 32768 then Inl (Invalid_Argument ''object property block exceeds 64 KiB'')
      else
      bindE (serialize_sorted_properties (sort_key prop_id properties) ([], 0, True)) (\<lambda>(out, _, _).
      Inr out))"

subsection \<open>Subgroup streams\<close>

definition encode_subgroup_header ::
    "DraftVersion \<Rightarrow> u64 \<Rightarrow> u64 \<Rightarrow> u64 \<Rightarrow> bool \<Rightarrow> bool \<Rightarrow> bool \<Rightarrow> exn + bytes" where
  "encode_subgroup_header draft track_alias group_id subgroup_id end_of_group properties_present first_object =
     (if properties_present \<and> \<not> is_draft18_or_later draft then
        Inl (Invalid_Argument ''object properties require draft 18'')
      else
      let base_type = (if draft = kDraft14 then 0x10 else 0x30) :: u64;
          stream_type = base_type OR (if end_of_group then 0x08 else 0)
            OR (if properties_present then 0x01 else 0)
            OR (if first_object \<and> is_draft18_or_later draft then 0x40 else 0) in
      Inr (put_moqint draft group_id (put_moqint draft track_alias (put_moqint draft stream_type []))))"

definition encode_subgroup_object ::
    "DraftVersion \<Rightarrow> u64 option \<Rightarrow> u64 \<Rightarrow> bytes \<Rightarrow> ObjectProperty list \<Rightarrow> bool \<Rightarrow> exn + bytes" where
  "encode_subgroup_object draft previous_object_id object_id payload properties properties_present =
     (let properties_present = (properties_present \<or> properties \<noteq> []) in
      if properties_present \<and> \<not> is_draft18_or_later draft then
        Inl (Invalid_Argument ''object properties require draft 18'')
      else if (case previous_object_id of None \<Rightarrow> False | Some p \<Rightarrow> object_id \<le> p) then
        Inl (Invalid_Argument ''subgroup object IDs must increase'')
      else
      bindE (serialize_object_properties properties) (\<lambda>property_bytes.
      let object_id_delta = (case previous_object_id of None \<Rightarrow> object_id | Some p \<Rightarrow> object_id - p - 1);
          out = put_moqint draft object_id_delta [];
          out = (if properties_present
                 then put_moqint draft (of_nat (length property_bytes)) out @ property_bytes else out);
          out = put_moqint draft (of_nat (length payload)) out;
          out = (if uses_moq_vi64 draft \<and> payload = [] then put_moqint draft 0 out else out) in
      Inr (out @ payload)))"

subsection \<open>The receiver of the specification\<close>

text \<open>One object: its id, property block and payload, read against the id of the one before it. In every
  draft (14 and 16 in Section 10.4.2, 17 and later with \<open>vi64\<close>) an Object Status follows a
  payload length of 0, and only that.\<close>

definition receive_object ::
    "DraftVersion \<Rightarrow> bool \<Rightarrow> bytes \<Rightarrow> nat \<Rightarrow> u64 option \<Rightarrow> (u64 \<times> bytes \<times> bytes \<times> nat) decoded" where
  "receive_object draft properties_present bs offset previous =
     bindE (decode_moqint_impl bs offset draft) (\<lambda>(delta, offset).
     let object_id = (case previous of None \<Rightarrow> delta | Some p \<Rightarrow> p + delta + 1) in
     bindE (if properties_present then
              bindE (decode_moqint_impl bs offset draft) (\<lambda>(n, offset).
              if fits offset (unat n) (length bs) then Inr (slice bs offset (unat n), offset + unat n)
              else reject)
            else Inr ([], offset)) (\<lambda>(properties, offset).
     bindE (decode_moqint_impl bs offset draft) (\<lambda>(n, offset).
     if n = 0 then
       bindE (decode_moqint_impl bs offset draft) (\<lambda>(status, offset).
       Inr (object_id, properties, [], offset))
     else if fits offset (unat n) (length bs) then
       Inr (object_id, properties, slice bs offset (unat n), offset + unat n)
     else reject)))"

text \<open>A property block: the delta-coded ids, integers for the even ones and byte strings for the odd.\<close>

definition receive_property :: "bytes \<Rightarrow> nat \<Rightarrow> u64 \<Rightarrow> (ObjectProperty \<times> nat) decoded" where
  "receive_property bs offset previous =
     bindE (decode_vi64_impl bs offset) (\<lambda>(delta, offset).
     let i = previous + delta in
     bindE (decode_vi64_impl bs offset) (\<lambda>(v, offset).
     if i mod 2 = 0 then Inr (\<lparr>prop_id = i, prop_value = Integer_Value v\<rparr>, offset)
     else if fits offset (unat v) (length bs) then
       Inr (\<lparr>prop_id = i, prop_value = Bytes_Value (slice bs offset (unat v))\<rparr>, offset + unat v)
     else reject))"

fun receive_properties :: "nat \<Rightarrow> bytes \<Rightarrow> nat \<Rightarrow> u64 \<Rightarrow> (ObjectProperty list \<times> nat) decoded" where
  "receive_properties 0 bs offset previous = Inr ([], offset)"
| "receive_properties (Suc n) bs offset previous =
     bindE (receive_property bs offset previous) (\<lambda>(p, offset).
     bindE (receive_properties n bs offset (prop_id p)) (\<lambda>(ps, offset). Inr (p # ps, offset)))"

subsection \<open>Property blocks\<close>

definition vi64_bytes :: "u64 \<Rightarrow> bytes" where
  "vi64_bytes v = snd (append_vi64 [] v)"

lemma append_vi64_eq: "snd (append_vi64 out v) = out @ vi64_bytes v"
  by (simp add: vi64_bytes_def append_vi64_def)

lemma decode_vi64_bytes:
  "decode_vi64_impl (pre @ vi64_bytes v @ rest) (length pre) = Inr (v, length pre + length (vi64_bytes v))"
  unfolding vi64_bytes_def by (rule decode_vi64_append)

lemma decode_vi64_bytes_second:
  "decode_vi64_impl (pre @ vi64_bytes u @ vi64_bytes v @ rest) (length pre + length (vi64_bytes u)) =
     Inr (v, length pre + length (vi64_bytes u) + length (vi64_bytes v))"
  using decode_vi64_bytes [of "pre @ vi64_bytes u" v rest] by simp

text \<open>What one property appends, and that the receiver reads it back.\<close>

definition property_bytes :: "u64 \<Rightarrow> ObjectProperty \<Rightarrow> bytes" where
  "property_bytes previous p =
     vi64_bytes (prop_id p - previous) @
     (case prop_value p of Integer_Value v \<Rightarrow> vi64_bytes v | Bytes_Value v \<Rightarrow> vi64_bytes (of_nat (length v)) @ v)"

definition property_fits :: "ObjectProperty \<Rightarrow> bool" where
  "property_fits p \<longleftrightarrow> (case prop_value p of Integer_Value v \<Rightarrow> prop_id p mod 2 = 0
     | Bytes_Value v \<Rightarrow> prop_id p mod 2 \<noteq> 0 \<and> length v \<le> 65535)"

lemma serialize_object_property_eq_Inr:
  "serialize_object_property p (out, previous, first) = Inr s \<longleftrightarrow>
     (first \<or> prop_id p \<noteq> previous) \<and> property_fits p \<and>
     length (out @ property_bytes previous p) \<le> 65536 \<and>
     s = (out @ property_bytes previous p, prop_id p, False)"
  by (cases "prop_value p")
    (auto simp: serialize_object_property_def property_fits_def property_bytes_def append_vi64_eq Let_def)

lemma serialize_object_property_error:
  "serialize_object_property p s = Inl e \<Longrightarrow> \<exists>what. e = Invalid_Argument what"
  by (cases s) (auto simp: serialize_object_property_def bindE_eq_Inl Let_def
      split: if_split_asm property_value.splits)

lemma receive_property_at:
  assumes "property_fits p"
  shows "receive_property (pre @ property_bytes previous p @ rest) (length pre) previous =
     Inr (p, length pre + length (property_bytes previous p))"
proof (cases "prop_value p")
  case (Integer_Value v)
  then have "p = \<lparr>prop_id = prop_id p, prop_value = Integer_Value v\<rparr>" by (cases p) simp
  with Integer_Value show ?thesis using assms
    by (simp add: receive_property_def property_bytes_def property_fits_def decode_vi64_bytes
        decode_vi64_bytes_second add.assoc Let_def)
next
  case (Bytes_Value v)
  let ?l = "of_nat (length v) :: u64" and ?d = "vi64_bytes (prop_id p - previous)"
  have p: "p = \<lparr>prop_id = prop_id p, prop_value = Bytes_Value v\<rparr>" using Bytes_Value by (cases p) simp
  have l: "unat ?l = length v" using assms Bytes_Value by (simp add: property_fits_def)
  have "slice (pre @ ?d @ vi64_bytes ?l @ v @ rest)
      (length pre + (length ?d + length (vi64_bytes ?l))) (length v) = v"
    using slice_append [of "pre @ ?d @ vi64_bytes ?l" v rest] by simp
  with p show ?thesis using assms Bytes_Value l
    by (simp add: receive_property_def property_bytes_def property_fits_def decode_vi64_bytes
        decode_vi64_bytes_second fits_iff add.assoc Let_def)
qed

fun properties_bytes :: "u64 \<Rightarrow> ObjectProperty list \<Rightarrow> bytes" where
  "properties_bytes previous [] = []"
| "properties_bytes previous (p # ps) = property_bytes previous p @ properties_bytes (prop_id p) ps"

lemma serialize_sorted_bytes:
  assumes "serialize_sorted_properties ps (out, previous, first) = Inr s" and "length out \<le> 65536"
  shows "fst s = out @ properties_bytes previous ps \<and> list_all property_fits ps \<and>
    length (fst s) \<le> 65536"
  using assms
proof (induction ps arbitrary: out previous first)
  case (Cons p ps)
  then have p: "property_fits p" "length (out @ property_bytes previous p) \<le> 65536"
    and r: "serialize_sorted_properties ps (out @ property_bytes previous p, prop_id p, False) = Inr s"
    by (auto simp: serialize_object_property_eq_Inr)
  from Cons.IH [OF r p(2)] p(1) show ?case by auto
qed auto

lemma serialize_sorted_distinct:
  assumes "serialize_sorted_properties ps (out, previous, first) = Inr s"
    and "sorted (map prop_id ps)" and "\<not> first \<Longrightarrow> \<forall>p \<in> set ps. previous \<le> prop_id p"
  shows "distinct (map prop_id ps) \<and> (\<not> first \<longrightarrow> previous \<notin> prop_id ` set ps)"
  using assms
proof (induction ps arbitrary: out previous first)
  case (Cons p ps)
  then have n: "first \<or> prop_id p \<noteq> previous"
    and r: "serialize_sorted_properties ps (out @ property_bytes previous p, prop_id p, False) = Inr s"
    by (auto simp: serialize_object_property_eq_Inr)
  have "distinct (map prop_id ps) \<and> prop_id p \<notin> prop_id ` set ps"
    using Cons.IH [OF r] Cons.prems(2) by auto
  moreover have "previous \<notin> prop_id ` set ps" if "\<not> first"
  proof -
    have "previous < prop_id p" using Cons.prems(3) n that by fastforce
    then show ?thesis using Cons.prems(2) by fastforce
  qed
  ultimately show ?case using n by auto
qed simp

lemma serialize_sorted_error:
  "serialize_sorted_properties ps s = Inl e \<Longrightarrow> \<exists>what. e = Invalid_Argument what"
  by (induction ps arbitrary: s) (auto simp: bindE_eq_Inl dest: serialize_object_property_error)

lemma receive_properties_at:
  assumes "list_all property_fits ps"
  shows "receive_properties (length ps) (pre @ properties_bytes previous ps @ rest) (length pre) previous =
     Inr (ps, length pre + length (properties_bytes previous ps))"
  using assms
proof (induction ps arbitrary: pre previous)
  case (Cons p ps)
  then show ?case
    using receive_property_at [of p pre previous "properties_bytes (prop_id p) ps @ rest"]
      Cons.IH [of "pre @ property_bytes previous p" "prop_id p"]
    by (simp add: add.assoc)
qed simp

lemma serialize_object_properties_bytes:
  assumes "serialize_object_properties ps = Inr out"
  shows "out = properties_bytes 0 (sort_key prop_id ps) \<and> list_all property_fits ps \<and>
    length out \<le> 65536 \<and> distinct (map prop_id ps)"
proof -
  obtain s where s: "serialize_sorted_properties (sort_key prop_id ps) ([], 0, True) = Inr s"
    and o: "out = fst s"
    using assms by (auto simp: serialize_object_properties_def split: if_split_asm)
  have "distinct (map prop_id (sort_key prop_id ps))"
    using serialize_sorted_distinct [OF s] by simp
  then have "distinct (map prop_id ps)"
    by (metis distinct_map distinct_sort set_sort)
  then show ?thesis using serialize_sorted_bytes [OF s] o by (auto simp: list_all_iff)
qed

subsection \<open>Objects\<close>

lemma object_delta:
  fixes object_id :: u64
  assumes "\<not> (case previous of None \<Rightarrow> False | Some p \<Rightarrow> object_id \<le> p)"
    and "delta = (case previous of None \<Rightarrow> object_id | Some p \<Rightarrow> object_id - p - 1)"
  shows "delta \<le> object_id \<and> (case previous of None \<Rightarrow> delta | Some p \<Rightarrow> p + delta + 1) = object_id"
proof (cases previous)
  case (Some p)
  then have "p < object_id" using assms(1) by auto
  then have "p + 1 \<le> object_id" by (rule inc_le)
  then have "object_id - (p + 1) \<le> object_id" by (simp add: word_le_nat_alt unat_sub)
  then have "object_id - p - 1 \<le> object_id" by (simp only: diff_diff_eq)
  then show ?thesis using Some assms(2) by simp
qed (use assms in simp)

text \<open>The bytes of an object.\<close>

definition object_bytes :: "DraftVersion \<Rightarrow> u64 \<Rightarrow> bool \<Rightarrow> bytes \<Rightarrow> bytes \<Rightarrow> bytes" where
  "object_bytes draft delta present block payload =
     moqint_bytes draft delta @
     (if present then moqint_bytes draft (of_nat (length block)) @ block else []) @
     moqint_bytes draft (of_nat (length payload)) @
     (if uses_moq_vi64 draft \<and> payload = [] then moqint_bytes draft 0 else []) @ payload"

lemma encode_subgroup_object_bytes:
  assumes "encode_subgroup_object draft previous object_id payload properties present = Inr bs"
  shows "\<exists>block. serialize_object_properties properties = Inr block \<and>
    \<not> (case previous of None \<Rightarrow> False | Some p \<Rightarrow> object_id \<le> p) \<and>
    bs = object_bytes draft (case previous of None \<Rightarrow> object_id | Some p \<Rightarrow> object_id - p - 1)
      (present \<or> properties \<noteq> []) block payload"
proof (cases "serialize_object_properties properties")
  case (Inr block)
  with assms show ?thesis
    by (auto simp: encode_subgroup_object_def object_bytes_def Let_def wire_append split: if_splits)
qed (use assms in \<open>simp add: encode_subgroup_object_def Let_def split: if_split_asm\<close>)

lemma receive_object_at:
  assumes e: "encode_subgroup_object draft previous object_id payload properties present = Inr bs"
    and ok: "moqint_ok draft object_id" and l: "length payload < 2 ^ 62"
    and status: "payload \<noteq> [] \<or> uses_moq_vi64 draft"
  shows "\<exists>block. serialize_object_properties properties = Inr block \<and>
    receive_object draft (present \<or> properties \<noteq> []) (pre @ bs @ rest) (length pre) previous =
      Inr (object_id, if present \<or> properties \<noteq> [] then block else [], payload, length pre + length bs)"
proof -
  let ?pp = "present \<or> properties \<noteq> []"
  define delta where "delta = (case previous of None \<Rightarrow> object_id | Some p \<Rightarrow> object_id - p - 1)"
  obtain block where block: "serialize_object_properties properties = Inr block"
    and inc: "\<not> (case previous of None \<Rightarrow> False | Some p \<Rightarrow> object_id \<le> p)"
    and bs: "bs = object_bytes draft delta ?pp block payload"
    using encode_subgroup_object_bytes [OF e] by (auto simp: delta_def)
  have d: "moqint_ok draft delta" "(case previous of None \<Rightarrow> delta | Some p \<Rightarrow> p + delta + 1) = object_id"
    using object_delta [OF inc delta_def] ok by (auto intro: moqint_ok_mono)
  have lb: "length block < 2 ^ 62" using serialize_object_properties_bytes [OF block] by auto
  note ok = d(1) moqint_ok_nat [OF lb] moqint_ok_nat [OF l] moqint_ok_nat [of 0, simplified]
  have nz: "(of_nat (length payload) :: u64) = 0 \<longleftrightarrow> payload = []"
    using l unat_of_nat_u64 [of "length payload"] by (auto simp del: unat_of_nat_u64)
  show ?thesis
    using block d(2) l lb ok nz status
    by (auto simp: receive_object_def bs object_bytes_def decode_moqint_drop fits_iff slice_def Let_def)
qed

text \<open>The objects of one subgroup stream in order, each written against the id of the one before it.\<close>

fun encode_objects ::
    "DraftVersion \<Rightarrow> bool \<Rightarrow> u64 option \<Rightarrow> (u64 \<times> bytes \<times> ObjectProperty list) list \<Rightarrow> exn + bytes" where
  "encode_objects draft present previous [] = Inr []"
| "encode_objects draft present previous ((object_id, payload, properties) # objects) =
     bindE (encode_subgroup_object draft previous object_id payload properties present) (\<lambda>b.
     bindE (encode_objects draft present (Some object_id) objects) (\<lambda>bs. Inr (b @ bs)))"

fun receive_objects ::
    "nat \<Rightarrow> DraftVersion \<Rightarrow> bool \<Rightarrow> bytes \<Rightarrow> nat \<Rightarrow> u64 option \<Rightarrow> ((u64 \<times> bytes \<times> bytes) list \<times> nat) decoded" where
  "receive_objects 0 draft present bs offset previous = Inr ([], offset)"
| "receive_objects (Suc n) draft present bs offset previous =
     bindE (receive_object draft present bs offset previous) (\<lambda>(object_id, block, payload, offset).
     bindE (receive_objects n draft present bs offset (Some object_id)) (\<lambda>(objects, offset).
     Inr ((object_id, block, payload) # objects, offset)))"

definition property_block :: "ObjectProperty list \<Rightarrow> bytes" where
  "property_block properties = (case serialize_object_properties properties of Inl _ \<Rightarrow> [] | Inr b \<Rightarrow> b)"

lemma serialize_no_properties [simp]: "serialize_object_properties [] = Inr []"
  by (simp add: serialize_object_properties_def)

lemma encode_objects_ids:
  assumes "encode_objects draft present previous objects = Inr bs"
  shows "sorted_wrt (<) (map fst objects) \<and>
    (case previous of None \<Rightarrow> True | Some p \<Rightarrow> \<forall>i \<in> set (map fst objects). p < i)"
  using assms
proof (induction objects arbitrary: previous bs)
  case (Cons obj objects)
  obtain i payload ps where obj: "obj = (i, payload, ps)" by (cases obj)
  obtain b bs' where b: "encode_subgroup_object draft previous i payload ps present = Inr b"
    and r: "encode_objects draft present (Some i) objects = Inr bs'"
    using Cons.prems obj by auto
  from encode_subgroup_object_bytes [OF b] Cons.IH [OF r] show ?case
    by (cases previous) (auto simp: obj intro: less_trans)
qed (simp split: option.split)

lemma receive_objects_at:
  assumes "encode_objects draft present previous objects = Inr bs"
    and "\<forall>(i, payload, ps) \<in> set objects.
      moqint_ok draft i \<and> length payload < 2 ^ 62 \<and> (ps = [] \<or> present) \<and>
      (payload \<noteq> [] \<or> uses_moq_vi64 draft)"
  shows "receive_objects (length objects) draft present (pre @ bs @ rest) (length pre) previous =
    Inr (map (\<lambda>(i, payload, ps). (i, property_block ps, payload)) objects, length pre + length bs)"
  using assms
proof (induction objects arbitrary: previous bs pre)
  case (Cons obj objects)
  obtain i payload ps where obj: "obj = (i, payload, ps)" by (cases obj)
  obtain b bs' where b: "encode_subgroup_object draft previous i payload ps present = Inr b"
    and r: "encode_objects draft present (Some i) objects = Inr bs'" and bs: "bs = b @ bs'"
    using Cons.prems(1) obj by auto
  have ok: "moqint_ok draft i" "length payload < 2 ^ 62" "ps = [] \<or> present"
    "payload \<noteq> [] \<or> uses_moq_vi64 draft"
    using Cons.prems(2) obj by auto
  have pp: "(present \<or> ps \<noteq> []) = present" using ok(3) by auto
  have "receive_object draft present (pre @ b @ (bs' @ rest)) (length pre) previous =
      Inr (i, property_block ps, payload, length pre + length b)"
    using receive_object_at [OF b ok(1,2,4), of pre "bs' @ rest"] ok(3)
    by (auto simp: pp property_block_def)
  moreover have "receive_objects (length objects) draft present ((pre @ b) @ bs' @ rest) (length (pre @ b)) (Some i) =
      Inr (map (\<lambda>(i, payload, ps). (i, property_block ps, payload)) objects, length (pre @ b) + length bs')"
    using Cons.prems(2) by (intro Cons.IH [OF r]) simp
  ultimately show ?case by (simp add: obj bs add.assoc)
qed simp

subsection \<open>Properties\<close>

text \<open>On drafts 14 and 16 the encoder writes no Object Status after an empty payload, which these drafts
  ask for as well: a receiver of the drafts takes the next object's id delta for the status and reads the
  rest of the stream out of step. Here object 1 with the payload 0 0 is received as object 3 without a payload.\<close>

lemma empty_object_misread:
  "encode_objects kDraft16 False None [(0, [], []), (1, [0, 0], [])] = Inr [0, 0, 0, 2, 0, 0] \<and>
   receive_objects 2 kDraft16 False [0, 0, 0, 2, 0, 0] 0 None = Inr ([(0, [], []), (3, [], [])], 6)"
proof
  show "encode_objects kDraft16 False None [(0, [], []), (1, [0, 0], [])] = Inr [0, 0, 0, 2, 0, 0]"
    by (simp add: encode_subgroup_object_def Let_def moqint_bytes_eval)
  have two: "receive_objects 2 = receive_objects (Suc (Suc 0))" by (simp add: numeral_2_eq_2)
  show "receive_objects 2 kDraft16 False [0, 0, 0, 2, 0, 0] 0 None = Inr ([(0, [], []), (3, [], [])], 6)"
    by (simp add: two receive_object_def wire_eval del: bindE_eq_Inr cong: bindE_weak_cong)
qed

text \<open>C21: A receiver that follows the drafts, in which an Object Status follows a payload length of 0,
  reads back every object of a subgroup stream, ids, property blocks and payloads, from any position in
  the stream: on drafts 17 and later for any payloads, on drafts 14 and 16 when no payload is empty.
  A stream is only written when its object ids strictly increase.\<close>

theorem subgroup_stream_roundtrip:
  assumes "encode_objects draft present previous objects = Inr bs"
    and "\<forall>(i, payload, ps) \<in> set objects.
      moqint_ok draft i \<and> length payload < 2 ^ 62 \<and> (ps = [] \<or> present) \<and>
      (payload \<noteq> [] \<or> uses_moq_vi64 draft)"
  shows "receive_objects (length objects) draft present (pre @ bs @ rest) (length pre) previous =
      Inr (map (\<lambda>(i, payload, ps). (i, property_block ps, payload)) objects, length pre + length bs) \<and>
    sorted_wrt (<) (map fst objects)"
  using receive_objects_at [OF assms] encode_objects_ids [OF assms(1)] by blast

theorem subgroup_stream_roundtrip_witness:
  "encode_objects kDraft18 False None [(5, [7], []), (9, [], [])] = Inr [5, 1, 7, 3, 0, 0] \<and>
   receive_objects 2 kDraft18 False ([1, 2] @ [5, 1, 7, 3, 0, 0] @ [4]) 2 None =
     Inr ([(5, [], [7]), (9, [], [])], 8)"
proof -
  have e: "encode_objects kDraft18 False None [(5, [7], []), (9, [], [])] = Inr [5, 1, 7, 3, 0, 0]"
    by (simp add: encode_subgroup_object_def Let_def moqint_bytes_eval)
  have "receive_objects (length [(5 :: u64, [7 :: u8], [] :: ObjectProperty list), (9, [], [])])
      kDraft18 False ([1, 2] @ [5, 1, 7, 3, 0, 0] @ [4]) (length [1 :: u8, 2]) None =
    Inr (map (\<lambda>(i, payload, ps). (i, property_block ps, payload)) [(5, [7], []), (9, [], [])],
      length [1 :: u8, 2] + length [5 :: u8, 1, 7, 3, 0, 0])"
    by (rule subgroup_stream_roundtrip [OF e, THEN conjunct1])
      (simp add: moqint_ok_def kMaxQuicVarintValue_def uses_moq_vi64_def draft_predicates)
  then show ?thesis using e by (simp add: property_block_def numeral_eq_Suc del: receive_objects.simps)
qed

text \<open>A property block has each property once, in increasing id order, and is at most 64 KiB:
  a receiver that adds up the id deltas reads back exactly the sorted properties.\<close>

theorem object_properties_roundtrip:
  assumes "serialize_object_properties ps = Inr block"
  shows "receive_properties (length ps) (block @ rest) 0 0 = Inr (sort_key prop_id ps, length block) \<and>
    distinct (map prop_id ps) \<and> length block \<le> 65536"
proof -
  from serialize_object_properties_bytes [OF assms]
  have b: "block = properties_bytes 0 (sort_key prop_id ps)" "list_all property_fits (sort_key prop_id ps)"
    by (auto simp: list_all_iff)
  from receive_properties_at [OF b(2), of "[]" 0 rest] serialize_object_properties_bytes [OF assms] b(1)
  show ?thesis by simp
qed

theorem object_properties_roundtrip_witness:
  "serialize_object_properties [\<lparr>prop_id = 3, prop_value = Bytes_Value [9]\<rparr>, \<lparr>prop_id = 2, prop_value = Integer_Value 7\<rparr>] =
     Inr [2, 7, 1, 1, 9] \<and>
   receive_properties 2 [2, 7, 1, 1, 9] 0 0 =
     Inr ([\<lparr>prop_id = 2, prop_value = Integer_Value 7\<rparr>, \<lparr>prop_id = 3, prop_value = Bytes_Value [9]\<rparr>], 5)"
proof -
  let ?ps = "[\<lparr>prop_id = 3, prop_value = Bytes_Value [9]\<rparr>, \<lparr>prop_id = 2, prop_value = Integer_Value 7\<rparr>]"
  have s: "sort_key prop_id ?ps =
      [\<lparr>prop_id = 2, prop_value = Integer_Value 7\<rparr>, \<lparr>prop_id = 3, prop_value = Bytes_Value [9]\<rparr>]" by simp
  have e: "serialize_object_properties ?ps = Inr [2, 7, 1, 1, 9]"
    unfolding serialize_object_properties_def s
    by (simp add: serialize_object_property_def append_vi64_def Let_def)
  from object_properties_roundtrip [OF e, of "[]"] e s show ?thesis
    by (simp add: numeral_eq_Suc del: receive_properties.simps)
qed

text \<open>The block does not depend on the order the application listed the properties in: any
  permutation of an accepted list serialises to the same bytes.\<close>

theorem object_properties_order_independent:
  assumes "serialize_object_properties ps = Inr block" and "mset qs = mset ps"
  shows "serialize_object_properties qs = Inr block"
proof -
  have d: "distinct (map prop_id ps)" using serialize_object_properties_bytes [OF assms(1)] by simp
  have s: "set qs = set ps" "length qs = length ps"
    using assms(2) by (metis set_mset_mset) (metis assms(2) size_mset)
  have "distinct (map prop_id qs)"
    using d assms(2) by (metis mset_eq_imp_distinct_iff mset_map)
  with d s have "sort_key prop_id qs = sort_key prop_id ps"
    by (intro map_sorted_distinct_set_unique [where f = prop_id]) (simp_all add: distinct_map)
  then have "serialize_object_properties qs = serialize_object_properties ps"
    by (simp add: serialize_object_properties_def s)
  then show ?thesis using assms(1) by simp
qed

theorem object_properties_order_independent_witness:
  "serialize_object_properties [\<lparr>prop_id = 3, prop_value = Bytes_Value [9]\<rparr>, \<lparr>prop_id = 2, prop_value = Integer_Value 7\<rparr>] =
   Inr [2, 7, 1, 1, 9]"
proof -
  let ?p = "\<lparr>prop_id = 2, prop_value = Integer_Value 7\<rparr>" and ?q = "\<lparr>prop_id = 3, prop_value = Bytes_Value [9]\<rparr>"
  have s: "sort_key prop_id [?p, ?q] = [?p, ?q]" by simp
  have "serialize_object_properties [?p, ?q] = Inr [2, 7, 1, 1, 9]"
    unfolding serialize_object_properties_def s
    by (simp add: serialize_object_property_def append_vi64_def Let_def)
  then show ?thesis by (rule object_properties_order_independent) simp
qed

end
