(* ===== verification/Subscription_Filter.thy ===== *)
theory Subscription_Filter
  imports Session_Rules Object_Stream "HOL-Library.Product_Lexorder" "HOL-Library.Sublist"
    "HOL-Library.List_Lexorder" "HOL-Library.Char_ord"
begin

text \<open>
  Which objects a subscription asks for and how its settings change, from
  \<open>src/transport/moqt_session.cpp\<close>: the objects of a plan (\<open>include/openmoq/publisher/cmsf_packager.h\<close>),
  matching of track namespaces and prefixes, the object filter, SUBSCRIBE_UPDATE and REQUEST_UPDATE, and
  the searches over a plan.
\<close>

subsection \<open>Objects\<close>

datatype CmsfObjectKind = Initialization | Metadata | Media

record CmsfObject =
  obj_kind :: CmsfObjectKind
  obj_track_name :: string
  obj_group_id :: u64
  obj_subgroup_id :: u64
  obj_object_id :: u64
  obj_media_time_us :: u64
  obj_media_duration_us :: u64
  obj_sap_type :: u8
  obj_has_sap_type :: bool
  obj_payload :: "u64 \<times> u64"
  obj_owned_payload :: bytes
  obj_properties :: "ObjectProperty list"

subsection \<open>Namespaces\<close>

text \<open>The component of a namespace up to the next slash, and what follows the slash if there is one.\<close>

definition next_component :: "string \<Rightarrow> string \<times> string option" where
  "next_component s =
     (takeWhile (\<lambda>c. c \<noteq> CHR 0x2F) s,
      case dropWhile (\<lambda>c. c \<noteq> CHR 0x2F) s of [] \<Rightarrow> None | _ # rest \<Rightarrow> Some rest)"

fun namespace_matches :: "string list \<Rightarrow> string \<Rightarrow> bool" where
  "namespace_matches [] expected = False"
| "namespace_matches (c # cs) expected =
     (case next_component expected of (component, rest) \<Rightarrow>
        if c \<noteq> component then False
        else case rest of None \<Rightarrow> cs = [] | Some rest \<Rightarrow> namespace_matches cs rest)"

text \<open>The loop of \<open>namespace_prefix_matches\<close>; \<open>None\<close> for the position is \<open>start > expected.size()\<close>.\<close>

fun match_prefix :: "string list \<Rightarrow> string option \<Rightarrow> string option option" where
  "match_prefix [] rest = Some rest"
| "match_prefix (c # cs) None = None"
| "match_prefix (c # cs) (Some s) =
     (case next_component s of (component, rest) \<Rightarrow> if c \<noteq> component then None else match_prefix cs rest)"

definition namespace_prefix_matches :: "string list \<Rightarrow> string \<Rightarrow> bool \<Rightarrow> bool" where
  "namespace_prefix_matches pre expected exact =
     (case match_prefix pre (Some expected) of
        None \<Rightarrow> False
      | Some rest \<Rightarrow> \<not> exact \<or> pre = [] \<or> rest = None)"

definition namespace_prefixes_overlap :: "string list \<Rightarrow> string list \<Rightarrow> bool" where
  "namespace_prefixes_overlap first second =
     (let common_length = min (length first) (length second) in
      take common_length first = take common_length second)"

lemma length_next_component: "next_component s = (c, Some rest) \<Longrightarrow> length rest < length s"
  using length_dropWhile_le [of "\<lambda>c. c \<noteq> CHR 0x2F" s]
  by (auto simp: next_component_def split: list.splits)

function split_track_namespace_components :: "string \<Rightarrow> string list" where
  "split_track_namespace_components ns =
     (case next_component ns of (component, rest) \<Rightarrow>
        component # (case rest of None \<Rightarrow> [] | Some rest \<Rightarrow> split_track_namespace_components rest))"
  by pat_completeness auto
termination
  by (relation "measure length") (auto dest: length_next_component [OF sym])

declare split_track_namespace_components.simps [simp del]

subsection \<open>Object filters\<close>

definition object_matches_filter :: "CmsfObject \<Rightarrow> SubscribeMessage \<Rightarrow> bool" where
  "object_matches_filter object subscribe =
     (if sub_filter_type subscribe \<in> set [0x01, 0x02, 0x03] then
        obj_group_id object > sub_start_group_id subscribe \<or>
        (obj_group_id object = sub_start_group_id subscribe \<and>
         obj_object_id object \<ge> sub_start_object_id subscribe)
      else if sub_filter_type subscribe = 0x04 then
        (obj_group_id object > sub_start_group_id subscribe \<or>
         (obj_group_id object = sub_start_group_id subscribe \<and>
          obj_object_id object \<ge> sub_start_object_id subscribe)) \<and>
        obj_group_id object \<le> sub_end_group_id subscribe \<and>
        \<not> (case sub_end_object_id subscribe of
             None \<Rightarrow> False
           | Some end_object_id \<Rightarrow>
               obj_group_id object = sub_end_group_id subscribe \<and> obj_object_id object > end_object_id)
      else True)"

text \<open>\<open>live_object_matches_request_union\<close>.\<close>

definition live_object_matches_request_union ::
    "CmsfObject \<Rightarrow> DraftVersion \<Rightarrow> subscriptions \<Rightarrow> SubscribeMessage option \<Rightarrow> bool" where
  "live_object_matches_request_union object draft active_subscriptions published_request =
     (if \<not> uses_priority_scheduler draft then True
      else
      let requests = filter (\<lambda>subscribe. sub_track_name subscribe = obj_track_name object)
            (map snd active_subscriptions @ (case published_request of None \<Rightarrow> [] | Some r \<Rightarrow> [r])) in
      if list_ex (\<lambda>subscribe. sub_forward subscribe \<noteq> 0 \<and> object_matches_filter object subscribe) requests
      then True else requests = [])"

definition serves_catalog_fills :: "DraftVersion \<Rightarrow> SubscribeMessage \<Rightarrow> bool" where
  "serves_catalog_fills draft subscribe \<longleftrightarrow>
     is_draft21_or_later draft \<and> sub_track_name subscribe = ''catalog''"

definition declines_subscribe_tracks_filter :: "DraftVersion \<Rightarrow> SubscribeTracksMessage \<Rightarrow> bool" where
  "declines_subscribe_tracks_filter draft subscribe_tracks \<longleftrightarrow>
     is_draft21_or_later draft \<and>
     (st_has_unnegotiated_range_filter subscribe_tracks \<or>
      (case st_subscription_filter subscribe_tracks of
         None \<Rightarrow> False
       | Some f \<Rightarrow> sf_filter_type f \<noteq> 0 \<and> sf_filter_type f \<noteq> 0x02))"

subsection \<open>Updates\<close>

definition apply_request_update :: "RequestUpdateMessage \<Rightarrow> SubscribeMessage \<Rightarrow> SubscribeMessage" where
  "apply_request_update update subscribe =
     (let subscribe = (case ru_object_delivery_timeout_ms update of None \<Rightarrow> subscribe | Some t \<Rightarrow>
            subscribe\<lparr>sub_delivery_timeouts := (sub_delivery_timeouts subscribe)\<lparr>object_ms := t\<rparr>\<rparr>);
          subscribe = (case ru_subgroup_delivery_timeout_ms update of None \<Rightarrow> subscribe | Some t \<Rightarrow>
            subscribe\<lparr>sub_delivery_timeouts := (sub_delivery_timeouts subscribe)\<lparr>subgroup_ms := t\<rparr>\<rparr>);
          subscribe = (case ru_subscriber_priority update of None \<Rightarrow> subscribe | Some p \<Rightarrow>
            subscribe\<lparr>sub_subscriber_priority := p\<rparr>);
          subscribe = (case ru_forward update of None \<Rightarrow> subscribe | Some f \<Rightarrow> subscribe\<lparr>sub_forward := f\<rparr>) in
      case ru_subscription_filter update of
        None \<Rightarrow> subscribe
      | Some f \<Rightarrow>
          subscribe\<lparr>sub_filter_type := sf_filter_type f, sub_start_group_id := sf_start_group_id f,
            sub_start_object_id := sf_start_object_id f, sub_end_group_id := sf_end_group_id f,
            sub_end_object_id := sf_end_object_id f\<rparr>)"

definition request_update_renews_peer_stopped_subgroups ::
    "DraftVersion \<Rightarrow> SubscribeMessage \<Rightarrow> RequestUpdateMessage \<Rightarrow> bool" where
  "request_update_renews_peer_stopped_subgroups draft subscribe update \<longleftrightarrow>
     is_draft18_or_later draft \<and> sub_forward subscribe = 0 \<and> ru_forward update = Some 1"

text \<open>An absent end object is the largest \<open>std::size_t\<close>.\<close>

definition whole_group :: "u64 option \<Rightarrow> u64" where
  "whole_group end_object_id = (case end_object_id of None \<Rightarrow> -1 | Some e \<Rightarrow> e)"

definition request_update_extends_end :: "SubscribeMessage \<Rightarrow> RequestUpdateMessage \<Rightarrow> bool" where
  "request_update_extends_end subscribe update =
     (case ru_subscription_filter update of
        None \<Rightarrow> False
      | Some updated \<Rightarrow>
          if sub_filter_type subscribe \<noteq> 0x04 then False
          else if sf_filter_type updated \<noteq> 0x04 then True
          else (sf_end_group_id updated, whole_group (sf_end_object_id updated)) >
               (sub_end_group_id subscribe, whole_group (sub_end_object_id subscribe)))"

definition apply_subscribe_update :: "SubscribeUpdateMessage \<Rightarrow> SubscribeMessage \<Rightarrow> SubscribeMessage option" where
  "apply_subscribe_update update subscribe =
     (let start_increases = (su_start_group_id update > sub_start_group_id subscribe \<or>
            (su_start_group_id update = sub_start_group_id subscribe \<and>
             su_start_object_id update \<ge> sub_start_object_id subscribe));
          updated_end_group_id =
            (if su_end_group_plus_one update = 0 then 0 else su_end_group_plus_one update - 1) in
      if \<not> start_increases then None
      else if sub_filter_type subscribe = 0x04 \<and>
              (su_end_group_plus_one update = 0 \<or> updated_end_group_id > sub_end_group_id subscribe) then None
      else
      let subscribe = subscribe\<lparr>sub_start_group_id := su_start_group_id update,
            sub_start_object_id := su_start_object_id update,
            sub_subscriber_priority := su_subscriber_priority update, sub_forward := su_forward update\<rparr> in
      if su_end_group_plus_one update \<noteq> 0 then
        Some (subscribe\<lparr>sub_filter_type := 0x04, sub_end_group_id := updated_end_group_id\<rparr>)
      else if sub_filter_type subscribe \<noteq> 0x04 then Some (subscribe\<lparr>sub_end_group_id := 0\<rparr>)
      else Some subscribe)"

subsection \<open>Largest objects\<close>

type_synonym largest_by_track = "string \<rightharpoonup> u64 \<times> u64"

definition note_largest_live_object ::
    "string \<Rightarrow> u64 \<Rightarrow> u64 \<Rightarrow> largest_by_track \<Rightarrow> largest_by_track" where
  "note_largest_live_object track group_id object_id largest_by_track =
     largest_by_track(track \<mapsto> (case largest_by_track track of
        None \<Rightarrow> (group_id, object_id)
      | Some largest \<Rightarrow> max largest (group_id, object_id)))"

definition live_largest_object :: "largest_by_track \<Rightarrow> string \<Rightarrow> (u64 \<times> u64) option" where
  "live_largest_object largest_by_track track = largest_by_track track"

definition encode_live_request_ok_message :: "DraftVersion \<Rightarrow> u64 \<Rightarrow> string \<Rightarrow> largest_by_track \<Rightarrow> bytes" where
  "encode_live_request_ok_message draft request_id track largest_by_track =
     (case live_largest_object largest_by_track track of
        None \<Rightarrow> encode_request_ok_message draft request_id
      | Some (group_id, object_id) \<Rightarrow> encode_request_ok_largest draft request_id group_id object_id)"

subsection \<open>Searches over a plan\<close>

text \<open>
  \<open>find_next_matching_object_index\<close>: the loop from \<open>start_index\<close> on, over what is left of the objects.
\<close>

fun find_matching_from :: "CmsfObject list \<Rightarrow> SubscribeMessage \<Rightarrow> nat \<Rightarrow> nat option" where
  "find_matching_from [] subscribe index = None"
| "find_matching_from (object # objects) subscribe index =
     (if obj_track_name object = sub_track_name subscribe \<and> object_matches_filter object subscribe then Some index
      else find_matching_from objects subscribe (Suc index))"

definition find_next_matching_object_index :: "CmsfObject list \<Rightarrow> SubscribeMessage \<Rightarrow> nat \<Rightarrow> nat option" where
  "find_next_matching_object_index objects subscribe start_index =
     find_matching_from (drop start_index objects) subscribe start_index"

text \<open>\<open>plan.objects.at(object_index)\<close> throws for an index out of range.\<close>

definition is_final_object_in_subgroup :: "CmsfObject list \<Rightarrow> nat \<Rightarrow> exn + bool" where
  "is_final_object_in_subgroup objects object_index =
     (if object_index \<ge> length objects then Inl Out_Of_Range
      else
      let object = objects ! object_index in
      Inr (\<not> list_ex (\<lambda>index.
        let candidate = objects ! index in
        index \<noteq> object_index \<and> obj_track_name candidate = obj_track_name object \<and>
        obj_group_id candidate = obj_group_id object \<and>
        obj_subgroup_id candidate = obj_subgroup_id object \<and>
        obj_object_id candidate > obj_object_id object) [0..<length objects]))"

definition subgroup_contains_group_largest :: "CmsfObject list \<Rightarrow> nat \<Rightarrow> exn + bool" where
  "subgroup_contains_group_largest objects object_index =
     (if object_index \<ge> length objects then Inl Out_Of_Range
      else
      let object = objects ! object_index in
      Inr (\<not> list_ex (\<lambda>candidate.
        obj_track_name candidate = obj_track_name object \<and> obj_group_id candidate = obj_group_id object \<and>
        obj_object_id candidate > obj_object_id object \<and>
        obj_subgroup_id candidate \<noteq> obj_subgroup_id object) objects))"

subsection \<open>Messages of earlier drafts\<close>

record PublishedTrack =
  pt_name :: string
  pt_alias :: u64
  pt_largest_group_id :: u64
  pt_largest_object_id :: u64
  pt_content_exists :: bool

text \<open>The map from track names to tracks is \<open>tracks_by_name\<close>; the subscriptions are in map order.\<close>

definition decode_legacy_subscribe_update_message ::
    "bytes \<Rightarrow> (string \<rightharpoonup> PublishedTrack) \<Rightarrow> subscriptions \<Rightarrow> (u64 \<rightharpoonup> u64) option \<Rightarrow>
     SubscribeUpdateMessage decoded" where
  "decode_legacy_subscribe_update_message bs tracks_by_name pending_subscriptions request_id_by_track_alias =
     bindE (decode_varint_impl bs 0) (\<lambda>(message_type, offset).
     if message_type \<noteq> 0x02 \<or> offset + 2 > length bs then reject
     else
     let payload_length = unat (bs ! offset) * 256 + unat (bs ! (offset + 1)); offset = offset + 2 in
     if offset + payload_length \<noteq> length bs \<or> payload_length \<noteq> 7 then reject
     else
     bindE (decode_varint_impl bs offset) (\<lambda>(track_alias, offset).
     bindE (decode_varint_impl bs offset) (\<lambda>(start_group_id, offset).
     bindE (decode_varint_impl bs offset) (\<lambda>(start_object_id, offset).
     if offset + 4 \<noteq> length bs then reject
     else
     let subscriber_priority = bs ! offset; group_order = bs ! (offset + 1); forward = bs ! (offset + 3);
         message = (\<lambda>request_id end_group_plus_one.
           \<lparr>su_request_id = 0, su_subscription_request_id = request_id, su_start_group_id = start_group_id,
            su_start_object_id = start_object_id, su_end_group_plus_one = end_group_plus_one,
            su_subscriber_priority = subscriber_priority, su_forward = forward\<rparr>) in
     if group_order > 2 \<or> forward > 1 then reject
     else
     case List.find (\<lambda>(request_id, subscribe). case tracks_by_name (sub_track_name subscribe) of
            None \<Rightarrow> False | Some track \<Rightarrow> pt_alias track = track_alias) pending_subscriptions of
       Some (request_id, subscribe) \<Rightarrow>
         Inr (message request_id (if sub_filter_type subscribe = 0x04 then sub_end_group_id subscribe + 1 else 0))
     | None \<Rightarrow>
         (case request_id_by_track_alias of
            None \<Rightarrow> reject
          | Some m \<Rightarrow> (case m track_alias of None \<Rightarrow> reject | Some request_id \<Rightarrow> Inr (message request_id 0)))))))"

definition decode_unsubscribe_message :: "bytes \<Rightarrow> DraftVersion \<Rightarrow> u64 decoded" where
  "decode_unsubscribe_message bs draft =
     bindE (decode_control_message_header bs draft) (\<lambda>(message_type, offset, payload_length).
     if message_type \<noteq> 0x0a then reject
     else
     bindE (decode_moqint_impl bs offset draft) (\<lambda>(request_id, offset').
     if offset' = offset + payload_length then Inr request_id else reject))"

text \<open>\<open>build_published_tracks\<close>: the tracks of a plan in name order, aliases in order of appearance.\<close>

definition note_published_object ::
    "CmsfObject \<Rightarrow> (string \<times> PublishedTrack) list \<times> u64 \<Rightarrow> (string \<times> PublishedTrack) list \<times> u64" where
  "note_published_object object = (\<lambda>(tracks, next_alias).
     let name = obj_track_name object;
         inserted = (map_of tracks name = None);
         track = (case map_of tracks name of
             None \<Rightarrow> \<lparr>pt_name = name, pt_alias = next_alias, pt_largest_group_id = 0,
                       pt_largest_object_id = 0, pt_content_exists = False\<rparr>
           | Some track \<Rightarrow> track)\<lparr>pt_content_exists := True\<rparr>;
         track = (if obj_group_id object > pt_largest_group_id track \<or>
             (obj_group_id object = pt_largest_group_id track \<and>
              obj_object_id object > pt_largest_object_id track)
           then track\<lparr>pt_largest_group_id := obj_group_id object, pt_largest_object_id := obj_object_id object\<rparr>
           else track) in
     ((name, track) # filter (\<lambda>t. fst t \<noteq> name) tracks, if inserted then next_alias + 1 else next_alias))"

definition build_published_tracks :: "CmsfObject list \<Rightarrow> PublishedTrack list" where
  "build_published_tracks objects =
     map snd (sort_key fst (fst (fold note_published_object objects ([], 0))))"

subsection \<open>Namespaces are compared by component\<close>

abbreviation components :: "string \<Rightarrow> string list" where
  "components \<equiv> split_track_namespace_components"

lemma components_unfold:
  "components s = (case next_component s of (c, rest) \<Rightarrow> c # (case rest of None \<Rightarrow> [] | Some r \<Rightarrow> components r))"
  by (subst split_track_namespace_components.simps) (rule refl)

lemma namespace_matches_components: "namespace_matches cs s \<longleftrightarrow> cs = components s"
proof (induction cs arbitrary: s)
  case Nil
  show ?case by (subst components_unfold) (auto split: prod.splits)
next
  case (Cons c cs)
  then show ?case by (subst components_unfold) (auto split: prod.splits option.splits)
qed

lemma components_ne [simp]: "components s \<noteq> []"
  by (subst components_unfold) (simp split: prod.splits)

definition rest_components :: "string option \<Rightarrow> string list" where
  "rest_components rest = (case rest of None \<Rightarrow> [] | Some s \<Rightarrow> components s)"

lemma rest_components_Nil [simp]: "rest_components rest = [] \<longleftrightarrow> rest = None"
  by (simp add: rest_components_def split: option.splits)

lemma match_prefix_append: "match_prefix cs s = Some rest \<Longrightarrow> rest_components s = cs @ rest_components rest"
proof (induction cs s rule: match_prefix.induct)
  case (3 c cs s)
  then show ?case
    by (simp add: rest_components_def components_unfold [of s] split: prod.splits if_splits)
qed simp_all

lemma match_prefix_exists: "rest_components s = cs @ ds \<Longrightarrow> \<exists>rest. match_prefix cs s = Some rest"
proof (induction cs s rule: match_prefix.induct)
  case (3 c cs s)
  then show ?case
    by (simp add: rest_components_def components_unfold [of s] split: prod.splits if_splits)
qed (simp_all add: rest_components_def)

lemma namespace_prefix_matches_components:
  "namespace_prefix_matches p s exact \<longleftrightarrow>
     prefix p (components s) \<and> (\<not> exact \<or> p = [] \<or> p = components s)"
proof (cases "match_prefix p (Some s)")
  case None
  then have "\<not> prefix p (components s)"
    using match_prefix_exists [of "Some s" p] by (auto simp: rest_components_def prefix_def)
  then show ?thesis using None by (simp add: namespace_prefix_matches_def)
next
  case (Some rest)
  then have "components s = p @ rest_components rest"
    using match_prefix_append [of p "Some s" rest] by (simp add: rest_components_def)
  then show ?thesis using Some by (auto simp: namespace_prefix_matches_def)
qed

lemma namespace_prefixes_overlap_prefix:
  "namespace_prefixes_overlap p q \<longleftrightarrow> prefix p q \<or> prefix q p"
proof (cases "length p \<le> length q")
  case True
  have "take (length p) q = p \<longleftrightarrow> prefix p q" by (metis append_eq_conv_conj prefix_def take_is_prefix)
  moreover have "prefix q p \<Longrightarrow> p = q" using True by (auto simp: prefix_def)
  ultimately show ?thesis using True by (auto simp: namespace_prefixes_overlap_def Let_def min_def)
next
  case False
  have "take (length q) p = q \<longleftrightarrow> prefix q p" by (metis append_eq_conv_conj prefix_def take_is_prefix)
  moreover have "\<not> prefix p q" using False by (auto dest: prefix_length_le)
  ultimately show ?thesis using False by (auto simp: namespace_prefixes_overlap_def Let_def min_def)
qed

text \<open>The namespace tests read strings component by component: a namespace matches exactly its
  components, a prefix matches exactly the namespaces whose components begin with it, and two prefixes
  overlap exactly if one begins with the other, which is so whenever some namespace has both.\<close>

theorem namespace_tests_by_component:
  "(namespace_matches cs s \<longleftrightarrow> cs = components s) \<and>
   (namespace_prefix_matches p s exact \<longleftrightarrow>
      prefix p (components s) \<and> (exact \<longrightarrow> p = [] \<or> p = components s)) \<and>
   (namespace_prefixes_overlap p q \<longleftrightarrow> prefix p q \<or> prefix q p) \<and>
   (namespace_prefix_matches p s False \<longrightarrow> namespace_prefix_matches q s False \<longrightarrow>
      namespace_prefixes_overlap p q)"
  by (auto simp: namespace_matches_components namespace_prefix_matches_components
      namespace_prefixes_overlap_prefix dest: prefix_same_cases)

theorem namespace_tests_by_component_witness:
  "namespace_prefix_matches [''live''] ''live/tv'' False \<and>
   namespace_prefixes_overlap [''live''] [''live'', ''tv'']"
  using namespace_tests_by_component [where p = "[''live'']" and s = "''live/tv''" and exact = False and q = "[''live'', ''tv'']"]
  by (simp add: components_unfold [of "''live/tv''"] components_unfold [of "''tv''"] next_component_def)

subsection \<open>Object ranges\<close>

text \<open>
  The locations a subscription covers: pairs of group and object in lexicographic order, from a start and,
  for an absolute range, to an end.
\<close>

definition location :: "CmsfObject \<Rightarrow> u64 \<times> u64" where
  "location object = (obj_group_id object, obj_object_id object)"

definition range_start :: "SubscribeMessage \<Rightarrow> u64 \<times> u64" where
  "range_start m = (sub_start_group_id m, sub_start_object_id m)"

definition range_end :: "SubscribeMessage \<Rightarrow> u64 \<times> u64" where
  "range_end m = (sub_end_group_id m, whole_group (sub_end_object_id m))"

lemma object_matches_filter_range:
  "object_matches_filter object m \<longleftrightarrow>
     (sub_filter_type m \<in> {1, 2, 3, 4} \<longrightarrow> range_start m \<le> location object) \<and>
     (sub_filter_type m = 4 \<longrightarrow> location object \<le> range_end m)"
  by (auto simp: object_matches_filter_def range_start_def range_end_def location_def whole_group_def
      split: option.splits)

text \<open>C20: A SUBSCRIBE_UPDATE can only narrow a subscription: if it is applied, every object the updated
  subscription matches was matched before; one that would move the start back or the end forward is
  refused.\<close>

theorem subscribe_update_narrows:
  assumes "apply_subscribe_update update m = Some m'" and "object_matches_filter object m'"
  shows "object_matches_filter object m"
proof -
  have m: "range_start m \<le> range_start m'" "sub_filter_type m = 4 \<longrightarrow> sub_filter_type m' = 4 \<and> range_end m' \<le> range_end m"
    "sub_filter_type m' = sub_filter_type m \<or> sub_filter_type m' = 4"
    using assms(1)
    by (auto simp: apply_subscribe_update_def Let_def range_start_def range_end_def whole_group_def
        split: if_splits)
  then show ?thesis using assms(2) by (auto simp: object_matches_filter_range)
qed

definition example_update :: SubscribeUpdateMessage where
  "example_update = \<lparr>su_request_id = 0, su_subscription_request_id = 1, su_start_group_id = 3,
     su_start_object_id = 0, su_end_group_plus_one = 6, su_subscriber_priority = 1, su_forward = 1\<rparr>"

definition example_object :: "u64 \<Rightarrow> u64 \<Rightarrow> CmsfObject" where
  "example_object group_id object_id =
     \<lparr>obj_kind = Media, obj_track_name = [], obj_group_id = group_id, obj_subgroup_id = 0,
      obj_object_id = object_id, obj_media_time_us = 0, obj_media_duration_us = 0, obj_sap_type = 0,
      obj_has_sap_type = False, obj_payload = (0, 0), obj_owned_payload = [], obj_properties = []\<rparr>"

theorem subscribe_update_narrows_witness:
  "\<exists>m'. apply_subscribe_update example_update (default_subscribe\<lparr>sub_filter_type := 3\<rparr>) = Some m' \<and>
     object_matches_filter (example_object 4 0) m' \<and>
     object_matches_filter (example_object 4 0) (default_subscribe\<lparr>sub_filter_type := 3\<rparr>)"
  using subscribe_update_narrows [of example_update "default_subscribe\<lparr>sub_filter_type := 3\<rparr>" _ "example_object 4 0"]
  by (simp add: apply_subscribe_update_def example_update_def default_subscribe_def object_matches_filter_def
      example_object_def)

text \<open>A REQUEST_UPDATE whose end is not recognised as an extension never lets an object past the old
  end of an absolute range through, and one without a filter leaves the objects that match unchanged.\<close>

theorem request_update_end_respected:
  assumes "\<not> request_update_extends_end m u" and "object_matches_filter object (apply_request_update u m)"
  shows "(ru_subscription_filter u = None \<longrightarrow> object_matches_filter object m) \<and>
    (sub_filter_type m = 4 \<longrightarrow> location object \<le> range_end m)"
proof -
  have keeps: "sub_filter_type (apply_request_update u m) = (case ru_subscription_filter u of
        None \<Rightarrow> sub_filter_type m | Some f \<Rightarrow> sf_filter_type f)"
    "range_start (apply_request_update u m) = (case ru_subscription_filter u of
        None \<Rightarrow> range_start m | Some f \<Rightarrow> (sf_start_group_id f, sf_start_object_id f))"
    "range_end (apply_request_update u m) = (case ru_subscription_filter u of
        None \<Rightarrow> range_end m | Some f \<Rightarrow> (sf_end_group_id f, whole_group (sf_end_object_id f)))"
    by (simp_all add: apply_request_update_def Let_def range_start_def range_end_def split: option.splits)
  show ?thesis
  proof (cases "ru_subscription_filter u")
    case None
    then show ?thesis using assms(2) keeps by (auto simp: object_matches_filter_range)
  next
    case (Some f)
    then have "sub_filter_type m = 4 \<longrightarrow>
        sf_filter_type f = 4 \<and> range_end (apply_request_update u m) \<le> range_end m"
      using assms(1) keeps(3)
      by (simp add: request_update_extends_end_def range_end_def not_less split: if_splits) (metis not_le)
    then show ?thesis using Some assms(2) keeps(1) by (auto simp: object_matches_filter_range)
  qed
qed

theorem request_update_end_respected_witness:
  "\<not> request_update_extends_end (default_subscribe\<lparr>sub_filter_type := 4, sub_end_group_id := 5\<rparr>)
       default_request_update \<and>
   location (example_object 5 9) \<le> range_end (default_subscribe\<lparr>sub_filter_type := 4, sub_end_group_id := 5\<rparr>)"
  using request_update_end_respected
    [of "default_subscribe\<lparr>sub_filter_type := 4, sub_end_group_id := 5\<rparr>" default_request_update "example_object 5 9"]
  by (simp add: request_update_extends_end_def default_request_update_def default_subscribe_def
      object_matches_filter_def apply_request_update_def example_object_def)

subsection \<open>Published tracks\<close>

text \<open>What the tracks noted so far say of the objects seen so far.\<close>

definition largest_of :: "PublishedTrack \<Rightarrow> u64 \<times> u64" where
  "largest_of t = (pt_largest_group_id t, pt_largest_object_id t)"

definition describes_track :: "CmsfObject list \<Rightarrow> string \<times> PublishedTrack \<Rightarrow> bool" where
  "describes_track objects = (\<lambda>(name, t).
     pt_name t = name \<and> pt_content_exists t \<and>
     (\<exists>x \<in> set objects. obj_track_name x = name \<and> location x = largest_of t) \<and>
     (\<forall>x \<in> set objects. obj_track_name x = name \<longrightarrow> location x \<le> largest_of t))"

definition tracks_ok :: "CmsfObject list \<Rightarrow> (string \<times> PublishedTrack) list \<times> u64 \<Rightarrow> bool" where
  "tracks_ok objects = (\<lambda>(tracks, next_alias).
     distinct (map fst tracks) \<and> set (map fst tracks) = obj_track_name ` set objects \<and>
     next_alias = of_nat (length tracks) \<and> length tracks \<le> length objects \<and>
     distinct (map (pt_alias \<circ> snd) tracks) \<and> (\<forall>t \<in> set tracks. unat (pt_alias (snd t)) < length tracks) \<and>
     (\<forall>t \<in> set tracks. describes_track objects t))"

lemma map_of_describes:
  assumes "tracks_ok objects (tracks, a)" 
  shows "map_of tracks name = None \<longleftrightarrow> name \<notin> obj_track_name ` set objects"
  using assms by (auto simp: tracks_ok_def map_of_eq_None_iff)

lemma describes_track_new:
  assumes "name \<notin> obj_track_name ` set objects" and "obj_track_name x = name"
    and "pt_name t = name" "pt_content_exists t" "largest_of t = location x"
  shows "describes_track (objects @ [x]) (name, t)"
  using assms by (auto simp: describes_track_def image_iff)

lemma describes_track_old:
  assumes "describes_track objects (name, t)" and "obj_track_name x = name"
    and "pt_name t' = name" "pt_content_exists t'" "largest_of t' = max (largest_of t) (location x)"
  shows "describes_track (objects @ [x]) (name, t')"
  using assms by (auto simp: describes_track_def max_def split: if_splits)

lemma describes_track_other:
  "describes_track objects u \<Longrightarrow> obj_track_name x \<noteq> fst u \<Longrightarrow> describes_track (objects @ [x]) u"
  by (cases u) (auto simp: describes_track_def)

lemma note_published_object_ok:
  assumes "tracks_ok objects (tracks, a)" and "length objects + 1 < 2 ^ 64"
  shows "tracks_ok (objects @ [x]) (note_published_object x (tracks, a))"
proof -
  let ?name = "obj_track_name x"
  have ok: "distinct (map fst tracks)" "set (map fst tracks) = obj_track_name ` set objects"
    "a = of_nat (length tracks)" "length tracks \<le> length objects"
    "distinct (map (pt_alias \<circ> snd) tracks)" "\<forall>t \<in> set tracks. unat (pt_alias (snd t)) < length tracks"
    "\<forall>t \<in> set tracks. describes_track objects t"
    using assms(1) by (auto simp: tracks_ok_def)
  show ?thesis
  proof (cases "map_of tracks ?name")
    case None
    then have new: "?name \<notin> obj_track_name ` set objects" "?name \<notin> fst ` set tracks"
      using ok(2) by (auto simp: map_of_eq_None_iff)
    define t where "t = \<lparr>pt_name = ?name, pt_alias = a, pt_largest_group_id = obj_group_id x,
        pt_largest_object_id = obj_object_id x, pt_content_exists = True\<rparr>"
    have gt: "obj_group_id x > 0 \<or> obj_group_id x = 0" "obj_object_id x > 0 \<or> obj_object_id x = 0"
      by (auto simp: word_neq_0_conv [symmetric])
    have "note_published_object x (tracks, a) = ((?name, t) # filter (\<lambda>t. fst t \<noteq> ?name) tracks, a + 1)"
      using None gt by (auto simp: note_published_object_def Let_def t_def)
    moreover have "filter (\<lambda>t. fst t \<noteq> ?name) tracks = tracks"
      using new(2) by (intro filter_True) (auto simp: image_iff)
    moreover have "unat a = length tracks" using ok(3,4) assms(2) by simp
    moreover have "describes_track (objects @ [x]) (?name, t)"
      by (rule describes_track_new [OF new(1)]) (simp_all add: t_def largest_of_def location_def)
    moreover have "describes_track (objects @ [x]) u" if "u \<in> set tracks" for u
      using that ok(7) new(2) by (auto simp: image_iff intro: describes_track_other)
    ultimately show ?thesis
      using ok new by (auto simp: tracks_ok_def t_def dest: bspec)
  next
    case (Some t)
    then obtain us vs where uv: "tracks = us @ (?name, t) # vs"
      using map_of_SomeD split_list by metis
    have "filter (\<lambda>t. fst t \<noteq> ?name) us = us" "filter (\<lambda>t. fst t \<noteq> ?name) vs = vs"
      using ok(1) uv by (auto simp: image_iff filter_id_conv)
    then have rest: "filter (\<lambda>t. fst t \<noteq> ?name) tracks = us @ vs" using uv by simp
    have t: "describes_track objects (?name, t)" using ok(7) uv by simp
    define t' where "t' = (if location x > largest_of t
        then t\<lparr>pt_largest_group_id := obj_group_id x, pt_largest_object_id := obj_object_id x\<rparr> else t)"
    have name: "?name \<in> obj_track_name ` set objects" using ok(2) uv by (auto simp: image_iff)
    have "note_published_object x (tracks, a) = ((?name, t') # us @ vs, a)"
      using Some rest t
      by (auto simp: note_published_object_def Let_def t'_def location_def largest_of_def describes_track_def)
    moreover have "describes_track (objects @ [x]) (?name, t')"
      using t by (intro describes_track_old [OF t])
        (auto simp: t'_def describes_track_def largest_of_def location_def max_def)
    moreover have "describes_track (objects @ [x]) u" if "u \<in> set (us @ vs)" for u
      using that ok(1,7) uv by (auto simp: image_iff intro!: describes_track_other)
    moreover have "pt_alias t' = pt_alias t" by (simp add: t'_def)
    moreover have "set (map fst ((?name, t') # us @ vs)) = obj_track_name ` set (objects @ [x])"
      using ok(2) name uv by auto
    moreover have "distinct (map fst ((?name, t') # us @ vs))" using ok(1) uv by auto
    moreover have "distinct (map (pt_alias \<circ> snd) ((?name, t') # us @ vs))"
      using ok(5) uv by (auto simp: t'_def)
    moreover have "\<forall>u \<in> set ((?name, t') # us @ vs). unat (pt_alias (snd u)) < Suc (length (us @ vs))"
      using ok(6) uv by (auto simp: t'_def)
    ultimately show ?thesis
      using ok(3,4) uv by (simp only: tracks_ok_def prod.case) auto
  qed
qed

lemma tracks_ok_fold:
  "length objects < 2 ^ 64 \<Longrightarrow> tracks_ok objects (fold note_published_object objects ([], 0))"
proof (induction objects rule: rev_induct)
  case Nil
  show ?case by (simp add: tracks_ok_def)
next
  case (snoc x objects)
  then show ?case
    using note_published_object_ok [of objects "fst (fold note_published_object objects ([], 0))"
        "snd (fold note_published_object objects ([], 0))" x] by simp
qed

text \<open>The tracks a plan publishes are one per track name of its objects, in name order, with distinct
  aliases; each reports as its largest object the largest location among its objects.\<close>

theorem published_tracks_complete:
  assumes "length objects < 2 ^ 64"
  shows "sorted (map pt_name (build_published_tracks objects)) \<and>
    distinct (map pt_name (build_published_tracks objects)) \<and>
    set (map pt_name (build_published_tracks objects)) = set (map obj_track_name objects) \<and>
    distinct (map pt_alias (build_published_tracks objects)) \<and>
    (\<forall>t \<in> set (build_published_tracks objects).
       (\<exists>x \<in> set objects. obj_track_name x = pt_name t \<and> location x = largest_of t) \<and>
       (\<forall>x \<in> set objects. obj_track_name x = pt_name t \<longrightarrow> location x \<le> largest_of t))"
proof -
  obtain tracks a where f: "fold note_published_object objects ([], 0) = (tracks, a)" by fastforce
  have ok: "tracks_ok objects (tracks, a)" using tracks_ok_fold [OF assms] f by simp
  let ?s = "sort_key fst tracks"
  have names: "map (\<lambda>t. pt_name (snd t)) ?s = map fst ?s"
    using ok by (auto simp: tracks_ok_def describes_track_def)
  have "sorted (map fst ?s)" "distinct (map fst ?s)" "distinct (map (\<lambda>t. pt_alias (snd t)) ?s)"
    using ok by (simp_all add: tracks_ok_def distinct_map comp_def)
  then have "sorted (map (\<lambda>t. pt_name (snd t)) ?s)" "distinct (map (\<lambda>t. pt_name (snd t)) ?s)"
    "distinct (map (\<lambda>t. pt_alias (snd t)) ?s)"
    by (simp_all only: names)
  moreover have "set (map (\<lambda>t. pt_name (snd t)) ?s) = obj_track_name ` set objects"
    using ok unfolding names by (simp add: tracks_ok_def)
  ultimately show ?thesis
    using ok by (auto simp: build_published_tracks_def f tracks_ok_def describes_track_def comp_def)
qed

theorem published_tracks_complete_witness:
  "map pt_name (build_published_tracks [example_object 2 0, example_object 1 5]) = [[]] \<and>
   distinct (map pt_alias (build_published_tracks [example_object 2 0, example_object 1 5]))"
  using published_tracks_complete [of "[example_object 2 0, example_object 1 5]"]
  by (simp add: build_published_tracks_def note_published_object_def example_object_def)

subsection \<open>Selecting objects\<close>

lemma find_matching_from_Some:
  "find_matching_from objects m i = Some j \<longleftrightarrow>
     i \<le> j \<and> j - i < length objects \<and>
     (let sel = (\<lambda>x. obj_track_name x = sub_track_name m \<and> object_matches_filter x m) in
      sel (objects ! (j - i)) \<and> (\<forall>k < j - i. \<not> sel (objects ! k)))"
proof (induction objects arbitrary: i)
  case (Cons x objects)
  show ?case
  proof (cases "j \<le> i")
    case True
    then show ?thesis using Cons.IH [of "Suc i"] by (auto simp: Let_def)
  next
    case False
    then obtain n where "j = Suc (i + n)" by (metis add_Suc_right less_imp_Suc_add not_le)
    then show ?thesis using Cons.IH [of "Suc i"] by (auto simp: Let_def less_Suc_eq_0_disj nth_Cons')
  qed
qed simp

end
