(* ===== verification/Subgroup_Sender.thy ===== *)
theory Subgroup_Sender
  imports Subgroup_Completion Ordered_Map Priority_Scheduler Subscription_Filter
begin

text \<open>
  \<open>SubgroupSenderState\<close> of \<open>src/transport/moqt_session.cpp\<close>: the open data stream of each subgroup a
  track or subscription is sending, the object that waits to be admitted on it, and the subgroups that
  are over. The calls to the transport are the effects an operation returns; what the transport and the
  clock answer are arguments (\<open>answers\<close>), in the order of the calls. Tracing is not modelled.
\<close>

subsection \<open>State\<close>

type_synonym key = "u64 \<times> u64"

record OpenStream =
  os_stream_id :: u64
  os_last_object_id :: "u64 option"
  os_transport_priority :: u8
  os_properties_present :: bool

record ObjectWriteOptions =
  ow_transport_priority :: u8
  ow_object_deadline :: "int option"
  ow_subgroup_deadline :: "int option"

record PendingObject =
  po_object_id :: u64
  po_wire_bytes :: bytes
  po_fin :: bool
  po_options :: ObjectWriteOptions

record SubgroupSender =
  ss_streams :: "(key, OpenStream) omap"
  ss_pending_objects :: "(key, PendingObject) omap"
  ss_stream_keys :: "(u64, key) omap"
  ss_closed :: CompletionTracker
  ss_peer_stopped :: CompletionTracker
  ss_history_exhausted :: bool
  ss_stream_count :: u64

definition new_sender :: SubgroupSender where
  "new_sender = \<lparr>ss_streams = [], ss_pending_objects = [], ss_stream_keys = [], ss_closed = new_tracker,
     ss_peer_stopped = new_tracker, ss_history_exhausted = False, ss_stream_count = 0\<rparr>"

datatype TransportStatus = Success | Failure string

datatype ServeDisposition = Accepted | WouldBlock | Skipped

datatype ObjectWriteDisposition = WriteAccepted | WriteWouldBlock | WriteFailed

text \<open>The calls that change the transport; a write with the transport's decision.\<close>

datatype effect =
    Open_Stream
  | Write_Object u64 bytes bool ObjectWriteOptions ObjectWriteDisposition
  | Reset_Stream u64 u64
  | Acknowledge_Expired u64
  | Acknowledge_Peer_Stopped u64

text \<open>
  What the transport and the clock answer in one call of \<open>try_serve\<close>: the events of a stream (expired,
  stopped by the peer) before and after the write, three readings of the clock, and the results of
  opening, resetting and writing.
\<close>

record answers =
  an_events :: "u64 \<Rightarrow> bool \<times> bool"
  an_first_available_at :: int
  an_now_prepared :: int
  an_now_written :: int
  an_open :: "string + u64"
  an_reset :: TransportStatus
  an_write :: "ObjectWriteDisposition \<times> string"
  an_events_after :: "u64 \<Rightarrow> bool \<times> bool"

subsection \<open>Retiring subgroups\<close>

definition is_closed :: "SubgroupSender \<Rightarrow> key \<Rightarrow> bool" where
  "is_closed s k \<longleftrightarrow> tracker_contains (ss_closed s) (fst k) (snd k) \<or>
     tracker_contains (ss_peer_stopped s) (fst k) (snd k)"

definition record_permanent_completion :: "key \<Rightarrow> SubgroupSender \<Rightarrow> bool \<times> SubgroupSender" where
  "record_permanent_completion k s =
     (case tracker_insert (fst k) (snd k) (ss_closed s) of (recorded, t) \<Rightarrow>
        (recorded, s\<lparr>ss_closed := t,
           ss_history_exhausted := (if \<not> recorded then True else ss_history_exhausted s)\<rparr>))"

definition record_peer_stopped_completion :: "key \<Rightarrow> SubgroupSender \<Rightarrow> bool \<times> SubgroupSender" where
  "record_peer_stopped_completion k s =
     (case tracker_insert (fst k) (snd k) (ss_peer_stopped s) of (recorded, t) \<Rightarrow>
        (recorded, s\<lparr>ss_peer_stopped := t,
           ss_history_exhausted := (if \<not> recorded then True else ss_history_exhausted s)\<rparr>))"

text \<open>Erasing the stream of a subgroup and its reverse entry.\<close>

definition erase_stream :: "key \<Rightarrow> SubgroupSender \<Rightarrow> SubgroupSender" where
  "erase_stream k s =
     (case map_of (ss_streams s) k of
        None \<Rightarrow> s
      | Some stream \<Rightarrow> s\<lparr>ss_stream_keys := omap_erase (os_stream_id stream) (ss_stream_keys s),
          ss_streams := omap_erase k (ss_streams s)\<rparr>)"

definition erase_pending :: "key \<Rightarrow> SubgroupSender \<Rightarrow> SubgroupSender" where
  "erase_pending k s = s\<lparr>ss_pending_objects := omap_erase k (ss_pending_objects s)\<rparr>"

definition close_subgroup :: "key \<Rightarrow> SubgroupSender \<Rightarrow> bool \<times> SubgroupSender" where
  "close_subgroup k s = record_permanent_completion k (erase_pending k (erase_stream k s))"

definition retire_transport_stream :: "u64 \<Rightarrow> bool \<Rightarrow> bool \<Rightarrow> SubgroupSender \<Rightarrow> bool \<times> SubgroupSender" where
  "retire_transport_stream stream_id peer_stopped is_expired s =
     (case map_of (ss_stream_keys s) stream_id of
        None \<Rightarrow> (False, s)
      | Some k \<Rightarrow>
          let s = (case map_of (ss_streams s) k of
                Some stream \<Rightarrow> if os_stream_id stream = stream_id
                  then s\<lparr>ss_streams := omap_erase k (ss_streams s)\<rparr> else s
              | None \<Rightarrow> s);
              s = erase_pending k s;
              s = (if peer_stopped \<and> \<not> is_expired then snd (record_peer_stopped_completion k s)
                   else snd (record_permanent_completion k s)) in
          (True, s\<lparr>ss_stream_keys := omap_erase stream_id (ss_stream_keys s)\<rparr>))"

definition retire_peer_stopped_stream :: "(u64 \<Rightarrow> bool \<times> bool) \<Rightarrow> u64 \<Rightarrow> SubgroupSender \<Rightarrow> bool \<times> SubgroupSender" where
  "retire_peer_stopped_stream events stream_id s =
     (if \<not> snd (events stream_id) then (False, s)
      else retire_transport_stream stream_id True (fst (events stream_id)) s)"

definition retire_expired_stream :: "(u64 \<Rightarrow> bool \<times> bool) \<Rightarrow> u64 \<Rightarrow> SubgroupSender \<Rightarrow> bool \<times> SubgroupSender" where
  "retire_expired_stream events stream_id s =
     (if \<not> fst (events stream_id) then (False, s)
      else retire_transport_stream stream_id False True s)"

definition observe_transport_stream_state ::
    "(u64 \<Rightarrow> bool \<times> bool) \<Rightarrow> SubgroupSender \<Rightarrow> effect list \<times> SubgroupSender" where
  "observe_transport_stream_state events s =
     (let changed_stream_ids =
            filter (\<lambda>stream_id. fst (events stream_id) \<or> snd (events stream_id)) (map fst (ss_stream_keys s)) in
      (concat (map (\<lambda>stream_id.
           (if fst (events stream_id) then [Acknowledge_Expired stream_id] else []) @
           (if snd (events stream_id) then [Acknowledge_Peer_Stopped stream_id] else [])) changed_stream_ids),
       fold (\<lambda>stream_id s. snd (retire_transport_stream stream_id (snd (events stream_id)) (fst (events stream_id)) s))
         changed_stream_ids s))"

definition completion_history_status :: "SubgroupSender \<Rightarrow> TransportStatus" where
  "completion_history_status s =
     (if ss_history_exhausted s
      then Failure ''subgroup completion history exceeded bounded sparse range capacity'' else Success)"

subsection \<open>Serving an object\<close>

text \<open>The message of an exception.\<close>

definition exn_what :: "exn \<Rightarrow> string" where
  "exn_what e = (case e of Invalid_Argument m \<Rightarrow> m | Runtime_Error m \<Rightarrow> m | _ \<Rightarrow> [])"

text \<open>A deadline was reached with a stream open: the subgroup is closed and its stream reset.\<close>

definition expire_open_subgroup ::
    "key \<Rightarrow> u64 \<Rightarrow> TransportStatus \<Rightarrow> SubgroupSender \<Rightarrow>
     effect list \<times> (TransportStatus \<times> ServeDisposition) \<times> SubgroupSender" where
  "expire_open_subgroup k stream_id reset_status s =
     (case close_subgroup k s of (completion_recorded, s) \<Rightarrow>
        ([Reset_Stream stream_id kSessionDeliveryTimeoutErrorCode],
         (if reset_status \<noteq> Success then reset_status
          else if \<not> completion_recorded then completion_history_status s
          else reset_status, Skipped), s))"

text \<open>
  \<open>prepare_object\<close>: the part of \<open>try_serve\<close> that is run when no object of the subgroup is pending. It
  ends the call, or leaves the object pending with its stream open (\<open>None\<close>). Its pieces are the deadlines
  of the object, its bytes (those of the stream header, if it opens the stream, and its own), and the
  stream it goes on.
\<close>

definition object_deadlines ::
    "bool \<Rightarrow> DeliveryTimeouts \<Rightarrow> (int option \<times> int option) option \<Rightarrow> int \<Rightarrow> int option \<times> int option" where
  "object_deadlines is_final timeouts prepared first_available_at =
     (case prepared of
        Some (object_deadline, subgroup_deadline) \<Rightarrow> (object_deadline, subgroup_deadline)
      | None \<Rightarrow> (deadline_after first_available_at (object_ms timeouts),
          if is_final then deadline_after first_available_at (subgroup_ms timeouts) else None))"

definition encode_pending_object ::
    "DraftVersion \<Rightarrow> u64 \<Rightarrow> CmsfObject \<Rightarrow> bool \<Rightarrow> bytes \<Rightarrow> bool \<Rightarrow> OpenStream option \<Rightarrow> exn + bytes \<times> bytes" where
  "encode_pending_object draft alias object contains_group_largest payload properties_present stream =
     bindE (encode_subgroup_object draft (case stream of None \<Rightarrow> None | Some stream \<Rightarrow> os_last_object_id stream)
              (obj_object_id object) payload (obj_properties object) properties_present) (\<lambda>encoded.
     if stream = None then
       bindE (encode_subgroup_header draft alias (obj_group_id object) (obj_subgroup_id object)
                contains_group_largest properties_present (obj_object_id object = 0)) (\<lambda>header.
       Inr (header, encoded))
     else Inr ([], encoded))"

definition claim_stream ::
    "key \<Rightarrow> u8 \<Rightarrow> bool \<Rightarrow> string + u64 \<Rightarrow> OpenStream option \<Rightarrow> SubgroupSender \<Rightarrow> string + OpenStream \<times> SubgroupSender" where
  "claim_stream k transport_priority properties_present opened stream s =
     (case stream of
        None \<Rightarrow>
          bindE opened (\<lambda>stream_id.
          let stream = \<lparr>os_stream_id = stream_id, os_last_object_id = None,
                os_transport_priority = transport_priority, os_properties_present = properties_present\<rparr> in
          Inr (stream, s\<lparr>ss_stream_count := ss_stream_count s + 1,
            ss_streams := omap_put k stream (ss_streams s),
            ss_stream_keys := omap_put stream_id k (ss_stream_keys s)\<rparr>))
      | Some stream \<Rightarrow>
          let stream = stream\<lparr>os_transport_priority := transport_priority\<rparr> in
          Inr (stream, s\<lparr>ss_streams := omap_put k stream (ss_streams s)\<rparr>))"

definition prepare_object ::
    "DraftVersion \<Rightarrow> u64 \<Rightarrow> CmsfObject \<Rightarrow> bool \<Rightarrow> bool \<Rightarrow> bytes \<Rightarrow> DeliveryTimeouts \<Rightarrow> u8 \<Rightarrow>
     (int option \<times> int option) option \<Rightarrow> answers \<Rightarrow> SubgroupSender \<Rightarrow>
     effect list \<times> (TransportStatus \<times> ServeDisposition) option \<times> SubgroupSender" where
  "prepare_object draft alias object contains_group_largest is_final payload timeouts transport_priority
       prepared an s =
     (let k = (obj_group_id object, obj_subgroup_id object);
          deadlines = object_deadlines is_final timeouts prepared (an_first_available_at an);
          stream = map_of (ss_streams s) k in
      if deadline_reached (an_now_prepared an) (fst deadlines) (snd deadlines) then
        (case stream of
           Some stream \<Rightarrow>
             (case expire_open_subgroup k (os_stream_id stream) (an_reset an) s of
                (effects, result, s) \<Rightarrow> (effects, Some result, s))
         | None \<Rightarrow>
             (case record_permanent_completion k s of (recorded, s) \<Rightarrow>
                ([], Some (if \<not> recorded then completion_history_status s else Success, Skipped), s)))
      else
      let properties_present = (case stream of None \<Rightarrow> obj_properties object \<noteq> []
            | Some stream \<Rightarrow> os_properties_present stream) in
      if \<not> properties_present \<and> obj_properties object \<noteq> [] then
        ([], Some (Failure ''cannot add properties to a subgroup opened without PROPERTIES'', Skipped), s)
      else
      case encode_pending_object draft alias object contains_group_largest payload properties_present stream of
        Inl e \<Rightarrow> ([], Some (Failure (exn_what e), Skipped), s)
      | Inr (header, encoded) \<Rightarrow>
          let effects = (if stream = None then [Open_Stream] else []) in
          case claim_stream k transport_priority properties_present (an_open an) stream s of
            Inl m \<Rightarrow> (effects, Some (Failure m, Skipped), s)
          | Inr (stream, s) \<Rightarrow>
              if payload \<noteq> [] \<and> (length encoded < length payload \<or>
                   drop (length encoded - length payload) encoded \<noteq> payload) then
                (effects, Some (Failure ''encoded subgroup object payload mismatch'', Skipped), s)
              else
                (effects, None, s\<lparr>ss_pending_objects := omap_put k
                  \<lparr>po_object_id = obj_object_id object, po_wire_bytes = header @ encoded, po_fin = is_final,
                   po_options = \<lparr>ow_transport_priority = os_transport_priority stream,
                     ow_object_deadline = fst deadlines, ow_subgroup_deadline = snd deadlines\<rparr>\<rparr>
                  (ss_pending_objects s)\<rparr>))"

text \<open>\<open>deliver_object\<close>: the rest of \<open>try_serve\<close>, with the object pending.\<close>

definition finish_accepted_object ::
    "key \<Rightarrow> PendingObject \<Rightarrow> SubgroupSender \<Rightarrow> (TransportStatus \<times> ServeDisposition) \<times> SubgroupSender" where
  "finish_accepted_object k object s =
     (let s = erase_pending k s in
      if po_fin object then
        (case close_subgroup k s of (recorded, s) \<Rightarrow>
           if \<not> recorded then ((completion_history_status s, Skipped), s) else ((Success, Accepted), s))
      else
        ((Success, Accepted),
         case map_of (ss_streams s) k of
           None \<Rightarrow> s
         | Some stream \<Rightarrow> s\<lparr>ss_streams :=
             omap_put k (stream\<lparr>os_last_object_id := Some (po_object_id object)\<rparr>) (ss_streams s)\<rparr>))"

definition deliver_object ::
    "key \<Rightarrow> u8 \<Rightarrow> answers \<Rightarrow> PendingObject \<Rightarrow> SubgroupSender \<Rightarrow>
     effect list \<times> (TransportStatus \<times> ServeDisposition) \<times> SubgroupSender" where
  "deliver_object k transport_priority an object s =
     (case map_of (ss_streams s) k of
        None \<Rightarrow> ([], (Success, Skipped), erase_pending k s)
      | Some stream \<Rightarrow>
          let options = (po_options object)\<lparr>ow_transport_priority := transport_priority\<rparr>;
              object = object\<lparr>po_options := options\<rparr>;
              s = s\<lparr>ss_streams := omap_put k (stream\<lparr>os_transport_priority := transport_priority\<rparr>) (ss_streams s),
                    ss_pending_objects := omap_put k object (ss_pending_objects s)\<rparr>;
              stream_id = os_stream_id stream in
          if deadline_reached (an_now_written an) (ow_object_deadline options) (ow_subgroup_deadline options) then
            expire_open_subgroup k stream_id (an_reset an) s
          else
          let write = [Write_Object stream_id (po_wire_bytes object) (po_fin object) options (fst (an_write an))] in
          case an_write an of
            (WriteWouldBlock, _) \<Rightarrow> (write, (Success, WouldBlock), s)
          | (WriteFailed, message) \<Rightarrow>
              (case observe_transport_stream_state (an_events_after an) s of (acknowledgements, s) \<Rightarrow>
                 (write @ acknowledgements,
                  (if is_closed s k then Success
                   else Failure (if message = [] then ''transport object admission failed'' else message), Skipped), s))
          | (WriteAccepted, _) \<Rightarrow>
              (case finish_accepted_object k object s of (result, s) \<Rightarrow> (write, result, s)))"

definition try_serve ::
    "DraftVersion \<Rightarrow> u64 \<Rightarrow> CmsfObject \<Rightarrow> bool \<Rightarrow> bool \<Rightarrow> bytes \<Rightarrow> DeliveryTimeouts \<Rightarrow> u8 \<times> u8 \<Rightarrow>
     (int option \<times> int option) option \<Rightarrow> answers \<Rightarrow> SubgroupSender \<Rightarrow>
     effect list \<times> (TransportStatus \<times> ServeDisposition) \<times> SubgroupSender" where
  "try_serve draft alias object contains_group_largest is_final payload timeouts priority prepared an s =
     (let k = (obj_group_id object, obj_subgroup_id object) in
      case observe_transport_stream_state (an_events an) s of (observed, s) \<Rightarrow>
      if completion_history_status s \<noteq> Success then (observed, (completion_history_status s, Skipped), s)
      else if is_closed s k then (observed, (Success, Skipped), s)
      else
      let timeouts = timeouts_for_draft draft timeouts;
          transport_priority = (if uses_priority_scheduler draft
            then object_transport_priority (fst priority) (snd priority) else 255) in
      case (case map_of (ss_pending_objects s) k of
              None \<Rightarrow> prepare_object draft alias object contains_group_largest is_final payload timeouts
                transport_priority prepared an s
            | Some pending \<Rightarrow>
                if po_object_id pending \<noteq> obj_object_id object then
                  ([], Some (Failure ''attempted a later object while its subgroup predecessor is blocked'', Skipped), s)
                else ([], None, s)) of
        (effects, Some result, s) \<Rightarrow> (observed @ effects, result, s)
      | (effects, None, s) \<Rightarrow>
          (case map_of (ss_pending_objects s) k of
             None \<Rightarrow> (observed @ effects, (Success, Skipped), s)
           | Some pending \<Rightarrow>
               (case deliver_object k transport_priority an pending s of
                  (written, result, s) \<Rightarrow> (observed @ effects @ written, result, s))))"

subsection \<open>Blocking operations\<close>

text \<open>
  \<open>serve\<close> and \<open>finish_group\<close> repeat until the transport admits the bytes, sleeping in between and running
  a callback of the caller that may act on this sender. A run is the list of what happens on each turn;
  \<open>None\<close> says that the list ended and the call has not returned.
\<close>

type_synonym callback = "SubgroupSender \<Rightarrow> TransportStatus \<times> SubgroupSender"

fun serve ::
    "(answers \<Rightarrow> SubgroupSender \<Rightarrow> effect list \<times> (TransportStatus \<times> ServeDisposition) \<times> SubgroupSender) \<Rightarrow>
     (answers \<times> callback) list \<Rightarrow> SubgroupSender \<Rightarrow>
     effect list \<times> (TransportStatus \<times> bool) option \<times> SubgroupSender" where
  "serve try [] s = ([], None, s)"
| "serve try ((an, while_blocked) # turns) s =
     (case try an s of (effects, (status, disposition), s) \<Rightarrow>
        if status \<noteq> Success then (effects, Some (status, False), s)
        else if disposition \<noteq> WouldBlock then (effects, Some (status, disposition = Accepted), s)
        else case while_blocked s of (status, s) \<Rightarrow>
          if status \<noteq> Success then (effects, Some (status, False), s)
          else case serve try turns s of (more_effects, result, s) \<Rightarrow> (effects @ more_effects, result, s))"

record attempt =
  at_resource_status :: "callback option"
  at_now :: int
  at_reset :: TransportStatus
  at_write :: "ObjectWriteDisposition \<times> string"
  at_events_after :: "u64 \<Rightarrow> bool \<times> bool"

text \<open>How the loop over one stream ends: with the stream finished, or with the call returning.\<close>

datatype finish_outcome = Finished | Returned TransportStatus

fun finish_stream ::
    "key \<Rightarrow> OpenStream \<Rightarrow> int option \<Rightarrow> attempt list \<Rightarrow> SubgroupSender \<Rightarrow>
     effect list \<times> finish_outcome option \<times> SubgroupSender" where
  "finish_stream k stream subgroup_deadline [] s = ([], None, s)"
| "finish_stream k stream subgroup_deadline (a # attempts) s =
     (case (case at_resource_status a of None \<Rightarrow> (Success, s) | Some f \<Rightarrow> f s) of (status, s) \<Rightarrow>
      if status \<noteq> Success then ([], Some (Returned status), s)
      else if at_resource_status a \<noteq> None \<and> is_closed s k then ([], Some Finished, s)
      else if deadline_reached (at_now a) None subgroup_deadline then
        (case close_subgroup k s of (completion_recorded, s) \<Rightarrow>
           ([Reset_Stream (os_stream_id stream) kSessionDeliveryTimeoutErrorCode],
            Some (if at_reset a \<noteq> Success then Returned (at_reset a)
                  else if \<not> completion_recorded then Returned (completion_history_status s)
                  else Finished), s))
      else
      let write = Write_Object (os_stream_id stream) [] True
            \<lparr>ow_transport_priority = os_transport_priority stream, ow_object_deadline = None,
             ow_subgroup_deadline = subgroup_deadline\<rparr> (fst (at_write a)) in
      case at_write a of
        (WriteFailed, message) \<Rightarrow>
          (case observe_transport_stream_state (at_events_after a) s of (acknowledgements, s) \<Rightarrow>
             (write # acknowledgements,
              Some (if is_closed s k then Finished
                else Returned (Failure (if message = [] then ''transport subgroup FIN admission failed'' else message))), s))
      | (WriteAccepted, _) \<Rightarrow> ([write], Some Finished, s)
      | (WriteWouldBlock, _) \<Rightarrow>
          (case finish_stream k stream subgroup_deadline attempts s of
             (effects, outcome, s) \<Rightarrow> (write # effects, outcome, s)))"

fun finish_streams ::
    "int option \<Rightarrow> ((key \<times> OpenStream) \<times> attempt list) list \<Rightarrow> SubgroupSender \<Rightarrow>
     effect list \<times> finish_outcome option \<times> SubgroupSender" where
  "finish_streams subgroup_deadline [] s = ([], Some Finished, s)"
| "finish_streams subgroup_deadline (((k, stream), attempts) # rest) s =
     (if is_closed s k then finish_streams subgroup_deadline rest s
      else
      case finish_stream k stream subgroup_deadline attempts (erase_pending k s) of
        (effects, Some Finished, s) \<Rightarrow>
          (case close_subgroup k s of (recorded, s) \<Rightarrow>
             if \<not> recorded then (effects, Some (Returned (completion_history_status s)), s)
             else case finish_streams subgroup_deadline rest s of
               (more_effects, outcome, s) \<Rightarrow> (effects @ more_effects, outcome, s))
      | (effects, outcome, s) \<Rightarrow> (effects, outcome, s))"

text \<open>\<open>attempts\<close> gives the turns of the loop for each stream that was open.\<close>

definition finish_group ::
    "DraftVersion \<Rightarrow> DeliveryTimeouts \<Rightarrow> int \<Rightarrow> (u64 \<Rightarrow> bool \<times> bool) \<Rightarrow> (key \<Rightarrow> attempt list) \<Rightarrow> SubgroupSender \<Rightarrow>
     effect list \<times> TransportStatus option \<times> SubgroupSender" where
  "finish_group draft timeouts now events attempts s =
     (let subgroup_deadline = deadline_after now (subgroup_ms (timeouts_for_draft draft timeouts)) in
      case observe_transport_stream_state events s of (observed, s) \<Rightarrow>
      if completion_history_status s \<noteq> Success then (observed, Some (completion_history_status s), s)
      else
      case finish_streams subgroup_deadline (map (\<lambda>(k, stream). ((k, stream), attempts k)) (ss_streams s)) s of
        (effects, None, s) \<Rightarrow> (observed @ effects, None, s)
      | (effects, Some (Returned status), s) \<Rightarrow> (observed @ effects, Some status, s)
      | (effects, Some Finished, s) \<Rightarrow>
          (observed @ effects, Some Success,
           s\<lparr>ss_streams := [], ss_stream_keys := [], ss_pending_objects := []\<rparr>))"

subsection \<open>Other operations\<close>

definition discard_unadmitted :: "u64 \<Rightarrow> u64 \<Rightarrow> u64 \<Rightarrow> SubgroupSender \<Rightarrow> SubgroupSender" where
  "discard_unadmitted group_id subgroup_id object_id s =
     (let k = (group_id, subgroup_id) in
      case map_of (ss_pending_objects s) k of
        None \<Rightarrow> s
      | Some pending \<Rightarrow>
          if po_object_id pending \<noteq> object_id then s
          else
          let s = erase_pending k s in
          case map_of (ss_streams s) k of
            None \<Rightarrow> s
          | Some stream \<Rightarrow>
              if os_last_object_id stream \<noteq> None then s
              else s\<lparr>ss_stream_keys := omap_erase (os_stream_id stream) (ss_stream_keys s),
                ss_streams := omap_erase k (ss_streams s),
                ss_stream_count := (if ss_stream_count s \<noteq> 0 then ss_stream_count s - 1 else ss_stream_count s)\<rparr>)"

definition refresh_unadmitted_deadlines ::
    "u64 \<Rightarrow> u64 \<Rightarrow> u64 \<Rightarrow> int option \<Rightarrow> int option \<Rightarrow> SubgroupSender \<Rightarrow> SubgroupSender" where
  "refresh_unadmitted_deadlines group_id subgroup_id object_id object_deadline subgroup_deadline s =
     (let k = (group_id, subgroup_id) in
      case map_of (ss_pending_objects s) k of
        None \<Rightarrow> s
      | Some pending \<Rightarrow>
          if po_object_id pending \<noteq> object_id then s
          else s\<lparr>ss_pending_objects := omap_put k (pending\<lparr>po_options := (po_options pending)
            \<lparr>ow_object_deadline := object_deadline, ow_subgroup_deadline := subgroup_deadline\<rparr>\<rparr>)
            (ss_pending_objects s)\<rparr>)"

definition renew_peer_stopped_subgroups :: "(u64 \<Rightarrow> bool \<times> bool) \<Rightarrow> SubgroupSender \<Rightarrow> effect list \<times> SubgroupSender" where
  "renew_peer_stopped_subgroups events s =
     (case observe_transport_stream_state events s of (observed, s) \<Rightarrow>
        (observed, s\<lparr>ss_peer_stopped := new_tracker\<rparr>))"

text \<open>The loop over the streams that were open; the first failure is reported, none stops it.\<close>

fun cancel_streams ::
    "u64 \<Rightarrow> (u64 \<Rightarrow> TransportStatus) \<Rightarrow> (key \<times> OpenStream) list \<Rightarrow> TransportStatus \<Rightarrow> SubgroupSender \<Rightarrow>
     effect list \<times> TransportStatus \<times> SubgroupSender" where
  "cancel_streams error_code reset [] first_failure s = ([], first_failure, s)"
| "cancel_streams error_code reset ((k, stream) # rest) first_failure s =
     (case close_subgroup k s of (recorded, s) \<Rightarrow>
      let first_failure = (if \<not> recorded \<and> first_failure = Success then completion_history_status s else first_failure);
          reset_status = reset (os_stream_id stream);
          first_failure = (if reset_status \<noteq> Success \<and> first_failure = Success then reset_status else first_failure) in
      case cancel_streams error_code reset rest first_failure s of (effects, status, s) \<Rightarrow>
        (Reset_Stream (os_stream_id stream) error_code # effects, status, s))"

definition cancel_all_open_subgroups ::
    "u64 \<Rightarrow> (u64 \<Rightarrow> bool \<times> bool) \<Rightarrow> (u64 \<Rightarrow> TransportStatus) \<Rightarrow> SubgroupSender \<Rightarrow>
     effect list \<times> TransportStatus \<times> SubgroupSender" where
  "cancel_all_open_subgroups error_code events reset s =
     (case observe_transport_stream_state events s of (observed, s) \<Rightarrow>
      case cancel_streams error_code reset (ss_streams s) Success s of (effects, status, s) \<Rightarrow>
        (observed @ effects, status, s))"

subsection \<open>The invariant\<close>

text \<open>
  Streams and their reverse map agree, a pending object has its stream, and a closed subgroup has no
  stream.
\<close>

definition linked :: "('k \<rightharpoonup> OpenStream) \<Rightarrow> (u64 \<rightharpoonup> 'k) \<Rightarrow> bool" where
  "linked f g \<longleftrightarrow> (\<forall>i k. g i = Some k \<longleftrightarrow> (\<exists>stream. f k = Some stream \<and> os_stream_id stream = i))"

lemma linkedD: "linked f g \<Longrightarrow> f k = Some stream \<Longrightarrow> g (os_stream_id stream) = Some k"
  "linked f g \<Longrightarrow> g i = Some k \<Longrightarrow> \<exists>stream. f k = Some stream \<and> os_stream_id stream = i"
  by (auto simp: linked_def)

lemma linked_remove:
  assumes "linked f g" and "f k = Some stream"
  shows "linked (f(k := None)) (g(os_stream_id stream := None))"
  unfolding linked_def
proof (intro allI)
  fix i k'
  show "(g(os_stream_id stream := None)) i = Some k' \<longleftrightarrow>
      (\<exists>stream'. (f(k := None)) k' = Some stream' \<and> os_stream_id stream' = i)"
    using assms linkedD [OF assms(1)] by (cases "k' = k"; cases "i = os_stream_id stream") fastforce+
qed

lemma linked_update:
  assumes "linked f g" and "f k = Some stream" and "os_stream_id stream' = os_stream_id stream"
  shows "linked (f(k \<mapsto> stream')) g"
  unfolding linked_def
proof (intro allI)
  fix i k'
  show "g i = Some k' \<longleftrightarrow> (\<exists>st. (f(k \<mapsto> stream')) k' = Some st \<and> os_stream_id st = i)"
    using assms by (cases "k' = k") (auto simp: linked_def)
qed

lemma linked_new:
  assumes "linked f g" and "f k = None" and "g (os_stream_id stream) = None"
  shows "linked (f(k \<mapsto> stream)) (g(os_stream_id stream \<mapsto> k))"
  unfolding linked_def
proof (intro allI)
  fix i k'
  show "(g(os_stream_id stream \<mapsto> k)) i = Some k' \<longleftrightarrow>
      (\<exists>st. (f(k \<mapsto> stream)) k' = Some st \<and> os_stream_id st = i)"
    using assms linkedD [OF assms(1)] by (cases "k' = k"; cases "i = os_stream_id stream") fastforce+
qed

definition maps_ok :: "(key, OpenStream) omap \<Rightarrow> (u64, key) omap \<Rightarrow> (key, PendingObject) omap \<Rightarrow> bool" where
  "maps_ok streams keys pending \<longleftrightarrow>
     omap_ok streams \<and> omap_ok keys \<and> omap_ok pending \<and>
     linked (map_of streams) (map_of keys) \<and> dom (map_of pending) \<subseteq> dom (map_of streams)"

definition sender_ok :: "SubgroupSender \<Rightarrow> bool" where
  "sender_ok s \<longleftrightarrow>
     maps_ok (ss_streams s) (ss_stream_keys s) (ss_pending_objects s) \<and>
     tracker_ok (ss_closed s) \<and> tracker_ok (ss_peer_stopped s) \<and>
     (\<forall>k. is_closed s k \<longrightarrow> map_of (ss_streams s) k = None)"

lemma sender_ok_new: "sender_ok new_sender"
  using tracker_ok_new
  by (simp add: sender_ok_def maps_ok_def linked_def new_sender_def)

named_theorems sender_preserves \<open>an operation keeps the sender's invariant\<close>

lemma maps_ok_remove:
  assumes "maps_ok streams keys pending" and "map_of streams k = Some stream"
  shows "maps_ok (omap_erase k streams) (omap_erase (os_stream_id stream) keys) (omap_erase k pending)"
  using assms linked_remove [of "map_of streams" "map_of keys" k stream] by (auto simp: maps_ok_def)

lemma maps_ok_drop_pending:
  "maps_ok streams keys pending \<Longrightarrow> maps_ok streams keys (omap_erase k pending)"
  by (auto simp: maps_ok_def)

lemma maps_ok_put_pending:
  "maps_ok streams keys pending \<Longrightarrow> map_of streams k \<noteq> None \<Longrightarrow> maps_ok streams keys (omap_put k p pending)"
  by (auto simp: maps_ok_def)

lemma maps_ok_update_stream:
  assumes "maps_ok streams keys pending" and "map_of streams k = Some stream"
    and "os_stream_id stream' = os_stream_id stream"
  shows "maps_ok (omap_put k stream' streams) keys pending"
  using assms linked_update [of "map_of streams" "map_of keys" k stream stream'] by (auto simp: maps_ok_def)

lemma maps_ok_new_stream:
  assumes "maps_ok streams keys pending" and "map_of streams k = None"
    and "map_of keys (os_stream_id stream) = None"
  shows "maps_ok (omap_put k stream streams) (omap_put (os_stream_id stream) k keys) pending"
  using assms linked_new [of "map_of streams" "map_of keys" k stream] by (auto simp: maps_ok_def)

lemma map_of_erase_stream [simp]: "map_of (ss_streams (erase_stream k s)) = (map_of (ss_streams s))(k := None)"
  by (auto simp: erase_stream_def fun_eq_iff split: option.splits)

lemma erase_stream_same [simp]:
  "ss_closed (erase_stream k s) = ss_closed s" "ss_peer_stopped (erase_stream k s) = ss_peer_stopped s"
  "ss_history_exhausted (erase_stream k s) = ss_history_exhausted s"
  "ss_pending_objects (erase_stream k s) = ss_pending_objects s"
  "is_closed (erase_stream k s) = is_closed s"
  by (auto simp: erase_stream_def is_closed_def fun_eq_iff split: option.splits)

lemma erase_pending_same [simp]:
  "ss_closed (erase_pending k s) = ss_closed s" "ss_peer_stopped (erase_pending k s) = ss_peer_stopped s"
  "ss_history_exhausted (erase_pending k s) = ss_history_exhausted s"
  "ss_streams (erase_pending k s) = ss_streams s" "ss_stream_keys (erase_pending k s) = ss_stream_keys s"
  "is_closed (erase_pending k s) = is_closed s"
  by (auto simp: erase_pending_def is_closed_def fun_eq_iff)

lemma erase_subgroup_ok:
  assumes "sender_ok s"
  shows "sender_ok (erase_pending k (erase_stream k s))"
proof (cases "map_of (ss_streams s) k")
  case None
  then have "erase_stream k s = s" by (simp add: erase_stream_def)
  then show ?thesis using assms by (auto simp: sender_ok_def erase_pending_def is_closed_def maps_ok_drop_pending)
next
  case (Some stream)
  then have "maps_ok (omap_erase k (ss_streams s)) (omap_erase (os_stream_id stream) (ss_stream_keys s))
      (omap_erase k (ss_pending_objects s))"
    using assms maps_ok_remove by (simp add: sender_ok_def)
  then show ?thesis
    using assms Some by (auto simp: sender_ok_def erase_stream_def erase_pending_def is_closed_def)
qed

lemma is_closed_insert:
  assumes "tracker_ok (ss_closed s)"
  shows "is_closed (snd (record_permanent_completion k s)) k' \<longleftrightarrow>
    is_closed s k' \<or> fst (record_permanent_completion k s) \<and> k' = k"
  using assms tracker_contains_insert [of "ss_closed s" "fst k" "snd k"]
  by (auto simp: record_permanent_completion_def is_closed_def prod_eq_iff split: prod.splits)

lemma is_closed_insert_peer_stopped:
  assumes "tracker_ok (ss_peer_stopped s)"
  shows "is_closed (snd (record_peer_stopped_completion k s)) k' \<longleftrightarrow>
    is_closed s k' \<or> fst (record_peer_stopped_completion k s) \<and> k' = k"
  using assms tracker_contains_insert [of "ss_peer_stopped s" "fst k" "snd k"]
  by (auto simp: record_peer_stopped_completion_def is_closed_def prod_eq_iff split: prod.splits)

lemma record_same [simp]:
  "ss_streams (snd (record_permanent_completion k s)) = ss_streams s"
  "ss_stream_keys (snd (record_permanent_completion k s)) = ss_stream_keys s"
  "ss_pending_objects (snd (record_permanent_completion k s)) = ss_pending_objects s"
  "ss_peer_stopped (snd (record_permanent_completion k s)) = ss_peer_stopped s"
  "ss_streams (snd (record_peer_stopped_completion k s)) = ss_streams s"
  "ss_stream_keys (snd (record_peer_stopped_completion k s)) = ss_stream_keys s"
  "ss_pending_objects (snd (record_peer_stopped_completion k s)) = ss_pending_objects s"
  "ss_closed (snd (record_peer_stopped_completion k s)) = ss_closed s"
  by (simp_all add: record_permanent_completion_def record_peer_stopped_completion_def split: prod.splits)

lemma record_trackers [simp]:
  "ss_closed (snd (record_permanent_completion k s)) = snd (tracker_insert (fst k) (snd k) (ss_closed s))"
  "ss_peer_stopped (snd (record_peer_stopped_completion k s)) = snd (tracker_insert (fst k) (snd k) (ss_peer_stopped s))"
  by (simp_all add: record_permanent_completion_def record_peer_stopped_completion_def split: prod.splits)

lemma record_ok [sender_preserves]:
  assumes "sender_ok s" and "map_of (ss_streams s) k = None"
  shows "sender_ok (snd (record_permanent_completion k s))" "sender_ok (snd (record_peer_stopped_completion k s))"
  using assms is_closed_insert [of s k] is_closed_insert_peer_stopped [of s k]
  by (auto simp: sender_ok_def tracker_ok_insert)

lemma close_subgroup_ok [sender_preserves]: "sender_ok s \<Longrightarrow> sender_ok (snd (close_subgroup k s))"
  by (simp add: close_subgroup_def record_ok erase_subgroup_ok)

lemma record_keys:
  "(snd (record_permanent_completion k s))\<lparr>ss_stream_keys := ks\<rparr> =
     snd (record_permanent_completion k (s\<lparr>ss_stream_keys := ks\<rparr>))"
  "(snd (record_peer_stopped_completion k s))\<lparr>ss_stream_keys := ks\<rparr> =
     snd (record_peer_stopped_completion k (s\<lparr>ss_stream_keys := ks\<rparr>))"
  by (simp_all add: record_permanent_completion_def record_peer_stopped_completion_def split: prod.splits)

lemma sender_update_order:
  "s\<lparr>ss_streams := a, ss_pending_objects := b, ss_stream_keys := c\<rparr> =
   s\<lparr>ss_stream_keys := c, ss_streams := a, ss_pending_objects := b\<rparr>"
  by simp

text \<open>Under the invariant a retired stream is the stream of its subgroup.\<close>

lemma retire_transport_stream_eq:
  assumes "sender_ok s" and "map_of (ss_stream_keys s) stream_id = Some k"
  shows "retire_transport_stream stream_id peer_stopped is_expired s =
     (True, snd (if peer_stopped \<and> \<not> is_expired
       then record_peer_stopped_completion k (erase_pending k (erase_stream k s))
       else close_subgroup k s))"
proof -
  have "linked (map_of (ss_streams s)) (map_of (ss_stream_keys s))"
    using assms(1) by (simp add: sender_ok_def maps_ok_def)
  from linkedD(2) [OF this assms(2)] obtain stream where
    stream: "map_of (ss_streams s) k = Some stream" "os_stream_id stream = stream_id" by blast
  show ?thesis
    using assms(2) stream
    by (simp add: retire_transport_stream_def close_subgroup_def erase_stream_def erase_pending_def
        record_keys Let_def sender_update_order)
qed

lemma retire_ok [sender_preserves]:
  assumes "sender_ok s"
  shows "sender_ok (snd (retire_transport_stream i p e s))"
proof (cases "map_of (ss_stream_keys s) i")
  case None
  then show ?thesis using assms by (simp add: retire_transport_stream_def)
next
  case (Some k)
  then show ?thesis
    using assms retire_transport_stream_eq [OF assms Some]
    by (simp add: close_subgroup_ok record_ok erase_subgroup_ok)
qed

lemma observe_ok [sender_preserves]:
  assumes "sender_ok s"
  shows "sender_ok (snd (observe_transport_stream_state events s))"
proof -
  have "sender_ok (fold (\<lambda>i s. snd (retire_transport_stream i (snd (events i)) (fst (events i)) s)) ids s)" for ids
    using assms by (induction ids arbitrary: s) (simp_all add: retire_ok)
  then show ?thesis by (simp add: observe_transport_stream_state_def Let_def)
qed

end
