(* ===== verification/Subgroup_Sender_Invariant.thy ===== *)
theory Subgroup_Sender_Invariant
  imports Subgroup_Sender
begin

text \<open>
  Every operation of \<open>SubgroupSenderState\<close> keeps the sender's invariant and its completion history, and
  how a call of \<open>try_serve\<close> can go: lemmas by cases over its pieces.
\<close>

subsection \<open>Every operation keeps the invariant\<close>

lemma expire_open_ok [sender_preserves]:
  "sender_ok s \<Longrightarrow> sender_ok (snd (snd (expire_open_subgroup k i r s)))"
  using close_subgroup_ok [of s k] by (cases "close_subgroup k s") (simp add: expire_open_subgroup_def)

lemma put_pending_ok [sender_preserves]:
  "sender_ok s \<Longrightarrow> map_of (ss_streams s) k \<noteq> None \<Longrightarrow>
   sender_ok (s\<lparr>ss_pending_objects := omap_put k p (ss_pending_objects s)\<rparr>)"
  unfolding sender_ok_def is_closed_def using maps_ok_put_pending by simp

lemma erase_pending_ok [sender_preserves]: "sender_ok s \<Longrightarrow> sender_ok (erase_pending k s)"
  unfolding sender_ok_def erase_pending_def is_closed_def using maps_ok_drop_pending by simp

lemma update_stream_ok [sender_preserves]:
  assumes "sender_ok s" and "map_of (ss_streams s) k = Some stream"
    and "os_stream_id stream' = os_stream_id stream"
  shows "sender_ok (s\<lparr>ss_streams := omap_put k stream' (ss_streams s)\<rparr>)"
proof -
  have streams: "omap_ok (ss_streams s)" "\<forall>k. is_closed s k \<longrightarrow> map_of (ss_streams s) k = None"
    using assms(1) by (simp_all add: sender_ok_def maps_ok_def)
  have "maps_ok (omap_put k stream' (ss_streams s)) (ss_stream_keys s) (ss_pending_objects s)"
    using assms maps_ok_update_stream by (simp add: sender_ok_def)
  moreover have "is_closed s k' \<longrightarrow> map_of (omap_put k stream' (ss_streams s)) k' = None" for k'
    using streams assms(2) by (cases "k' = k") (auto simp del: split_paired_All)
  ultimately show ?thesis using assms(1) by (simp add: sender_ok_def is_closed_def)
qed

lemma new_stream_ok [sender_preserves]:
  assumes "sender_ok s" and "map_of (ss_streams s) k = None" and "map_of (ss_stream_keys s) i = None"
    and "\<not> is_closed s k" and "os_stream_id stream = i"
  shows "sender_ok (s\<lparr>ss_stream_count := c, ss_streams := omap_put k stream (ss_streams s),
      ss_stream_keys := omap_put i k (ss_stream_keys s)\<rparr>)"
proof -
  have streams: "omap_ok (ss_streams s)" "\<forall>k. is_closed s k \<longrightarrow> map_of (ss_streams s) k = None"
    using assms(1) by (simp_all add: sender_ok_def maps_ok_def)
  have "maps_ok (omap_put k stream (ss_streams s)) (omap_put i k (ss_stream_keys s)) (ss_pending_objects s)"
    using assms maps_ok_new_stream [of "ss_streams s" "ss_stream_keys s" "ss_pending_objects s" k stream]
    by (simp add: sender_ok_def)
  moreover have "is_closed s k' \<longrightarrow> map_of (omap_put k stream (ss_streams s)) k' = None" for k'
    using streams assms(4) by (cases "k' = k") (auto simp del: split_paired_All)
  ultimately show ?thesis using assms(1) by (simp add: sender_ok_def is_closed_def)
qed

lemma finish_accepted_ok [sender_preserves]:
  "sender_ok s \<Longrightarrow> sender_ok (snd (finish_accepted_object k object s))"
  using close_subgroup_ok [of "erase_pending k s" k] erase_pending_ok [of s k]
    update_stream_ok [of "erase_pending k s" k]
  by (auto simp: finish_accepted_object_def Let_def split: prod.splits option.splits)


lemma sender_ok_streams:
  assumes "sender_ok s"
  shows "omap_ok (ss_streams s)" "omap_ok (ss_stream_keys s)" "omap_ok (ss_pending_objects s)"
    "is_closed s k \<Longrightarrow> map_of (ss_streams s) k = None"
    "map_of (ss_pending_objects s) k = Some p \<Longrightarrow> \<exists>stream. map_of (ss_streams s) k = Some stream"
    "map_of (ss_streams s) k = Some stream \<Longrightarrow> map_of (ss_stream_keys s) (os_stream_id stream) = Some k"
    "map_of (ss_stream_keys s) i = Some k \<Longrightarrow> \<exists>stream. map_of (ss_streams s) k = Some stream \<and> os_stream_id stream = i"
  using assms linkedD [of "map_of (ss_streams s)" "map_of (ss_stream_keys s)"]
  by (auto simp: sender_ok_def maps_ok_def simp del: split_paired_All)

lemma encode_subgroup_object_suffix:
  assumes "encode_subgroup_object draft previous object_id payload properties present = Inr encoded"
  shows "\<exists>b. encoded = b @ payload"
  using assms by (auto simp: encode_subgroup_object_def Let_def split: if_splits)

lemma erase_pending_absent: "map_of (ss_pending_objects s) k = None \<Longrightarrow> erase_pending k s = s"
  by (cases s) (auto simp: erase_pending_def omap_erase_def filter_id_conv map_of_eq_None_iff image_iff)

lemma close_absent:
  "map_of (ss_streams s) k = None \<Longrightarrow> map_of (ss_pending_objects s) k = None \<Longrightarrow>
   close_subgroup k s = record_permanent_completion k s"
  by (simp add: close_subgroup_def erase_stream_def erase_pending_absent)

text \<open>The state after a call of \<open>prepare_object\<close> that leaves an object pending.\<close>

definition with_stream :: "key \<Rightarrow> OpenStream \<Rightarrow> SubgroupSender \<Rightarrow> SubgroupSender" where
  "with_stream k stream s = s\<lparr>ss_stream_count := ss_stream_count s + 1,
     ss_streams := omap_put k stream (ss_streams s),
     ss_stream_keys := omap_put (os_stream_id stream) k (ss_stream_keys s)\<rparr>"

definition with_pending :: "key \<Rightarrow> PendingObject \<Rightarrow> SubgroupSender \<Rightarrow> SubgroupSender" where
  "with_pending k p s = s\<lparr>ss_pending_objects := omap_put k p (ss_pending_objects s)\<rparr>"

lemma prepare_object_cases:
  fixes object
  defines "k \<equiv> (obj_group_id object, obj_subgroup_id object)"
  assumes "prepare_object draft alias object cgl is_final payload timeouts tp prepared an s = (es, r, s')"
    and "map_of (ss_pending_objects s) k = None"
  obtains (refused) m where "r = Some (Failure m, Skipped)" "s' = s" "es = [] \<or> es = [Open_Stream]"
    | (expired) status where "r = Some (status, Skipped)" "s' = snd (close_subgroup k s)"
        "\<forall>e \<in> set es. \<exists>i. e = Reset_Stream i kSessionDeliveryTimeoutErrorCode"
    | (opened) i h encoded present p where "r = None" "es = [Open_Stream]" "map_of (ss_streams s) k = None"
        "an_open an = Inr i" "present = (obj_properties object \<noteq> [])"
        "encode_subgroup_object draft None (obj_object_id object) payload (obj_properties object) present = Inr encoded"
        "encode_subgroup_header draft alias (fst k) (snd k) cgl present (obj_object_id object = 0) = Inr h"
        "po_object_id p = obj_object_id object" "po_wire_bytes p = h @ encoded" "po_fin p = is_final"
        "s' = with_pending k p (with_stream k \<lparr>os_stream_id = i, os_last_object_id = None,
           os_transport_priority = tp, os_properties_present = present\<rparr> s)"
    | (further) stream encoded p where "r = None" "es = []" "map_of (ss_streams s) k = Some stream"
        "obj_properties object = [] \<or> os_properties_present stream"
        "encode_subgroup_object draft (os_last_object_id stream) (obj_object_id object) payload
           (obj_properties object) (os_properties_present stream) = Inr encoded"
        "po_object_id p = obj_object_id object" "po_wire_bytes p = encoded" "po_fin p = is_final"
        "s' = with_pending k p (s\<lparr>ss_streams := omap_put k (stream\<lparr>os_transport_priority := tp\<rparr>) (ss_streams s)\<rparr>)"
proof -
  note eq = assms(2) [unfolded prepare_object_def Let_def, folded k_def]
  define ds where "ds = object_deadlines is_final timeouts prepared (an_first_available_at an)"
  define present where "present = (case map_of (ss_streams s) k of None \<Rightarrow> obj_properties object \<noteq> []
      | Some stream \<Rightarrow> os_properties_present stream)"
  note eq = eq [folded ds_def present_def]
  consider (deadline) "deadline_reached (an_now_prepared an) (fst ds) (snd ds)"
    | (properties) "\<not> deadline_reached (an_now_prepared an) (fst ds) (snd ds)" "\<not> present \<and> obj_properties object \<noteq> []"
    | (encode) "\<not> deadline_reached (an_now_prepared an) (fst ds) (snd ds)" "\<not> (\<not> present \<and> obj_properties object \<noteq> [])"
    by blast
  then show thesis
  proof cases
    case deadline
    then show thesis
      using eq close_absent [OF _ assms(3)]
      by (cases "map_of (ss_streams s) k"; cases "close_subgroup k s"; cases "record_permanent_completion k s")
        (auto simp: expire_open_subgroup_def intro!: expired split: if_splits)
  next
    case properties
    then show thesis using eq by (intro refused) auto
  next
    case encode
    show thesis
    proof (cases "encode_pending_object draft alias object cgl payload present (map_of (ss_streams s) k)")
      case (Inl e)
      then show thesis using eq encode by (intro refused) auto
    next
      case (Inr he)
      obtain h encoded where he: "he = (h, encoded)" by (cases he)
      have enc: "encode_subgroup_object draft (case map_of (ss_streams s) k of None \<Rightarrow> None
            | Some stream \<Rightarrow> os_last_object_id stream)
          (obj_object_id object) payload (obj_properties object) present = Inr encoded"
        using Inr by (auto simp: encode_pending_object_def he split: if_splits)
      have suffix: "\<not> (payload \<noteq> [] \<and> (length encoded < length payload \<or>
          drop (length encoded - length payload) encoded \<noteq> payload))"
        using encode_subgroup_object_suffix [OF enc] by auto
      note eq = eq [unfolded if_not_P [OF encode(1)] if_not_P [OF encode(2)] Inr he sum.case prod.case if_not_P [OF suffix]]
      show thesis
      proof (cases "map_of (ss_streams s) k")
        case None
        then have h: "encode_subgroup_header draft alias (fst k) (snd k) cgl present (obj_object_id object = 0) = Inr h"
          using Inr by (auto simp: encode_pending_object_def he k_def)
        show thesis
        proof (cases "an_open an")
          case (Inl m)
          then show thesis using eq None by (intro refused) (auto simp: claim_stream_def)
        next
          case (Inr i)
          define p where "p = \<lparr>po_object_id = obj_object_id object, po_wire_bytes = h @ encoded, po_fin = is_final,
            po_options = \<lparr>ow_transport_priority = tp, ow_object_deadline = fst ds, ow_subgroup_deadline = snd ds\<rparr>\<rparr>"
          have present: "present = (obj_properties object \<noteq> [])" by (simp add: present_def None)
          have "(es, r, s') = ([Open_Stream], None, with_pending k p (with_stream k \<lparr>os_stream_id = i,
              os_last_object_id = None, os_transport_priority = tp, os_properties_present = present\<rparr> s))"
            by (simp add: eq [symmetric] None Inr claim_stream_def Let_def with_stream_def with_pending_def p_def)
          then show thesis
            using enc None h Inr present by (intro opened [of i present encoded h p]) (simp_all add: p_def)
        qed
      next
        case (Some stream)
        then have h: "h = []" using Inr by (auto simp: encode_pending_object_def he)
        define p where "p = \<lparr>po_object_id = obj_object_id object, po_wire_bytes = encoded, po_fin = is_final,
          po_options = \<lparr>ow_transport_priority = tp, ow_object_deadline = fst ds, ow_subgroup_deadline = snd ds\<rparr>\<rparr>"
        have present: "present = os_properties_present stream" by (simp add: present_def Some)
        have "(es, r, s') = ([], None, with_pending k p
            (s\<lparr>ss_streams := omap_put k (stream\<lparr>os_transport_priority := tp\<rparr>) (ss_streams s)\<rparr>))"
          by (simp add: eq [symmetric] Some h claim_stream_def Let_def with_pending_def p_def)
        then show thesis
          using enc Some encode(2) present by (intro further [of stream encoded p]) (auto simp: p_def)
      qed
    qed
  qed
qed


lemma prepare_object_ok:
  assumes "sender_ok s" and "\<not> is_closed s (obj_group_id object, obj_subgroup_id object)"
    and "map_of (ss_pending_objects s) (obj_group_id object, obj_subgroup_id object) = None"
    and "\<And>i. an_open an = Inr i \<Longrightarrow> map_of (ss_stream_keys s) i = None"
    and "prepare_object draft alias object cgl is_final payload timeouts tp prepared an s = (es, r, s')"
  shows "sender_ok s'"
  using assms(5,3)
proof (cases rule: prepare_object_cases)
  case (opened i h encoded present p)
  let ?k = "(obj_group_id object, obj_subgroup_id object)"
  let ?st = "\<lparr>os_stream_id = i, os_last_object_id = None, os_transport_priority = tp, os_properties_present = present\<rparr>"
  have "sender_ok (with_stream ?k ?st s)"
    unfolding with_stream_def
    by (rule new_stream_ok) (use assms(1,2) assms(4) [OF opened(4)] opened(3) in simp_all)
  then have "sender_ok (with_pending ?k p (with_stream ?k ?st s))"
    unfolding with_pending_def
    by (rule put_pending_ok) (use assms(1) in \<open>simp add: with_stream_def sender_ok_streams(1)\<close>)
  then show ?thesis by (simp add: opened(11))
next
  case (further stream encoded p)
  have "sender_ok (s\<lparr>ss_streams := omap_put (obj_group_id object, obj_subgroup_id object)
      (stream\<lparr>os_transport_priority := tp\<rparr>) (ss_streams s)\<rparr>)"
    by (rule update_stream_ok [OF assms(1) further(3)]) simp
  then show ?thesis
    unfolding further(9) with_pending_def by (rule put_pending_ok) (simp add: sender_ok_streams(1) assms(1))
qed (use assms(1) close_subgroup_ok in auto)


subsection \<open>Retiring streams\<close>

text \<open>A map of streams and a map of pending objects that lost some keys, together.\<close>

definition restricts :: "('k \<rightharpoonup> 'a) \<Rightarrow> ('k \<rightharpoonup> 'b) \<Rightarrow> ('k \<rightharpoonup> 'a) \<Rightarrow> ('k \<rightharpoonup> 'b) \<Rightarrow> bool" where
  "restricts f p f' p' \<longleftrightarrow> (\<forall>k. f' k = None \<or> f' k = f k \<and> p' k = p k)"

lemma restricts_refl: "restricts f p f p"
  by (simp add: restricts_def)

lemma restricts_trans: "restricts f p f' p' \<Longrightarrow> restricts f' p' f'' p'' \<Longrightarrow> restricts f p f'' p''"
  unfolding restricts_def by metis

lemma restricts_remove: "restricts f p (f(k := None)) (p(k := None))"
  by (simp add: restricts_def)

lemma restrictsD: "restricts f p f' p' \<Longrightarrow> f' k = Some x \<Longrightarrow> f k = Some x \<and> p' k = p k"
  by (auto simp: restricts_def dest: spec [of _ k])

definition closed_keys :: "SubgroupSender \<Rightarrow> key set" where
  "closed_keys s = {k. tracker_contains (ss_closed s) (fst k) (snd k)}"

text \<open>What retiring subgroups can do to a sender: streams go, completions come.\<close>

definition keeps :: "SubgroupSender \<Rightarrow> SubgroupSender \<Rightarrow> bool" where
  "keeps s s' \<longleftrightarrow> sender_ok s' \<and> closed_keys s \<subseteq> closed_keys s'"

definition retires :: "SubgroupSender \<Rightarrow> SubgroupSender \<Rightarrow> bool" where
  "retires s s' \<longleftrightarrow> keeps s s' \<and>
     restricts (map_of (ss_streams s)) (map_of (ss_pending_objects s))
       (map_of (ss_streams s')) (map_of (ss_pending_objects s'))"

lemma keeps_ok: "keeps s s' \<Longrightarrow> sender_ok s'"
  by (simp add: keeps_def)

lemma keeps_trans: "keeps s s' \<Longrightarrow> keeps s' s'' \<Longrightarrow> keeps s s''"
  by (auto simp: keeps_def)

lemma retires_keeps: "retires s s' \<Longrightarrow> keeps s s'"
  by (simp add: retires_def)

lemma retires_ok: "retires s s' \<Longrightarrow> sender_ok s'"
  by (simp add: retires_def keeps_def)

lemma retires_refl: "sender_ok s \<Longrightarrow> retires s s"
  by (simp add: retires_def keeps_def restricts_refl)

lemma retires_trans: "retires s s' \<Longrightarrow> retires s' s'' \<Longrightarrow> retires s s''"
  unfolding retires_def using restricts_trans keeps_trans by blast

lemma closed_keys_record:
  "sender_ok s \<Longrightarrow> closed_keys s \<subseteq> closed_keys (snd (record_permanent_completion k s))"
  "closed_keys (snd (record_peer_stopped_completion k s)) = closed_keys s"
  "sender_ok s \<Longrightarrow> fst (record_permanent_completion k s) \<Longrightarrow> k \<in> closed_keys (snd (record_permanent_completion k s))"
  using tracker_contains_insert [of "ss_closed s" "fst k" "snd k"]
  by (auto simp: closed_keys_def sender_ok_def record_permanent_completion_def split: prod.splits simp del: split_paired_All)

lemma closed_keys_same [simp]:
  "closed_keys (erase_pending k s) = closed_keys s" "closed_keys (erase_stream k s) = closed_keys s"
  by (simp_all add: closed_keys_def)

lemma map_of_erase_pending [simp]:
  "map_of (ss_pending_objects (erase_pending k s)) = (map_of (ss_pending_objects s))(k := None)"
  by (simp add: erase_pending_def)

lemma close_subgroup_retires:
  assumes "sender_ok s"
  shows "retires s (snd (close_subgroup k s))"
  using assms close_subgroup_ok [OF assms] closed_keys_record(1) [OF erase_subgroup_ok [OF assms]]
  by (simp add: retires_def keeps_def close_subgroup_def restricts_remove)

lemma retire_stream_retires:
  assumes "sender_ok s"
  shows "retires s (snd (retire_transport_stream i p e s))"
proof (cases "map_of (ss_stream_keys s) i")
  case None
  then show ?thesis using retires_refl [OF assms] by (simp add: retire_transport_stream_def)
next
  case (Some k)
  have "retires s (snd (record_peer_stopped_completion k (erase_pending k (erase_stream k s))))"
    using record_ok(2) [OF erase_subgroup_ok [OF assms], of k]
    by (simp add: retires_def keeps_def closed_keys_record(2) restricts_remove)
  then show ?thesis
    using retire_transport_stream_eq [OF assms Some] close_subgroup_retires [OF assms] by simp
qed

lemma retire_fold_retires:
  "sender_ok s \<Longrightarrow> retires s (fold (\<lambda>i s. snd (retire_transport_stream i (f i) (g i) s)) ids s)"
proof (induction ids arbitrary: s)
  case (Cons i ids)
  note r = retire_stream_retires [OF Cons.prems, of i "f i" "g i"]
  show ?case using retires_trans [OF r Cons.IH [OF retires_ok [OF r]]] by simp
qed (simp add: retires_refl)

lemma observe_retires: "sender_ok s \<Longrightarrow> retires s (snd (observe_transport_stream_state events s))"
  using retire_fold_retires by (simp add: observe_transport_stream_state_def Let_def)


subsection \<open>Delivering a pending object\<close>

text \<open>The state with the priority of this call in the stream and in its pending object.\<close>

definition with_priority :: "key \<Rightarrow> u8 \<Rightarrow> OpenStream \<Rightarrow> PendingObject \<Rightarrow> SubgroupSender \<Rightarrow> SubgroupSender" where
  "with_priority k tp stream p s =
     with_pending k (p\<lparr>po_options := (po_options p)\<lparr>ow_transport_priority := tp\<rparr>\<rparr>)
       (s\<lparr>ss_streams := omap_put k (stream\<lparr>os_transport_priority := tp\<rparr>) (ss_streams s)\<rparr>)"

lemma deliver_object_cases:
  assumes "deliver_object k tp an p s = (es, (status, disposition), s')"
    and "map_of (ss_streams s) k = Some stream"
  obtains (expired) "disposition = Skipped" "s' = snd (close_subgroup k (with_priority k tp stream p s))"
        "es = [Reset_Stream (os_stream_id stream) kSessionDeliveryTimeoutErrorCode]"
    | (blocked) options where "disposition = WouldBlock" "status = Success" "s' = with_priority k tp stream p s"
        "es = [Write_Object (os_stream_id stream) (po_wire_bytes p) (po_fin p) options WriteWouldBlock]"
    | (failed) options where "disposition = Skipped"
        "s' = snd (observe_transport_stream_state (an_events_after an) (with_priority k tp stream p s))"
        "es = Write_Object (os_stream_id stream) (po_wire_bytes p) (po_fin p) options WriteFailed #
           fst (observe_transport_stream_state (an_events_after an) (with_priority k tp stream p s))"
    | (accepted) options where
        "((status, disposition), s') = finish_accepted_object k p (with_priority k tp stream p s)"
        "es = [Write_Object (os_stream_id stream) (po_wire_bytes p) (po_fin p) options WriteAccepted]"
proof -
  let ?options = "(po_options p)\<lparr>ow_transport_priority := tp\<rparr>" and ?s = "with_priority k tp stream p s"
  have s: "s\<lparr>ss_streams := omap_put k (stream\<lparr>os_transport_priority := tp\<rparr>) (ss_streams s),
      ss_pending_objects := omap_put k (p\<lparr>po_options := ?options\<rparr>) (ss_pending_objects s)\<rparr> = ?s"
    by (simp add: with_priority_def with_pending_def)
  have f: "finish_accepted_object k (p\<lparr>po_options := ?options\<rparr>) t = finish_accepted_object k p t" for t
    by (simp add: finish_accepted_object_def Let_def split: option.split)
  note eq = assms(1) [unfolded deliver_object_def assms(2) option.case Let_def s f]
  show thesis
  proof (cases "deadline_reached (an_now_written an) (ow_object_deadline ?options) (ow_subgroup_deadline ?options)")
    case True
    then show thesis using eq
      by (cases "close_subgroup k ?s") (intro expired, auto simp: expire_open_subgroup_def)
  next
    case False
    note eq = eq [unfolded if_not_P [OF False]]
    obtain d m where w: "an_write an = (d, m)" by (cases "an_write an")
    show thesis
    proof (cases d)
      case WriteAccepted
      then show thesis using eq by (cases "finish_accepted_object k p ?s") (intro accepted, auto simp: w)
    next
      case WriteWouldBlock
      then show thesis using eq by (intro blocked) (auto simp: w)
    next
      case WriteFailed
      then show thesis using eq
        by (cases "observe_transport_stream_state (an_events_after an) ?s") (intro failed, auto simp: w)
    qed
  qed
qed

lemma closed_keys_with [simp]:
  "closed_keys (with_pending k p s) = closed_keys s" "closed_keys (with_stream k stream s) = closed_keys s"
  "closed_keys (s\<lparr>ss_streams := m\<rparr>) = closed_keys s"
  "closed_keys (s\<lparr>ss_pending_objects := m'\<rparr>) = closed_keys s" "closed_keys (with_priority k tp stream p s) = closed_keys s"
  by (simp_all add: closed_keys_def with_pending_def with_stream_def with_priority_def)

lemma with_priority_keeps:
  assumes "sender_ok s" and "map_of (ss_streams s) k = Some stream"
  shows "keeps s (with_priority k tp stream p s)"
  using put_pending_ok [OF update_stream_ok [OF assms, of "stream\<lparr>os_transport_priority := tp\<rparr>"], of k]
  by (simp add: keeps_def with_priority_def with_pending_def sender_ok_streams(1) assms(1))

lemma finish_accepted_keeps:
  assumes "sender_ok s"
  shows "keeps s (snd (finish_accepted_object k object s))"
proof (cases "po_fin object")
  case True
  have "keeps (erase_pending k s) (snd (close_subgroup k (erase_pending k s)))"
    by (intro retires_keeps close_subgroup_retires erase_pending_ok assms)
  then show ?thesis
    by (cases "close_subgroup k (erase_pending k s)")
      (simp add: True finish_accepted_object_def Let_def keeps_def)
next
  case False
  then show ?thesis
    using finish_accepted_ok [OF assms, of k object]
    by (simp add: finish_accepted_object_def Let_def keeps_def split: option.splits)
qed

lemma deliver_object_keeps:
  assumes "sender_ok s" and "map_of (ss_streams s) k = Some stream"
    and "deliver_object k tp an p s = (es, (status, disposition), s')"
  shows "keeps s s'"
proof -
  note w = with_priority_keeps [OF assms(1,2), of tp p]
  note ok = keeps_ok [OF w]
  from assms(3,2) show ?thesis
  proof (cases rule: deliver_object_cases)
    case expired
    then show ?thesis using keeps_trans [OF w retires_keeps [OF close_subgroup_retires [OF ok]]] by simp
  next
    case (failed options)
    then show ?thesis using keeps_trans [OF w retires_keeps [OF observe_retires [OF ok]]] by simp
  next
    case (accepted options)
    then show ?thesis using keeps_trans [OF w finish_accepted_keeps [OF ok]] by (metis snd_conv)
  qed (simp add: w)
qed

lemma prepare_object_keeps:
  assumes "sender_ok s" and "\<not> is_closed s (obj_group_id object, obj_subgroup_id object)"
    and "map_of (ss_pending_objects s) (obj_group_id object, obj_subgroup_id object) = None"
    and "\<And>i. an_open an = Inr i \<Longrightarrow> map_of (ss_stream_keys s) i = None"
    and "prepare_object draft alias object cgl is_final payload timeouts tp prepared an s = (es, r, s')"
  shows "keeps s s'"
  using assms(5,3)
proof (cases rule: prepare_object_cases)
  case (expired status)
  then show ?thesis using retires_keeps [OF close_subgroup_retires [OF assms(1)]] by simp
qed (use prepare_object_ok [OF assms] in \<open>simp_all add: keeps_def\<close>)

subsection \<open>A call of try_serve\<close>

text \<open>The call ends early, or it delivers the pending object of a subgroup that is not closed.\<close>

lemma retire_stream_keys:
  "sender_ok s \<Longrightarrow> map_of (ss_stream_keys s) j = None \<Longrightarrow>
   map_of (ss_stream_keys (snd (retire_transport_stream i p e s))) j = None"
  by (auto simp: retire_transport_stream_def Let_def erase_pending_def split: option.splits)

lemma observe_stream_keys:
  assumes "sender_ok s" and "map_of (ss_stream_keys s) j = None"
  shows "map_of (ss_stream_keys (snd (observe_transport_stream_state events s))) j = None"
proof -
  have "map_of (ss_stream_keys (fold (\<lambda>i s. snd (retire_transport_stream i (f i) (g i) s)) ids s)) j = None" for f g ids
    using assms
  proof (induction ids arbitrary: s)
    case (Cons i ids)
    then show ?case using retire_ok retire_stream_keys by simp
  qed simp
  then show ?thesis by (simp add: observe_transport_stream_state_def Let_def)
qed

lemma observe_no_write: "Write_Object i bs fin options d \<notin> set (fst (observe_transport_stream_state events s))"
  by (auto simp: observe_transport_stream_state_def Let_def split: if_splits)

lemma prepare_no_write:
  assumes "prepare_object draft alias object cgl is_final payload timeouts tp prepared an s = (es, r, s')"
    and "map_of (ss_pending_objects s) (obj_group_id object, obj_subgroup_id object) = None"
  shows "Write_Object i bs fin options d \<notin> set es"
  using assms by (cases rule: prepare_object_cases) auto

text \<open>What \<open>prepare_object\<close> leaves behind: a retired subgroup, or a pending object on its stream.\<close>

lemma prepare_object_outcome:
  assumes "prepare_object draft alias object cgl is_final payload timeouts tp prepared an s = (es, r, s')"
    and "map_of (ss_pending_objects s) (obj_group_id object, obj_subgroup_id object) = None" and "sender_ok s"
  shows "case r of
      Some result \<Rightarrow> snd result = Skipped \<and> retires s s'
    | None \<Rightarrow> \<exists>p stream. map_of (ss_pending_objects s') (obj_group_id object, obj_subgroup_id object) = Some p \<and>
        po_object_id p = obj_object_id object \<and>
        map_of (ss_streams s') (obj_group_id object, obj_subgroup_id object) = Some stream"
  using assms(1,2)
proof (cases rule: prepare_object_cases)
  case (refused m)
  then show ?thesis using retires_refl [OF assms(3)] by simp
next
  case (expired status)
  then show ?thesis using close_subgroup_retires [OF assms(3)] by simp
next
  case (opened i h encoded present p)
  then show ?thesis using assms(3) by (simp add: with_pending_def with_stream_def sender_ok_streams(1,3))
next
  case (further stream encoded p)
  then show ?thesis using assms(3) by (simp add: with_pending_def sender_ok_streams(1,3))
qed

lemma try_serve_cases:
  fixes object
  defines "k \<equiv> (obj_group_id object, obj_subgroup_id object)"
  assumes "try_serve draft alias object cgl is_final payload timeouts priority prepared an s = (es, (status, disposition), s')"
    and "sender_ok s"
    and "\<And>i. an_open an = Inr i \<Longrightarrow> map_of (ss_stream_keys s) i = None"
  obtains (ended) "disposition = Skipped" "retires s s'"
        "\<forall>i bs fin options d. Write_Object i bs fin options d \<notin> set es"
    | (delivered) s1 s2 obs es1 es2 tp p stream where
        "(obs, s1) = observe_transport_stream_state (an_events an) s" "\<not> is_closed s1 k"
        "es = obs @ es1 @ es2" "\<forall>i bs fin options d. Write_Object i bs fin options d \<notin> set (obs @ es1)"
        "es1 = [] \<and> s2 = s1 \<or> map_of (ss_pending_objects s1) k = None \<and> prepare_object draft alias object cgl is_final payload
           (timeouts_for_draft draft timeouts) tp prepared an s1 = (es1, None, s2)"
        "map_of (ss_pending_objects s2) k = Some p" "po_object_id p = obj_object_id object" "sender_ok s2"
        "map_of (ss_streams s2) k = Some stream"
        "deliver_object k tp an p s2 = (es2, (status, disposition), s')"
proof -
  obtain obs s1 where obs: "observe_transport_stream_state (an_events an) s = (obs, s1)"
    by (cases "observe_transport_stream_state (an_events an) s")
  have r1: "retires s s1" using observe_retires [OF assms(3), of "an_events an"] by (simp add: obs)
  have no_write: "Write_Object i bs fin options d \<notin> set obs" for i bs fin options d
    using observe_no_write [of i bs fin options d "an_events an" s] by (simp add: obs)
  define tp where "tp = (if uses_priority_scheduler draft
      then object_transport_priority (fst priority) (snd priority) else 255)"
  note eq = assms(2) [unfolded try_serve_def Let_def obs prod.case, folded k_def tp_def]
  show thesis
  proof (cases "completion_history_status s1 = Success \<and> \<not> is_closed s1 k")
    case False
    then show thesis using eq r1 no_write by (intro ended) (auto split: if_splits)
  next
    case True
    have h: "(completion_history_status s1 \<noteq> Success) = False" and c: "is_closed s1 k = False"
      using True by auto
    note eq = eq [unfolded h c if_False]
    show thesis
    proof (cases "map_of (ss_pending_objects s1) k")
      case (Some p)
      obtain stream where stream: "map_of (ss_streams s1) k = Some stream"
        using sender_ok_streams(5) [OF retires_ok [OF r1] Some] by blast
      show thesis
      proof (cases "po_object_id p = obj_object_id object")
        case same: True
        show thesis
          using eq Some same no_write True retires_ok [OF r1] stream
          by (cases "deliver_object k tp an p s1") (intro delivered [of obs s1 "[]"], auto simp: obs)
      qed (use eq Some r1 no_write in \<open>auto intro: ended\<close>)
    next
      case None
      obtain es1 r s2 where p: "prepare_object draft alias object cgl is_final payload
          (timeouts_for_draft draft timeouts) tp prepared an s1 = (es1, r, s2)"
        by (cases "prepare_object draft alias object cgl is_final payload
          (timeouts_for_draft draft timeouts) tp prepared an s1")
      note outcome = prepare_object_outcome [OF p None [unfolded k_def] retires_ok [OF r1], folded k_def]
      note written = prepare_no_write [OF p None [unfolded k_def]]
      show thesis
      proof (cases r)
        case (Some result)
        then show thesis
          using eq p None outcome retires_trans [OF r1] no_write written
          by (cases result) (intro ended, auto)
      next
        case r: None
        obtain q stream where q: "map_of (ss_pending_objects s2) k = Some q" "po_object_id q = obj_object_id object"
            "map_of (ss_streams s2) k = Some stream"
          using outcome by (auto simp: r)
        have keys: "map_of (ss_stream_keys s1) i = None" if "an_open an = Inr i" for i
          using observe_stream_keys [of s i "an_events an"] assms(3,4) that by (simp add: obs)
        have ok: "sender_ok s2"
          using prepare_object_ok [OF retires_ok [OF r1] _ _ keys p] True None by (simp add: k_def)
        show thesis
          using eq p None r q no_write written True ok
          by (cases "deliver_object k tp an q s2") (intro delivered [of obs s1 es1 _ s2 tp q stream], auto simp: obs)
      qed
    qed
  qed
qed

subsection \<open>The operations beside serving\<close>

lemma retires_clear_peer_stopped:
  assumes "sender_ok s"
  shows "retires s (s\<lparr>ss_peer_stopped := new_tracker\<rparr>)"
proof -
  have "is_closed (s\<lparr>ss_peer_stopped := new_tracker\<rparr>) k \<Longrightarrow> is_closed s k" for k
    by (auto simp: is_closed_def new_tracker_def tracker_contains_def)
  then show ?thesis
    using assms tracker_ok_new
    by (auto simp: retires_def keeps_def restricts_refl sender_ok_def closed_keys_def simp del: split_paired_All)
qed

lemma renew_retires: "sender_ok s \<Longrightarrow> retires s (snd (renew_peer_stopped_subgroups events s))"
  using observe_retires [of s events] retires_trans [OF _ retires_clear_peer_stopped] retires_ok
  by (auto simp: renew_peer_stopped_subgroups_def split: prod.splits)

lemma cancel_streams_retires: "sender_ok s \<Longrightarrow> retires s (snd (snd (cancel_streams code reset rest status s)))"
proof (induction code reset rest status s rule: cancel_streams.induct)
  case (1 code reset status s)
  then show ?case by (simp add: retires_refl)
next
  case (2 code reset k stream rest status s)
  obtain recorded s1 where c: "close_subgroup k s = (recorded, s1)" by (cases "close_subgroup k s")
  have r: "retires s s1" using close_subgroup_retires [OF "2.prems", of k] by (simp add: c)
  show ?case
    using "2.IH" [OF c [symmetric] refl refl refl] retires_ok [OF r] retires_trans [OF r]
    by (auto simp: c Let_def split: prod.splits)
qed

lemma cancel_all_retires: "sender_ok s \<Longrightarrow> retires s (snd (snd (cancel_all_open_subgroups code events reset s)))"
proof -
  assume "sender_ok s"
  then have r: "retires s (snd (observe_transport_stream_state events s))" by (rule observe_retires)
  obtain obs s1 where o: "observe_transport_stream_state events s = (obs, s1)"
    by (cases "observe_transport_stream_state events s")
  from retires_trans [OF r cancel_streams_retires [OF retires_ok [OF r]], of code reset "ss_streams s1" Success]
  show ?thesis
    by (cases "cancel_streams code reset (ss_streams s1) Success s1") (simp add: cancel_all_open_subgroups_def o)
qed

lemma refresh_keeps: "sender_ok s \<Longrightarrow> keeps s (refresh_unadmitted_deadlines g sg i od sd s)"
  using put_pending_ok [of s "(g, sg)"] sender_ok_streams(5) [of s "(g, sg)"]
  by (fastforce simp: refresh_unadmitted_deadlines_def Let_def keeps_def split: option.splits)

text \<open>Discarding removes the pending object, and the stream unless it carries an object already.\<close>

lemma discard_eq:
  assumes "sender_ok s" and "map_of (ss_pending_objects s) (g, sg) = Some p" and "po_object_id p = i"
    and "map_of (ss_streams s) (g, sg) = Some stream"
  shows "discard_unadmitted g sg i s =
    (if os_last_object_id stream \<noteq> None then erase_pending (g, sg) s
     else (erase_pending (g, sg) (erase_stream (g, sg) s))\<lparr>ss_stream_count :=
       (if ss_stream_count s \<noteq> 0 then ss_stream_count s - 1 else ss_stream_count s)\<rparr>)"
  using assms by (simp add: discard_unadmitted_def Let_def erase_pending_def erase_stream_def)

lemma sender_ok_count [simp]: "sender_ok (s\<lparr>ss_stream_count := n\<rparr>) = sender_ok s"
  by (simp add: sender_ok_def is_closed_def)

lemma closed_keys_count [simp]: "closed_keys (s\<lparr>ss_stream_count := n\<rparr>) = closed_keys s"
  by (simp add: closed_keys_def)

lemma discard_absent:
  "map_of (ss_pending_objects s) (g, sg) = None \<or> (\<exists>p. map_of (ss_pending_objects s) (g, sg) = Some p \<and> po_object_id p \<noteq> i) \<Longrightarrow>
   discard_unadmitted g sg i s = s"
  by (auto simp: discard_unadmitted_def Let_def)

lemma discard_cases:
  assumes "sender_ok s"
  obtains (absent) "discard_unadmitted g sg i s = s"
    | (started) stream where "discard_unadmitted g sg i s = erase_pending (g, sg) s"
        "map_of (ss_streams s) (g, sg) = Some stream" "os_last_object_id stream \<noteq> None"
    | (fresh) n where "discard_unadmitted g sg i s = (erase_pending (g, sg) (erase_stream (g, sg) s))\<lparr>ss_stream_count := n\<rparr>"
proof (cases "map_of (ss_pending_objects s) (g, sg)")
  case (Some p)
  obtain stream where stream: "map_of (ss_streams s) (g, sg) = Some stream"
    using sender_ok_streams(5) [OF assms Some] by blast
  show thesis
  proof (cases "po_object_id p = i")
    case True
    show thesis
      using discard_eq [OF assms Some True stream] stream started fresh by (auto split: if_splits)
  qed (use absent discard_absent Some in blast)
qed (use absent discard_absent in blast)

lemma discard_keeps:
  assumes "sender_ok s"
  shows "keeps s (discard_unadmitted g sg i s)"
  using assms
proof (cases rule: discard_cases [of s g sg i])
  case absent
  then show ?thesis using assms by (simp add: keeps_def)
next
  case (started stream)
  then show ?thesis using assms by (simp add: keeps_def erase_pending_ok)
next
  case (fresh n)
  then show ?thesis using assms by (simp add: keeps_def erase_subgroup_ok)
qed

subsection \<open>Finishing a group\<close>

text \<open>The callback of \<open>finish_group\<close> checks for stopped and expired streams, so it can retire subgroups.\<close>

definition callback_retires :: "attempt \<Rightarrow> bool" where
  "callback_retires a \<longleftrightarrow> (\<forall>f s. at_resource_status a = Some f \<longrightarrow> sender_ok s \<longrightarrow> retires s (snd (f s)))"

lemma finish_stream_retires:
  "sender_ok s \<Longrightarrow> \<forall>a \<in> set attempts. callback_retires a \<Longrightarrow>
   retires s (snd (snd (finish_stream k stream deadline attempts s)))"
proof (induction attempts arbitrary: s)
  case Nil
  then show ?case by (simp add: retires_refl)
next
  case (Cons a attempts)
  obtain status s1 where c: "(case at_resource_status a of None \<Rightarrow> (Success, s) | Some f \<Rightarrow> f s) = (status, s1)"
    by fastforce
  have r: "retires s s1"
  proof (cases "at_resource_status a")
    case None
    then show ?thesis using c retires_refl [OF Cons.prems(1)] by simp
  next
    case (Some f)
    then have "retires s (snd (f s))" using Cons.prems by (simp add: callback_retires_def)
    then show ?thesis using c Some by simp
  qed
  note ok = retires_ok [OF r]
  have close: "retires s (snd (close_subgroup k s1))" using retires_trans [OF r close_subgroup_retires [OF ok]] .
  have observe: "retires s (snd (observe_transport_stream_state e s1))" for e
    using retires_trans [OF r observe_retires [OF ok]] .
  have again: "retires s (snd (snd (finish_stream k stream deadline attempts s1)))"
    using retires_trans [OF r Cons.IH [OF ok]] Cons.prems(2) by simp
  show ?case
    using r close observe [of "at_events_after a"] again
    by (cases "at_write a"; cases "fst (at_write a)"; cases "close_subgroup k s1";
        cases "observe_transport_stream_state (at_events_after a) s1";
        cases "finish_stream k stream deadline attempts s1")
      (auto simp: c Let_def)
qed

lemma finish_streams_keeps:
  "sender_ok s \<Longrightarrow> \<forall>(_, attempts) \<in> set rest. \<forall>a \<in> set attempts. callback_retires a \<Longrightarrow>
   keeps s (snd (snd (finish_streams deadline rest s)))"
proof (induction deadline rest s rule: finish_streams.induct)
  case (1 deadline s)
  then show ?case by (simp add: keeps_def)
next
  case (2 deadline k stream attempts rest s)
  show ?case
  proof (cases "is_closed s k")
    case True
    then show ?thesis using "2.IH"(1) "2.prems" by simp
  next
    case False
    obtain es outcome s1 where f: "finish_stream k stream deadline attempts (erase_pending k s) = (es, outcome, s1)"
      by (cases "finish_stream k stream deadline attempts (erase_pending k s)")
    have "keeps s (erase_pending k s)" using "2.prems"(1) by (simp add: keeps_def erase_pending_ok)
    moreover have "keeps (erase_pending k s) s1"
      using retires_keeps [OF finish_stream_retires [OF erase_pending_ok [OF "2.prems"(1)], of attempts k k stream deadline]]
        "2.prems"(2) f by simp
    ultimately have k1: "keeps s s1" by (rule keeps_trans)
    obtain recorded s2 where c: "close_subgroup k s1 = (recorded, s2)" by (cases "close_subgroup k s1")
    have k2: "keeps s s2"
      using keeps_trans [OF k1 retires_keeps [OF close_subgroup_retires [OF keeps_ok [OF k1], of k]]] by (simp add: c)
    show ?thesis
    proof (cases "outcome = Some Finished \<and> recorded")
      case True
      have "keeps s2 (snd (snd (finish_streams deadline rest s2)))"
        using "2.IH"(2) [OF False f [symmetric] refl _ _ c [symmetric]] True keeps_ok [OF k2] "2.prems"(2) by simp
      then show ?thesis
        using True False keeps_trans [OF k2] by (cases "finish_streams deadline rest s2") (simp add: f c)
    next
      case not: False
      then show ?thesis
        using False k1 k2 by (simp add: f c split: prod.splits option.splits finish_outcome.splits)
    qed
  qed
qed

lemma sender_ok_cleared: "sender_ok s \<Longrightarrow> sender_ok (s\<lparr>ss_streams := [], ss_stream_keys := [], ss_pending_objects := []\<rparr>)"
  by (simp add: sender_ok_def maps_ok_def linked_def is_closed_def)

lemma finish_group_keeps:
  assumes "sender_ok s" and "\<And>k. \<forall>a \<in> set (attempts k). callback_retires a"
  shows "keeps s (snd (snd (finish_group draft timeouts now events attempts s)))"
proof -
  obtain obs s1 where o: "observe_transport_stream_state events s = (obs, s1)"
    by (cases "observe_transport_stream_state events s")
  have k1: "keeps s s1" using retires_keeps [OF observe_retires [OF assms(1), of events]] by (simp add: o)
  obtain es outcome s2 where f: "finish_streams (deadline_after now (subgroup_ms (timeouts_for_draft draft timeouts)))
      (map (\<lambda>(k, stream). ((k, stream), attempts k)) (ss_streams s1)) s1 = (es, outcome, s2)"
    by (cases "finish_streams (deadline_after now (subgroup_ms (timeouts_for_draft draft timeouts)))
      (map (\<lambda>(k, stream). ((k, stream), attempts k)) (ss_streams s1)) s1")
  have "keeps s1 s2"
    using finish_streams_keeps [OF keeps_ok [OF k1], of "map (\<lambda>(k, stream). ((k, stream), attempts k)) (ss_streams s1)"
      "deadline_after now (subgroup_ms (timeouts_for_draft draft timeouts))"] assms(2) f by (simp add: case_prod_unfold)
  then have k2: "keeps s s2" using k1 keeps_trans by blast
  then have "keeps s (s2\<lparr>ss_streams := [], ss_stream_keys := [], ss_pending_objects := []\<rparr>)"
    using sender_ok_cleared by (simp add: keeps_def closed_keys_def)
  with k1 k2 show ?thesis
    by (simp add: finish_group_def o f Let_def split: prod.splits option.splits finish_outcome.splits)
qed

end
