(* ===== verification/Subgroup_Sender_Run.thy ===== *)
theory Subgroup_Sender_Run
  imports Subgroup_Sender_Invariant
begin

text \<open>
  Runs of a subgroup sender: a step relation over its operations, and what holds along a run. Each data
  stream carries a subgroup header and then objects with increasing ids, and a completed subgroup stays
  silent.
\<close>


subsection \<open>What a stream carries\<close>

text \<open>The bytes that the transport accepted on a stream, in order.\<close>

fun written :: "u64 \<Rightarrow> effect list \<Rightarrow> bytes" where
  "written i [] = []"
| "written i (e # es) =
     (case e of Write_Object j bs _ _ WriteAccepted \<Rightarrow> if j = i then bs else [] | _ \<Rightarrow> []) @ written i es"

lemma written_append [simp]: "written i (es @ es') = written i es @ written i es'"
  by (induction es) simp_all

lemma written_none: "\<forall>j bs fin options d. Write_Object j bs fin options d \<notin> set es \<Longrightarrow> written i es = []"
proof (induction es)
  case (Cons e es)
  then show ?case by (cases e) (simp_all, metis)
qed simp

text \<open>The header of the subgroup and its objects, at least one.\<close>

definition carries ::
    "DraftVersion \<Rightarrow> u64 \<Rightarrow> key \<Rightarrow> bool \<Rightarrow> (u64 \<times> bytes \<times> ObjectProperty list) list \<Rightarrow> bytes \<Rightarrow> bool" where
  "carries draft alias k present objects bs \<longleftrightarrow>
     objects \<noteq> [] \<and> (\<forall>(_, _, properties) \<in> set objects. properties = [] \<or> present) \<and>
     (\<exists>contains_group_largest header body.
        encode_subgroup_header draft alias (fst k) (snd k) contains_group_largest present (fst (hd objects) = 0) = Inr header \<and>
        encode_objects draft present None objects = Inr body \<and> bs = header @ body)"

lemma encode_objects_snoc:
  "encode_objects draft present previous objects = Inr body \<Longrightarrow>
   encode_subgroup_object draft (if objects = [] then previous else Some (fst (last objects))) i payload ps present = Inr e \<Longrightarrow>
   encode_objects draft present previous (objects @ [(i, payload, ps)]) = Inr (body @ e)"
proof (induction objects arbitrary: previous body)
  case (Cons object objects)
  obtain j pl qs where object: "object = (j, pl, qs)" by (cases object)
  obtain b bs where b: "encode_subgroup_object draft previous j pl qs present = Inr b"
      "encode_objects draft present (Some j) objects = Inr bs" "body = b @ bs"
    using Cons.prems(1) by (auto simp: object)
  have "encode_objects draft present (Some j) (objects @ [(i, payload, ps)]) = Inr (bs @ e)"
    using Cons.prems(2) by (intro Cons.IH [OF b(2)]) (auto simp: object split: if_splits)
  then show ?case using b by (simp add: object)
qed simp

lemma carries_snoc:
  assumes "carries draft alias k present objects bs" and "ps = [] \<or> present"
    and "encode_subgroup_object draft (Some (fst (last objects))) i payload ps present = Inr e"
  shows "carries draft alias k present (objects @ [(i, payload, ps)]) (bs @ e)"
proof -
  obtain cgl header body where c: "objects \<noteq> []"
      "encode_subgroup_header draft alias (fst k) (snd k) cgl present (fst (hd objects) = 0) = Inr header"
      "encode_objects draft present None objects = Inr body" "bs = header @ body"
    using assms(1) by (auto simp: carries_def)
  have "encode_objects draft present None (objects @ [(i, payload, ps)]) = Inr (body @ e)"
    using encode_objects_snoc [OF c(3)] assms(3) c(1) by simp
  then show ?thesis using assms(1,2) c by (auto simp: carries_def)
qed

lemma carries_first:
  assumes "encode_subgroup_header draft alias (fst k) (snd k) cgl present (i = 0) = Inr header"
    and "encode_subgroup_object draft None i payload ps present = Inr e" and "ps = [] \<or> present"
  shows "carries draft alias k present [(i, payload, ps)] (header @ e)"
  using assms by (auto simp: carries_def)

subsection \<open>The invariant of a run\<close>

text \<open>
  An open stream carries the objects up to its last one, or nothing and has its first object pending; the
  bytes of a pending object continue what the stream carries.
\<close>

definition stream_ok ::
    "DraftVersion \<Rightarrow> u64 \<Rightarrow> effect list \<Rightarrow> key \<Rightarrow> OpenStream \<Rightarrow> PendingObject option \<Rightarrow> bool" where
  "stream_ok draft alias log k stream pend \<longleftrightarrow>
     (case os_last_object_id stream of
        None \<Rightarrow> written (os_stream_id stream) log = [] \<and> pend \<noteq> None
      | Some l \<Rightarrow> \<exists>objects. carries draft alias k (os_properties_present stream) objects (written (os_stream_id stream) log) \<and>
          fst (last objects) = l) \<and>
     (\<forall>p. pend = Some p \<longrightarrow> (\<exists>payload properties encoded.
        (properties = [] \<or> os_properties_present stream) \<and>
        encode_subgroup_object draft (os_last_object_id stream) (po_object_id p) payload properties
          (os_properties_present stream) = Inr encoded \<and>
        (case os_last_object_id stream of
           None \<Rightarrow> \<exists>header contains_group_largest. encode_subgroup_header draft alias (fst k) (snd k) contains_group_largest
             (os_properties_present stream) (po_object_id p = 0) = Inr header \<and> po_wire_bytes p = header @ encoded
         | Some _ \<Rightarrow> po_wire_bytes p = encoded)))"

definition streams_ok ::
    "DraftVersion \<Rightarrow> u64 \<Rightarrow> effect list \<Rightarrow> u64 set \<Rightarrow> SubgroupSender \<Rightarrow> bool" where
  "streams_ok draft alias log used s \<longleftrightarrow> sender_ok s \<and>
     (\<forall>k stream. map_of (ss_streams s) k = Some stream \<longrightarrow>
        os_stream_id stream \<in> used \<and> stream_ok draft alias log k stream (map_of (ss_pending_objects s) k)) \<and>
     (\<forall>i. i \<notin> used \<longrightarrow> written i log = []) \<and>
     (\<forall>i. written i log = [] \<or> (\<exists>k present objects. carries draft alias k present objects (written i log)))"

text \<open>When the transport accepts a pending object, its stream carries one object more.\<close>

lemma accepted_object_carried:
  assumes "stream_ok draft alias log k stream (Some p)"
  shows "\<exists>objects. carries draft alias k (os_properties_present stream) objects
      (written (os_stream_id stream) log @ po_wire_bytes p) \<and> fst (last objects) = po_object_id p"
proof (cases "os_last_object_id stream")
  case None
  obtain payload ps encoded header cgl where e: "ps = [] \<or> os_properties_present stream"
      "encode_subgroup_object draft None (po_object_id p) payload ps (os_properties_present stream) = Inr encoded"
      "encode_subgroup_header draft alias (fst k) (snd k) cgl (os_properties_present stream) (po_object_id p = 0) = Inr header"
      "po_wire_bytes p = header @ encoded" "written (os_stream_id stream) log = []"
    using assms [unfolded stream_ok_def None, simplified] by blast
  show ?thesis using carries_first [OF e(3,2,1)] e(4,5) by (intro exI [of _ "[(po_object_id p, payload, ps)]"]) simp
next
  case (Some l)
  obtain payload ps objects where e: "ps = [] \<or> os_properties_present stream"
      "encode_subgroup_object draft (Some l) (po_object_id p) payload ps (os_properties_present stream) = Inr (po_wire_bytes p)"
      "carries draft alias k (os_properties_present stream) objects (written (os_stream_id stream) log)" "fst (last objects) = l"
    using assms [unfolded stream_ok_def Some, simplified] by blast
  show ?thesis
    using carries_snoc [OF e(3,1), of "po_object_id p" payload] e(2,4)
    by (intro exI [of _ "objects @ [(po_object_id p, payload, ps)]"]) simp
qed

lemma streams_ok_new: "streams_ok draft alias [] {} new_sender"
  using sender_ok_new by (simp add: streams_ok_def) (simp add: new_sender_def)

lemma streams_okD:
  assumes "streams_ok draft alias log used s"
  shows "sender_ok s"
    "map_of (ss_streams s) k = Some stream \<Longrightarrow> os_stream_id stream \<in> used"
    "map_of (ss_streams s) k = Some stream \<Longrightarrow> stream_ok draft alias log k stream (map_of (ss_pending_objects s) k)"
    "i \<notin> used \<Longrightarrow> written i log = []"
    "written i log = [] \<or> (\<exists>k present objects. carries draft alias k present objects (written i log))"
  using assms by (auto simp: streams_ok_def simp del: split_paired_All split_paired_Ex)

lemma stream_ok_log:
  "written (os_stream_id stream) log' = written (os_stream_id stream) log \<Longrightarrow>
   stream_ok draft alias log' k stream pend = stream_ok draft alias log k stream pend"
  by (cases "os_last_object_id stream") (simp_all add: stream_ok_def)

text \<open>Effects that write nothing, and a change that touches the stream of one subgroup.\<close>

lemma streams_ok_change:
  assumes "streams_ok draft alias log used s" and "sender_ok s'" and "\<And>i. written i es = []" and "used \<subseteq> used'"
    and "\<And>k' stream. map_of (ss_streams s') k' = Some stream \<Longrightarrow>
      map_of (ss_streams s) k' = Some stream \<and> map_of (ss_pending_objects s') k' = map_of (ss_pending_objects s) k' \<or>
      os_stream_id stream \<in> used' \<and> stream_ok draft alias log k' stream (map_of (ss_pending_objects s') k')"
  shows "streams_ok draft alias (log @ es) used' s'"
  unfolding streams_ok_def
proof (intro conjI allI impI)
  fix k' stream assume "map_of (ss_streams s') k' = Some stream"
  from assms(5) [OF this]
  have "os_stream_id stream \<in> used' \<and> stream_ok draft alias log k' stream (map_of (ss_pending_objects s') k')"
    using streams_okD(2,3) [OF assms(1), of k' stream] assms(4) by auto
  then show "os_stream_id stream \<in> used'" "stream_ok draft alias (log @ es) k' stream (map_of (ss_pending_objects s') k')"
    by (simp_all add: stream_ok_log [of stream "log @ es" log] assms(3))
qed (use assms(2) streams_okD(4,5) [OF assms(1)] in \<open>simp_all add: assms(3) subsetD [OF assms(4)]\<close>,
     use assms(4) streams_okD(4) [OF assms(1)] in blast)

lemma streams_ok_retires:
  assumes "streams_ok draft alias log used s" and "retires s s'" and "\<And>i. written i es = []"
  shows "streams_ok draft alias (log @ es) used s'"
proof (rule streams_ok_change [OF assms(1) retires_ok [OF assms(2)] assms(3) subset_refl])
  fix k stream assume k: "map_of (ss_streams s') k = Some stream"
  have r: "restricts (map_of (ss_streams s)) (map_of (ss_pending_objects s))
      (map_of (ss_streams s')) (map_of (ss_pending_objects s'))" using assms(2) by (simp add: retires_def)
  from restrictsD [OF r k] show "map_of (ss_streams s) k = Some stream \<and> map_of (ss_pending_objects s') k = map_of (ss_pending_objects s) k \<or>
      os_stream_id stream \<in> used \<and> stream_ok draft alias log k stream (map_of (ss_pending_objects s') k)" ..
qed

subsection \<open>Serving\<close>

lemma with_pending_maps:
  "omap_ok (ss_pending_objects s) \<Longrightarrow>
   map_of (ss_pending_objects (with_pending k p s)) = (map_of (ss_pending_objects s))(k \<mapsto> p)"
  "ss_streams (with_pending k p s) = ss_streams s"
  by (simp_all add: with_pending_def)

lemma with_stream_maps:
  "omap_ok (ss_streams s) \<Longrightarrow> map_of (ss_streams (with_stream k stream s)) = (map_of (ss_streams s))(k \<mapsto> stream)"
  "ss_pending_objects (with_stream k stream s) = ss_pending_objects s"
  by (simp_all add: with_stream_def)

lemma streams_ok_prepare:
  assumes ok: "streams_ok draft alias log used s"
    and closed: "\<not> is_closed s (obj_group_id object, obj_subgroup_id object)"
    and pending: "map_of (ss_pending_objects s) (obj_group_id object, obj_subgroup_id object) = None"
    and fresh: "\<And>i. an_open an = Inr i \<Longrightarrow> i \<notin> used \<and> i \<in> used'" and used: "used \<subseteq> used'"
    and keys: "\<And>i. an_open an = Inr i \<Longrightarrow> map_of (ss_stream_keys s) i = None"
    and prepare: "prepare_object draft alias object cgl is_final payload timeouts tp prepared an s = (es, None, s')"
    and es: "\<And>i. written i es' = []"
  shows "streams_ok draft alias (log @ es') used' s'"
proof (rule streams_ok_change [OF ok prepare_object_ok [OF streams_okD(1) [OF ok] closed pending keys prepare] es used])
  let ?k = "(obj_group_id object, obj_subgroup_id object)"
  note sok = sender_ok_streams [OF streams_okD(1) [OF ok]]
  fix k' stream assume k': "map_of (ss_streams s') k' = Some stream"
  from prepare pending
  show "map_of (ss_streams s) k' = Some stream \<and> map_of (ss_pending_objects s') k' = map_of (ss_pending_objects s) k' \<or>
      os_stream_id stream \<in> used' \<and> stream_ok draft alias log k' stream (map_of (ss_pending_objects s') k')"
  proof (cases rule: prepare_object_cases)
    case (opened i h encoded present p)
    show ?thesis
    proof (cases "k' = ?k")
      case True
      have st: "stream = \<lparr>os_stream_id = i, os_last_object_id = None, os_transport_priority = tp, os_properties_present = present\<rparr>"
        using k' True by (simp add: opened(11) with_pending_maps with_stream_maps sok)
      have "stream_ok draft alias log ?k stream (Some p)"
        unfolding stream_ok_def st
        using streams_okD(4) [OF ok, of i] fresh [OF opened(4)] opened(5-9)
        by (simp, intro exI [of _ payload] exI [of _ "obj_properties object"]) auto
      then show ?thesis
        using True fresh [OF opened(4)] by (simp add: opened(11) with_pending_maps with_stream_maps sok st)
    next
      case False
      then show ?thesis using k' by (simp add: opened(11) with_pending_maps with_stream_maps sok)
    qed
  next
    case (further st encoded p)
    show ?thesis
    proof (cases "k' = ?k")
      case True
      have st': "stream = st\<lparr>os_transport_priority := tp\<rparr>"
        using k' True by (simp add: further(9) with_pending_maps sok)
      have old: "stream_ok draft alias log ?k st None" "os_stream_id st \<in> used"
        using streams_okD(2,3) [OF ok further(3)] pending by auto
      then obtain l where l: "os_last_object_id st = Some l" by (auto simp: stream_ok_def split: option.splits)
      have "stream_ok draft alias log ?k stream (Some p)"
        using old(1) further(4-8) unfolding stream_ok_def st'
        by (simp add: l, intro exI [of _ payload] exI [of _ "obj_properties object"]) auto
      then show ?thesis
        using True old(2) used by (auto simp: further(9) with_pending_maps sok st')
    next
      case False
      then show ?thesis using k' by (simp add: further(9) with_pending_maps sok)
    qed
  qed auto
qed

lemma stream_ok_options:
  "stream_ok draft alias log k (stream\<lparr>os_transport_priority := tp\<rparr>) pend = stream_ok draft alias log k stream pend"
  "stream_ok draft alias log k stream (Some (p\<lparr>po_options := x\<rparr>)) = stream_ok draft alias log k stream (Some p)"
  by (cases "os_last_object_id stream"; simp add: stream_ok_def)+

lemma streams_ok_priority:
  assumes "streams_ok draft alias log used s" and "map_of (ss_streams s) k = Some stream"
    and "map_of (ss_pending_objects s) k = Some p" and "\<And>i. written i es = []"
  shows "streams_ok draft alias (log @ es) used (with_priority k tp stream p s)"
proof (rule streams_ok_change [OF assms(1) keeps_ok [OF with_priority_keeps [OF streams_okD(1) [OF assms(1)] assms(2)]] assms(4) subset_refl])
  note sok = sender_ok_streams [OF streams_okD(1) [OF assms(1)]]
  fix k' stream' assume k': "map_of (ss_streams (with_priority k tp stream p s)) k' = Some stream'"
  show "map_of (ss_streams s) k' = Some stream' \<and>
      map_of (ss_pending_objects (with_priority k tp stream p s)) k' = map_of (ss_pending_objects s) k' \<or>
      os_stream_id stream' \<in> used \<and>
      stream_ok draft alias log k' stream' (map_of (ss_pending_objects (with_priority k tp stream p s)) k')"
    using k' streams_okD(2,3) [OF assms(1,2)] assms(3)
    by (cases "k' = k") (auto simp: with_priority_def with_pending_maps sok stream_ok_options)
qed

lemma stream_ids_distinct:
  assumes "sender_ok s" and "map_of (ss_streams s) k = Some stream" and "map_of (ss_streams s) k' = Some stream'"
    and "k' \<noteq> k"
  shows "os_stream_id stream' \<noteq> os_stream_id stream"
  using sender_ok_streams(6) [OF assms(1,2)] sender_ok_streams(6) [OF assms(1,3)] assms(4) by auto

lemma streams_ok_accept:
  fixes bs fin options
  assumes ok: "streams_ok draft alias log used s" and ok': "sender_ok s'"
    and stream: "map_of (ss_streams s) k = Some stream" and p: "map_of (ss_pending_objects s) k = Some p"
    and others: "\<And>k' st. k' \<noteq> k \<Longrightarrow> map_of (ss_streams s') k' = Some st \<Longrightarrow>
      map_of (ss_streams s) k' = Some st \<and> map_of (ss_pending_objects s') k' = map_of (ss_pending_objects s) k'"
    and this_one: "\<And>st. map_of (ss_streams s') k = Some st \<Longrightarrow>
      st = stream\<lparr>os_last_object_id := Some (po_object_id p)\<rparr> \<and> map_of (ss_pending_objects s') k = None"
  shows "streams_ok draft alias (log @ [Write_Object (os_stream_id stream) (po_wire_bytes p) fin options WriteAccepted]) used s'"
    (is "streams_ok _ _ (log @ ?es) _ _")
proof -
  have w: "written i (log @ ?es) = (if i = os_stream_id stream then written i log @ po_wire_bytes p else written i log)" for i
    by simp
  obtain objects where o: "carries draft alias k (os_properties_present stream) objects
      (written (os_stream_id stream) log @ po_wire_bytes p)" "fst (last objects) = po_object_id p"
    using accepted_object_carried [of draft _ log k stream p] streams_okD(3) [OF ok stream] by (auto simp: p)
  have old: "os_stream_id st \<in> used" "stream_ok draft alias (log @ ?es) k' st (map_of (ss_pending_objects s') k')"
    if "map_of (ss_streams s') k' = Some st" for k' st
  proof (atomize (full), cases "k' = k")
    case True
    then show "os_stream_id st \<in> used \<and> stream_ok draft alias (log @ ?es) k' st (map_of (ss_pending_objects s') k')"
      using this_one that streams_okD(2) [OF ok stream] o by (auto simp: stream_ok_def)
  next
    case False
    note o = others [OF False that]
    have "os_stream_id st \<noteq> os_stream_id stream"
      using stream_ids_distinct [OF streams_okD(1) [OF ok] stream conjunct1 [OF o] False] .
    then show "os_stream_id st \<in> used \<and> stream_ok draft alias (log @ ?es) k' st (map_of (ss_pending_objects s') k')"
      using o streams_okD(2,3) [OF ok conjunct1 [OF o]] by (simp add: stream_ok_log [of st "log @ ?es" log])
  qed
  moreover have "written i (log @ ?es) = []" if "i \<notin> used" for i
    using that streams_okD(2) [OF ok stream] streams_okD(4) [OF ok that] by (auto simp: w)
  moreover have "written i (log @ ?es) = [] \<or> (\<exists>k present objects. carries draft alias k present objects (written i (log @ ?es)))" for i
  proof (cases "i = os_stream_id stream")
    case True
    then show ?thesis using o(1) unfolding w by (simp del: split_paired_Ex) blast
  next
    case False
    then show ?thesis using streams_okD(5) [OF ok, of i] unfolding w by (simp del: split_paired_Ex)
  qed
  ultimately show ?thesis unfolding streams_ok_def using ok' by blast
qed

lemma erase_pending_close: "close_subgroup k (erase_pending k s) = close_subgroup k s"
  by (cases s) (simp add: close_subgroup_def erase_stream_def erase_pending_def omap_erase_def split: option.split)

lemma close_subgroup_maps:
  "map_of (ss_streams (snd (close_subgroup k s))) = (map_of (ss_streams s))(k := None)"
  "map_of (ss_pending_objects (snd (close_subgroup k s))) = (map_of (ss_pending_objects s))(k := None)"
  by (simp_all add: close_subgroup_def)

lemma streams_ok_deliver:
  assumes ok: "streams_ok draft alias log used s" and stream: "map_of (ss_streams s) k = Some stream"
    and p: "map_of (ss_pending_objects s) k = Some p"
    and deliver: "deliver_object k tp an p s = (es, (status, disposition), s')"
  shows "streams_ok draft alias (log @ es) used s'"
proof -
  note sok = sender_ok_streams [OF streams_okD(1) [OF ok]]
  have prio: "streams_ok draft alias (log @ es) used (with_priority k tp stream p s)" if "\<And>i. written i es = []" for es
    using streams_ok_priority [OF ok stream p that] .
  from prio [of "[]"] have prio0: "streams_ok draft alias log used (with_priority k tp stream p s)" by simp
  note pok = streams_okD(1) [OF prio0]
  from deliver stream show ?thesis
  proof (cases rule: deliver_object_cases)
    case expired
    then show ?thesis using streams_ok_retires [OF prio0 close_subgroup_retires [OF pok]] by simp
  next
    case (blocked options)
    then show ?thesis using prio [of es] by simp
  next
    case (failed options)
    then have "written i es = []" for i using written_none observe_no_write by auto
    then show ?thesis using streams_ok_retires [OF prio0 observe_retires [OF pok]] failed(2) by simp
  next
    case (accepted options)
    let ?s = "with_priority k tp stream p s" and ?st = "stream\<lparr>os_transport_priority := tp\<rparr>"
      and ?p = "p\<lparr>po_options := (po_options p)\<lparr>ow_transport_priority := tp\<rparr>\<rparr>"
    have maps: "map_of (ss_streams ?s) = (map_of (ss_streams s))(k \<mapsto> ?st)"
        "map_of (ss_pending_objects ?s) = (map_of (ss_pending_objects s))(k \<mapsto> ?p)" "omap_ok (ss_streams ?s)"
      by (simp_all add: with_priority_def with_pending_maps sok)
    have s': "s' = snd (finish_accepted_object k p ?s)" using accepted(1) by (metis snd_conv)
    have fin: "map_of (ss_streams s') = (map_of (ss_streams s))(k := if po_fin p then None
          else Some (?st\<lparr>os_last_object_id := Some (po_object_id p)\<rparr>)) \<and>
        map_of (ss_pending_objects s') = (map_of (ss_pending_objects s))(k := None)"
      using close_subgroup_maps [of k ?s]
      by (cases "close_subgroup k ?s") (simp add: s' finish_accepted_object_def Let_def erase_pending_close maps)
    have "streams_ok draft alias (log @ [Write_Object (os_stream_id ?st) (po_wire_bytes ?p) (po_fin p) options WriteAccepted]) used s'"
    proof (rule streams_ok_accept [where k = k, OF prio0])
      show "sender_ok s'" using finish_accepted_ok [OF pok] s' by simp
    qed (use fin in \<open>auto simp: maps split: if_splits\<close>)
    then show ?thesis using accepted(2) by simp
  qed
qed

subsection \<open>Every operation keeps the invariant of a run\<close>

lemma streams_ok_unused:
  assumes "streams_ok draft alias log used s" and "i \<notin> used"
  shows "map_of (ss_stream_keys s) i = None"
proof (rule ccontr)
  assume "map_of (ss_stream_keys s) i \<noteq> None"
  then obtain k where "map_of (ss_stream_keys s) i = Some k" by blast
  from sender_ok_streams(7) [OF streams_okD(1) [OF assms(1)] this] obtain stream where
    "map_of (ss_streams s) k = Some stream" "os_stream_id stream = i" by blast
  with streams_okD(2) [OF assms(1), of k stream] assms(2) show False by simp
qed

lemma streams_ok_try_serve:
  assumes ok: "streams_ok draft alias log used s"
    and fresh: "\<And>i. an_open an = Inr i \<Longrightarrow> i \<notin> used"
    and call: "try_serve draft alias object cgl is_final payload timeouts priority prepared an s = (es, (status, disposition), s')"
  shows "streams_ok draft alias (log @ es) (used \<union> {i. an_open an = Inr i}) s'"
proof -
  have keys: "map_of (ss_stream_keys s) i = None" if "an_open an = Inr i" for i
    using streams_ok_unused [OF ok fresh [OF that]] .
  show ?thesis
  proof (cases rule: try_serve_cases [OF call streams_okD(1) [OF ok] keys, case_names fresh_id ended delivered])
    case (fresh_id i)
    then show ?case by simp
  next
    case ended
    from streams_ok_retires [OF ok ended(2) written_none [OF ended(3)]]
    have "streams_ok draft alias (log @ es) used s'" .
    from streams_ok_change [OF this streams_okD(1) [OF this], of "[]" "used \<union> {i. an_open an = Inr i}"] show ?thesis by simp
  next
    case (delivered s1 s2 obs es1 es2 tp p stream)
    let ?used = "used \<union> {i. an_open an = Inr i}"
    have r1: "retires s s1" using observe_retires [OF streams_okD(1) [OF ok]] delivered(1) by (metis snd_conv)
    have silent: "written i obs = []" "written i es1 = []" for i
      using written_none [of "obs @ es1" i] delivered(4) by auto
    have ok1: "streams_ok draft alias (log @ obs) used s1" using streams_ok_retires [OF ok r1] silent by blast
    have keys1: "map_of (ss_stream_keys s1) i = None" if "an_open an = Inr i" for i
      using observe_stream_keys [OF streams_okD(1) [OF ok] keys [OF that]] delivered(1) by (metis snd_conv)
    have ok2: "streams_ok draft alias ((log @ obs) @ es1) ?used s2"
      using delivered(5)
    proof
      assume "es1 = [] \<and> s2 = s1"
      with streams_ok_change [OF ok1 streams_okD(1) [OF ok1], of "[]" ?used] show ?thesis by simp
    next
      assume a: "map_of (ss_pending_objects s1) (obj_group_id object, obj_subgroup_id object) = None \<and>
          prepare_object draft alias object cgl is_final payload (timeouts_for_draft draft timeouts) tp prepared an s1 = (es1, None, s2)"
      show ?thesis
        by (rule streams_ok_prepare [OF ok1 delivered(2) conjunct1 [OF a] _ _ keys1 conjunct2 [OF a] silent(2)])
          (use fresh in auto)
    qed
    from streams_ok_deliver [OF ok2 delivered(9,6,10)] show ?thesis by (simp add: delivered(3))
  qed
qed

lemma streams_ok_refresh:
  assumes ok: "streams_ok draft alias log used s"
  shows "streams_ok draft alias log used (refresh_unadmitted_deadlines g sg i od sd s)"
proof (cases "map_of (ss_pending_objects s) (g, sg)")
  case None
  then show ?thesis using ok by (simp add: refresh_unadmitted_deadlines_def Let_def)
next
  case (Some p)
  note sok = sender_ok_streams [OF streams_okD(1) [OF ok]]
  let ?s = "refresh_unadmitted_deadlines g sg i od sd s"
  have "map_of (ss_streams ?s) k = Some stream \<Longrightarrow> map_of (ss_streams s) k = Some stream \<and>
      map_of (ss_pending_objects ?s) k = map_of (ss_pending_objects s) k \<or>
      os_stream_id stream \<in> used \<and> stream_ok draft alias log k stream (map_of (ss_pending_objects ?s) k)" for k stream
    using streams_okD(2,3) [OF ok, of "(g, sg)" stream] Some
    by (cases "k = (g, sg)") (auto simp: refresh_unadmitted_deadlines_def Let_def sok stream_ok_options)
  from streams_ok_change [OF ok keeps_ok [OF refresh_keeps [OF streams_okD(1) [OF ok]]] _ subset_refl this, of "[]"]
  show ?thesis by simp
qed

lemma streams_ok_discard:
  assumes ok: "streams_ok draft alias log used s"
  shows "streams_ok draft alias log used (discard_unadmitted g sg i s)"
proof -
  let ?s = "discard_unadmitted g sg i s"
  have "map_of (ss_streams ?s) k = Some stream \<Longrightarrow> map_of (ss_streams s) k = Some stream \<and>
      map_of (ss_pending_objects ?s) k = map_of (ss_pending_objects s) k \<or>
      os_stream_id stream \<in> used \<and> stream_ok draft alias log k stream (map_of (ss_pending_objects ?s) k)" for k stream
    using streams_okD(1) [OF ok]
  proof (cases rule: discard_cases [of s g sg i])
    case (started stream')
    assume a: "map_of (ss_streams ?s) k = Some stream"
    show ?thesis
      using a started streams_okD(2,3) [OF ok started(2)]
      by (cases "k = (g, sg)") (auto simp: stream_ok_def)
  qed auto
  from streams_ok_change [OF ok keeps_ok [OF discard_keeps [OF streams_okD(1) [OF ok]]] _ subset_refl this, of "[]"]
  show ?thesis by simp
qed

text \<open>Finishing a group writes no bytes, only the ends of the streams.\<close>

lemma finish_stream_silent: "written i (fst (finish_stream k stream deadline attempts s)) = []"
proof (induction attempts arbitrary: s)
  case (Cons a attempts)
  have o: "written i (fst (observe_transport_stream_state e t)) = []" for e t
    by (intro written_none allI observe_no_write)
  show ?case
    using Cons.IH o
    by (auto simp: Let_def split: prod.splits ObjectWriteDisposition.splits) (metis fst_conv)+
qed simp

lemma finish_streams_silent: "written i (fst (finish_streams deadline rest s)) = []"
proof (induction deadline rest s rule: finish_streams.induct)
  case (2 deadline k stream attempts rest s)
  obtain es outcome s1 where f: "finish_stream k stream deadline attempts (erase_pending k s) = (es, outcome, s1)"
    by (cases "finish_stream k stream deadline attempts (erase_pending k s)")
  have es: "written i es = []" using finish_stream_silent [of i k stream deadline attempts] f by (metis fst_conv)
  obtain recorded s2 where c: "close_subgroup k s1 = (recorded, s2)" by (cases "close_subgroup k s1")
  show ?case
  proof (cases "outcome = Some Finished \<and> recorded \<and> \<not> is_closed s k")
    case True
    then show ?thesis
      using es "2.IH"(2) [OF _ f [symmetric] refl _ _ c [symmetric]]
      by (cases "finish_streams deadline rest s2") (simp add: f c)
  next
    case False
    then show ?thesis using es "2.IH"(1) by (simp add: f c split: option.splits finish_outcome.splits)
  qed
qed simp

lemma close_unrecorded: "close_subgroup k s = (False, s') \<Longrightarrow> completion_history_status s' \<noteq> Success"
  by (auto simp: close_subgroup_def record_permanent_completion_def completion_history_status_def split: prod.splits)

lemma finish_stream_returns_failure: "fst (snd (finish_stream k stream deadline attempts s)) \<noteq> Some (Returned Success)"
proof (induction attempts arbitrary: s)
  case (Cons a attempts)
  then show ?case
    by (auto simp: Let_def dest: close_unrecorded split: prod.splits ObjectWriteDisposition.splits) (metis fst_conv snd_conv)+
qed simp

lemma finish_streams_returns_failure: "fst (snd (finish_streams deadline rest s)) \<noteq> Some (Returned Success)"
proof (induction deadline rest s rule: finish_streams.induct)
  case (2 deadline k stream attempts rest s)
  obtain es outcome s1 where f: "finish_stream k stream deadline attempts (erase_pending k s) = (es, outcome, s1)"
    by (cases "finish_stream k stream deadline attempts (erase_pending k s)")
  have o: "outcome \<noteq> Some (Returned Success)"
    using finish_stream_returns_failure [of k stream deadline attempts "erase_pending k s"] f by simp
  obtain recorded s2 where c: "close_subgroup k s1 = (recorded, s2)" by (cases "close_subgroup k s1")
  show ?case
  proof (cases "outcome = Some Finished \<and> recorded \<and> \<not> is_closed s k")
    case True
    then show ?thesis
      using "2.IH"(2) [OF _ f [symmetric] refl _ _ c [symmetric]]
      by (cases "finish_streams deadline rest s2") (simp add: f c)
  next
    case False
    then show ?thesis using o "2.IH"(1) close_unrecorded [of k s1] c
      by (cases recorded) (auto simp: f c split: option.splits finish_outcome.splits)
  qed
qed simp

lemma streams_ok_finish_group:
  assumes ok: "streams_ok draft alias log used s" and callbacks: "\<And>k. \<forall>a \<in> set (attempts k). callback_retires a"
    and call: "finish_group draft' timeouts now events attempts s = (es, Some Success, s')"
  shows "streams_ok draft alias (log @ es) used s'"
proof -
  obtain obs s1 where o: "observe_transport_stream_state events s = (obs, s1)"
    by (cases "observe_transport_stream_state events s")
  define rest where "rest = map (\<lambda>(k, stream). ((k, stream), attempts k)) (ss_streams s1)"
  define d where "d = deadline_after now (subgroup_ms (timeouts_for_draft draft' timeouts))"
  obtain fs outcome s2 where f: "finish_streams d rest s1 = (fs, outcome, s2)" by (cases "finish_streams d rest s1")
  have silent: "written i obs = []" "written i fs = []" for i
    using written_none [of obs i] observe_no_write [of _ _ _ _ _ events s] finish_streams_silent [of i d rest s1]
    by (simp_all add: o f)
  have s': "es = obs @ fs" "s' = s2\<lparr>ss_streams := [], ss_stream_keys := [], ss_pending_objects := []\<rparr>"
    using call f o finish_streams_returns_failure [of d rest s1]
    by (auto simp: finish_group_def Let_def o simp flip: rest_def d_def split: if_splits option.splits finish_outcome.splits)
  have "sender_ok s'"
    using finish_group_keeps [where attempts = attempts, OF streams_okD(1) [OF ok] callbacks, of draft' timeouts now events] call
    by (simp add: keeps_def)
  moreover have "written i es = []" for i using silent by (simp add: s'(1))
  ultimately show ?thesis
    using streams_ok_change [OF ok, of s' es used] by (simp add: s'(2))
qed

subsection \<open>Runs\<close>

text \<open>
  A sender with the effects it caused and the stream ids the transport has handed out. The transport
  hands out each id once; a call that fails ends the run, because it ends the session.
\<close>

record run =
  rn_sender :: SubgroupSender
  rn_log :: "effect list"
  rn_used :: "u64 set"

definition new_run :: run where
  "new_run = \<lparr>rn_sender = new_sender, rn_log = [], rn_used = {}\<rparr>"

inductive sender_step :: "DraftVersion \<Rightarrow> u64 \<Rightarrow> run \<Rightarrow> run \<Rightarrow> bool" for draft ta where
  serves: "try_serve draft ta object cgl is_final payload timeouts priority prepared an (rn_sender r) =
      (es, (Success, disposition), s') \<Longrightarrow> (\<forall>i. an_open an = Inr i \<longrightarrow> i \<notin> rn_used r) \<Longrightarrow>
    sender_step draft ta r \<lparr>rn_sender = s', rn_log = rn_log r @ es,
      rn_used = rn_used r \<union> {i. an_open an = Inr i}\<rparr>"
| finishes: "finish_group draft' timeouts now events attempts (rn_sender r) = (es, Some Success, s') \<Longrightarrow>
    (\<forall>k. \<forall>a \<in> set (attempts k). callback_retires a) \<Longrightarrow>
    sender_step draft ta r (r\<lparr>rn_sender := s', rn_log := rn_log r @ es\<rparr>)"
| discards: "sender_step draft ta r (r\<lparr>rn_sender := discard_unadmitted g sg i (rn_sender r)\<rparr>)"
| refreshes: "sender_step draft ta r (r\<lparr>rn_sender := refresh_unadmitted_deadlines g sg i od sd (rn_sender r)\<rparr>)"
| renews: "renew_peer_stopped_subgroups events (rn_sender r) = (es, s') \<Longrightarrow>
    sender_step draft ta r (r\<lparr>rn_sender := s', rn_log := rn_log r @ es\<rparr>)"
| cancels: "cancel_all_open_subgroups code events reset (rn_sender r) = (es, status, s') \<Longrightarrow>
    sender_step draft ta r (r\<lparr>rn_sender := s', rn_log := rn_log r @ es\<rparr>)"
| is_stopped: "sender_step draft ta r (r\<lparr>rn_sender := snd (retire_peer_stopped_stream events i (rn_sender r))\<rparr>)"
| expires: "sender_step draft ta r (r\<lparr>rn_sender := snd (retire_expired_stream events i (rn_sender r))\<rparr>)"

inductive_cases sender_stepE: "sender_step draft alias r r'"

definition run_ok :: "DraftVersion \<Rightarrow> u64 \<Rightarrow> run \<Rightarrow> bool" where
  "run_ok draft alias r \<longleftrightarrow> streams_ok draft alias (rn_log r) (rn_used r) (rn_sender r)"

lemma retire_calls_retire:
  "sender_ok s \<Longrightarrow> retires s (snd (retire_peer_stopped_stream events i s))"
  "sender_ok s \<Longrightarrow> retires s (snd (retire_expired_stream events i s))"
  by (simp_all add: retire_peer_stopped_stream_def retire_expired_stream_def retire_stream_retires retires_refl)

lemma cancel_silent: "written i (fst (cancel_all_open_subgroups code events reset s)) = []"
proof -
  have "written i (fst (cancel_streams code reset rest status t)) = []" for rest status t
    by (induction code reset rest status t rule: cancel_streams.induct) (auto simp: Let_def split: prod.splits)
  moreover have "written i (fst (observe_transport_stream_state events s)) = []"
    by (intro written_none allI observe_no_write)
  ultimately show ?thesis
    by (cases "observe_transport_stream_state events s")
      (simp add: cancel_all_open_subgroups_def split: prod.splits, metis fst_conv)
qed

lemma run_ok_step:
  assumes "sender_step draft alias r r'" and "run_ok draft alias r"
  shows "run_ok draft alias r'"
  using assms
proof (induction rule: sender_step.induct)
  case (serves object cgl is_final payload timeouts priority prepared an r es disposition s')
  then show ?case using streams_ok_try_serve [OF _ _ serves(1)] by (simp add: run_ok_def)
next
  case (finishes draft' timeouts now events attempts r es s')
  then show ?case using streams_ok_finish_group [OF _ spec [OF finishes(2)] finishes(1)] by (simp add: run_ok_def)
next
  case (renews events r es s')
  have "written i es = []" for i
    using renews(1) written_none [of es i] observe_no_write [of _ _ _ _ _ events "rn_sender r"]
    by (auto simp: renew_peer_stopped_subgroups_def split: prod.splits)
  moreover have "retires (rn_sender r) s'"
    using renew_retires [of "rn_sender r" events] renews streams_okD(1) by (simp add: run_ok_def)
  ultimately show ?case using streams_ok_retires renews(2) by (simp add: run_ok_def)
next
  case (cancels code events reset r es status s')
  have "written i es = []" for i using cancel_silent [of i code events reset "rn_sender r"] cancels(1) by simp
  moreover have "retires (rn_sender r) s'"
    using cancel_all_retires [of "rn_sender r" code events reset] cancels streams_okD(1) by (simp add: run_ok_def)
  ultimately show ?case using streams_ok_retires cancels(2) by (simp add: run_ok_def)
next
  case (is_stopped r events i)
  then show ?case
    using streams_ok_retires [of draft _ _ _ _ _ "[]"] retire_calls_retire(1) streams_okD(1) by (simp add: run_ok_def)
next
  case (expires r events i)
  then show ?case
    using streams_ok_retires [of draft _ _ _ _ _ "[]"] retire_calls_retire(2) streams_okD(1) by (simp add: run_ok_def)
qed (simp_all add: run_ok_def streams_ok_discard streams_ok_refresh)

lemma try_serve_keeps:
  assumes "sender_ok s" and keys: "\<And>i. an_open an = Inr i \<Longrightarrow> map_of (ss_stream_keys s) i = None"
    and call: "try_serve draft alias object cgl is_final payload timeouts priority prepared an s = (es, (status, disposition), s')"
  shows "keeps s s'"
proof (cases rule: try_serve_cases [OF call assms(1) keys, case_names fresh_id ended delivered])
  case (fresh_id i)
  then show ?case by simp
next
  case ended
  then show ?thesis using retires_keeps by blast
next
  case (delivered s1 s2 obs es1 es2 tp p stream)
  have r1: "retires s s1" using observe_retires [OF assms(1)] delivered(1) by (metis snd_conv)
  have keys1: "map_of (ss_stream_keys s1) i = None" if "an_open an = Inr i" for i
    using observe_stream_keys [OF assms(1) keys [OF that]] delivered(1) by (metis snd_conv)
  have "keeps s1 s2"
    using delivered(5)
  proof
    assume "es1 = [] \<and> s2 = s1"
    then show ?thesis using retires_ok [OF r1] by (simp add: keeps_def)
  next
    assume a: "map_of (ss_pending_objects s1) (obj_group_id object, obj_subgroup_id object) = None \<and>
        prepare_object draft alias object cgl is_final payload (timeouts_for_draft draft timeouts) tp prepared an s1 = (es1, None, s2)"
    from prepare_object_keeps [OF retires_ok [OF r1] delivered(2) conjunct1 [OF a] keys1 conjunct2 [OF a]] show ?thesis .
  qed
  with deliver_object_keeps [OF delivered(8,9,10)] retires_keeps [OF r1] show ?thesis
    using keeps_trans by blast
qed

lemma run_keeps_step:
  assumes "sender_step draft ta r r'" and "run_ok draft ta r"
  shows "keeps (rn_sender r) (rn_sender r')"
proof -
  have ok: "sender_ok (rn_sender r)" using assms(2) streams_okD(1) by (simp add: run_ok_def)
  have keys: "map_of (ss_stream_keys (rn_sender r)) i = None" if "i \<notin> rn_used r" for i
    using streams_ok_unused that assms(2) unfolding run_ok_def by blast
  show ?thesis
    using assms(1)
  proof (cases rule: sender_step.cases)
    case (serves object cgl is_final payload timeouts priority prepared an es disposition s')
    then show ?thesis using try_serve_keeps [OF ok keys serves(2)] by simp
  next
    case (finishes draft' timeouts now events attempts es s')
    then show ?thesis using finish_group_keeps [where attempts = attempts, OF ok spec [OF finishes(3)], of draft' timeouts now events] by simp
  next
    case (renews events es s')
    then show ?thesis using renew_retires [OF ok, of events] retires_keeps by simp
  next
    case (cancels code events reset es status s')
    then show ?thesis using cancel_all_retires [OF ok, of code events reset] retires_keeps by simp
  qed (use ok in \<open>simp_all add: discard_keeps refresh_keeps retires_keeps retire_calls_retire\<close>)
qed

lemma run_ok_steps:
  assumes "(sender_step draft ta)\<^sup>*\<^sup>* r r'" and "run_ok draft ta r"
  shows "run_ok draft ta r' \<and> closed_keys (rn_sender r) \<subseteq> closed_keys (rn_sender r')"
  using assms
proof (induction rule: rtranclp_induct)
  case (step r' r'')
  then show ?case using run_ok_step [OF step.hyps(2)] run_keeps_step [OF step.hyps(2)] by (auto simp: keeps_def)
qed simp

lemma run_ok_new: "run_ok draft ta new_run"
  by (simp add: run_ok_def new_run_def streams_ok_new)

lemma try_serve_closed:
  assumes "sender_ok s" and "k = (obj_group_id object, obj_subgroup_id object)" and "k \<in> closed_keys s"
    and "try_serve draft ta object cgl is_final payload timeouts priority prepared an s = (es, (status, disposition), s')"
  shows "disposition = Skipped \<and> (\<forall>e \<in> set es. (\<exists>i. e = Acknowledge_Expired i) \<or> (\<exists>i. e = Acknowledge_Peer_Stopped i))"
proof -
  obtain obs s1 where o: "observe_transport_stream_state (an_events an) s = (obs, s1)"
    by (cases "observe_transport_stream_state (an_events an) s")
  have "k \<in> closed_keys s1" using observe_retires [OF assms(1), of "an_events an"] assms(3) o by (auto simp: retires_def keeps_def)
  then have "is_closed s1 k" by (simp add: closed_keys_def is_closed_def)
  moreover have "\<forall>e \<in> set obs. (\<exists>i. e = Acknowledge_Expired i) \<or> (\<exists>i. e = Acknowledge_Peer_Stopped i)"
    using o by (auto simp: observe_transport_stream_state_def Let_def split: if_splits)
  ultimately show ?thesis using assms(4) o by (auto simp: try_serve_def assms(2) Let_def split: if_splits)
qed

subsection \<open>A blocked object\<close>






subsection \<open>An example\<close>

text \<open>The first object of group 1, on a transport that opens stream 2 and answers the write.\<close>

definition example_answers :: "ObjectWriteDisposition \<Rightarrow> answers" where
  "example_answers d = \<lparr>an_events = (\<lambda>_. (False, False)), an_first_available_at = 0, an_now_prepared = 0,
     an_now_written = 0, an_open = Inr 2, an_reset = Success, an_write = (d, []), an_events_after = (\<lambda>_. (False, False))\<rparr>"

definition example_serve :: "ObjectWriteDisposition \<Rightarrow> effect list \<times> (TransportStatus \<times> ServeDisposition) \<times> SubgroupSender" where
  "example_serve d = try_serve kDraft16 7 (example_object 1 0) True True [9] no_timeouts (128, 128) None
     (example_answers d) new_sender"

lemma example_serve_accepted:
  "case example_serve WriteAccepted of (es, result, s) \<Rightarrow>
     (result, written 2 es, tracker_contains (ss_closed s) 1 0) = ((Success, Accepted), [0x38, 7, 1, 0, 1, 9], True)"
  by code_simp

lemma example_serve_results:
  "fst (snd (example_serve WriteAccepted)) = (Success, Accepted)"
  "written 2 (fst (example_serve WriteAccepted)) = [0x38, 7, 1, 0, 1, 9]"
  "tracker_contains (ss_closed (snd (snd (example_serve WriteAccepted)))) 1 0"
  using example_serve_accepted by (auto split: prod.splits)


definition example_run :: run where
  "example_run = \<lparr>rn_sender = snd (snd (example_serve WriteAccepted)),
     rn_log = rn_log new_run @ fst (example_serve WriteAccepted),
     rn_used = rn_used new_run \<union> {i. an_open (example_answers WriteAccepted) = Inr i}\<rparr>"

lemma example_run_step: "sender_step kDraft16 7 new_run example_run"
proof -
  have c: "example_serve WriteAccepted = (fst (example_serve WriteAccepted), (Success, Accepted), snd (snd (example_serve WriteAccepted)))"
    using example_serve_results(1) by (simp add: prod_eq_iff)
  show ?thesis
    unfolding example_run_def
  proof (rule sender_step.serves)
    show "try_serve kDraft16 7 (example_object 1 0) True True [9] no_timeouts (128, 128) None (example_answers WriteAccepted)
        (rn_sender new_run) = (fst (example_serve WriteAccepted), (Success, Accepted), snd (snd (example_serve WriteAccepted)))"
      using c by (simp add: example_serve_def new_run_def)
  qed (simp add: new_run_def)
qed

lemma example_run_reached: "(sender_step kDraft16 7)\<^sup>*\<^sup>* new_run example_run"
  using example_run_step by (rule r_into_rtranclp)

subsection \<open>Properties\<close>



text \<open>C13: In every reachable state of a sender the open streams and the map from stream ids agree one
  to one, an object waits only on an open stream, and no subgroup that is over has a stream.\<close>

theorem sender_state_consistent:
  assumes "(sender_step draft ta)\<^sup>*\<^sup>* new_run r"
  shows "(map_of (ss_stream_keys (rn_sender r)) i = Some k \<longleftrightarrow>
      (\<exists>stream. map_of (ss_streams (rn_sender r)) k = Some stream \<and> os_stream_id stream = i)) \<and>
    (map_of (ss_pending_objects (rn_sender r)) k \<noteq> None \<longrightarrow> map_of (ss_streams (rn_sender r)) k \<noteq> None) \<and>
    (is_closed (rn_sender r) k \<longrightarrow> map_of (ss_streams (rn_sender r)) k = None)"
proof -
  have "run_ok draft ta r" using run_ok_steps [OF assms run_ok_new] by blast
  then have "sender_ok (rn_sender r)" unfolding run_ok_def by (rule streams_okD(1))
  note ok = sender_ok_streams [OF this]
  show ?thesis using ok(4) [of k] ok(5) [of k] ok(6) [of k] ok(7) [of i k] by blast
qed

theorem sender_state_consistent_witness:
  "is_closed (rn_sender example_run) (1, 0) \<and> map_of (ss_streams (rn_sender example_run)) (1, 0) = None"
  using sender_state_consistent [OF example_run_reached, of 2 "(1, 0)"] example_serve_results(3)
  by (simp add: example_run_def is_closed_def)

text \<open>C11: A subgroup that was completed, reset or expired stays over: whatever the sender does
  afterwards, a call to serve one of its objects is skipped, and it opens, writes and resets no
  stream.\<close>

theorem completed_subgroup_stays_silent:
  assumes "(sender_step draft ta)\<^sup>*\<^sup>* new_run r" and "(sender_step draft ta)\<^sup>*\<^sup>* r r'"
    and "tracker_contains (ss_closed (rn_sender r)) (obj_group_id object) (obj_subgroup_id object)"
    and "try_serve draft ta object cgl is_final payload timeouts priority prepared an (rn_sender r') = (es, (status, disposition), s')"
  shows "disposition = Skipped \<and> (\<forall>e \<in> set es. (\<exists>i. e = Acknowledge_Expired i) \<or> (\<exists>i. e = Acknowledge_Peer_Stopped i))"
proof -
  have ok: "run_ok draft ta r" using run_ok_steps [OF assms(1) run_ok_new] by blast
  from run_ok_steps [OF assms(2) ok]
  have "sender_ok (rn_sender r')" and subset: "closed_keys (rn_sender r) \<subseteq> closed_keys (rn_sender r')"
    using streams_okD(1) unfolding run_ok_def by blast+
  moreover have "(obj_group_id object, obj_subgroup_id object) \<in> closed_keys (rn_sender r')"
    using subsetD [OF subset, of "(obj_group_id object, obj_subgroup_id object)"] assms(3) by (simp add: closed_keys_def)
  ultimately show ?thesis using try_serve_closed [OF _ refl _ assms(4)] by blast
qed

theorem completed_subgroup_stays_silent_witness:
  "snd (fst (snd (try_serve kDraft16 7 (example_object 1 1) True True [9] no_timeouts (128, 128) None
     (example_answers WriteAccepted) (rn_sender example_run)))) = Skipped"
  (is "snd (fst (snd ?call)) = Skipped")
proof -
  have closed: "tracker_contains (ss_closed (rn_sender example_run)) (obj_group_id (example_object 1 1))
      (obj_subgroup_id (example_object 1 1))"
    using example_serve_results(3) by (simp add: example_run_def example_object_def)
  have call: "?call = (fst ?call, (fst (fst (snd ?call)), snd (fst (snd ?call))), snd (snd ?call))"
    by simp
  from completed_subgroup_stays_silent [OF example_run_reached rtranclp.rtrancl_refl closed call]
  show ?thesis by blast
qed



end
