(* ===== verification/Mp4_Box.thy ===== *)
theory Mp4_Box
  imports Prelude
begin

text \<open>
  \<open>src/mp4_box.cpp\<close>: the box parser of whole files and the incremental reader of top-level boxes.
  Offsets and sizes are the 64-bit \<open>size_t\<close> of the code, because the parser adds a box size from the
  file to its cursor without a check; the recursion of the parser over a box range is therefore a
  partial function, and \<open>None\<close> is a parse that does not end. The specification \<open>tiles\<close> says what a
  forest of boxes has to be for the bytes it was parsed from.
\<close>

subsection \<open>Boxes\<close>

record ByteSpan =
  span_offset :: u64
  span_size :: u64

datatype Mp4Box = Mp4Box (box_type: string) (box_span: ByteSpan) (box_payload: ByteSpan) (box_children: "Mp4Box list")

definition kContainerBoxes :: "string list" where
  "kContainerBoxes = [''moov'', ''trak'', ''mdia'', ''minf'', ''stbl'', ''moof'', ''traf'', ''mvex'', ''edts'', ''dinf'', ''meta'']"

definition is_container_type :: "string \<Rightarrow> bool" where
  "is_container_type type \<longleftrightarrow> list_ex (\<lambda>candidate. type = candidate) kContainerBoxes"

definition byte_at :: "bytes \<Rightarrow> u64 \<Rightarrow> u8" where
  "byte_at bs offset = bs ! unat offset"

definition read_be32 :: "bytes \<Rightarrow> u64 \<Rightarrow> u32" where
  "read_be32 bs offset =
     push_bit 24 (ucast (byte_at bs offset)) OR push_bit 16 (ucast (byte_at bs (offset + 1))) OR
     push_bit 8 (ucast (byte_at bs (offset + 2))) OR ucast (byte_at bs (offset + 3))"

definition read_be64 :: "bytes \<Rightarrow> u64 \<Rightarrow> u64" where
  "read_be64 bs offset = foldl (\<lambda>v i. push_bit 8 v OR ucast (byte_at bs (offset + of_nat i))) 0 [0..<8]"

text \<open>The header of the box at the cursor: its type, the size of the header and the size of the box.\<close>

definition box_header :: "bytes \<Rightarrow> u64 \<Rightarrow> u64 \<Rightarrow> exn + string \<times> u64 \<times> u64" where
  "box_header bs cursor limit =
     (let small_size = read_be32 bs cursor;
          type = of_bytes (slice bs (unat (cursor + 4)) 4) in
      if small_size = 1 \<and> cursor + 16 > limit then Inl (Runtime_Error ''truncated extended-size MP4 box'')
      else
        let header_size = (if small_size = 1 then 16 else 8);
            box_size = (if small_size = 1 then read_be64 bs (cursor + 8)
              else if small_size = 0 then limit - cursor else ucast small_size) in
        if box_size < header_size \<or> cursor + box_size > limit then
          Inl (Runtime_Error (''invalid MP4 box size for box type '' @ type))
        else Inr (type, header_size, box_size))"

partial_function (option) parse_box_range :: "bytes \<Rightarrow> u64 \<Rightarrow> u64 \<Rightarrow> (exn + Mp4Box list) option" where
  "parse_box_range bs cursor limit =
     (if cursor + 8 \<le> limit then
        (case box_header bs cursor limit of
           Inl e \<Rightarrow> Some (Inl e)
         | Inr (type, header_size, box_size) \<Rightarrow>
             let payload = \<lparr>span_offset = cursor + header_size, span_size = box_size - header_size\<rparr> in
             Option.bind
               (if is_container_type type
                then parse_box_range bs (span_offset payload) (span_offset payload + span_size payload)
                else Some (Inr []))
               (\<lambda>children. case children of
                  Inl e \<Rightarrow> Some (Inl e)
                | Inr children \<Rightarrow>
                    Option.bind (parse_box_range bs (cursor + box_size) limit)
                      (\<lambda>later. case later of
                         Inl e \<Rightarrow> Some (Inl e)
                       | Inr boxes \<Rightarrow>
                           Some (Inr (Mp4Box type \<lparr>span_offset = cursor, span_size = box_size\<rparr> payload children # boxes)))))
      else Some (Inr []))"

declare parse_box_range.simps [code]

definition parse_mp4_boxes :: "bytes \<Rightarrow> (exn + Mp4Box list) option" where
  "parse_mp4_boxes bs = parse_box_range bs 0 (of_nat (length bs))"

definition find_first_box :: "Mp4Box list \<Rightarrow> string \<Rightarrow> Mp4Box option" where
  "find_first_box boxes type = find (\<lambda>box. box_type box = type) boxes"

definition find_boxes :: "Mp4Box list \<Rightarrow> string \<Rightarrow> Mp4Box list" where
  "find_boxes boxes type = filter (\<lambda>box. box_type box = type) boxes"

definition find_child_box :: "Mp4Box \<Rightarrow> string \<Rightarrow> Mp4Box option" where
  "find_child_box box type = find (\<lambda>child. box_type child = type) (box_children box)"

definition slice_bytes :: "bytes \<Rightarrow> ByteSpan \<Rightarrow> bytes" where
  "slice_bytes bs span = slice bs (unat (span_offset span)) (unat (span_size span))"

subsection \<open>The incremental reader\<close>

record StreamingBoxResult =
  sb_type :: string
  sb_bytes :: bytes

record StreamingMp4Reader =
  sr_buffer :: bytes
  sr_consumed :: nat

definition new_reader :: StreamingMp4Reader where
  "new_reader = \<lparr>sr_buffer = [], sr_consumed = 0\<rparr>"

definition reader_append :: "bytes \<Rightarrow> StreamingMp4Reader \<Rightarrow> StreamingMp4Reader" where
  "reader_append data r = r\<lparr>sr_buffer := sr_buffer r @ data\<rparr>"

definition pending_bytes :: "StreamingMp4Reader \<Rightarrow> bytes" where
  "pending_bytes r = drop (sr_consumed r) (sr_buffer r)"

definition compact :: "StreamingMp4Reader \<Rightarrow> StreamingMp4Reader" where
  "compact r = (if sr_consumed r = 0 then r else \<lparr>sr_buffer = drop (sr_consumed r) (sr_buffer r), sr_consumed = 0\<rparr>)"

text \<open>\<open>p\<close> is the unread part of the buffer; the size of the next box, \<open>None\<close> while more input is needed.\<close>

definition next_box_size :: "bytes \<Rightarrow> exn + u64 option" where
  "next_box_size p =
     (if length p < 8 then Inr None
      else
        let small_size = read_be32 p 0 in
        if small_size = 1 then
          (if length p < 16 then Inr None
           else if read_be64 p 8 < 16 then Inl (Runtime_Error ''impossible extended box size'')
           else if of_nat (length p) < read_be64 p 8 then Inr None else Inr (Some (read_be64 p 8)))
        else if small_size = 0 then Inr None
        else if small_size < 8 then Inl (Runtime_Error ''impossible MP4 box size'')
        else if of_nat (length p) < (ucast small_size :: u64) then Inr None else Inr (Some (ucast small_size)))"

definition next_box :: "StreamingMp4Reader \<Rightarrow> exn + StreamingBoxResult option \<times> StreamingMp4Reader" where
  "next_box r =
     (let p = pending_bytes r in
      case next_box_size p of
        Inl e \<Rightarrow> Inl e
      | Inr None \<Rightarrow> Inr (None, r)
      | Inr (Some box_size) \<Rightarrow>
          let result = \<lparr>sb_type = of_bytes (slice p 4 4), sb_bytes = take (unat box_size) p\<rparr>;
              r = r\<lparr>sr_consumed := sr_consumed r + unat box_size\<rparr> in
          Inr (Some result, if sr_consumed r > 64 * 1024 then compact r else r))"


subsection \<open>Big-endian integers\<close>

definition nat_be :: "bytes \<Rightarrow> nat" where
  "nat_be bs = foldl (\<lambda>v b. v * 256 + unat b) 0 bs"

lemma nat_be_snoc: "nat_be (bs @ [b]) = nat_be bs * 256 + unat b"
  by (simp add: nat_be_def)

lemma nat_be_less: "nat_be bs < 256 ^ length bs"
proof (induction bs rule: rev_induct)
  case (snoc b bs)
  have "nat_be bs * 256 + unat b < (nat_be bs + 1) * 256" using unat_u8_less [of b] by simp
  also have "\<dots> \<le> 256 ^ length bs * 256" using snoc by (intro mult_le_mono1) simp
  finally show ?case by (simp add: nat_be_snoc)
qed (simp add: nat_be_def)

lemma unat_be_step:
  fixes v :: "'a::len word" and b :: u8
  assumes "unat v * 256 + 255 < 2 ^ LENGTH('a)"
  shows "unat (push_bit 8 v OR ucast b) = unat v * 256 + unat b"
proof -
  have l: "unat (push_bit 8 v) = unat v * 256"
    using assms by (simp only: unsigned_push_bit_eq take_bit_eq_mod) (simp add: push_bit_eq_mult)
  have b: "unat (ucast b :: 'a word) = unat b"
  proof -
    have "unat b < 2 ^ LENGTH('a)" using unat_u8_less [of b] assms by linarith
    then show ?thesis by (simp add: unsigned_ucast_eq take_bit_eq_mod)
  qed
  have "push_bit 8 v OR ucast b = push_bit 8 v + ucast b"
    by (rule sym, rule disjunctive_add) (auto simp: bit_simps dest: bit_imp_le_length)
  then show ?thesis
    using l b unat_u8_less [of b] assms by (simp add: unat_word_ariths)
qed

lemma unat_be_fold:
  assumes "8 * length bs \<le> LENGTH('a)"
  shows "unat (foldl (\<lambda>v b. push_bit 8 v OR ucast b) 0 bs :: 'a::len word) = nat_be bs"
  using assms
proof (induction bs rule: rev_induct)
  case (snoc b bs)
  have "nat_be bs * 256 + 255 < 256 ^ length bs * 256" using nat_be_less [of bs] by simp
  also have "\<dots> = 2 ^ (8 * length (bs @ [b]))" by (simp add: power_add power_mult)
  also have "\<dots> \<le> 2 ^ LENGTH('a)" using snoc.prems by (intro power_increasing) simp_all
  finally have "nat_be bs * 256 + 255 < 2 ^ LENGTH('a)" .
  with snoc show ?case by (simp add: unat_be_step nat_be_snoc)
qed (simp add: nat_be_def)

lemma unat_offset: "unat o1 + k < 2 ^ 64 \<Longrightarrow> unat (o1 + of_nat k :: u64) = unat o1 + k"
  by (simp add: unat_word_ariths)

lemma unat_sum: "unat a + unat b < 2 ^ 64 \<Longrightarrow> unat (a + b :: u64) = unat a + unat b"
  by (simp add: unat_word_ariths)

lemma read_be32_fold: "read_be32 bs o1 =
  foldl (\<lambda>v b. push_bit 8 v OR ucast b) 0 [byte_at bs o1, byte_at bs (o1 + 1), byte_at bs (o1 + 2), byte_at bs (o1 + 3)]"
  by (simp add: read_be32_def push_bit_or or.assoc)

lemma slice_4: "n + 4 \<le> length bs \<Longrightarrow> slice bs n 4 = [bs ! n, bs ! (n + 1), bs ! (n + 2), bs ! (n + 3)]"
  by (rule nth_equalityI) (auto simp: slice_def nth_append less_Suc_eq numeral_eq_Suc)

lemma slice_8: "n + 8 \<le> length bs \<Longrightarrow> slice bs n 8 = map (\<lambda>i. bs ! (n + i)) [0..<8]"
  by (rule nth_equalityI) (simp_all add: slice_def)

lemma unat_read_be32:
  assumes "unat o1 + 4 \<le> length bs" and "length bs < 2 ^ 64"
  shows "unat (read_be32 bs o1) = nat_be (slice bs (unat o1) 4)"
proof -
  have "unat (o1 + 1) = unat o1 + 1" "unat (o1 + 2) = unat o1 + 2" "unat (o1 + 3) = unat o1 + 3"
    using unat_offset [of o1 1] unat_offset [of o1 2] unat_offset [of o1 3] assms by simp_all
  then have "[byte_at bs o1, byte_at bs (o1 + 1), byte_at bs (o1 + 2), byte_at bs (o1 + 3)] = slice bs (unat o1) 4"
    using assms by (simp add: byte_at_def slice_4)
  then show ?thesis using assms by (simp only: read_be32_fold) (simp add: unat_be_fold fits_iff)
qed

lemma unat_read_be64:
  assumes "unat o1 + 8 \<le> length bs" and "length bs < 2 ^ 64"
  shows "unat (read_be64 bs o1) = nat_be (slice bs (unat o1) 8)"
proof -
  have "unat (o1 + of_nat i) = unat o1 + i" if "i < 8" for i using assms that by (intro unat_offset) simp
  then have "map (\<lambda>i. byte_at bs (o1 + of_nat i)) [0..<8] = slice bs (unat o1) 8"
    using assms by (simp add: byte_at_def slice_8)
  moreover have "read_be64 bs o1 = foldl (\<lambda>v b. push_bit 8 v OR ucast b) 0 (map (\<lambda>i. byte_at bs (o1 + of_nat i)) [0..<8])"
    by (simp add: read_be64_def foldl_map)
  ultimately show ?thesis using assms by (simp add: unat_be_fold fits_iff)
qed


subsection \<open>What a parse returns\<close>

text \<open>The size of the box at an offset of a range, as its header declares it.\<close>

definition declared_size :: "bytes \<Rightarrow> nat \<Rightarrow> nat \<Rightarrow> nat" where
  "declared_size bs first limit =
     (let small = nat_be (slice bs first 4) in
      if small = 1 then nat_be (slice bs (first + 8) 8) else if small = 0 then limit - first else small)"

definition declared_header :: "bytes \<Rightarrow> nat \<Rightarrow> nat" where
  "declared_header bs first = (if nat_be (slice bs first 4) = 1 then 16 else 8)"

definition declared_type :: "bytes \<Rightarrow> nat \<Rightarrow> string" where
  "declared_type bs first = of_bytes (slice bs (first + 4) 4)"

text \<open>
  The boxes lie one after the other in the range, each as its header declares it, with fewer than eight
  bytes after the last; a container's children tile its payload.
\<close>

fun tiles :: "bytes \<Rightarrow> nat \<Rightarrow> nat \<Rightarrow> Mp4Box list \<Rightarrow> bool" where
  "tiles bs first limit [] \<longleftrightarrow> first \<le> limit \<and> limit < first + 8"
| "tiles bs first limit (Mp4Box type span payload children # boxes) \<longleftrightarrow>
     (let size = declared_size bs first limit; header = declared_header bs first in
      type = declared_type bs first \<and> header \<le> size \<and> first + size \<le> limit \<and>
      unat (span_offset span) = first \<and> unat (span_size span) = size \<and>
      unat (span_offset payload) = first + header \<and> unat (span_size payload) = size - header \<and>
      (if is_container_type type then tiles bs (first + header) (first + size) children else children = []) \<and>
      tiles bs (first + size) limit boxes)"

text \<open>No box size in the file takes the cursor past \<open>2 ^ 64\<close>.\<close>

definition sizes_fit :: "bytes \<Rightarrow> bool" where
  "sizes_fit bs \<longleftrightarrow> (\<forall>i. i + 16 \<le> length bs \<longrightarrow> nat_be (slice bs i 4) = 1 \<longrightarrow> i + nat_be (slice bs (i + 8) 8) < 2 ^ 64)"

text \<open>The header of a box in a range, over natural numbers.\<close>

lemma box_header_eq:
  assumes "length bs < 2 ^ 63" and "sizes_fit bs" and "unat limit \<le> length bs" and "unat cursor + 8 \<le> unat limit"
  shows "case box_header bs cursor limit of
      Inl e \<Rightarrow> \<exists>m. e = Runtime_Error m
    | Inr (type, header, bsize) \<Rightarrow> type = declared_type bs (unat cursor) \<and> unat header = declared_header bs (unat cursor) \<and>
        unat bsize = declared_size bs (unat cursor) (unat limit) \<and> unat header \<le> unat bsize \<and>
        unat (cursor + bsize) = unat cursor + unat bsize \<and> unat cursor + unat bsize \<le> unat limit"
proof -
  let ?c = "unat cursor" and ?l = "unat limit"
  have small: "unat (read_be32 bs cursor) = nat_be (slice bs ?c 4)" using assms by (intro unat_read_be32) simp_all
  have zero: "read_be32 bs cursor = 0 \<longleftrightarrow> nat_be (slice bs ?c 4) = 0"
    using small by (metis unsigned_0 unat_eq_zero)
  have one: "read_be32 bs cursor = 1 \<longleftrightarrow> nat_be (slice bs ?c 4) = 1"
    using small by (metis unsigned_1 word_unat_eq_iff)
  have "unat (cursor + 16) = ?c + 16" using unat_offset [of cursor 16] assms by simp
  then have le16: "cursor + 16 > limit \<longleftrightarrow> ?l < ?c + 16" by (simp add: word_less_nat_alt)
  have type: "of_bytes (slice bs (unat (cursor + 4)) 4) = declared_type bs ?c"
    using unat_offset [of cursor 4] assms by (simp add: declared_type_def)
  have sum: "unat (cursor + bsize) = ?c + unat bsize \<and> (cursor + bsize > limit \<longleftrightarrow> ?l < ?c + unat bsize)"
    if "?c + unat bsize < 2 ^ 64" for bsize
    using that unat_offset [of cursor "unat bsize"] by (simp add: word_less_nat_alt)
  define bsize where "bsize = (if read_be32 bs cursor = 1 then read_be64 bs (cursor + 8)
    else if read_be32 bs cursor = 0 then limit - cursor else ucast (read_be32 bs cursor))"
  have size: "unat bsize = declared_size bs ?c ?l \<and> ?c + unat bsize < 2 ^ 64" if "read_be32 bs cursor = 1 \<Longrightarrow> ?c + 16 \<le> ?l"
  proof -
    consider (one) "read_be32 bs cursor = 1" | (zero) "read_be32 bs cursor = 0" | (small) "read_be32 bs cursor \<noteq> 0" "read_be32 bs cursor \<noteq> 1"
      by blast
    then show ?thesis
    proof cases
      case one
      have "unat (cursor + 8) = ?c + 8" using unat_offset [of cursor 8] assms by simp
      then have "unat (read_be64 bs (cursor + 8)) = nat_be (slice bs (?c + 8) 8)"
        using unat_read_be64 [of "cursor + 8" bs] that one assms by simp
      moreover have "?c + nat_be (slice bs (?c + 8) 8) < 2 ^ 64"
        using assms that one \<open>read_be32 bs cursor = 1 \<longleftrightarrow> nat_be (slice bs ?c 4) = 1\<close> by (simp add: sizes_fit_def)
      ultimately show ?thesis using one small by (simp add: bsize_def declared_size_def)
    next
      case zero
      have "unat (limit - cursor) = ?l - ?c" using assms by (intro unat_sub) (simp add: word_le_nat_alt)
      then show ?thesis using zero small assms by (simp add: bsize_def declared_size_def)
    next
      case small
      have lt: "unat (read_be32 bs cursor) < 2 ^ 32" using unsigned_less [of "read_be32 bs cursor"] by simp
      then have "unat (ucast (read_be32 bs cursor) :: u64) = unat (read_be32 bs cursor)"
        by (simp add: unsigned_ucast_eq take_bit_eq_mod)
      moreover note lt
      ultimately show ?thesis
        using small one zero \<open>unat (read_be32 bs cursor) = nat_be (slice bs ?c 4)\<close> assms
        by (simp add: bsize_def declared_size_def)
    qed
  qed
  show ?thesis
  proof (cases "read_be32 bs cursor = 1 \<and> cursor + 16 > limit")
    case True
    then show ?thesis by (simp add: box_header_def Let_def)
  next
    case False
    then have size': "unat bsize = declared_size bs ?c ?l" "?c + unat bsize < 2 ^ 64" using size le16 by auto
    have "box_header bs cursor limit =
        (if bsize < (if read_be32 bs cursor = 1 then 16 else 8) \<or> cursor + bsize > limit then
          Inl (Runtime_Error (''invalid MP4 box size for box type '' @ declared_type bs ?c))
        else Inr (declared_type bs ?c, (if read_be32 bs cursor = 1 then 16 else 8), bsize))"
      by (simp only: box_header_def Let_def type bsize_def if_not_P [OF False])
    then show ?thesis using size' sum [OF size'(2)] one
      by (auto simp: declared_header_def word_less_nat_alt not_less)
  qed
qed


lemma parse_box_range_step:
  assumes "cursor + 8 \<le> limit" and "box_header bs cursor limit = Inr (type, hsize, bsize)"
    and "(if is_container_type type then parse_box_range bs (cursor + hsize) (cursor + hsize + (bsize - hsize))
      else Some (Inr [])) = Some c"
  shows "parse_box_range bs cursor limit =
    (case c of
       Inl e \<Rightarrow> Some (Inl e)
     | Inr children \<Rightarrow>
         Option.bind (parse_box_range bs (cursor + bsize) limit)
           (\<lambda>later. case later of
              Inl e \<Rightarrow> Some (Inl e)
            | Inr boxes \<Rightarrow> Some (Inr (Mp4Box type \<lparr>span_offset = cursor, span_size = bsize\<rparr>
                \<lparr>span_offset = cursor + hsize, span_size = bsize - hsize\<rparr> children # boxes))))"
  by (subst parse_box_range.simps)
    (simp only: assms if_True sum.case prod.case Let_def ByteSpan.select_convs Option.bind_lunit)

lemma parse_box_range_tiles:
  assumes "length bs < 2 ^ 63" and "sizes_fit bs"
  shows "unat cursor \<le> unat limit \<Longrightarrow> unat limit \<le> length bs \<Longrightarrow>
    \<exists>r. parse_box_range bs cursor limit = Some r \<and>
      (case r of Inl e \<Rightarrow> \<exists>m. e = Runtime_Error m | Inr boxes \<Rightarrow> tiles bs (unat cursor) (unat limit) boxes)"
proof (induction "unat limit - unat cursor" arbitrary: cursor limit rule: less_induct)
  case less
  have plus8: "cursor + 8 \<le> limit \<longleftrightarrow> unat cursor + 8 \<le> unat limit"
    using unat_offset [of cursor 8] less.prems assms(1) by (simp add: word_le_nat_alt)
  show ?case
  proof (cases "cursor + 8 \<le> limit")
    case False
    then have "unat limit < unat cursor + 8" using plus8 by simp
    then show ?thesis using less.prems False by (simp add: parse_box_range.simps [of bs cursor limit])
  next
    case True
    note header = box_header_eq [OF assms less.prems(2), of cursor]
    show ?thesis
    proof (cases "box_header bs cursor limit")
      case (Inl e)
      then show ?thesis using True header plus8 by (simp add: parse_box_range.simps [of bs cursor limit])
    next
      case (Inr h)
      obtain type hsize bsize where h: "box_header bs cursor limit = Inr (type, hsize, bsize)" using Inr by (cases h) auto
      note facts = header [unfolded h, simplified, OF iffD1 [OF plus8 True]]
      let ?first = "cursor + hsize" and ?last = "cursor + hsize + (bsize - hsize)"
      have psize: "unat (bsize - hsize) = unat bsize - unat hsize" using facts by (intro unat_sub) (simp add: word_le_nat_alt)
      have first: "unat ?first = unat cursor + unat hsize"
        using facts less.prems assms(1) by (intro unat_sum) simp
      have last: "unat ?last = unat cursor + unat bsize" using facts by simp
      have hpos: "8 \<le> unat hsize" using facts by (simp add: declared_header_def split: if_splits)
      obtain c where c: "(if is_container_type type then parse_box_range bs ?first ?last else Some (Inr [])) = Some c"
        and ctiles: "case c of Inl e \<Rightarrow> \<exists>m. e = Runtime_Error m
          | Inr boxes \<Rightarrow> if is_container_type type then tiles bs (unat ?first) (unat ?last) boxes else boxes = []"
      proof (cases "is_container_type type")
        case True
        have "unat ?last - unat ?first < unat limit - unat cursor" using first last facts hpos by linarith
        from less.hyps [OF this] obtain c where "parse_box_range bs ?first ?last = Some c"
            "case c of Inl e \<Rightarrow> \<exists>m. e = Runtime_Error m | Inr boxes \<Rightarrow> tiles bs (unat ?first) (unat ?last) boxes"
          using first last facts less.prems by fastforce
        then show ?thesis using True by (intro that [of c]) (simp_all only: if_True)
      next
        case False
        then show ?thesis using that [of "Inr []"] by simp
      qed
      note step = parse_box_range_step [OF True h c]
      show ?thesis
      proof (cases c)
        case (Inl e)
        have "parse_box_range bs cursor limit = Some (Inl e)"
          using step Inl by simp
        then show ?thesis using ctiles Inl by simp
      next
        case (Inr children)
        have ct: "if is_container_type type then tiles bs (unat cursor + unat hsize) (unat cursor + unat bsize) children else children = []"
          using ctiles by (simp only: Inr sum.case first last)
        have "unat limit - unat (cursor + bsize) < unat limit - unat cursor" using facts hpos by linarith
        from less.hyps [OF this] obtain r where r: "parse_box_range bs (cursor + bsize) limit = Some r"
            "case r of Inl e \<Rightarrow> \<exists>m. e = Runtime_Error m | Inr boxes \<Rightarrow> tiles bs (unat (cursor + bsize)) (unat limit) boxes"
          using facts less.prems by fastforce
        show ?thesis
        proof (cases r)
          case (Inl e)
          have "parse_box_range bs cursor limit = Some (Inl e)"
            using step \<open>c = Inr children\<close> r(1) Inl by simp
          then show ?thesis using r(2) Inl by simp
        next
          case (Inr boxes)
          have "parse_box_range bs cursor limit = Some (Inr (Mp4Box type \<lparr>span_offset = cursor, span_size = bsize\<rparr>
              \<lparr>span_offset = ?first, span_size = bsize - hsize\<rparr> children # boxes))"
            using step \<open>c = Inr children\<close> r(1) Inr by simp
          moreover have "tiles bs (unat cursor) (unat limit) (Mp4Box type \<lparr>span_offset = cursor, span_size = bsize\<rparr>
              \<lparr>span_offset = ?first, span_size = bsize - hsize\<rparr> children # boxes)"
            using facts psize first ct r(2) Inr by (simp add: Let_def split: if_splits)
          ultimately show ?thesis by simp
        qed
      qed
    qed
  qed
qed

lemma parse_mp4_tiles:
  assumes "length bs < 2 ^ 63" and "sizes_fit bs"
  shows "\<exists>r. parse_mp4_boxes bs = Some r \<and>
    (case r of Inl e \<Rightarrow> \<exists>m. e = Runtime_Error m | Inr boxes \<Rightarrow> tiles bs 0 (length bs) boxes)"
proof -
  have "unat (of_nat (length bs) :: u64) = length bs" using assms(1) by (intro unat_of_nat_u64) simp
  then show ?thesis
    using parse_box_range_tiles [OF assms, of 0 "of_nat (length bs)"] by (simp only: parse_mp4_boxes_def unsigned_0)
qed

text \<open>C26: Parsing returns, whatever the file, as long as no 64-bit box size in it takes the cursor past
  \<open>2 ^ 64\<close>: it throws a runtime error or returns boxes that tile the file, each of the type and
  size its header declares, and whose children tile the payload of their container.\<close>

theorem parse_mp4_well_formed:
  assumes "length bs < 2 ^ 63" and "sizes_fit bs"
  shows "\<exists>r. parse_mp4_boxes bs = Some r \<and>
    (case r of Inl e \<Rightarrow> \<exists>m. e = Runtime_Error m | Inr boxes \<Rightarrow> tiles bs 0 (length bs) boxes)"
  by (rule parse_mp4_tiles [OF assms])

definition wrapping_file :: bytes where
  "wrapping_file = [0, 0, 0, 8] @ to_bytes ''free'' @ [0, 0, 0, 1] @ to_bytes ''mdat'' @
     [0xff, 0xff, 0xff, 0xff, 0xff, 0xff, 0xff, 0xf8]"

lemma wrapping_headers:
  "box_header wrapping_file 0 24 = Inr (''free'', 8, 8)"
  "box_header wrapping_file 8 24 = Inr (''mdat'', 16, - 8)"
  "is_container_type ''free'' = False" "is_container_type ''mdat'' = False"
  by code_simp+

text \<open>C31: A file of 24 bytes keeps the parser busy for ever. Its second box declares a 64-bit size of
  \<open>2 ^ 64 - 8\<close>; the cursor plus that size wraps to 0, which passes the check against the end of
  the range, and the parser starts again at the first box.\<close>

theorem parse_mp4_never_returns: "parse_mp4_boxes wrapping_file = None"
proof -
  have "\<not> (bs = wrapping_file \<and> limit = 24 \<and> (cursor = 0 \<or> cursor = 8))"
    if "parse_box_range bs cursor limit = Some r" for bs cursor limit r
  proof (rule parse_box_range.raw_induct [where
      P = "\<lambda>bs cursor limit r. \<not> (bs = wrapping_file \<and> limit = 24 \<and> (cursor = 0 \<or> cursor = 8))", OF _ that])
    fix f bs cursor limit r
    assume ih: "\<And>bs cursor limit r. f bs cursor limit = Some r \<Longrightarrow>
        \<not> (bs = wrapping_file \<and> limit = 24 \<and> (cursor = 0 \<or> cursor = 8))"
      and eq: "(if cursor + 8 \<le> limit then
        (case box_header bs cursor limit of
           Inl e \<Rightarrow> Some (Inl e)
         | Inr (type, header_size, box_size) \<Rightarrow>
             let payload = \<lparr>span_offset = cursor + header_size, span_size = box_size - header_size\<rparr> in
             Option.bind
               (if is_container_type type then f bs (span_offset payload) (span_offset payload + span_size payload)
                else Some (Inr []))
               (\<lambda>children. case children of
                  Inl e \<Rightarrow> Some (Inl e)
                | Inr children \<Rightarrow>
                    Option.bind (f bs (cursor + box_size) limit)
                      (\<lambda>later. case later of
                         Inl e \<Rightarrow> Some (Inl e)
                       | Inr boxes \<Rightarrow>
                           Some (Inr (Mp4Box type \<lparr>span_offset = cursor, span_size = box_size\<rparr> payload children # boxes)))))
      else Some (Inr [])) = Some r"
    have "f wrapping_file 8 24 = None" "f wrapping_file 0 24 = None"
      using ih [of wrapping_file 8 24] ih [of wrapping_file 0 24] by (cases "f wrapping_file 8 24"; cases "f wrapping_file 0 24"; simp)+
    then show "\<not> (bs = wrapping_file \<and> limit = 24 \<and> (cursor = 0 \<or> cursor = 8))"
      using eq by (auto simp: wrapping_headers Let_def)
  qed
  from this [of wrapping_file 0 24] show ?thesis
    by (cases "parse_box_range wrapping_file 0 24") (simp_all add: parse_mp4_boxes_def wrapping_file_def to_bytes_def)
qed


subsection \<open>Reading a stream\<close>

text \<open>The caller's loop: take boxes until the reader needs more input or throws.\<close>

lemma next_box_size_bounds:
  assumes "next_box_size p = Inr (Some n)"
  shows "8 \<le> unat n" and "unat n \<le> length p"
proof -
  have "unat (of_nat (length p) :: u64) \<le> length p" by (simp add: unat_of_nat)
  then have le: "unat n \<le> length p" if "\<not> of_nat (length p) < n"
    using that unfolding word_less_nat_alt by linarith
  have "8 \<le> unat n \<and> \<not> of_nat (length p) < n"
  proof (cases "read_be32 p 0 = 1")
    case True
    then have "\<not> read_be64 p 8 < 16 \<and> n = read_be64 p 8 \<and> \<not> of_nat (length p) < n"
      using assms by (auto simp: next_box_size_def Let_def split: if_splits)
    then show ?thesis by (auto simp: word_less_nat_alt)
  next
    case False
    then have n: "n = ucast (read_be32 p 0) \<and> \<not> read_be32 p 0 < 8 \<and> \<not> of_nat (length p) < n"
      using assms by (auto simp: next_box_size_def Let_def split: if_splits)
    have "unat (read_be32 p 0) < 2 ^ 32" using unsigned_less [of "read_be32 p 0"] by simp
    then have "unat n = unat (read_be32 p 0)" using n by (simp add: unsigned_ucast_eq take_bit_eq_mod)
    then show ?thesis using n by (auto simp: word_less_nat_alt)
  qed
  then show "8 \<le> unat n" "unat n \<le> length p" using le by simp_all
qed

lemma pending_next_box:
  assumes "next_box r = Inr (result, r')"
  shows "case next_box_size (pending_bytes r) of
      Inl e \<Rightarrow> False
    | Inr None \<Rightarrow> result = None \<and> r' = r
    | Inr (Some n) \<Rightarrow> pending_bytes r' = drop (unat n) (pending_bytes r) \<and>
        result = Some \<lparr>sb_type = of_bytes (slice (pending_bytes r) 4 4), sb_bytes = take (unat n) (pending_bytes r)\<rparr>"
  using assms
  by (auto simp: next_box_def Let_def pending_bytes_def compact_def add.commute split: sum.splits option.splits if_splits)

function drain :: "StreamingMp4Reader \<Rightarrow> StreamingBoxResult list \<times> exn option \<times> StreamingMp4Reader" where
  "drain r =
     (case next_box r of
        Inl e \<Rightarrow> ([], Some e, r)
      | Inr (None, r) \<Rightarrow> ([], None, r)
      | Inr (Some result, r) \<Rightarrow> (case drain r of (results, e, r) \<Rightarrow> (result # results, e, r)))"
  by pat_completeness auto

termination
proof (relation "measure (\<lambda>r. length (pending_bytes r))")
  fix r x y r' result
  assume "next_box r = Inr x" and "(y, r') = x" and "y = Some result"
  then have "case next_box_size (pending_bytes r) of Inr (Some n) \<Rightarrow> pending_bytes r' = drop (unat n) (pending_bytes r) | _ \<Rightarrow> False"
    using pending_next_box [of r "Some result" r'] by (auto split: sum.splits option.splits)
  then show "(r', r) \<in> measure (\<lambda>r. length (pending_bytes r))"
    using next_box_size_bounds [of "pending_bytes r"] by (fastforce split: sum.splits option.splits)
qed simp

declare drain.simps [simp del]

text \<open>Input arrives in chunks; the loop runs after each.\<close>

fun feed :: "bytes list \<Rightarrow> StreamingMp4Reader \<Rightarrow> StreamingBoxResult list \<times> exn option \<times> StreamingMp4Reader" where
  "feed [] r = ([], None, r)"
| "feed (chunk # chunks) r =
     (case drain (reader_append chunk r) of
        (results, Some e, r) \<Rightarrow> (results, Some e, r)
      | (results, None, r) \<Rightarrow> (case feed chunks r of (later, e, r) \<Rightarrow> (results @ later, e, r)))"

text \<open>The boxes of a byte string, what stops the reading, and the bytes that remain.\<close>

function split_boxes :: "bytes \<Rightarrow> StreamingBoxResult list \<times> exn option \<times> bytes" where
  "split_boxes p =
     (case next_box_size p of
        Inl e \<Rightarrow> ([], Some e, p)
      | Inr None \<Rightarrow> ([], None, p)
      | Inr (Some n) \<Rightarrow>
          (case split_boxes (drop (unat n) p) of (results, e, rest) \<Rightarrow>
             (\<lparr>sb_type = of_bytes (slice p 4 4), sb_bytes = take (unat n) p\<rparr> # results, e, rest)))"
  by pat_completeness auto

termination
proof (relation "measure length")
  fix p x n
  assume "next_box_size p = Inr x" and "x = Some n"
  then have "8 \<le> unat n" "unat n \<le> length p" using next_box_size_bounds [of p n] by simp_all
  then show "(drop (unat n) p, p) \<in> measure length" by simp
qed simp

declare split_boxes.simps [simp del]

lemma next_box_ok:
  assumes "next_box r = Inr (result, r')" and "sr_consumed r \<le> length (sr_buffer r)"
  shows "sr_consumed r' \<le> length (sr_buffer r')"
proof -
  have "unat n \<le> length (sr_buffer r) - sr_consumed r" if "next_box_size (pending_bytes r) = Inr (Some n)" for n
    using next_box_size_bounds(2) [OF that] by (simp add: pending_bytes_def)
  then show ?thesis
    using assms by (fastforce simp: next_box_def Let_def compact_def split: sum.splits option.splits if_splits)
qed

lemma drain_ok: "sr_consumed r \<le> length (sr_buffer r) \<Longrightarrow>
    sr_consumed (snd (snd (drain r))) \<le> length (sr_buffer (snd (snd (drain r))))"
proof (induction r rule: drain.induct)
  case (1 r)
  then show ?case
    by (auto simp: drain.simps [of r] next_box_ok split: sum.splits option.splits prod.splits)
qed

lemma drain_split:
  "\<exists>r'. drain r = (fst (split_boxes (pending_bytes r)), fst (snd (split_boxes (pending_bytes r))), r') \<and>
     pending_bytes r' = snd (snd (split_boxes (pending_bytes r)))"
proof (induction r rule: drain.induct)
  case (1 r)
  show ?case
  proof (cases "next_box r")
    case (Inl e)
    then have "next_box_size (pending_bytes r) = Inl e"
      by (auto simp: next_box_def Let_def split: sum.splits option.splits)
    then show ?thesis using Inl by (simp add: drain.simps [of r] split_boxes.simps [of "pending_bytes r"])
  next
    case (Inr x)
    obtain result r' where x: "x = (result, r')" by (cases x)
    note next_facts = pending_next_box [OF Inr [unfolded x]]
    show ?thesis
    proof (cases result)
      case None
      then have "next_box_size (pending_bytes r) = Inr None \<and> r' = r"
        using next_facts by (auto split: sum.splits option.splits)
      then show ?thesis using Inr x None by (simp add: drain.simps [of r] split_boxes.simps [of "pending_bytes r"])
    next
      case (Some b)
      then obtain n where n: "next_box_size (pending_bytes r) = Inr (Some n)" "pending_bytes r' = drop (unat n) (pending_bytes r)"
          "b = \<lparr>sb_type = of_bytes (slice (pending_bytes r) 4 4), sb_bytes = take (unat n) (pending_bytes r)\<rparr>"
        using next_facts by (auto split: sum.splits option.splits)
      obtain r'' where "drain r' = (fst (split_boxes (pending_bytes r')), fst (snd (split_boxes (pending_bytes r'))), r'')"
          "pending_bytes r'' = snd (snd (split_boxes (pending_bytes r')))"
        using "1.IH" [OF Inr _ Some] x by blast
      then show ?thesis using Inr x Some n
        by (simp add: drain.simps [of r] split_boxes.simps [of "pending_bytes r"] split: prod.splits)
    qed
  qed
qed

text \<open>What the reader decided stays decided when more input arrives.\<close>

lemma next_box_size_append:
  assumes "next_box_size p \<noteq> Inr None" and "length (p @ q) < 2 ^ 64"
  shows "next_box_size (p @ q) = next_box_size p"
proof -
  have l: "8 \<le> length p" using assms(1) by (auto simp: next_box_size_def split: if_splits)
  then have be32: "read_be32 (p @ q) 0 = read_be32 p 0"
    by (auto simp: read_be32_def byte_at_def nth_append)
  have be64: "read_be64 (p @ q) 8 = read_be64 p 8" if "16 \<le> length p"
    using that by (simp add: read_be64_def byte_at_def nth_append upt_rec)
  have "unat (of_nat (length (p @ q)) :: u64) = length (p @ q)" "unat (of_nat (length p) :: u64) = length p"
    using assms(2) by (simp_all only: unat_of_nat_u64) simp
  then have mono: "\<not> of_nat (length (p @ q)) < n" if "\<not> of_nat (length p) < n" for n :: u64
    using that unfolding word_less_nat_alt by simp
  show ?thesis
  proof (cases "read_be32 p 0 = 1")
    case True
    then have "16 \<le> length p" using assms(1) by (auto simp: next_box_size_def Let_def split: if_splits)
    with True assms(1) l show ?thesis
      using mono [of "read_be64 p 8"] by (auto simp: next_box_size_def Let_def be32 be64 split: if_splits)
  next
    case False
    with assms(1) l show ?thesis
      using mono [of "ucast (read_be32 p 0)"] by (auto simp: next_box_size_def Let_def be32 split: if_splits)
  qed
qed

lemma split_boxes_append:
  assumes "length (p @ q) < 2 ^ 64"
  shows "split_boxes (p @ q) =
    (case split_boxes p of
       (results, Some e, rest) \<Rightarrow> (results, Some e, rest @ q)
     | (results, None, rest) \<Rightarrow> (case split_boxes (rest @ q) of (later, e, rest) \<Rightarrow> (results @ later, e, rest)))"
  using assms
proof (induction p rule: split_boxes.induct)
  case (1 p)
  show ?case
  proof (cases "next_box_size p")
    case (Inl e)
    then show ?thesis using next_box_size_append [of p q] "1.prems"
      by (simp add: split_boxes.simps [of p] split_boxes.simps [of "p @ q"])
  next
    case (Inr x)
    show ?thesis
    proof (cases x)
      case None
      then show ?thesis using Inr by (simp add: split_boxes.simps [of p] split: prod.splits)
    next
      case (Some n)
      have n: "8 \<le> unat n" "unat n \<le> length p" using next_box_size_bounds [of p n] Inr Some by simp_all
      then have "split_boxes (drop (unat n) p @ q) = (case split_boxes (drop (unat n) p) of
         (results, Some e, rest) \<Rightarrow> (results, Some e, rest @ q)
       | (results, None, rest) \<Rightarrow> (case split_boxes (rest @ q) of (later, e, rest) \<Rightarrow> (results @ later, e, rest)))"
        using "1.IH" [OF Inr Some] "1.prems" by simp
      moreover have "split_boxes p = (case split_boxes (drop (unat n) p) of (results, e, rest) \<Rightarrow>
          (\<lparr>sb_type = of_bytes (slice p 4 4), sb_bytes = take (unat n) p\<rparr> # results, e, rest))"
        using Inr Some by (simp add: split_boxes.simps [of p])
      moreover have "split_boxes (p @ q) = (case split_boxes (drop (unat n) p @ q) of (results, e, rest) \<Rightarrow>
          (\<lparr>sb_type = of_bytes (slice p 4 4), sb_bytes = take (unat n) p\<rparr> # results, e, rest))"
        using next_box_size_append [of p q] "1.prems" Inr Some n
        by (simp add: split_boxes.simps [of "p @ q"] slice_def)
      ultimately show ?thesis
        by (auto split: prod.splits option.splits)
    qed
  qed
qed

lemma split_boxes_induct [case_names stop box]:
  assumes "\<And>p. \<not> (\<exists>n. next_box_size p = Inr (Some n)) \<Longrightarrow> P p"
    and "\<And>p n. next_box_size p = Inr (Some n) \<Longrightarrow> P (drop (unat n) p) \<Longrightarrow> P p"
  shows "P p"
proof (induction p rule: split_boxes.induct)
  case (1 p)
  then show ?case using assms by blast
qed

lemma split_boxes_stop:
  "\<not> (\<exists>n. next_box_size p = Inr (Some n)) \<Longrightarrow>
    split_boxes p = ([], (case next_box_size p of Inl e \<Rightarrow> Some e | Inr _ \<Rightarrow> None), p)"
  by (auto simp: split_boxes.simps [of p] split: sum.splits option.splits)

lemma split_boxes_box:
  "next_box_size p = Inr (Some n) \<Longrightarrow> split_boxes p =
    (\<lparr>sb_type = of_bytes (slice p 4 4), sb_bytes = take (unat n) p\<rparr> # fst (split_boxes (drop (unat n) p)),
     snd (split_boxes (drop (unat n) p)))"
  by (simp add: split_boxes.simps [of p] split: prod.splits)

lemma split_boxes_shorter: "length (snd (snd (split_boxes p))) \<le> length p"
  by (induction p rule: split_boxes_induct) (simp_all add: split_boxes_stop split_boxes_box)

lemma split_boxes_rest: "fst (snd (split_boxes p)) = None \<Longrightarrow>
    split_boxes (snd (snd (split_boxes p))) = ([], None, snd (snd (split_boxes p)))"
  by (induction p rule: split_boxes_induct) (simp_all add: split_boxes_stop split_boxes_box)

lemma feed_split:
  assumes "length (concat chunks) < 2 ^ 64"
  shows "case split_boxes (concat chunks) of (results, e, rest) \<Rightarrow>
    \<exists>r. feed chunks new_reader = (results, e, r) \<and> (e = None \<longrightarrow> pending_bytes r = rest)"
proof -
  have "\<exists>r'. feed chunks r = (results, e, r') \<and> (e = None \<longrightarrow> pending_bytes r' = rest)"
    if "length (pending_bytes r @ concat chunks) < 2 ^ 64" and "sr_consumed r \<le> length (sr_buffer r)"
      and "split_boxes (pending_bytes r) = ([], None, pending_bytes r)"
      and "split_boxes (pending_bytes r @ concat chunks) = (results, e, rest)"
    for r results e rest
    using that
  proof (induction chunks arbitrary: r results)
    case Nil
    then show ?case by simp
  next
    case (Cons c cs)
    let ?r = "reader_append c r"
    have p: "pending_bytes ?r = pending_bytes r @ c"
      using Cons.prems(2) by (simp add: pending_bytes_def reader_append_def)
    obtain results1 e1 rest1 where s: "split_boxes (pending_bytes ?r) = (results1, e1, rest1)"
      by (cases "split_boxes (pending_bytes ?r)")
    then obtain r1 where r1: "drain ?r = (results1, e1, r1)" "pending_bytes r1 = rest1"
      using drain_split [of ?r] by auto
    have whole: "split_boxes (pending_bytes ?r @ concat cs) = (results, e, rest)" using Cons.prems(4) p by simp
    have len: "length (pending_bytes ?r @ concat cs) < 2 ^ 64" using Cons.prems(1) p by simp
    note app = split_boxes_append [OF len, unfolded s whole, simplified]
    show ?case
    proof (cases e1)
      case (Some x)
      then show ?thesis using app r1 by simp
    next
      case None
      obtain results2 e2 rest2 where s2: "split_boxes (rest1 @ concat cs) = (results2, e2, rest2)"
        by (cases "split_boxes (rest1 @ concat cs)")
      then have eq: "results = results1 @ results2" "e = e2" "rest = rest2" using app None by simp_all
      have "length (pending_bytes r1 @ concat cs) < 2 ^ 64" using split_boxes_shorter [of "pending_bytes ?r"] s r1 len by simp
      moreover have "sr_consumed r1 \<le> length (sr_buffer r1)"
        using drain_ok [of ?r] Cons.prems(2) r1 by (simp add: reader_append_def)
      moreover have "split_boxes (pending_bytes r1) = ([], None, pending_bytes r1)"
        using split_boxes_rest [of "pending_bytes ?r"] s None r1 by simp
      ultimately obtain r2 where "feed cs r1 = (results2, e2, r2)" "e2 = None \<longrightarrow> pending_bytes r2 = rest2"
        using Cons.IH [of r1 results2] s2 eq r1 by auto
      then show ?thesis using r1 None eq by simp
    qed
  qed
  from this [of new_reader] assms show ?thesis
    by (auto simp: new_reader_def pending_bytes_def split_boxes.simps [of "[]"] next_box_size_def)
qed


text \<open>C27: The incremental reader does not depend on how its input is cut: whatever the chunks, reading the
  boxes after each chunk returns the boxes of the whole input, stops at the same exception, and without
  one keeps the same unread bytes.\<close>

theorem stream_reader_chunk_independent:
  assumes "length (concat chunks) < 2 ^ 64"
  shows "case split_boxes (concat chunks) of (results, e, rest) \<Rightarrow>
    \<exists>r. feed chunks new_reader = (results, e, r) \<and> (e = None \<longrightarrow> pending_bytes r = rest)"
  by (rule feed_split [OF assms])

lemma slice_drop: "slice (drop k bs) n m = slice bs (k + n) m"
  by (simp add: slice_def add.commute)

lemma next_box_size_declared:
  assumes "length bs < 2 ^ 63" and "declared_header bs first \<le> declared_size bs first (length bs)"
    and "first + declared_size bs first (length bs) \<le> length bs" and "nat_be (slice bs first 4) \<noteq> 0"
  shows "\<exists>n. next_box_size (drop first bs) = Inr (Some n) \<and> unat n = declared_size bs first (length bs)"
proof -
  let ?p = "drop first bs" and ?small = "nat_be (slice bs first 4)" and ?size = "declared_size bs first (length bs)"
  have h: "8 \<le> declared_header bs first" by (simp add: declared_header_def)
  then have l: "8 \<le> length ?p" using assms by simp
  have len: "unat (of_nat (length ?p) :: u64) = length ?p" using assms(1) by (intro unat_of_nat_u64) simp
  have be32: "unat (read_be32 ?p 0) = ?small"
    using unat_read_be32 [of 0 ?p] l assms(1) by (simp add: slice_drop)
  have fit: "\<not> of_nat (length ?p) < n" if "unat n = ?size" for n :: u64
    using that assms(3) unfolding word_less_nat_alt len by simp
  show ?thesis
  proof (cases "?small = 1")
    case True
    then have one: "read_be32 ?p 0 = 1" using be32 by (metis unsigned_1 word_unat_eq_iff)
    have size: "?size = nat_be (slice bs (first + 8) 8)" "16 \<le> ?size"
      using True assms(2) by (simp_all add: declared_size_def declared_header_def)
    then have l16: "16 \<le> length ?p" using assms(3) by simp
    then have be64: "unat (read_be64 ?p 8) = ?size"
      using unat_read_be64 [of 8 ?p] assms(1) size by (simp add: slice_drop)
    then have "\<not> read_be64 ?p 8 < 16" using size by (simp add: word_less_nat_alt)
    then show ?thesis using one l l16 be64 fit [OF be64] by (simp add: next_box_size_def)
  next
    case False
    then have "read_be32 ?p 0 \<noteq> 1" "read_be32 ?p 0 \<noteq> 0" using be32 assms(4) by auto
    moreover have size: "?size = ?small" "8 \<le> ?small"
      using False assms(2,4) by (simp_all add: declared_size_def declared_header_def)
    moreover have "\<not> read_be32 ?p 0 < 8" using be32 size by (simp add: word_less_nat_alt)
    moreover have u: "unat (ucast (read_be32 ?p 0) :: u64) = ?size"
    proof -
      have "unat (read_be32 ?p 0) < 2 ^ 32" using unsigned_less [of "read_be32 ?p 0"] by simp
      then show ?thesis using be32 size by (simp add: unsigned_ucast_eq take_bit_eq_mod)
    qed
    ultimately show ?thesis using l fit [OF u] by (simp add: next_box_size_def Let_def)
  qed
qed

text \<open>A top-level box as the incremental reader returns it.\<close>

definition as_streamed :: "bytes \<Rightarrow> Mp4Box \<Rightarrow> StreamingBoxResult" where
  "as_streamed bs box = \<lparr>sb_type = box_type box, sb_bytes = slice_bytes bs (box_span box)\<rparr>"

definition to_end_of_file :: "bytes \<Rightarrow> Mp4Box \<Rightarrow> bool" where
  "to_end_of_file bs box \<longleftrightarrow> nat_be (slice bs (unat (span_offset (box_span box))) 4) = 0"

lemma tiles_split:
  assumes "length bs < 2 ^ 63" and "tiles bs first (length bs) boxes" and "\<forall>box \<in> set boxes. \<not> to_end_of_file bs box"
  shows "fst (split_boxes (drop first bs)) = map (as_streamed bs) boxes \<and> fst (snd (split_boxes (drop first bs))) = None \<and>
    length (snd (snd (split_boxes (drop first bs)))) < 8"
  using assms(2,3)
proof (induction boxes arbitrary: first)
  case Nil
  then have "length (drop first bs) < 8" by auto
  then have "next_box_size (drop first bs) = Inr None" by (simp add: next_box_size_def)
  then show ?case using \<open>length (drop first bs) < 8\<close> by (simp add: split_boxes_stop)
next
  case (Cons box boxes)
  obtain type span payload children where b: "box = Mp4Box type span payload children" by (cases box)
  let ?size = "declared_size bs first (length bs)"
  have t: "type = declared_type bs first" "declared_header bs first \<le> ?size" "first + ?size \<le> length bs"
      "unat (span_offset span) = first" "unat (span_size span) = ?size" "tiles bs (first + ?size) (length bs) boxes"
    using Cons.prems(1) by (simp_all add: b Let_def)
  have "nat_be (slice bs first 4) \<noteq> 0" using Cons.prems(2) t(4) by (simp add: b to_end_of_file_def)
  from next_box_size_declared [OF assms(1) t(2,3) this] obtain n where
    n: "next_box_size (drop first bs) = Inr (Some n)" "unat n = ?size" by blast
  have "as_streamed bs box = \<lparr>sb_type = of_bytes (slice (drop first bs) 4 4), sb_bytes = take (unat n) (drop first bs)\<rparr>"
    using t n(2) by (simp add: as_streamed_def b declared_type_def slice_drop slice_bytes_def slice_def add.commute)
  then show ?case
    using Cons.IH [OF t(6)] Cons.prems(2) n by (simp add: split_boxes_box add.commute)
qed

text \<open>The incremental reader and the parser of whole files agree: fed in chunks with a file that parses, and
  none of whose top-level boxes runs to the end of the file, the reader returns the top-level boxes of the
  parse in order, with their types and bytes, and fewer than eight bytes remain.\<close>

theorem stream_reader_matches_parser:
  assumes "parse_mp4_boxes (concat chunks) = Some (Inr boxes)" and "length (concat chunks) < 2 ^ 63"
    and "sizes_fit (concat chunks)" and "\<forall>box \<in> set boxes. \<not> to_end_of_file (concat chunks) box"
  shows "\<exists>r. feed chunks new_reader = (map (as_streamed (concat chunks)) boxes, None, r) \<and> length (pending_bytes r) < 8"
proof -
  have "tiles (concat chunks) 0 (length (concat chunks)) boxes"
    using parse_mp4_tiles [OF assms(2,3)] assms(1) by auto
  then have "fst (split_boxes (concat chunks)) = map (as_streamed (concat chunks)) boxes"
      "fst (snd (split_boxes (concat chunks))) = None" "length (snd (snd (split_boxes (concat chunks)))) < 8"
    using tiles_split [OF assms(2) _ assms(4), of 0] by simp_all
  then show ?thesis
    using feed_split [of chunks] assms(2) by (auto split: prod.splits)
qed

definition two_boxes :: bytes where
  "two_boxes = [0, 0, 0, 16] @ to_bytes ''moof'' @ [0, 0, 0, 8] @ to_bytes ''mfhd'' @
     [0, 0, 0, 1] @ to_bytes ''mdat'' @ [0, 0, 0, 0, 0, 0, 0, 17, 0xff]"

text \<open>A condition that evaluates: after every \<open>00 00 00 01\<close>, the 64-bit size starts with a zero byte.\<close>

lemma nat_be_foldl: "foldl (\<lambda>v b. v * 256 + unat b) v bs = v * 256 ^ length bs + nat_be bs"
proof (induction bs rule: rev_induct)
  case (snoc b bs)
  then show ?case by (simp add: nat_be_snoc algebra_simps)
qed (simp add: nat_be_def)

lemma nat_be_Cons: "nat_be (b # bs) = unat b * 256 ^ length bs + nat_be bs"
  using nat_be_foldl [of "unat b" bs] by (simp add: nat_be_def)

lemma nat_be_one: "length bs = 4 \<Longrightarrow> nat_be bs = 1 \<longleftrightarrow> bs = [0, 0, 0, 1]"
proof -
  assume "length bs = 4"
  then obtain a b c d where bs: "bs = [a, b, c, d]" by (auto simp: numeral_eq_Suc length_Suc_conv)
  have "nat_be bs = unat a * 16777216 + unat b * 65536 + unat c * 256 + unat d" by (simp add: bs nat_be_Cons nat_be_def)
  then have "nat_be bs = 1 \<longleftrightarrow> unat a = 0 \<and> unat b = 0 \<and> unat c = 0 \<and> unat d = 1"
    by (cases "unat a"; cases "unat b"; cases "unat c") simp_all
  also have "\<dots> \<longleftrightarrow> bs = [0, 0, 0, 1]"
    using word_unat_eq_iff [of d 1] by (simp add: bs unat_eq_zero)
  finally show ?thesis .
qed

lemma sizes_fit_small:
  assumes "length bs < 2 ^ 63"
    and "list_all (\<lambda>i. slice bs i 4 = [0, 0, 0, 1] \<longrightarrow> take 1 (slice bs (i + 8) 8) = [0]) [0..<length bs]"
  shows "sizes_fit bs"
  unfolding sizes_fit_def
proof (intro allI impI)
  fix i assume i: "i + 16 \<le> length bs" "nat_be (slice bs i 4) = 1"
  then have l: "length (slice bs i 4) = 4" "length (slice bs (i + 8) 8) = 8" by (simp_all add: fits_iff)
  then have "take 1 (slice bs (i + 8) 8) = [0]" using assms(2) i nat_be_one [OF l(1)] by (auto simp: list_all_iff)
  then obtain xs where xs: "slice bs (i + 8) 8 = 0 # xs" by (cases "slice bs (i + 8) 8") auto
  then have "length xs = 7" using l(2) by simp
  then have "nat_be (slice bs (i + 8) 8) < 2 ^ 56" using nat_be_less [of xs] xs by (simp add: nat_be_Cons)
  then show "i + nat_be (slice bs (i + 8) 8) < 2 ^ 64" using i(1) assms(1) by simp
qed

lemma two_boxes_fit: "length two_boxes < 2 ^ 63" "sizes_fit two_boxes"
proof -
  show l: "length two_boxes < 2 ^ 63" by (simp add: two_boxes_def to_bytes_def)
  have "list_all (\<lambda>i. slice two_boxes i 4 = [0, 0, 0, 1] \<longrightarrow> take 1 (slice two_boxes (i + 8) 8) = [0]) [0..<length two_boxes]"
    by code_simp
  with l show "sizes_fit two_boxes" by (rule sizes_fit_small)
qed

lemma parse_mp4_well_formed_witness:
  "\<exists>r. parse_mp4_boxes two_boxes = Some r \<and>
    (case r of Inl e \<Rightarrow> \<exists>m. e = Runtime_Error m | Inr boxes \<Rightarrow> tiles two_boxes 0 (length two_boxes) boxes)"
  by (rule parse_mp4_well_formed [OF two_boxes_fit])

lemma two_boxes_parsed:
  "parse_mp4_boxes two_boxes = Some (Inr
     [Mp4Box ''moof'' \<lparr>span_offset = 0, span_size = 16\<rparr> \<lparr>span_offset = 8, span_size = 8\<rparr>
        [Mp4Box ''mfhd'' \<lparr>span_offset = 8, span_size = 8\<rparr> \<lparr>span_offset = 16, span_size = 0\<rparr> []],
      Mp4Box ''mdat'' \<lparr>span_offset = 16, span_size = 17\<rparr> \<lparr>span_offset = 32, span_size = 1\<rparr> []])"
  by code_simp

definition two_chunks :: "bytes list" where
  "two_chunks = [take 3 two_boxes, take 20 (drop 3 two_boxes), drop 23 two_boxes]"

lemma two_chunks: "concat two_chunks = two_boxes"
  by code_simp

lemma stream_reader_chunk_independent_witness:
  "fst (feed two_chunks new_reader) = fst (split_boxes two_boxes)"
proof -
  have "length (concat two_chunks) < 2 ^ 64" by (simp add: two_chunks two_boxes_def to_bytes_def)
  from stream_reader_chunk_independent [OF this] show ?thesis by (auto simp: two_chunks split: prod.splits)
qed

lemma stream_reader_matches_parser_witness:
  "map sb_type (fst (feed two_chunks new_reader)) = [''moof'', ''mdat'']"
proof -
  let ?boxes = "projr (the (parse_mp4_boxes two_boxes))"
  have b: "parse_mp4_boxes (concat two_chunks) = Some (Inr ?boxes)" by (simp add: two_chunks two_boxes_parsed)
  have "list_all (\<lambda>box. \<not> to_end_of_file two_boxes box) ?boxes" unfolding two_boxes_parsed by code_simp
  then have "\<forall>box \<in> set ?boxes. \<not> to_end_of_file (concat two_chunks) box" by (simp only: list_all_iff two_chunks)
  from stream_reader_matches_parser [OF b _ _ this] two_boxes_fit
  obtain r where "feed two_chunks new_reader = (map (as_streamed two_boxes) ?boxes, None, r)" by (auto simp: two_chunks)
  then show ?thesis by (simp add: two_boxes_parsed as_streamed_def)
qed

end
