(* ===== verification/Live_Media_Queue.thy ===== *)
theory Live_Media_Queue
  imports Subgroup_Sender Mp4_Box "HOL-Library.Sublist"
begin

text \<open>
  \<open>src/live_media_queue.h\<close>: the bounded queue between the live ingest and the publisher. When a fragment
  would take it over its byte or duration limit, it drops media up to the earliest keyframe from which the
  rest fits, and each video track resumes at a keyframe; without one it gives up. The mutex makes each
  operation atomic, so an operation is a function of the state. Byte counts are integers, with the overflow
  tests of the code on \<open>size_t\<close>; durations are microseconds in \<open>std::int64_t\<close>.
\<close>

subsection \<open>Fragments\<close>

record PayloadBuffer =
  pb_span :: ByteSpan
  pb_owned_bytes :: bytes

record SourceSampleTiming =
  sst_decode_time :: u64
  sst_presentation_time :: int
  sst_duration :: u64
  sst_timescale :: "32 word"
  sst_sequence :: u64
  sst_codec_config :: bytes

record MediaFragment =
  mf_group_id :: u64
  mf_object_id :: u64
  mf_track_name :: string
  mf_start_time_us :: u64
  mf_duration_us :: u64
  mf_earliest_presentation_time_us :: u64
  mf_sap_type :: u8
  mf_has_sap_type :: bool
  mf_is_video_keyframe :: bool
  mf_creation_time_us :: u64
  mf_payload :: PayloadBuffer
  mf_properties :: "ObjectProperty list"
  mf_source_timing :: "SourceSampleTiming option"

datatype LiveMediaAdmission = Live_Accepted | ShedToKeyframe | NoDecodableBoundary

datatype LiveMediaFragmentRole = Media_Role | Initialization_Role

definition kDefaultLiveSrtQueueMaxBytes :: int where
  "kDefaultLiveSrtQueueMaxBytes = 16 * 1024 * 1024"

definition kDefaultLiveSrtQueueMaxMediaDuration :: int where
  "kDefaultLiveSrtQueueMaxMediaDuration = 2000000"

definition fragment_payload_size :: "MediaFragment \<Rightarrow> int" where
  "fragment_payload_size f = (if pb_owned_bytes (mf_payload f) = [] then uint (span_size (pb_span (mf_payload f)))
     else int (length (pb_owned_bytes (mf_payload f))))"

definition is_video_fragment :: "MediaFragment \<Rightarrow> bool" where
  "is_video_fragment f \<longleftrightarrow> mf_is_video_keyframe f \<or> mf_has_sap_type f \<and> (mf_sap_type f = 0 \<or> mf_sap_type f = 2)"

subsection \<open>The queue\<close>

type_synonym Entry = "MediaFragment \<times> LiveMediaFragmentRole"

text \<open>Byte counts are \<open>size_t\<close>, as numbers with the code's overflow test; durations are microseconds.\<close>

record QueueBounds =
  qb_bytes :: int
  qb_media_duration :: int
  qb_bytes_overflow :: bool
  qb_media_time_overflow :: bool

record LiveMediaQueue =
  lq_max_bytes :: int
  lq_max_media_duration :: int
  lq_entries :: "Entry list"
  lq_video_tracks :: "string set"
  lq_awaiting_recovery_keyframe :: "string set"
  lq_active_recovery_boundary :: "u64 option"
  lq_queued_bytes :: int
  lq_queued_media_duration :: int
  lq_eof :: bool
  lq_resource_limit_exceeded :: bool

definition new_live_queue :: "int \<Rightarrow> int \<Rightarrow> LiveMediaQueue" where
  "new_live_queue max_bytes max_media_duration =
     \<lparr>lq_max_bytes = max_bytes, lq_max_media_duration = max_media_duration, lq_entries = [],
      lq_video_tracks = {}, lq_awaiting_recovery_keyframe = {}, lq_active_recovery_boundary = None,
      lq_queued_bytes = 0, lq_queued_media_duration = 0, lq_eof = False, lq_resource_limit_exceeded = False\<rparr>"

subsection \<open>Measuring\<close>

text \<open>
  \<open>should_retain\<close> updates the map of the tracks whose video has started; the model keeps the tracks
  mapped to true.
\<close>

definition should_retain :: "string set \<Rightarrow> Entry \<Rightarrow> u64 \<Rightarrow> string set \<Rightarrow> bool \<times> string set" where
  "should_retain video_tracks entry boundary started =
     (let f = fst entry in
      if snd entry = Initialization_Role then (True, started)
      else if mf_start_time_us f < boundary then (False, started)
      else if mf_track_name f \<notin> video_tracks then (True, started)
      else if mf_track_name f \<notin> started \<and> \<not> mf_is_video_keyframe f then (False, started)
      else (True, insert (mf_track_name f) started))"

text \<open>The loop of \<open>measure\<close> over its variables.\<close>

record measuring =
  ms_bounds :: QueueBounds
  ms_first_media_time :: "u64 option"
  ms_last_media_end :: u64
  ms_video_started :: "string set"

definition measure_entry :: "Entry \<Rightarrow> measuring \<Rightarrow> measuring" where
  "measure_entry entry m =
     (let f = fst entry;
          bounds = ms_bounds m;
          payload_size = fragment_payload_size f;
          bounds = (if payload_size > 2 ^ 64 - 1 - qb_bytes bounds then bounds\<lparr>qb_bytes_overflow := True\<rparr>
            else bounds\<lparr>qb_bytes := qb_bytes bounds + payload_size\<rparr>) in
      if snd entry = Initialization_Role then m\<lparr>ms_bounds := bounds\<rparr>
      else
      let first_media_time = (case ms_first_media_time m of
            None \<Rightarrow> mf_start_time_us f | Some t \<Rightarrow> min t (mf_start_time_us f));
          media_end_overflow = (mf_duration_us f > - 1 - mf_start_time_us f);
          media_end = (if media_end_overflow then - 1 else mf_start_time_us f + mf_duration_us f) in
      m\<lparr>ms_bounds := bounds\<lparr>qb_media_time_overflow := qb_media_time_overflow bounds \<or> media_end_overflow\<rparr>,
        ms_first_media_time := Some first_media_time,
        ms_last_media_end := max (ms_last_media_end m) media_end\<rparr>)"

fun measure_from :: "string set \<Rightarrow> u64 option \<Rightarrow> Entry list \<Rightarrow> measuring \<Rightarrow> measuring" where
  "measure_from video_tracks boundary [] m = m"
| "measure_from video_tracks boundary (entry # entries) m =
     (case boundary of
        None \<Rightarrow> measure_from video_tracks boundary entries (measure_entry entry m)
      | Some b \<Rightarrow>
          (case should_retain video_tracks entry b (ms_video_started m) of (keep, started) \<Rightarrow>
             let m = m\<lparr>ms_video_started := started\<rparr> in
             if \<not> keep then measure_from video_tracks boundary entries m
             else measure_from video_tracks boundary entries (measure_entry entry m)))"

definition no_bounds :: QueueBounds where
  "no_bounds = \<lparr>qb_bytes = 0, qb_media_duration = 0, qb_bytes_overflow = False, qb_media_time_overflow = False\<rparr>"

definition measure_entries :: "string set \<Rightarrow> Entry list \<Rightarrow> u64 option \<Rightarrow> QueueBounds" where
  "measure_entries video_tracks entries boundary =
     (let m = measure_from video_tracks boundary entries
            \<lparr>ms_bounds = no_bounds, ms_first_media_time = None, ms_last_media_end = 0, ms_video_started = {}\<rparr> in
      case ms_first_media_time m of
        None \<Rightarrow> ms_bounds m
      | Some first_media_time \<Rightarrow>
          (ms_bounds m)\<lparr>qb_media_duration := min (uint (ms_last_media_end m - first_media_time)) (2 ^ 63 - 1)\<rparr>)"

definition within_limits :: "LiveMediaQueue \<Rightarrow> QueueBounds \<Rightarrow> bool" where
  "within_limits q bounds \<longleftrightarrow> \<not> qb_bytes_overflow bounds \<and> \<not> qb_media_time_overflow bounds \<and>
     qb_bytes bounds \<le> lq_max_bytes q \<and> qb_media_duration bounds \<le> lq_max_media_duration q"

definition apply_bounds :: "QueueBounds \<Rightarrow> LiveMediaQueue \<Rightarrow> LiveMediaQueue" where
  "apply_bounds bounds q = q\<lparr>lq_queued_bytes := qb_bytes bounds, lq_queued_media_duration := qb_media_duration bounds\<rparr>"

subsection \<open>Operations\<close>

text \<open>The entries that stay after a recovery at a boundary, and the tracks whose video has started.\<close>

fun retain_entries :: "string set \<Rightarrow> u64 \<Rightarrow> Entry list \<Rightarrow> string set \<Rightarrow> Entry list \<times> string set" where
  "retain_entries video_tracks boundary [] started = ([], started)"
| "retain_entries video_tracks boundary (entry # entries) started =
     (case should_retain video_tracks entry boundary started of (keep, started) \<Rightarrow>
      case retain_entries video_tracks boundary entries started of (retained, started) \<Rightarrow>
        (if keep then entry # retained else retained, started))"

text \<open>The start times of the queued keyframes, a \<open>std::set\<close>: in increasing order, once each.\<close>

definition recovery_timestamps :: "Entry list \<Rightarrow> u64 list" where
  "recovery_timestamps entries = remdups (sort (map (\<lambda>entry. mf_start_time_us (fst entry))
     (filter (\<lambda>entry. snd entry = Media_Role \<and> mf_is_video_keyframe (fst entry)) entries)))"

definition note_video :: "MediaFragment \<Rightarrow> LiveMediaQueue \<Rightarrow> LiveMediaQueue" where
  "note_video f q =
     (let inserted = (mf_track_name f \<notin> lq_video_tracks q) in
      if mf_track_name f \<in> lq_video_tracks q \<or> is_video_fragment f then
        q\<lparr>lq_video_tracks := insert (mf_track_name f) (lq_video_tracks q),
          lq_awaiting_recovery_keyframe :=
            (if lq_active_recovery_boundary q \<noteq> None \<and> inserted
             then insert (mf_track_name f) (lq_awaiting_recovery_keyframe q)
             else lq_awaiting_recovery_keyframe q)\<rparr>
      else q)"

text \<open>The checks of a media fragment before it is queued: \<open>None\<close> sheds it.\<close>

definition admit_media :: "MediaFragment \<Rightarrow> LiveMediaQueue \<Rightarrow> bool \<times> LiveMediaQueue" where
  "admit_media f q =
     (let is_video = (mf_track_name f \<in> lq_video_tracks q \<or> is_video_fragment f);
          q = note_video f q in
      if (case lq_active_recovery_boundary q of None \<Rightarrow> False | Some b \<Rightarrow> mf_start_time_us f < b) then (False, q)
      else if is_video \<and> mf_track_name f \<in> lq_awaiting_recovery_keyframe q then
        (if \<not> mf_is_video_keyframe f then (False, q)
         else (True, q\<lparr>lq_awaiting_recovery_keyframe := lq_awaiting_recovery_keyframe q - {mf_track_name f}\<rparr>))
      else (True, q))"

definition shed_to_boundary :: "Entry list \<Rightarrow> u64 \<Rightarrow> LiveMediaQueue \<Rightarrow> LiveMediaQueue" where
  "shed_to_boundary entries recovery q =
     (case retain_entries (lq_video_tracks q) recovery entries {} of (retained, video_started) \<Rightarrow>
        apply_bounds (measure_entries (lq_video_tracks q) retained None)
          (q\<lparr>lq_entries := retained, lq_active_recovery_boundary := Some recovery,
             lq_awaiting_recovery_keyframe := lq_video_tracks q - video_started\<rparr>))"

definition append_fragment :: "MediaFragment \<Rightarrow> LiveMediaFragmentRole \<Rightarrow> LiveMediaQueue \<Rightarrow> LiveMediaAdmission \<times> LiveMediaQueue" where
  "append_fragment f role q =
     (let entries = lq_entries q @ [(f, role)];
          appended_bounds = measure_entries (lq_video_tracks q) entries None in
      if within_limits q appended_bounds then (Live_Accepted, apply_bounds appended_bounds (q\<lparr>lq_entries := entries\<rparr>))
      else
      case find (\<lambda>timestamp. within_limits q (measure_entries (lq_video_tracks q) entries (Some timestamp)))
          (recovery_timestamps entries) of
        None \<Rightarrow> (NoDecodableBoundary, q\<lparr>lq_resource_limit_exceeded := True\<rparr>)
      | Some recovery \<Rightarrow> (ShedToKeyframe, shed_to_boundary entries recovery q))"

definition live_push :: "MediaFragment \<Rightarrow> LiveMediaFragmentRole \<Rightarrow> LiveMediaQueue \<Rightarrow> LiveMediaAdmission \<times> LiveMediaQueue" where
  "live_push f role q =
     (if lq_resource_limit_exceeded q then (NoDecodableBoundary, q)
      else if role = Media_Role then
        (case admit_media f q of (admitted, q) \<Rightarrow> if \<not> admitted then (ShedToKeyframe, q) else append_fragment f role q)
      else append_fragment f role q)"

definition live_try_pop :: "LiveMediaQueue \<Rightarrow> MediaFragment option \<times> LiveMediaQueue" where
  "live_try_pop q =
     (case lq_entries q of
        [] \<Rightarrow> (None, q)
      | entry # entries \<Rightarrow>
          (Some (fst entry), apply_bounds (measure_entries (lq_video_tracks q) entries None) (q\<lparr>lq_entries := entries\<rparr>)))"

definition mark_eof :: "LiveMediaQueue \<Rightarrow> LiveMediaQueue" where
  "mark_eof q = q\<lparr>lq_eof := True\<rparr>"

definition live_done :: "LiveMediaQueue \<Rightarrow> bool" where
  "live_done q \<longleftrightarrow> lq_eof q \<and> lq_entries q = []"

subsection \<open>The adapter of the SRT ingest\<close>

record LiveSrtQueueAdapter =
  la_stop_requested :: bool
  la_queue :: LiveMediaQueue

definition adapter_admit :: "MediaFragment \<Rightarrow> LiveSrtQueueAdapter \<Rightarrow> LiveMediaAdmission \<times> LiveSrtQueueAdapter" where
  "adapter_admit f a =
     (case live_push f Media_Role (la_queue a) of (admission, q) \<Rightarrow>
        (admission, \<lparr>la_stop_requested = (if admission = NoDecodableBoundary then True else la_stop_requested a),
           la_queue = q\<rparr>))"

definition publishing_status :: "TransportStatus \<Rightarrow> LiveSrtQueueAdapter \<Rightarrow> TransportStatus" where
  "publishing_status current_status a =
     (if current_status \<noteq> Success \<or> \<not> lq_resource_limit_exceeded (la_queue a) then current_status
      else Failure (''live SRT resource limit exceeded: source is too far behind and '' @
        ''no decodable keyframe boundary exists within 16 MiB/2 s''))"


subsection \<open>What a measurement says\<close>

definition media :: "Entry list \<Rightarrow> MediaFragment list" where
  "media es = map fst (filter (\<lambda>e. snd e = Media_Role) es)"

definition payload_bytes :: "Entry list \<Rightarrow> int" where
  "payload_bytes es = sum_list (map (\<lambda>e. fragment_payload_size (fst e)) es)"

definition ends_within :: "MediaFragment \<Rightarrow> bool" where
  "ends_within f \<longleftrightarrow> uint (mf_start_time_us f) + uint (mf_duration_us f) < 2 ^ 64"

definition media_end :: "MediaFragment \<Rightarrow> int" where
  "media_end f = uint (mf_start_time_us f) + uint (mf_duration_us f)"

definition fits :: "int \<Rightarrow> int \<Rightarrow> Entry list \<Rightarrow> bool" where
  "fits max_bytes max_duration es \<longleftrightarrow>
     payload_bytes es \<le> 2 ^ 64 - 1 \<and> payload_bytes es \<le> max_bytes \<and> 0 \<le> max_duration \<and>
     (\<forall>f \<in> set (media es). ends_within f) \<and>
     (2 ^ 63 - 1 \<le> max_duration \<or>
      (\<forall>f \<in> set (media es). \<forall>g \<in> set (media es). media_end f - uint (mf_start_time_us g) \<le> max_duration))"

lemma media_simps [simp]: "media [] = []" "media (e # es) = (if snd e = Media_Role then fst e # media es else media es)"
  "media (es @ es') = media es @ media es'"
  by (simp_all add: media_def)

lemma payload_bytes_simps [simp]: "payload_bytes [] = 0"
  "payload_bytes (e # es) = fragment_payload_size (fst e) + payload_bytes es"
  by (simp_all add: payload_bytes_def)

lemma payload_nonneg: "0 \<le> fragment_payload_size f" "0 \<le> payload_bytes es"
proof -
  show f: "0 \<le> fragment_payload_size f" for f by (simp add: fragment_payload_size_def)
  show "0 \<le> payload_bytes es" by (induction es) (simp_all add: f)
qed

lemma measure_from_None: "measure_from vt None es m = fold measure_entry es m"
  by (induction es arbitrary: m) simp_all

lemma measure_from_Some:
  "measure_from vt (Some b) es m =
     (fold measure_entry (fst (retain_entries vt b es (ms_video_started m))) m)
       \<lparr>ms_video_started := snd (retain_entries vt b es (ms_video_started m))\<rparr>"
proof (induction es arbitrary: m)
  case (Cons e es)
  have started: "ms_video_started (measure_entry e m) = ms_video_started m" for m
    by (simp add: measure_entry_def Let_def)
  have swap: "fold measure_entry es' (measure_entry e (m\<lparr>ms_video_started := x\<rparr>)) \<lparr>ms_video_started := y\<rparr> =
      fold measure_entry es' (measure_entry e m) \<lparr>ms_video_started := y\<rparr>" for es' e m x y
  proof (induction es' arbitrary: e m)
    case Nil
    then show ?case by (cases m) (simp add: measure_entry_def Let_def)
  next
    case (Cons e' es')
    have "measure_entry e (m\<lparr>ms_video_started := x\<rparr>) = (measure_entry e m)\<lparr>ms_video_started := x\<rparr>"
      by (cases m) (simp add: measure_entry_def Let_def)
    then show ?case using Cons.IH by simp
  qed
  have swap': "fold measure_entry es' (m\<lparr>ms_video_started := x\<rparr>) \<lparr>ms_video_started := y\<rparr> =
      fold measure_entry es' m \<lparr>ms_video_started := y\<rparr>" for es' m x y
    using swap by (cases es') simp_all
  show ?case
    by (simp add: Cons.IH swap swap' started Let_def split: prod.splits)
qed simp

lemma measure_entry_bytes:
  assumes "qb_bytes (ms_bounds m) \<le> 2 ^ 64 - 1"
  shows "let m' = fold measure_entry es m in
    (\<not> qb_bytes_overflow (ms_bounds m') \<longleftrightarrow>
      \<not> qb_bytes_overflow (ms_bounds m) \<and> qb_bytes (ms_bounds m) + payload_bytes es \<le> 2 ^ 64 - 1) \<and>
    (\<not> qb_bytes_overflow (ms_bounds m') \<longrightarrow> qb_bytes (ms_bounds m') = qb_bytes (ms_bounds m) + payload_bytes es)"
  using assms
proof (induction es arbitrary: m)
  case (Cons e es)
  have b: "ms_bounds (measure_entry e m) = (ms_bounds (measure_entry e m))
      \<lparr>qb_bytes_overflow := qb_bytes_overflow (ms_bounds m) \<or> fragment_payload_size (fst e) > 2 ^ 64 - 1 - qb_bytes (ms_bounds m),
       qb_bytes := if fragment_payload_size (fst e) > 2 ^ 64 - 1 - qb_bytes (ms_bounds m) then qb_bytes (ms_bounds m)
         else qb_bytes (ms_bounds m) + fragment_payload_size (fst e)\<rparr>"
    by (simp add: measure_entry_def Let_def)
  have f: "qb_bytes_overflow (ms_bounds (measure_entry e m)) =
        (qb_bytes_overflow (ms_bounds m) \<or> fragment_payload_size (fst e) > 2 ^ 64 - 1 - qb_bytes (ms_bounds m))"
      "qb_bytes (ms_bounds (measure_entry e m)) =
        (if fragment_payload_size (fst e) > 2 ^ 64 - 1 - qb_bytes (ms_bounds m) then qb_bytes (ms_bounds m)
         else qb_bytes (ms_bounds m) + fragment_payload_size (fst e))"
    by (subst b, simp)+
  have "qb_bytes (ms_bounds (measure_entry e m)) \<le> 2 ^ 64 - 1" using Cons.prems by (auto simp: f)
  from Cons.IH [OF this] show ?case
    using Cons.prems payload_nonneg(2) [of es] by (auto simp: f Let_def)
qed simp

lemma uint_max_minus: "uint (- 1 - (s :: u64)) = 2 ^ 64 - 1 - uint s"
proof -
  have m: "uint (- 1 :: u64) = 2 ^ 64 - 1" by (simp add: unsigned_minus_1_eq_mask mask_eq_exp_minus_1)
  have "uint s \<le> uint (- 1 :: u64)" using uint_lt2p [of s] by (simp only: m) simp
  then show ?thesis using uint_sub_lem [of s "- 1"] by (simp only: m)
qed

lemma ends_within_iff: "ends_within f \<longleftrightarrow> \<not> mf_duration_us f > - 1 - mf_start_time_us f"
  by (auto simp: ends_within_def word_less_def uint_max_minus)

lemma uint_media_end: "ends_within f \<Longrightarrow> uint (mf_start_time_us f + mf_duration_us f) = media_end f"
  using uint_add_lem [of "mf_start_time_us f" "mf_duration_us f"] by (simp add: ends_within_def media_end_def)

lemma measure_entry_simps:
  "ms_first_media_time (measure_entry e m) = (if snd e = Initialization_Role then ms_first_media_time m
     else Some (case ms_first_media_time m of None \<Rightarrow> mf_start_time_us (fst e) | Some t \<Rightarrow> min t (mf_start_time_us (fst e))))"
  "ms_last_media_end (measure_entry e m) = (if snd e = Initialization_Role then ms_last_media_end m
     else max (ms_last_media_end m)
       (if ends_within (fst e) then mf_start_time_us (fst e) + mf_duration_us (fst e) else - 1))"
  "qb_media_time_overflow (ms_bounds (measure_entry e m)) \<longleftrightarrow>
     qb_media_time_overflow (ms_bounds m) \<or> snd e \<noteq> Initialization_Role \<and> \<not> ends_within (fst e)"
  "qb_media_duration (ms_bounds (measure_entry e m)) = qb_media_duration (ms_bounds m)"
  by (auto simp: measure_entry_def Let_def ends_within_iff)

lemma media_role: "snd e \<noteq> Initialization_Role \<longleftrightarrow> snd e = Media_Role"
  by (cases "snd e") simp_all

lemma measure_time_overflow:
  "qb_media_time_overflow (ms_bounds (fold measure_entry es m)) \<longleftrightarrow>
     qb_media_time_overflow (ms_bounds m) \<or> (\<exists>f \<in> set (media es). \<not> ends_within f)"
  by (induction es arbitrary: m) (auto simp: measure_entry_simps media_role)

lemma measure_duration: "qb_media_duration (ms_bounds (fold measure_entry es m)) = qb_media_duration (ms_bounds m)"
  by (induction es arbitrary: m) (simp_all add: measure_entry_simps)

lemma measure_first:
  "case ms_first_media_time (fold measure_entry es m) of
     None \<Rightarrow> ms_first_media_time m = None \<and> media es = []
   | Some t \<Rightarrow> \<forall>b. b \<le> uint t \<longleftrightarrow>
       (\<forall>s. ms_first_media_time m = Some s \<longrightarrow> b \<le> uint s) \<and> (\<forall>f \<in> set (media es). b \<le> uint (mf_start_time_us f))"
proof (induction es arbitrary: m)
  case (Cons e es)
  have min: "b \<le> uint (min x y) \<longleftrightarrow> b \<le> uint x \<and> b \<le> uint y" for b and x y :: u64
    by (auto simp: min_def word_le_def)
  show ?case
    using Cons.IH [of "measure_entry e m"]
    by (auto simp: measure_entry_simps media_role min split: option.splits if_splits)
qed (simp split: option.split)

lemma measure_last:
  assumes "\<forall>f \<in> set (media es). ends_within f"
  shows "uint (ms_last_media_end (fold measure_entry es m)) \<le> b \<longleftrightarrow>
    uint (ms_last_media_end m) \<le> b \<and> (\<forall>f \<in> set (media es). media_end f \<le> b)"
  using assms
proof (induction es arbitrary: m)
  case (Cons e es)
  have max: "uint (max x y) \<le> b \<longleftrightarrow> uint x \<le> b \<and> uint y \<le> b" for x y :: u64
    by (auto simp: max_def word_le_def)
  show ?case
    using Cons.IH [of "measure_entry e m"] Cons.prems
    by (auto simp: measure_entry_simps media_role max uint_media_end)
qed simp

lemma within_limits_fits:
  "within_limits q (measure_entries vt es None) \<longleftrightarrow> fits (lq_max_bytes q) (lq_max_media_duration q) es"
proof -
  define m0 where "m0 = \<lparr>ms_bounds = no_bounds, ms_first_media_time = None, ms_last_media_end = 0, ms_video_started = {}\<rparr>"
  define m where "m = fold measure_entry es m0"
  have bytes: "(\<not> qb_bytes_overflow (ms_bounds m)) = (payload_bytes es \<le> 2 ^ 64 - 1)"
      "payload_bytes es \<le> 2 ^ 64 - 1 \<longrightarrow> qb_bytes (ms_bounds m) = payload_bytes es"
    using measure_entry_bytes [of m0] by (simp_all add: m_def m0_def no_bounds_def Let_def)
  have time: "qb_media_time_overflow (ms_bounds m) \<longleftrightarrow> (\<exists>f \<in> set (media es). \<not> ends_within f)"
    by (simp add: m_def measure_time_overflow m0_def no_bounds_def)
  have span: "min (uint (ms_last_media_end m - t)) (2 ^ 63 - 1) \<le> d \<longleftrightarrow> 0 \<le> d \<and> (2 ^ 63 - 1 \<le> d \<or>
      (\<forall>f \<in> set (media es). \<forall>g \<in> set (media es). media_end f - uint (mf_start_time_us g) \<le> d))"
    if t: "ms_first_media_time m = Some t" and e: "\<forall>f \<in> set (media es). ends_within f" for t d
  proof -
    have first: "b \<le> uint t \<longleftrightarrow> (\<forall>f \<in> set (media es). b \<le> uint (mf_start_time_us f))" for b
      using measure_first [of m0 es] t by (simp add: m_def m0_def)
    have last: "uint (ms_last_media_end m) \<le> b \<longleftrightarrow> 0 \<le> b \<and> (\<forall>f \<in> set (media es). media_end f \<le> b)" for b
      using measure_last [OF e, of m0 b] by (simp add: m_def m0_def)
    have "media es \<noteq> []" using first [of "uint t + 1"] by (cases "media es = []") simp_all
    then obtain f where f: "f \<in> set (media es)" by (cases "media es") auto
    have "uint t \<le> uint (mf_start_time_us f)" using first [of "uint t"] f by simp
    also have "\<dots> \<le> media_end f" by (simp add: media_end_def)
    also have "\<dots> \<le> uint (ms_last_media_end m)" using last [of "uint (ms_last_media_end m)"] f by simp
    finally have le: "uint t \<le> uint (ms_last_media_end m)" .
    then have diff: "uint (ms_last_media_end m - t) = uint (ms_last_media_end m) - uint t" by (simp add: uint_sub_lem)
    have "uint (ms_last_media_end m) - uint t \<le> d \<longleftrightarrow>
        0 \<le> d \<and> (\<forall>f \<in> set (media es). \<forall>g \<in> set (media es). media_end f - uint (mf_start_time_us g) \<le> d)"
    proof -
      have "uint (ms_last_media_end m) \<le> uint t + d \<longleftrightarrow> 0 \<le> uint t + d \<and> (\<forall>f \<in> set (media es). media_end f - d \<le> uint t)"
        by (auto simp: last)
      also have "\<dots> \<longleftrightarrow> 0 \<le> uint t + d \<and> (\<forall>f \<in> set (media es). \<forall>g \<in> set (media es). media_end f - d \<le> uint (mf_start_time_us g))"
        by (simp add: first)
      finally show ?thesis using le by (smt (verit) uint_ge_0)
    qed
    then show ?thesis unfolding diff min_le_iff_disj by auto
  qed
  show ?thesis
  proof (cases "ms_first_media_time m")
    case None
    then have "media es = []" using measure_first [of m0 es] by (simp add: m_def)
    then show ?thesis
      using bytes time None
      by (auto simp: measure_entries_def measure_from_None within_limits_def fits_def measure_duration m_def [symmetric] m0_def [symmetric] Let_def)
        (simp_all add: m_def m0_def measure_duration no_bounds_def)
  next
    case (Some t)
    then show ?thesis
      using bytes time span [OF Some]
      by (auto simp: measure_entries_def measure_from_None within_limits_def fits_def m_def [symmetric] m0_def [symmetric] Let_def)
  qed
qed

lemma measure_retained:
  "measure_entries vt es (Some b) = measure_entries vt (fst (retain_entries vt b es {})) None"
  by (simp add: measure_entries_def measure_from_Some measure_from_None Let_def split: option.split)

lemma retain_subseq: "subseq (fst (retain_entries vt b es started)) es"
proof (induction es arbitrary: started)
  case (Cons e es)
  then show ?case
    by (cases "should_retain vt e b started"; cases "retain_entries vt b es (snd (should_retain vt e b started))")
      (use Cons.IH [of "snd (should_retain vt e b started)"] in auto)
qed simp

lemma set_media_subseq: "subseq es es' \<Longrightarrow> set (media es) \<subseteq> set (media es')"
  by (induction rule: list_emb.induct) auto

lemma subseq_append_self [simp]: "subseq xs (xs @ ys)"
  using prefix_imp_subseq by fastforce

lemma fits_subseq:
  assumes "subseq es es'" and "fits mb md es'"
  shows "fits mb md es"
proof -
  have "payload_bytes es \<le> payload_bytes es'"
    using assms(1) by (induction rule: list_emb.induct) (auto intro: add_increasing payload_nonneg)
  then show ?thesis
    using assms(2) set_media_subseq [OF assms(1)] unfolding fits_def by (meson order_trans subsetD)
qed

subsection \<open>Runs\<close>

datatype live_op = Push MediaFragment LiveMediaFragmentRole | Pop | Eof

fun live_step :: "live_op \<Rightarrow> LiveMediaQueue \<Rightarrow> MediaFragment option \<times> LiveMediaQueue" where
  "live_step (Push f role) q = (None, snd (live_push f role q))"
| "live_step Pop q = live_try_pop q"
| "live_step Eof q = (None, mark_eof q)"

text \<open>The fragments taken out of the queue, and the queue that is left.\<close>

fun live_run :: "live_op list \<Rightarrow> LiveMediaQueue \<Rightarrow> MediaFragment list \<times> LiveMediaQueue" where
  "live_run [] q = ([], q)"
| "live_run (op # ops) q =
     (case live_step op q of (popped, q) \<Rightarrow>
      case live_run ops q of (rest, q) \<Rightarrow> (case popped of None \<Rightarrow> rest | Some f \<Rightarrow> f # rest, q))"

definition pushed :: "live_op list \<Rightarrow> MediaFragment list" where
  "pushed ops = List.map_filter (\<lambda>op. case op of Push f role \<Rightarrow> Some f | _ \<Rightarrow> None) ops"

lemma pushed_simps [simp]: "pushed [] = []" "pushed (Push f role # ops) = f # pushed ops"
  "pushed (Pop # ops) = pushed ops" "pushed (Eof # ops) = pushed ops"
  by (simp_all add: pushed_def map_filter_simps)

lemma pushed_Cons: "pushed (op # ops) = pushed [op] @ pushed ops"
  by (cases op) simp_all

text \<open>What a push does to the queue: it appends, keeps a part of the queue with the fragment, or nothing.\<close>

definition live_ok :: "LiveMediaQueue \<Rightarrow> bool" where
  "live_ok q \<longleftrightarrow> fits (lq_max_bytes q) (lq_max_media_duration q) (lq_entries q) \<and>
     lq_queued_bytes q = payload_bytes (lq_entries q) \<and> lq_queued_media_duration q \<le> lq_max_media_duration q"

lemma live_ok_apply:
  assumes "fits (lq_max_bytes q) (lq_max_media_duration q) es"
  shows "live_ok (apply_bounds (measure_entries vt es None) (q\<lparr>lq_entries := es\<rparr>))"
proof -
  have w: "within_limits q (measure_entries vt es None)" using assms by (simp add: within_limits_fits)
  have "payload_bytes es \<le> 2 ^ 64 - 1" using assms by (simp add: fits_def)
  then have "qb_bytes (measure_entries vt es None) = payload_bytes es"
    using measure_entry_bytes [of "\<lparr>ms_bounds = no_bounds, ms_first_media_time = None, ms_last_media_end = 0,
      ms_video_started = {}\<rparr>" es]
    by (simp add: measure_entries_def measure_from_None no_bounds_def Let_def split: option.split)
  with w assms show ?thesis by (simp add: live_ok_def apply_bounds_def within_limits_def)
qed

lemma append_fragment_ok:
  assumes "live_ok q"
  shows "live_ok (snd (append_fragment f role q)) \<and>
    subseq (lq_entries (snd (append_fragment f role q))) (lq_entries q @ [(f, role)]) \<and>
    lq_max_bytes (snd (append_fragment f role q)) = lq_max_bytes q \<and>
    lq_max_media_duration (snd (append_fragment f role q)) = lq_max_media_duration q"
proof -
  let ?es = "lq_entries q @ [(f, role)]" and ?vt = "lq_video_tracks q"
  show ?thesis
  proof (cases "within_limits q (measure_entries ?vt ?es None)")
    case True
    then show ?thesis
      using live_ok_apply [of q ?es ?vt] by (simp add: append_fragment_def Let_def within_limits_fits apply_bounds_def)
  next
    case False
    show ?thesis
    proof (cases "find (\<lambda>t. within_limits q (measure_entries ?vt ?es (Some t))) (recovery_timestamps ?es)")
      case None
      then show ?thesis using False assms by (simp add: append_fragment_def Let_def live_ok_def)
    next
      case (Some t)
      then have "within_limits q (measure_entries ?vt ?es (Some t))" by (auto simp: find_Some_iff)
      then have f: "fits (lq_max_bytes q) (lq_max_media_duration q) (fst (retain_entries ?vt t ?es {}))"
        by (simp add: measure_retained within_limits_fits)
      obtain retained started where r: "retain_entries ?vt t ?es {} = (retained, started)"
        by (cases "retain_entries ?vt t ?es {}")
      have "live_ok (apply_bounds (measure_entries ?vt retained None)
          (q\<lparr>lq_entries := retained, lq_active_recovery_boundary := Some t,
             lq_awaiting_recovery_keyframe := ?vt - started\<rparr>))"
        using live_ok_apply [of "q\<lparr>lq_active_recovery_boundary := Some t,
             lq_awaiting_recovery_keyframe := ?vt - started\<rparr>" retained ?vt] f r
        by (simp add: live_ok_def apply_bounds_def)
      then show ?thesis
        using False Some r retain_subseq [of ?vt t ?es "{}"]
        by (simp add: append_fragment_def Let_def shed_to_boundary_def) (simp add: apply_bounds_def)
    qed
  qed
qed

lemma admit_media_same:
  "lq_entries (snd (admit_media f q)) = lq_entries q" "lq_max_bytes (snd (admit_media f q)) = lq_max_bytes q"
  "lq_max_media_duration (snd (admit_media f q)) = lq_max_media_duration q"
  "lq_queued_bytes (snd (admit_media f q)) = lq_queued_bytes q"
  "lq_queued_media_duration (snd (admit_media f q)) = lq_queued_media_duration q"
  "lq_video_tracks (snd (admit_media f q)) = lq_video_tracks (note_video f q)"
  "lq_active_recovery_boundary (snd (admit_media f q)) = lq_active_recovery_boundary q"
  "lq_resource_limit_exceeded (snd (admit_media f q)) = lq_resource_limit_exceeded q"
  by (auto simp: admit_media_def note_video_def Let_def split: option.splits)

lemma live_ok_admit: "live_ok q \<Longrightarrow> live_ok (snd (admit_media f q))"
  by (simp add: live_ok_def admit_media_same)

lemma live_push_cases:
  obtains (unchanged) "snd (live_push f role q) = q"
    | (shed) "role = Media_Role" "snd (live_push f role q) = snd (admit_media f q)"
    | (appended) q' where "q' = q \<or> q' = snd (admit_media f q)" "live_push f role q = append_fragment f role q'"
proof (cases "lq_resource_limit_exceeded q \<or> role \<noteq> Media_Role")
  case True
  then show thesis
    using unchanged appended [of q] by (cases "lq_resource_limit_exceeded q") (simp_all add: live_push_def)
next
  case False
  then show thesis
    using shed appended [of "snd (admit_media f q)"]
    by (cases "admit_media f q"; cases "fst (admit_media f q)") (simp_all add: live_push_def)
qed

lemma live_push_ok:
  assumes "live_ok q"
  shows "live_ok (snd (live_push f role q)) \<and>
    subseq (map fst (lq_entries (snd (live_push f role q)))) (map fst (lq_entries q) @ [f]) \<and>
    lq_max_bytes (snd (live_push f role q)) = lq_max_bytes q \<and>
    lq_max_media_duration (snd (live_push f role q)) = lq_max_media_duration q"
proof (cases rule: live_push_cases [of f role q])
  case unchanged
  then show ?thesis using assms by simp
next
  case shed
  then show ?thesis using live_ok_admit [OF assms] by (simp add: admit_media_same)
next
  case (appended q')
  have q': "live_ok q'" "lq_entries q' = lq_entries q" "lq_max_bytes q' = lq_max_bytes q"
      "lq_max_media_duration q' = lq_max_media_duration q"
    using appended(1) live_ok_admit [OF assms] assms by (auto simp: admit_media_same)
  note a = append_fragment_ok [OF q'(1), of f role]
  then have "subseq (map fst (lq_entries (snd (append_fragment f role q')))) (map fst (lq_entries q' @ [(f, role)]))"
    using subseq_map by blast
  then show ?thesis using a by (simp add: appended(2) q')
qed

lemma live_step_ok:
  assumes "live_ok q"
  shows "live_ok (snd (live_step op q)) \<and>
    subseq ((case fst (live_step op q) of None \<Rightarrow> [] | Some f \<Rightarrow> [f]) @ map fst (lq_entries (snd (live_step op q))))
      (map fst (lq_entries q) @ pushed [op]) \<and>
    lq_max_bytes (snd (live_step op q)) = lq_max_bytes q \<and>
    lq_max_media_duration (snd (live_step op q)) = lq_max_media_duration q"
proof (cases op)
  case (Push f role)
  then show ?thesis using live_push_ok [OF assms] by simp
next
  case Pop
  show ?thesis
  proof (cases "lq_entries q")
    case (Cons e es)
    have "subseq es (e # es)" by (intro list_emb_Cons) simp
    then have "fits (lq_max_bytes q) (lq_max_media_duration q) es"
      using assms fits_subseq [of es "e # es"] by (simp add: live_ok_def Cons)
    from live_ok_apply [OF this] show ?thesis by (simp add: Pop live_try_pop_def Cons) (simp add: apply_bounds_def)
  qed (simp add: Pop live_try_pop_def assms)
next
  case Eof
  then show ?thesis using assms by (simp add: mark_eof_def live_ok_def)
qed

lemma live_run_ok:
  assumes "live_ok q"
  shows "live_ok (snd (live_run ops q)) \<and>
    subseq (fst (live_run ops q) @ map fst (lq_entries (snd (live_run ops q)))) (map fst (lq_entries q) @ pushed ops) \<and>
    lq_max_bytes (snd (live_run ops q)) = lq_max_bytes q \<and>
    lq_max_media_duration (snd (live_run ops q)) = lq_max_media_duration q"
  using assms
proof (induction ops arbitrary: q)
  case (Cons op ops)
  obtain popped q1 where s: "live_step op q = (popped, q1)" by (cases "live_step op q")
  obtain rest q2 where r: "live_run ops q1 = (rest, q2)" by (cases "live_run ops q1")
  let ?p = "case popped of None \<Rightarrow> [] | Some f \<Rightarrow> [f]"
  note 1 = live_step_ok [OF Cons.prems, of op, unfolded s fst_conv snd_conv]
  note 2 = Cons.IH [OF conjunct1 [OF 1], unfolded r fst_conv snd_conv]
  have "subseq (?p @ rest @ map fst (lq_entries q2)) (?p @ map fst (lq_entries q1) @ pushed ops)"
    using list_emb_append_mono [OF subseq_order.refl [of ?p] conjunct1 [OF conjunct2 [OF 2]]] .
  also have "subseq (?p @ map fst (lq_entries q1) @ pushed ops) (map fst (lq_entries q) @ pushed [op] @ pushed ops)"
    using list_emb_append_mono [OF conjunct1 [OF conjunct2 [OF 1]] subseq_order.refl [of "pushed ops"]] by simp
  finally show ?case
    using 1 2 by (cases popped) (simp_all add: s r pushed_Cons [of op ops])
qed (simp add: live_ok_def)

subsection \<open>Resuming at a keyframe\<close>

text \<open>
  The video fragments that the consumer gets from the last recovery on: those that the recovery kept, and
  those accepted since, taken out already or not. A push recovers if it overflows the queue.
\<close>

definition recovers :: "MediaFragment \<Rightarrow> LiveMediaFragmentRole \<Rightarrow> LiveMediaQueue \<Rightarrow> bool" where
  "recovers f role q \<longleftrightarrow> fst (live_push f role q) = ShedToKeyframe \<and> (role = Media_Role \<longrightarrow> fst (admit_media f q))"

definition video_of :: "LiveMediaQueue \<Rightarrow> MediaFragment list \<Rightarrow> MediaFragment list" where
  "video_of q fs = filter (\<lambda>f. mf_track_name f \<in> lq_video_tracks q) fs"

definition since_push :: "MediaFragment \<Rightarrow> LiveMediaFragmentRole \<Rightarrow> LiveMediaQueue \<Rightarrow> MediaFragment list \<Rightarrow> MediaFragment list" where
  "since_push f role q since =
     (let q' = snd (live_push f role q) in
      if recovers f role q then video_of q' (media (lq_entries q'))
      else if fst (live_push f role q) = Live_Accepted \<and> role = Media_Role then since @ video_of q' [f]
      else since)"

fun since_recovery :: "live_op list \<Rightarrow> LiveMediaQueue \<Rightarrow> MediaFragment list \<Rightarrow> MediaFragment list" where
  "since_recovery [] q since = since"
| "since_recovery (op # ops) q since = since_recovery ops (snd (live_step op q))
     (case op of Push f role \<Rightarrow> since_push f role q since | _ \<Rightarrow> since)"

definition of_track :: "string \<Rightarrow> MediaFragment list \<Rightarrow> MediaFragment list" where
  "of_track t fs = filter (\<lambda>f. mf_track_name f = t) fs"

definition starts_at_keyframe :: "MediaFragment list \<Rightarrow> bool" where
  "starts_at_keyframe fs \<longleftrightarrow> fs = [] \<or> mf_is_video_keyframe (hd fs)"

text \<open>
  After a recovery: the tracks the queue waits for have nothing, the others start at a keyframe. (Once the
  queue has given up it waits for nothing any more.)
\<close>

definition resume_ok :: "LiveMediaQueue \<Rightarrow> MediaFragment list \<Rightarrow> bool" where
  "resume_ok q since \<longleftrightarrow> lq_active_recovery_boundary q \<noteq> None \<longrightarrow>
     (\<forall>t. starts_at_keyframe (of_track t since)) \<and>
     (\<not> lq_resource_limit_exceeded q \<longrightarrow>
       (\<forall>f \<in> set since. mf_track_name f \<in> lq_video_tracks q) \<and>
       (\<forall>t \<in> lq_video_tracks q. t \<in> lq_awaiting_recovery_keyframe q \<longleftrightarrow> of_track t since = []))"

lemma retain_entries_video:
  assumes "retain_entries vt b es started = (retained, started')"
  shows "\<forall>t \<in> vt. (t \<in> started' \<longleftrightarrow> t \<in> started \<or> of_track t (media retained) \<noteq> []) \<and>
    (t \<notin> started \<longrightarrow> starts_at_keyframe (of_track t (media retained)))"
  using assms
proof (induction es arbitrary: started retained started')
  case (Cons e es)
  obtain keep st1 where k: "should_retain vt e b started = (keep, st1)" by (cases "should_retain vt e b started")
  obtain rest st2 where r: "retain_entries vt b es st1 = (rest, st2)" by (cases "retain_entries vt b es st1")
  have res: "retained = (if keep then e # rest else rest)" "started' = st2" using Cons.prems by (auto simp: k r)
  show ?case
    using Cons.IH [OF r] k unfolding res
    by (auto simp: should_retain_def Let_def of_track_def starts_at_keyframe_def split: if_splits)
      (cases "snd e"; auto)+
qed (simp add: of_track_def starts_at_keyframe_def)

lemma append_fragment_cases:
  fixes q f role
  defines "entries \<equiv> lq_entries q @ [(f, role)]"
  obtains (accepted) bounds where "append_fragment f role q = (Live_Accepted, apply_bounds bounds (q\<lparr>lq_entries := entries\<rparr>))"
    | (full) "append_fragment f role q = (NoDecodableBoundary, q\<lparr>lq_resource_limit_exceeded := True\<rparr>)"
    | (shed) b where "append_fragment f role q = (ShedToKeyframe, shed_to_boundary entries b q)"
  by (cases "within_limits q (measure_entries (lq_video_tracks q) entries None)";
      cases "find (\<lambda>t. within_limits q (measure_entries (lq_video_tracks q) entries (Some t))) (recovery_timestamps entries)")
    (simp_all add: append_fragment_def Let_def entries_def that)

lemma of_track_append [simp]: "of_track t (fs @ gs) = of_track t fs @ of_track t gs"
  by (simp add: of_track_def)

lemma of_track_video: "of_track t (video_of q fs) = (if t \<in> lq_video_tracks q then of_track t fs else [])"
  by (induction fs) (auto simp: of_track_def video_of_def)

text \<open>A recovery.\<close>

lemma resume_shed: "resume_ok (shed_to_boundary es b q) (video_of q (media (lq_entries (shed_to_boundary es b q))))"
proof -
  obtain retained started where r: "retain_entries (lq_video_tracks q) b es {} = (retained, started)"
    by (cases "retain_entries (lq_video_tracks q) b es {}")
  note v = retain_entries_video [OF r]
  have s: "lq_entries (shed_to_boundary es b q) = retained" "lq_video_tracks (shed_to_boundary es b q) = lq_video_tracks q"
      "lq_awaiting_recovery_keyframe (shed_to_boundary es b q) = lq_video_tracks q - started"
    by (simp_all add: shed_to_boundary_def r apply_bounds_def)
  show ?thesis
    using v by (auto simp: resume_ok_def s of_track_video starts_at_keyframe_def) (auto simp: video_of_def)
qed

text \<open>The checks of a media fragment.\<close>

lemma resume_admit:
  assumes "resume_ok q since" and "\<not> lq_resource_limit_exceeded q"
  shows "resume_ok (note_video f q) since"
  using assms
  by (auto simp: resume_ok_def note_video_def Let_def of_track_def filter_empty_conv)

lemma resume_full: "resume_ok q since \<Longrightarrow> resume_ok (q'\<lparr>lq_resource_limit_exceeded := True\<rparr>) since"
  if "lq_active_recovery_boundary q' = lq_active_recovery_boundary q"
  using that by (simp add: resume_ok_def)

lemma resume_same:
  "lq_active_recovery_boundary q' = lq_active_recovery_boundary q \<Longrightarrow> lq_video_tracks q' = lq_video_tracks q \<Longrightarrow>
   lq_awaiting_recovery_keyframe q' = lq_awaiting_recovery_keyframe q \<Longrightarrow>
   lq_resource_limit_exceeded q' = lq_resource_limit_exceeded q \<Longrightarrow> resume_ok q' since = resume_ok q since"
  by (simp add: resume_ok_def)

text \<open>An admitted fragment of a video track.\<close>

lemma resume_accept:
  assumes "resume_ok q since" and "\<not> lq_resource_limit_exceeded q" and "admit_media f q = (True, q1)"
  shows "resume_ok q1 (since @ video_of q1 [f])"
proof -
  let ?t = "mf_track_name f" and ?n = "note_video f q"
  note n = resume_admit [OF assms(1,2), of f]
  have ex: "\<not> lq_resource_limit_exceeded ?n" using assms(2) by (auto simp: note_video_def Let_def)
  have video: "?t \<in> lq_video_tracks q \<or> is_video_fragment f \<longleftrightarrow> ?t \<in> lq_video_tracks ?n"
    by (auto simp: note_video_def Let_def)
  have q1: "q1 = (if ?t \<in> lq_video_tracks ?n \<and> ?t \<in> lq_awaiting_recovery_keyframe ?n
      then ?n\<lparr>lq_awaiting_recovery_keyframe := lq_awaiting_recovery_keyframe ?n - {?t}\<rparr> else ?n)"
    and key: "?t \<in> lq_video_tracks ?n \<and> ?t \<in> lq_awaiting_recovery_keyframe ?n \<Longrightarrow> mf_is_video_keyframe f"
    using assms(3) by (auto simp: admit_media_def Let_def video split: if_splits option.splits)
  have one: "of_track t [f] = (if ?t = t then [f] else [])" for t by (simp add: of_track_def)
  show ?thesis
  proof (cases "?t \<in> lq_video_tracks ?n")
    case False
    then show ?thesis using n by (simp add: q1 video_of_def)
  next
    case True
    show ?thesis
      using n ex True key
      by (auto simp: resume_ok_def q1 video_of_def one starts_at_keyframe_def hd_append split: if_splits)
  qed
qed

lemma resume_append:
  assumes "resume_ok q1 (if role = Media_Role then since @ video_of q1 [f] else since)"
    and "resume_ok q since" and "lq_active_recovery_boundary q1 = lq_active_recovery_boundary q"
    and "live_push f role q = append_fragment f role q1" and "role = Media_Role \<longrightarrow> fst (admit_media f q)"
  shows "resume_ok (snd (live_push f role q)) (since_push f role q since)"
proof (cases rule: append_fragment_cases [of f role q1])
  case (accepted bounds)
  then show ?thesis
    using assms(1) resume_same [of "apply_bounds bounds (q1\<lparr>lq_entries := lq_entries q1 @ [(f, role)]\<rparr>)" q1]
    by (simp add: since_push_def recovers_def assms(4) Let_def apply_bounds_def video_of_def split: if_splits)
next
  case full
  then show ?thesis
    using resume_full [OF assms(3,2)] by (simp add: since_push_def recovers_def assms(4) Let_def)
next
  case (shed b)
  then show ?thesis
    using resume_shed [of "lq_entries q1 @ [(f, role)]" b q1] assms(5)
    by (simp add: since_push_def recovers_def assms(4) Let_def video_of_def shed_to_boundary_def apply_bounds_def split: prod.splits)
qed

lemma resume_push:
  assumes "resume_ok q since"
  shows "resume_ok (snd (live_push f role q)) (since_push f role q since)"
proof (cases "lq_resource_limit_exceeded q")
  case True
  then show ?thesis using assms by (simp add: live_push_def since_push_def recovers_def Let_def)
next
  case False
  show ?thesis
  proof (cases role)
    case Media_Role
    obtain admitted q1 where a: "admit_media f q = (admitted, q1)" by (cases "admit_media f q")
    show ?thesis
    proof (cases admitted)
      case True
      show ?thesis
        using resume_append [of q1 role since f q] resume_accept [OF assms False] a True Media_Role False assms
          admit_media_same(7) [of f q]
        by (simp add: live_push_def)
    next
      case not: False
      have "q1 = note_video f q" using a not by (auto simp: admit_media_def Let_def split: if_splits)
      then show ?thesis
        using resume_admit [OF assms False, of f] a not Media_Role False
        by (simp add: live_push_def since_push_def recovers_def Let_def)
    qed
  next
    case Initialization_Role
    then show ?thesis
      using resume_append [of q role since f q] assms False by (simp add: live_push_def)
  qed
qed

lemma resume_run:
  "resume_ok q since \<Longrightarrow> resume_ok (snd (live_run ops q)) (since_recovery ops q since)"
proof (induction ops arbitrary: q since)
  case (Cons op ops)
  have "resume_ok (snd (live_step op q)) (case op of Push f role \<Rightarrow> since_push f role q since | _ \<Rightarrow> since)"
  proof (cases op)
    case (Push f role)
    then show ?thesis using resume_push [OF Cons.prems] by simp
  next
    case Pop
    then show ?thesis using Cons.prems
      by (auto simp: live_try_pop_def apply_bounds_def resume_ok_def split: list.split)
  next
    case Eof
    then show ?thesis using Cons.prems by (simp add: mark_eof_def resume_ok_def)
  qed
  from Cons.IH [OF this] show ?case
    by (cases "live_step op q"; cases "live_run ops (snd (live_step op q))") simp
qed simp

subsection \<open>An example\<close>

definition example_fragment :: "u64 \<Rightarrow> bool \<Rightarrow> MediaFragment" where
  "example_fragment t key = \<lparr>mf_group_id = 0, mf_object_id = 0, mf_track_name = ''v'', mf_start_time_us = t,
     mf_duration_us = 1, mf_earliest_presentation_time_us = t, mf_sap_type = 0, mf_has_sap_type = False,
     mf_is_video_keyframe = key, mf_creation_time_us = 0,
     mf_payload = \<lparr>pb_span = \<lparr>span_offset = 0, span_size = 4\<rparr>, pb_owned_bytes = []\<rparr>, mf_properties = [],
     mf_source_timing = None\<rparr>"

definition example_ops :: "live_op list" where
  "example_ops = [Push (example_fragment 0 True) Media_Role, Push (example_fragment 1 False) Media_Role, Pop,
     Push (example_fragment 2 False) Media_Role, Push (example_fragment 3 True) Media_Role,
     Push (example_fragment 4 False) Media_Role]"

lemma example_ops_run:
  "case live_run example_ops (new_live_queue 10 10) of (popped, q) \<Rightarrow>
     (map mf_start_time_us popped, map (\<lambda>e. mf_start_time_us (fst e)) (lq_entries q), lq_active_recovery_boundary q,
      lq_queued_bytes q) = ([0], [3, 4], Some 3, 8)"
  "map (\<lambda>f. (mf_start_time_us f, mf_is_video_keyframe f)) (of_track ''v'' (since_recovery example_ops (new_live_queue 10 10) [])) =
     [(3, True), (4, False)]"
  by code_simp+

subsection \<open>Properties\<close>

lemma live_ok_new: "0 \<le> max_bytes \<Longrightarrow> 0 \<le> max_duration \<Longrightarrow> live_ok (new_live_queue max_bytes max_duration)"
  by (simp add: live_ok_def new_live_queue_def fits_def)

text \<open>C15: Whatever is pushed and popped, the payload in the queue between the ingest and the publisher is at
  most its byte limit and is what its byte count says, and from the start of any media fragment in it to the
  end of any other is at most its media duration (if that is below \<open>2\<^sup>6\<^sup>3 - 1\<close> microseconds,
  the largest value, which is no limit), no end beyond 64 bits. What comes out of it is what went in, in order,
  with fragments left out but none repeated or swapped.\<close>

theorem live_queue_bounded:
  assumes "0 \<le> max_bytes" and "0 \<le> max_duration" and "live_run ops (new_live_queue max_bytes max_duration) = (popped, q)"
  shows "lq_queued_bytes q = payload_bytes (lq_entries q) \<and> lq_queued_bytes q \<le> max_bytes \<and>
    lq_queued_media_duration q \<le> max_duration \<and>
    (\<forall>f \<in> set (media (lq_entries q)). \<forall>g \<in> set (media (lq_entries q)).
       media_end f < 2 ^ 64 \<and> (max_duration < 2 ^ 63 - 1 \<longrightarrow> media_end f - uint (mf_start_time_us g) \<le> max_duration)) \<and>
    subseq (popped @ map fst (lq_entries q)) (pushed ops)"
proof -
  have new: "lq_max_bytes (new_live_queue max_bytes max_duration) = max_bytes"
      "lq_max_media_duration (new_live_queue max_bytes max_duration) = max_duration"
      "lq_entries (new_live_queue max_bytes max_duration) = []"
    by (simp_all add: new_live_queue_def)
  from live_run_ok [OF live_ok_new [OF assms(1,2)], of ops] show ?thesis
    unfolding assms(3) new by (auto simp: live_ok_def fits_def ends_within_def media_end_def)
qed

theorem live_queue_bounded_witness:
  "case live_run example_ops (new_live_queue 10 10) of (popped, q) \<Rightarrow>
     lq_queued_bytes q = 8 \<and> lq_queued_bytes q \<le> 10 \<and> subseq (popped @ map fst (lq_entries q)) (pushed example_ops) \<and>
     (\<forall>f \<in> set (media (lq_entries q)). \<forall>g \<in> set (media (lq_entries q)). media_end f - uint (mf_start_time_us g) \<le> 10)"
proof -
  obtain popped q where r: "live_run example_ops (new_live_queue 10 10) = (popped, q)"
    by (cases "live_run example_ops (new_live_queue 10 10)")
  show ?thesis using live_queue_bounded [OF _ _ r] example_ops_run(1) by (simp add: r)
qed

text \<open>C14: When the queue overflows it drops media up to a keyframe: from its last recovery on, what the
  publisher gets of each video track, queued or taken out, starts with a keyframe.\<close>

theorem live_queue_resumes_at_keyframe:
  assumes "lq_active_recovery_boundary (snd (live_run ops (new_live_queue max_bytes max_duration))) \<noteq> None"
    and "of_track t (since_recovery ops (new_live_queue max_bytes max_duration) []) = f # fs"
  shows "mf_is_video_keyframe f"
proof -
  have "resume_ok (new_live_queue max_bytes max_duration) []" by (simp add: resume_ok_def new_live_queue_def)
  from resume_run [OF this, of ops] have "starts_at_keyframe (of_track t (since_recovery ops (new_live_queue max_bytes max_duration) []))"
    using assms(1) by (simp add: resume_ok_def)
  then show ?thesis by (simp add: assms(2) starts_at_keyframe_def)
qed

theorem live_queue_resumes_at_keyframe_witness:
  "\<exists>f fs. of_track ''v'' (since_recovery example_ops (new_live_queue 10 10) []) = f # fs \<and> mf_is_video_keyframe f"
proof -
  obtain f fs where s: "of_track ''v'' (since_recovery example_ops (new_live_queue 10 10) []) = f # fs"
    using example_ops_run(2) by (cases "of_track ''v'' (since_recovery example_ops (new_live_queue 10 10) [])") auto
  have "lq_active_recovery_boundary (snd (live_run example_ops (new_live_queue 10 10))) \<noteq> None"
    using example_ops_run(1) by (auto split: prod.splits)
  from live_queue_resumes_at_keyframe [OF this s] s show ?thesis by blast
qed

end
