(* ===== verification/Endpoint_Failover.thy ===== *)
theory Endpoint_Failover
  imports Object_Stream
begin

text \<open>
  \<open>src/endpoint_failover.cpp\<close>: publishing through a list of endpoints, with retries, and the wrapper around
  a live source that remembers what an attempt read, so that the next attempt can send it again. The
  publish attempt and the wrapped source are arguments, functions of a state they thread. The callbacks
  that only observe (events and waits) are the effects a call returns, in order. The first group of
  lemmas characterises the attempts of a call, the second what an attempt replays.
\<close>

subsection \<open>Live objects\<close>

datatype LiveMediaType = Unset | Video | Audio

datatype LivePackaging = Raw | Cmaf | Locmaf | Loc

record LiveTrack =
  lt_track_name :: string
  lt_media_type :: LiveMediaType
  lt_packaging :: LivePackaging
  lt_codec :: string
  lt_init_data :: bytes
  lt_bitrate :: u64
  lt_width :: "32 word"
  lt_height :: "32 word"
  lt_sample_rate :: "32 word"
  lt_channel_count :: "32 word"

record LiveObject =
  lo_track_name :: string
  lo_group_id :: u64
  lo_subgroup_id :: u64
  lo_object_id :: u64
  lo_media_time_us :: u64
  lo_media_duration_us :: u64
  lo_payload :: bytes
  lo_subgroup_contains_group_largest :: bool
  lo_final_in_subgroup :: bool
  lo_properties :: "ObjectProperty list"
  lo_ends_broadcast :: bool

subsection \<open>The replayable source\<close>

text \<open>The underlying source is a function of its own state; the record holds what the wrapper keeps.\<close>

record ReplayableLiveObjectSource =
  rs_tracks :: "LiveTrack list"
  rs_max_buffered_objects :: nat
  rs_attempt_count :: u64
  rs_retained_catalog :: "LiveObject option"
  rs_retained :: "LiveObject list"
  rs_replay :: "LiveObject list"

definition new_replayable :: "LiveTrack list \<Rightarrow> nat \<Rightarrow> ReplayableLiveObjectSource" where
  "new_replayable tracks max_buffered_objects =
     \<lparr>rs_tracks = tracks, rs_max_buffered_objects = (if max_buffered_objects = 0 then 1 else max_buffered_objects),
      rs_attempt_count = 0, rs_retained_catalog = None, rs_retained = [], rs_replay = []\<rparr>"

fun is_video_track :: "LiveTrack list \<Rightarrow> string \<Rightarrow> bool" where
  "is_video_track [] name = False"
| "is_video_track (track # tracks) name =
     (if lt_track_name track = name then lt_media_type track = Video else is_video_track tracks name)"

text \<open>The position of the newest first object of a video group, the beginning if there is none.\<close>

fun replay_begin :: "LiveTrack list \<Rightarrow> LiveObject list \<Rightarrow> nat \<Rightarrow> nat \<Rightarrow> nat" where
  "replay_begin tracks [] position begin_position = begin_position"
| "replay_begin tracks (object # objects) position begin_position =
     replay_begin tracks objects (Suc position)
       (if is_video_track tracks (lo_track_name object) \<and> lo_object_id object = 0 then position else begin_position)"

definition begin_attempt :: "ReplayableLiveObjectSource \<Rightarrow> ReplayableLiveObjectSource" where
  "begin_attempt r =
     (let r = r\<lparr>rs_attempt_count := rs_attempt_count r + 1, rs_replay := []\<rparr> in
      if rs_attempt_count r = 1 then r
      else r\<lparr>rs_replay := (case rs_retained_catalog r of None \<Rightarrow> [] | Some catalog \<Rightarrow> [catalog]) @
               drop (replay_begin (rs_tracks r) (rs_retained r) 0 0) (rs_retained r),
             rs_retained := []\<rparr>)"

definition buffered_objects :: "ReplayableLiveObjectSource \<Rightarrow> nat" where
  "buffered_objects r = length (rs_retained r) + length (rs_replay r)"

definition retain :: "LiveObject \<Rightarrow> ReplayableLiveObjectSource \<Rightarrow> ReplayableLiveObjectSource" where
  "retain object r =
     (let retained = rs_retained r @ [object] in
      r\<lparr>rs_retained := drop (length retained - rs_max_buffered_objects r) retained\<rparr>)"

definition next_object ::
    "('s \<Rightarrow> LiveObject option \<times> 's) \<Rightarrow> ReplayableLiveObjectSource \<times> 's \<Rightarrow>
     LiveObject option \<times> ReplayableLiveObjectSource \<times> 's" where
  "next_object source rs =
     (case rs of (r, s) \<Rightarrow>
      case rs_replay r of
        object # replay \<Rightarrow>
          let r = r\<lparr>rs_replay := replay\<rparr> in
          (Some object, if lo_track_name object \<noteq> ''catalog'' then retain object r else r, s)
      | [] \<Rightarrow>
          (case source s of
             (None, s) \<Rightarrow> (None, r, s)
           | (Some object, s) \<Rightarrow>
               if lo_track_name object = ''catalog'' then (Some object, r\<lparr>rs_retained_catalog := Some object\<rparr>, s)
               else (Some object, retain object r, s)))"

definition is_finished :: "('s \<Rightarrow> bool) option \<Rightarrow> ReplayableLiveObjectSource \<times> 's \<Rightarrow> bool" where
  "is_finished source_is_finished rs \<longleftrightarrow>
     rs_replay (fst rs) = [] \<and> (case source_is_finished of None \<Rightarrow> True | Some f \<Rightarrow> f (snd rs))"

subsection \<open>Failover\<close>

datatype FailureKind = No_Kind | Retryable | Endpoint_Permanent | Fatal | Cancelled

text \<open>The status of an attempt; the migration fields are not used here.\<close>

datatype attempt_status = Succeeded | Failed_With string FailureKind

datatype EndpointFailoverEventKind = Attempt_Event | Retry_Event | Advance_Event | Exhausted_Event

record EndpointFailoverEvent =
  ev_kind :: EndpointFailoverEventKind
  ev_endpoint_index :: nat
  ev_attempt :: nat
  ev_max_attempts :: nat
  ev_delay_ms :: nat
  ev_status :: attempt_status

definition kRetryDelay :: nat where "kRetryDelay = 1000"

text \<open>What a call does: the events it emits, the attempts with the status each returned, the waits.\<close>

datatype failover_effect =
    Emit EndpointFailoverEvent
  | Publish nat nat attempt_status
  | Retry_Wait nat

definition failover_event :: "EndpointFailoverEventKind \<Rightarrow> nat \<Rightarrow> nat \<Rightarrow> nat \<Rightarrow> attempt_status \<Rightarrow> failover_effect" where
  "failover_event kind endpoint_index attempt max_attempts status =
     Emit \<lparr>ev_kind = kind, ev_endpoint_index = endpoint_index, ev_attempt = attempt, ev_max_attempts = max_attempts,
       ev_delay_ms = (if kind = Retry_Event then kRetryDelay else 0), ev_status = status\<rparr>"

text \<open>
  The inner loop: the attempts at one endpoint, \<open>remaining\<close> of them after this one. It returns the call's
  status (\<open>Inl\<close>) or leaves the loop with the last status (\<open>Inr\<close>).
\<close>

definition ends_call :: "attempt_status \<Rightarrow> bool" where
  "ends_call status = (case status of Succeeded \<Rightarrow> True | Failed_With _ kind \<Rightarrow> kind = Cancelled \<or> kind = Fatal)"

fun try_endpoint ::
    "('e \<Rightarrow> 's \<Rightarrow> attempt_status \<times> 's) \<Rightarrow> 'e \<Rightarrow> nat \<Rightarrow> nat \<Rightarrow> nat \<Rightarrow> nat \<Rightarrow> 's \<Rightarrow>
     failover_effect list \<times> (attempt_status + attempt_status) \<times> 's" where
  "try_endpoint publish_attempt endpoint endpoint_index max_attempts attempt remaining s =
     (case publish_attempt endpoint s of (status, s) \<Rightarrow>
        let effects = [failover_event Attempt_Event endpoint_index attempt max_attempts Succeeded,
              Publish endpoint_index attempt status] in
        if ends_call status then (effects, Inl status, s)
        else if (case status of Failed_With _ kind \<Rightarrow> kind = Endpoint_Permanent | Succeeded \<Rightarrow> False) then
          (effects, Inr status, s)
        else
        case remaining of
          0 \<Rightarrow> (effects, Inr status, s)
        | Suc remaining \<Rightarrow>
            (case try_endpoint publish_attempt endpoint endpoint_index max_attempts (attempt + 1) remaining s of
               (later, result, s) \<Rightarrow>
                 (effects @ [failover_event Retry_Event endpoint_index (attempt + 1) max_attempts status,
                    Retry_Wait kRetryDelay] @ later, result, s)))"

fun try_endpoints ::
    "('e \<Rightarrow> 's \<Rightarrow> attempt_status \<times> 's) \<Rightarrow> nat \<Rightarrow> 'e list \<Rightarrow> nat \<Rightarrow> attempt_status \<Rightarrow> 's \<Rightarrow>
     failover_effect list \<times> (attempt_status + attempt_status) \<times> 's" where
  "try_endpoints publish_attempt max_attempts [] endpoint_index last_status s = ([], Inr last_status, s)"
| "try_endpoints publish_attempt max_attempts (endpoint # endpoints) endpoint_index last_status s =
     (case try_endpoint publish_attempt endpoint endpoint_index max_attempts 1 (max_attempts - 1) s of
        (effects, Inl status, s) \<Rightarrow> (effects, Inl status, s)
      | (effects, Inr status, s) \<Rightarrow>
          (case try_endpoints publish_attempt max_attempts endpoints (endpoint_index + 1) status s of
             (later, result, s) \<Rightarrow>
               (effects @ (if endpoints \<noteq> [] then [failover_event Advance_Event endpoint_index 0 max_attempts status] else []) @
                later, result, s)))"

text \<open>The callback is optional; \<open>retry_count\<close> is a \<open>size_t\<close>.\<close>

definition publish_with_failover ::
    "'e list \<Rightarrow> u64 \<Rightarrow> ('e \<Rightarrow> 's \<Rightarrow> attempt_status \<times> 's) option \<Rightarrow> 's \<Rightarrow>
     failover_effect list \<times> attempt_status \<times> 's" where
  "publish_with_failover endpoints retry_count publish_attempt s =
     (if endpoints = [] then ([], Failed_With ''no publish endpoints configured'' Fatal, s)
      else
      case publish_attempt of
        None \<Rightarrow> ([], Failed_With ''no publish attempt callback configured'' Fatal, s)
      | Some publish_attempt \<Rightarrow>
          if retry_count = - 1 then ([], Failed_With ''retry count is too large'' Fatal, s)
          else
          let max_attempts = unat retry_count + 1 in
          case try_endpoints publish_attempt max_attempts endpoints 0
              (Failed_With ''all publish endpoints failed'' Retryable) s of
            (effects, Inl status, s) \<Rightarrow> (effects, status, s)
          | (effects, Inr last_status, s) \<Rightarrow>
              (effects @ [failover_event Exhausted_Event (length endpoints - 1) 0 max_attempts last_status], last_status, s))"

subsection \<open>The attempts of a call\<close>

fun attempts_of :: "failover_effect list \<Rightarrow> (nat \<times> nat \<times> attempt_status) list" where
  "attempts_of [] = []"
| "attempts_of (e # es) = (case e of Publish i a status \<Rightarrow> [(i, a, status)] | _ \<Rightarrow> []) @ attempts_of es"

lemma attempts_of_append [simp]: "attempts_of (es @ es') = attempts_of es @ attempts_of es'"
  by (induction es) simp_all

lemma attempts_of_event [simp]: "attempts_of (failover_event k i a m st # es) = attempts_of es"
  by (simp add: failover_event_def)

lemma case_failover_event [simp]:
  "(case failover_event k i a m st of Emit e \<Rightarrow> x | Publish i a status \<Rightarrow> f i a status | Retry_Wait d \<Rightarrow> y) = x"
  by (simp add: failover_event_def)

definition is_permanent :: "attempt_status \<Rightarrow> bool" where
  "is_permanent status \<longleftrightarrow> (\<exists>m. status = Failed_With m Endpoint_Permanent)"

definition leaves_endpoint :: "nat \<Rightarrow> nat \<Rightarrow> attempt_status \<Rightarrow> bool" where
  "leaves_endpoint max_attempts a status \<longleftrightarrow> is_permanent status \<or> a = max_attempts"

text \<open>The attempt that follows an attempt.\<close>

definition follows :: "nat \<Rightarrow> nat \<times> nat \<times> attempt_status \<Rightarrow> nat \<times> nat \<times> attempt_status \<Rightarrow> bool" where
  "follows max_attempts x y \<longleftrightarrow> (case x of (i, a, status) \<Rightarrow> case y of (j, b, _) \<Rightarrow>
     \<not> ends_call status \<and> (if leaves_endpoint max_attempts a status then j = i + 1 \<and> b = 1 else j = i \<and> b = a + 1))"

text \<open>A run of attempts that starts at an endpoint and an attempt and ends in a status.\<close>

definition attempts_run :: "nat \<Rightarrow> nat \<Rightarrow> nat \<Rightarrow> nat \<Rightarrow> (nat \<times> nat \<times> attempt_status) list \<Rightarrow> bool" where
  "attempts_run max_attempts i a n xs \<longleftrightarrow> xs \<noteq> [] \<and> fst (hd xs) = i \<and> fst (snd (hd xs)) = a \<and>
     successively (follows max_attempts) xs \<and> (\<forall>(j, b, _) \<in> set xs. i \<le> j \<and> j < i + n \<and> 1 \<le> b \<and> b \<le> max_attempts)"

lemma try_endpoint_eq:
  assumes "f e s = (status, s1)"
  shows "try_endpoint f e i m a remaining s =
    (let effects = [failover_event Attempt_Event i a m Succeeded, Publish i a status] in
     if ends_call status then (effects, Inl status, s1)
     else if is_permanent status \<or> remaining = 0 then (effects, Inr status, s1)
     else case try_endpoint f e i m (a + 1) (remaining - 1) s1 of (later, result, s2) \<Rightarrow>
       (effects @ [failover_event Retry_Event i (a + 1) m status, Retry_Wait kRetryDelay] @ later, result, s2))"
  using assms by (subst try_endpoint.simps) (auto simp: is_permanent_def Let_def ends_call_def simp del: try_endpoint.simps
      split: attempt_status.splits nat.splits)

declare try_endpoint.simps [simp del]

lemma try_endpoint_run:
  assumes "try_endpoint f e i m a remaining s = (es, result, s')" and "a + remaining = m" and "1 \<le> a"
  shows "attempts_run m i a 1 (attempts_of es) \<and> fst (last (attempts_of es)) = i \<and>
    (case result of
       Inl status \<Rightarrow> snd (snd (last (attempts_of es))) = status \<and> ends_call status
     | Inr status \<Rightarrow> snd (snd (last (attempts_of es))) = status \<and> \<not> ends_call status \<and>
         leaves_endpoint m (fst (snd (last (attempts_of es)))) status)"
  using assms
proof (induction remaining arbitrary: a s es result s')
  case 0
  obtain status s1 where f: "f e s = (status, s1)" by (cases "f e s")
  show ?case
    using 0 unfolding try_endpoint_eq [of f e s status s1, OF f]
    by (auto simp: Let_def attempts_run_def leaves_endpoint_def split: if_splits)
next
  case (Suc remaining)
  obtain status s1 where f: "f e s = (status, s1)" by (cases "f e s")
  show ?case
  proof (cases "ends_call status \<or> is_permanent status")
    case True
    then show ?thesis
      using Suc.prems unfolding try_endpoint_eq [of f e s status s1, OF f]
      by (auto simp: Let_def attempts_run_def leaves_endpoint_def split: if_splits)
  next
    case False
    obtain later r s2 where l: "try_endpoint f e i m (a + 1) remaining s1 = (later, r, s2)"
      by (cases "try_endpoint f e i m (a + 1) remaining s1")
    have eq: "attempts_of es = (i, a, status) # attempts_of later" "result = r"
      using Suc.prems(1) False l unfolding try_endpoint_eq [of f e s status s1, OF f] by (auto simp: Let_def)
    note ih = Suc.IH [OF l]
    have run: "attempts_run m i (a + 1) 1 (attempts_of later)" using ih Suc.prems(2,3) by simp
    then obtain x xs where x: "attempts_of later = x # xs" by (cases "attempts_of later") (auto simp: attempts_run_def)
    have "follows m (i, a, status) x"
      using run False x Suc.prems(2) by (cases x) (auto simp: attempts_run_def follows_def leaves_endpoint_def)
    then have "attempts_run m i a 1 (attempts_of es)"
      using run x Suc.prems(2,3) by (auto simp: attempts_run_def eq)
    moreover have "last (attempts_of es) = last (attempts_of later)" by (simp add: eq x)
    ultimately show ?thesis using ih Suc.prems(2,3) eq(2) by (cases r) simp_all
  qed
qed

text \<open>How the attempts of a call end, given the number of endpoints.\<close>

definition ends_right :: "nat \<Rightarrow> nat \<Rightarrow> (nat \<times> nat \<times> attempt_status) list \<Rightarrow> attempt_status \<Rightarrow> bool" where
  "ends_right max_attempts n xs status \<longleftrightarrow> (case last xs of (i, a, st) \<Rightarrow>
     st = status \<and> (ends_call status \<or> i + 1 = n \<and> leaves_endpoint max_attempts a status))"

lemma try_endpoints_run:
  assumes "try_endpoints f m endpoints i last_status s = (es, result, s')" and "endpoints \<noteq> []" and "1 \<le> m"
  shows "attempts_run m i 1 (length endpoints) (attempts_of es) \<and>
    ends_right m (i + length endpoints) (attempts_of es) (case result of Inl status \<Rightarrow> status | Inr status \<Rightarrow> status)"
  using assms
proof (induction endpoints arbitrary: i last_status s es result s')
  case (Cons e endpoints)
  obtain es1 r1 s1 where t: "try_endpoint f e i m 1 (m - 1) s = (es1, r1, s1)"
    by (cases "try_endpoint f e i m 1 (m - 1) s")
  note run1 = try_endpoint_run [OF t]
  show ?case
  proof (cases "isl r1 \<or> endpoints = []")
    case True
    then have "attempts_of es = attempts_of es1 \<and> result = r1"
      using Cons.prems(1) by (cases r1) (auto simp: t simp del: One_nat_def)
    then show ?thesis
      using run1 Cons.prems(3) True
      by (cases "last (attempts_of es1)"; cases r1) (auto simp: attempts_run_def ends_right_def)
  next
    case False
    then obtain status where r1: "r1 = Inr status" by (cases r1) simp_all
    obtain es2 r2 s2 where u: "try_endpoints f m endpoints (i + 1) status s1 = (es2, r2, s2)"
      by (cases "try_endpoints f m endpoints (i + 1) status s1")
    have eq: "attempts_of es = attempts_of es1 @ attempts_of es2" "result = r2"
      using Cons.prems(1) False by (auto simp: t r1 u simp del: One_nat_def)
    note run2 = Cons.IH [OF u]
    have ne: "attempts_of es1 \<noteq> []" "attempts_of es2 \<noteq> []" using run1 run2 False Cons.prems(3) by (auto simp: attempts_run_def)
    have "follows m (last (attempts_of es1)) (hd (attempts_of es2))"
      using run1 run2 False Cons.prems(3) r1
      by (cases "last (attempts_of es1)"; cases "hd (attempts_of es2)") (auto simp: follows_def attempts_run_def)
    then have "attempts_run m i 1 (length (e # endpoints)) (attempts_of es)"
      using run1 run2 ne False Cons.prems(3) by (fastforce simp: attempts_run_def eq successively_append_iff)
    then show ?thesis using run2 ne False Cons.prems(3) by (simp add: eq ends_right_def)
  qed
qed simp

subsection \<open>What is replayed\<close>

text \<open>Reading objects from the wrapper until there is none.\<close>

fun reads ::
    "('s \<Rightarrow> LiveObject option \<times> 's) \<Rightarrow> nat \<Rightarrow> ReplayableLiveObjectSource \<times> 's \<Rightarrow>
     LiveObject list \<times> ReplayableLiveObjectSource \<times> 's" where
  "reads source 0 rs = ([], rs)"
| "reads source (Suc n) rs =
     (case next_object source rs of
        (None, rs) \<Rightarrow> ([], rs)
      | (Some object, rs) \<Rightarrow> (case reads source n rs of (objects, rs) \<Rightarrow> (object # objects, rs)))"

definition is_catalog :: "LiveObject \<Rightarrow> bool" where
  "is_catalog object \<longleftrightarrow> lo_track_name object = ''catalog''"

definition last_n :: "nat \<Rightarrow> 'a list \<Rightarrow> 'a list" where
  "last_n n xs = drop (length xs - n) xs"

definition last_catalog :: "LiveObject list \<Rightarrow> LiveObject option" where
  "last_catalog objects = (case filter is_catalog objects of [] \<Rightarrow> None | catalogs \<Rightarrow> Some (last catalogs))"

lemma last_catalog_simps [simp]: "last_catalog [] = None"
  "last_catalog (x # xs) =
    (if is_catalog x then (case last_catalog xs of None \<Rightarrow> Some x | Some c \<Rightarrow> Some c) else last_catalog xs)"
  by (auto simp: last_catalog_def split: list.splits)

lemma last_n_snoc: "last_n n (last_n n xs @ [x]) = last_n n (xs @ [x])"
  by (cases "length xs \<le> n") (auto simp: last_n_def Suc_diff_le not_le)

lemma last_n_append: "last_n n (last_n n xs @ ys) = last_n n (xs @ ys)"
proof (induction ys rule: rev_induct)
  case (snoc y ys)
  have "last_n n (last_n n xs @ ys @ [y]) = last_n n (last_n n (last_n n xs @ ys) @ [y])"
    using last_n_snoc [of n "last_n n xs @ ys" y] by simp
  also have "\<dots> = last_n n (last_n n (xs @ ys) @ [y])" by (simp only: snoc)
  finally show ?case using last_n_snoc [of n "xs @ ys" y] by simp
qed (simp add: last_n_def)

lemma retain_last_n: "rs_retained (retain object r) = last_n (rs_max_buffered_objects r) (rs_retained r @ [object])"
  by (simp add: retain_def Let_def last_n_def)

lemma retain_same [simp]: "rs_tracks (retain object r) = rs_tracks r"
  "rs_max_buffered_objects (retain object r) = rs_max_buffered_objects r"
  "rs_attempt_count (retain object r) = rs_attempt_count r" "rs_replay (retain object r) = rs_replay r"
  "rs_retained_catalog (retain object r) = rs_retained_catalog r"
  by (simp_all add: retain_def Let_def)

text \<open>An attempt with nothing to replay remembers the newest catalog and the newest objects it read.\<close>

lemma reads_remember:
  assumes "reads source n (r, s) = (objects, r', s')" and "rs_replay r = []"
    and "rs_retained r = last_n (rs_max_buffered_objects r) xs"
  shows "rs_replay r' = [] \<and> rs_attempt_count r' = rs_attempt_count r \<and> rs_tracks r' = rs_tracks r \<and>
    rs_max_buffered_objects r' = rs_max_buffered_objects r \<and>
    rs_retained r' = last_n (rs_max_buffered_objects r) (xs @ filter (\<lambda>x. \<not> is_catalog x) objects) \<and>
    rs_retained_catalog r' = (case last_catalog objects of None \<Rightarrow> rs_retained_catalog r | Some c \<Rightarrow> Some c)"
  using assms
proof (induction n arbitrary: r s objects xs)
  case 0
  then show ?case by simp
next
  case (Suc n)
  show ?case
  proof (cases "source s")
    case (Pair result s1)
    show ?thesis
    proof (cases result)
      case None
      then show ?thesis using Suc.prems Pair by (auto simp: next_object_def)
    next
      case (Some x)
      show ?thesis
      proof (cases "is_catalog x")
        case True
        obtain ys t where y: "reads source n (r\<lparr>rs_retained_catalog := Some x\<rparr>, s1) = (ys, t)"
          by (cases "reads source n (r\<lparr>rs_retained_catalog := Some x\<rparr>, s1)")
        then have "objects = x # ys" "t = (r', s')"
          using Suc.prems(1,2) Pair Some True by (auto simp: next_object_def is_catalog_def)
        with Suc.IH [of "r\<lparr>rs_retained_catalog := Some x\<rparr>" s1 ys xs] y Suc.prems(2,3) show ?thesis
          using True by (auto split: option.splits)
      next
        case False
        obtain ys t where y: "reads source n (retain x r, s1) = (ys, t)" by (cases "reads source n (retain x r, s1)")
        then have eq: "objects = x # ys" "t = (r', s')"
          using Suc.prems(1,2) Pair Some False by (auto simp: next_object_def is_catalog_def)
        have "rs_retained (retain x r) = last_n (rs_max_buffered_objects (retain x r)) (xs @ [x])"
          by (simp add: retain_last_n Suc.prems(3) last_n_snoc)
        with Suc.IH [of "retain x r" s1 ys "xs @ [x]"] y Suc.prems(2) eq show ?thesis
          using False by (simp split: option.splits)
      qed
    qed
  qed
qed

text \<open>Reading what is to be replayed does not touch the source.\<close>

lemma reads_replay:
  "fst (reads source (length (rs_replay r)) (r, s)) = rs_replay r \<and>
   snd (snd (reads source (length (rs_replay r)) (r, s))) = s"
proof (induction "rs_replay r" arbitrary: r)
  case (Cons x xs)
  then have r: "rs_replay r = x # xs" by simp
  let ?r = "if lo_track_name x \<noteq> ''catalog'' then retain x (r\<lparr>rs_replay := xs\<rparr>) else r\<lparr>rs_replay := xs\<rparr>"
  have "rs_replay ?r = xs" by simp
  with Cons.hyps(1) [of ?r] show ?case
    by (cases "reads source (length xs) (?r, s)") (simp add: r next_object_def split: if_splits)
qed simp


text \<open>The elements from the last one that satisfies a predicate on, all of them if none does.\<close>

definition from_last :: "('a \<Rightarrow> bool) \<Rightarrow> 'a list \<Rightarrow> 'a list" where
  "from_last starts xs = rev (takeWhile (Not \<circ> starts) (rev xs) @ take 1 (dropWhile (Not \<circ> starts) (rev xs)))"

lemma from_last_snoc: "from_last starts (xs @ [x]) = (if starts x then [x] else from_last starts xs @ [x])"
  by (simp add: from_last_def)

definition starts_video_group :: "LiveTrack list \<Rightarrow> LiveObject \<Rightarrow> bool" where
  "starts_video_group tracks object \<longleftrightarrow> is_video_track tracks (lo_track_name object) \<and> lo_object_id object = 0"

lemma replay_begin_snoc:
  "replay_begin tracks (xs @ [x]) position b =
     (if starts_video_group tracks x then position + length xs else replay_begin tracks xs position b)"
  by (induction xs arbitrary: position b) (simp_all add: starts_video_group_def)

lemma replay_begin_le: "b \<le> position \<Longrightarrow> replay_begin tracks xs position b \<le> position + length xs"
  by (induction xs rule: rev_induct) (auto simp: replay_begin_snoc)

lemma drop_replay_begin: "drop (replay_begin tracks xs 0 0) xs = from_last (starts_video_group tracks) xs"
proof (induction xs rule: rev_induct)
  case (snoc x xs)
  have "replay_begin tracks xs 0 0 \<le> length xs" using replay_begin_le [of 0 0 tracks xs] by simp
  with snoc show ?case by (simp add: replay_begin_snoc from_last_snoc)
qed (simp add: from_last_def)

text \<open>What a retry should replay of the objects read so far.\<close>

definition to_replay :: "LiveTrack list \<Rightarrow> nat \<Rightarrow> LiveObject list \<Rightarrow> LiveObject list" where
  "to_replay tracks max_buffered_objects objects =
     (case last_catalog objects of None \<Rightarrow> [] | Some catalog \<Rightarrow> [catalog]) @
     from_last (starts_video_group tracks)
       (last_n (max 1 max_buffered_objects) (filter (\<lambda>x. \<not> is_catalog x) objects))"

lemma first_attempt_remembers:
  assumes "reads source n (begin_attempt (new_replayable tracks m), s) = (objects, r, s')"
  shows "rs_replay r = []" and "rs_attempt_count r = 1" and "rs_tracks r = tracks"
    and "rs_retained r = last_n (max 1 m) (filter (\<lambda>x. \<not> is_catalog x) objects)"
    and "rs_retained_catalog r = last_catalog objects"
  using reads_remember [OF assms, of "[]"]
  by (auto simp: begin_attempt_def new_replayable_def last_n_def max_def split: option.splits)

definition replay_tracks :: "LiveTrack list" where
  "replay_tracks = [\<lparr>lt_track_name = ''v'', lt_media_type = Video, lt_packaging = Cmaf, lt_codec = '''', lt_init_data = [],
     lt_bitrate = 0, lt_width = 0, lt_height = 0, lt_sample_rate = 0, lt_channel_count = 0\<rparr>]"

definition replay_object :: "string \<Rightarrow> u64 \<Rightarrow> u64 \<Rightarrow> LiveObject" where
  "replay_object name group_id object = \<lparr>lo_track_name = name, lo_group_id = group_id, lo_subgroup_id = 0, lo_object_id = object,
     lo_media_time_us = 0, lo_media_duration_us = 0, lo_payload = [], lo_subgroup_contains_group_largest = True,
     lo_final_in_subgroup = True, lo_properties = [], lo_ends_broadcast = False\<rparr>"

definition replay_input :: "LiveObject list" where
  "replay_input = [replay_object ''catalog'' 0 0, replay_object ''v'' 0 0, replay_object ''v'' 1 0, replay_object ''a'' 1 1]"

definition list_source :: "LiveObject list \<Rightarrow> LiveObject option \<times> LiveObject list" where
  "list_source xs = (case xs of [] \<Rightarrow> (None, []) | x # xs \<Rightarrow> (Some x, xs))"

lemma first_reads:
  "reads list_source 3 (begin_attempt (new_replayable replay_tracks 8), replay_input) =
      (take 3 replay_input, fst (snd (reads list_source 3 (begin_attempt (new_replayable replay_tracks 8), replay_input))),
       drop 3 replay_input)"
  by code_simp

lemma first_replay:
  "to_replay replay_tracks 8 (take 3 replay_input) = [replay_object ''catalog'' 0 0, replay_object ''v'' 1 0]"
  "last_catalog (take 3 replay_input) = Some (replay_object ''catalog'' 0 0)"
  by code_simp+

text \<open>C17: A retry replays what the failed session had sent last. After a first attempt that read some
  objects, the next attempt's first reads return, without touching the source, the newest catalog
  object read and then the newest non-catalog objects, at most as many as the buffer holds, from
  the newest of them that starts a group of a video track.\<close>

theorem replay_after_failure:
  assumes "reads source n (begin_attempt (new_replayable tracks m), s) = (objects, r, s')"
  shows "fst (reads source (length (to_replay tracks m objects)) (begin_attempt r, s')) = to_replay tracks m objects \<and>
    snd (snd (reads source (length (to_replay tracks m objects)) (begin_attempt r, s'))) = s'"
proof -
  have "rs_replay (begin_attempt r) = to_replay tracks m objects"
    using first_attempt_remembers [OF assms]
    by (simp add: begin_attempt_def Let_def to_replay_def drop_replay_begin split: option.splits)
  then show ?thesis using reads_replay [of source "begin_attempt r" s'] by simp
qed

lemma replay_after_failure_witness:
  "fst (reads list_source 2 (begin_attempt (fst (snd (reads list_source 3
      (begin_attempt (new_replayable replay_tracks 8), replay_input)))), drop 3 replay_input)) =
    [replay_object ''catalog'' 0 0, replay_object ''v'' 1 0]"
  using replay_after_failure [OF first_reads] by (simp add: first_replay numeral_2_eq_2)

text \<open>C32: A second failure loses the replay. When an attempt fails before it reads anything, for example
  while it connects, the next attempt replays only the catalog: the objects that were kept for a
  retry have been moved out of the buffer and are dropped unread.\<close>

theorem second_failure_loses_replay:
  assumes "reads source n (begin_attempt (new_replayable tracks m), s) = (objects, r, s')"
  shows "rs_replay (begin_attempt (begin_attempt r)) =
      (case last_catalog objects of None \<Rightarrow> [] | Some catalog \<Rightarrow> [catalog])"
  using first_attempt_remembers [OF assms] by (simp add: begin_attempt_def Let_def split: option.splits)

lemma second_failure_loses_replay_witness:
  "rs_replay (begin_attempt (begin_attempt (fst (snd (reads list_source 3
      (begin_attempt (new_replayable replay_tracks 8), replay_input)))))) = [replay_object ''catalog'' 0 0] \<and>
    to_replay replay_tracks 8 (take 3 replay_input) = [replay_object ''catalog'' 0 0, replay_object ''v'' 1 0]"
  using second_failure_loses_replay [OF first_reads] by (simp add: first_replay)

text \<open>C16: The attempts of a call. They start with the first attempt at the first endpoint; a retryable
  failure is followed by the next attempt at the same endpoint while attempts remain there, and then,
  as after a permanent failure, by the first attempt at the next endpoint; nothing follows a success,
  a cancellation or a fatal failure. The call returns the status of its last attempt, which ended it
  or exhausted the last endpoint.\<close>

theorem failover_order:
  assumes "publish_with_failover endpoints retry_count (Some publish_attempt) s = (effects, status, s')"
    and "endpoints \<noteq> []" and "retry_count \<noteq> - 1"
  shows "attempts_run (unat retry_count + 1) 0 1 (length endpoints) (attempts_of effects) \<and>
    ends_right (unat retry_count + 1) (length endpoints) (attempts_of effects) status"
proof -
  let ?last = "Failed_With ''all publish endpoints failed'' Retryable"
  obtain es result t where t: "try_endpoints publish_attempt (unat retry_count + 1) endpoints 0 ?last s = (es, result, t)"
    by (cases "try_endpoints publish_attempt (unat retry_count + 1) endpoints 0 ?last s")
  have "attempts_of effects = attempts_of es \<and> status = (case result of Inl status \<Rightarrow> status | Inr status \<Rightarrow> status)"
    using assms t by (cases result) (auto simp: publish_with_failover_def Let_def)
  then show ?thesis using try_endpoints_run [OF t assms(2)] by simp
qed

definition scripted_attempt :: "nat \<Rightarrow> attempt_status list \<Rightarrow> attempt_status \<times> attempt_status list" where
  "scripted_attempt endpoint script = (hd script, tl script)"

lemma failover_order_witness:
  "attempts_of (fst (publish_with_failover [7, 8, 9] 1 (Some scripted_attempt)
      [Failed_With ''r'' Retryable, Failed_With ''s'' Retryable, Failed_With ''t'' Endpoint_Permanent, Succeeded])) =
    [(0, 1, Failed_With ''r'' Retryable), (0, 2, Failed_With ''s'' Retryable), (1, 1, Failed_With ''t'' Endpoint_Permanent),
     (2, 1, Succeeded)] \<and>
   attempts_run 2 0 1 3 (attempts_of (fst (publish_with_failover [7, 8, 9] 1 (Some scripted_attempt)
      [Failed_With ''r'' Retryable, Failed_With ''s'' Retryable, Failed_With ''t'' Endpoint_Permanent, Succeeded])))"
proof -
  let ?f = "publish_with_failover [7, 8, 9] 1 (Some scripted_attempt)
      [Failed_With ''r'' Retryable, Failed_With ''s'' Retryable, Failed_With ''t'' Endpoint_Permanent, Succeeded]"
  have 1: "attempts_of (fst ?f) =
    [(0, 1, Failed_With ''r'' Retryable), (0, 2, Failed_With ''s'' Retryable), (1, 1, Failed_With ''t'' Endpoint_Permanent),
     (2, 1, Succeeded)]" by code_simp
  have "attempts_run (unat (1 :: u64) + 1) 0 1 (length [7, 8, 9 :: nat]) (attempts_of (fst ?f))"
    using failover_order [of "[7, 8, 9]" 1 scripted_attempt _ "fst ?f" "fst (snd ?f)" "snd (snd ?f)"] by simp
  then show ?thesis using 1 by (simp add: numeral_2_eq_2 numeral_3_eq_3)
qed

end
