(* ===== verification/Loop_Timestamps.thy ===== *)
theory Loop_Timestamps
  imports Mp4_Box Object_Stream
begin

text \<open>
  \<open>src/loop_timestamps.cpp\<close>: when a file is looped, the media timestamps of each cycle are advanced by the
  time that has gone by. Three payload formats carry them: CMAF fragments (the \<open>tfdt\<close> boxes of each
  \<open>moof\<close>), LOCMAF objects (a field of a property block) and LOC objects (an object property). A rewrite
  returns \<open>None\<close> where the code returns \<open>false\<close> and leaves the payload as it was.
\<close>

subsection \<open>The offset of a cycle\<close>

definition kMicrosecondsPerSecond :: u64 where "kMicrosecondsPerSecond = 1000000"

definition loop_offset_ticks :: "u64 \<Rightarrow> u64 \<Rightarrow> u32 \<Rightarrow> u64" where
  "loop_offset_ticks cycle_duration_us cycle timescale =
     (let elapsed_us = cycle_duration_us * cycle;
          whole_seconds = elapsed_us div kMicrosecondsPerSecond;
          remainder_us = elapsed_us mod kMicrosecondsPerSecond in
      whole_seconds * ucast timescale +
      (remainder_us * ucast timescale + kMicrosecondsPerSecond div 2) div kMicrosecondsPerSecond)"

subsection \<open>Writing big-endian integers in place\<close>

definition be_bytes :: "nat \<Rightarrow> u64 \<Rightarrow> bytes" where
  "be_bytes n value = map (\<lambda>i. ucast (drop_bit (8 * (n - 1 - i)) value)) [0..<n]"

definition write_at :: "bytes \<Rightarrow> nat \<Rightarrow> bytes \<Rightarrow> bytes" where
  "write_at bs offset data = take offset bs @ data @ drop (offset + length data) bs"

definition write_be32_at :: "bytes \<Rightarrow> u64 \<Rightarrow> u32 \<Rightarrow> bytes" where
  "write_be32_at bs offset value = write_at bs (unat offset) (be_bytes 4 (ucast value))"

definition write_be64_at :: "bytes \<Rightarrow> u64 \<Rightarrow> u64 \<Rightarrow> bytes" where
  "write_be64_at bs offset value = write_at bs (unat offset) (be_bytes 8 value)"

subsection \<open>CMAF\<close>

definition has_compact_header :: "Mp4Box \<Rightarrow> bool" where
  "has_compact_header box \<longleftrightarrow> span_offset (box_payload box) - span_offset (box_span box) = 8"

definition full_box_flags :: "bytes \<Rightarrow> Mp4Box \<Rightarrow> u32" where
  "full_box_flags bs box = read_be32 bs (span_offset (box_payload box)) AND 0x00FFFFFF"

record TfdtWidening =
  tw_box_offset :: u64
  tw_value :: u64

definition widenings_before :: "TfdtWidening list \<Rightarrow> u64 \<Rightarrow> u64" where
  "widenings_before widenings target = of_nat (length (filter (\<lambda>w. tw_box_offset w < target) widenings))"

definition adjust_trun :: "Mp4Box \<Rightarrow> TfdtWidening list \<Rightarrow> Mp4Box \<Rightarrow> bytes \<Rightarrow> bytes option" where
  "adjust_trun moof widenings child out =
     (let payload = box_payload child in
      if span_size payload < 8 then None
      else if full_box_flags out child AND 1 = 0 then Some out
      else if span_size payload < 12 then None
      else
        let field = span_offset payload + 8;
            data_offset = sint (read_be32 out field);
            target = sint (span_offset (box_span moof)) + data_offset in
        if target < 0 then None
        else
          let shifted = data_offset + 4 * sint (widenings_before widenings (of_int target)) in
          if shifted > 2 ^ 31 - 1 then None else Some (write_be32_at out field (of_int shifted)))"

fun adjust_saio_entries :: "Mp4Box \<Rightarrow> TfdtWidening list \<Rightarrow> u8 \<Rightarrow> nat \<Rightarrow> u64 \<Rightarrow> bytes \<Rightarrow> bytes option" where
  "adjust_saio_entries moof widenings version 0 cursor out = Some out"
| "adjust_saio_entries moof widenings version (Suc n) cursor out =
     (let offset = (if version = 0 then ucast (read_be32 out cursor) else read_be64 out cursor);
          shifted = offset + 4 * widenings_before widenings (span_offset (box_span moof) + offset) in
      if version = 0 \<and> shifted > 0xFFFFFFFF then None
      else adjust_saio_entries moof widenings version n (cursor + (if version = 0 then 4 else 8))
        (if version = 0 then write_be32_at out cursor (ucast shifted) else write_be64_at out cursor shifted))"

definition adjust_saio :: "Mp4Box \<Rightarrow> TfdtWidening list \<Rightarrow> Mp4Box \<Rightarrow> bytes \<Rightarrow> bytes option" where
  "adjust_saio moof widenings child out =
     (let payload = box_payload child in
      if span_size payload < 8 then None
      else
        let version = byte_at out (span_offset payload);
            cursor = span_offset payload + 4 + (if full_box_flags out child AND 1 \<noteq> 0 then 8 else 0);
            limit = span_offset payload + span_size payload in
        if cursor + 4 > limit then None
        else
          let entry_count = read_be32 out cursor;
              cursor = cursor + 4;
              entry_size = (if version = 0 then 4 else 8) in
          if (limit - cursor) div entry_size < ucast entry_count then None
          else adjust_saio_entries moof widenings version (unat entry_count) cursor out)"

fun adjust_traf_children :: "Mp4Box \<Rightarrow> TfdtWidening list \<Rightarrow> Mp4Box list \<Rightarrow> bytes \<Rightarrow> bytes option" where
  "adjust_traf_children moof widenings [] out = Some out"
| "adjust_traf_children moof widenings (child # children) out =
     Option.bind
       (if box_type child = ''trun'' then adjust_trun moof widenings child out
        else if box_type child = ''saio'' then adjust_saio moof widenings child out
        else Some out)
       (adjust_traf_children moof widenings children)"

definition adjust_traf :: "Mp4Box \<Rightarrow> TfdtWidening list \<Rightarrow> nat \<Rightarrow> Mp4Box \<Rightarrow> bytes \<Rightarrow> bytes option" where
  "adjust_traf moof widenings traf_count traf out =
     (if \<not> has_compact_header traf then None
      else
        case find_child_box traf ''tfhd'' of
          None \<Rightarrow> None
        | Some tfhd \<Rightarrow>
            if span_size (box_payload tfhd) < 4 then None
            else
              let tfhd_flags = full_box_flags out tfhd in
              if tfhd_flags AND 0x000001 \<noteq> 0 \<or> (tfhd_flags AND 0x020000 = 0 \<and> traf_count > 1) then None
              else
                let span = box_span traf;
                    traf_widenings = of_nat (length (filter (\<lambda>w. tw_box_offset w \<ge> span_offset span \<and>
                      tw_box_offset w < span_offset span + span_size span) widenings)) in
                adjust_traf_children moof widenings (box_children traf)
                  (write_be32_at out (span_offset span) (ucast (span_size span + 4 * traf_widenings))))"

fun adjust_trafs :: "Mp4Box \<Rightarrow> TfdtWidening list \<Rightarrow> nat \<Rightarrow> Mp4Box list \<Rightarrow> bytes \<Rightarrow> bytes option" where
  "adjust_trafs moof widenings traf_count [] out = Some out"
| "adjust_trafs moof widenings traf_count (traf # trafs) out =
     (if box_type traf \<noteq> ''traf'' then adjust_trafs moof widenings traf_count trafs out
      else Option.bind (adjust_traf moof widenings traf_count traf out) (adjust_trafs moof widenings traf_count trafs))"

definition adjust_for_widenings :: "bytes \<Rightarrow> Mp4Box \<Rightarrow> TfdtWidening list \<Rightarrow> bytes option" where
  "adjust_for_widenings out moof widenings =
     (if \<not> has_compact_header moof then None
      else
        Option.bind
          (adjust_trafs moof widenings (length (filter (\<lambda>child. box_type child = ''traf'') (box_children moof)))
            (box_children moof) out)
          (\<lambda>out. Some (write_be32_at out (span_offset (box_span moof))
             (ucast (span_size (box_span moof) + 4 * of_nat (length widenings))))))"

text \<open>One \<open>traf\<close>: its new bytes and the widenings so far.\<close>

definition rebase_traf :: "u64 \<Rightarrow> Mp4Box \<Rightarrow> bytes \<times> TfdtWidening list \<Rightarrow> (bytes \<times> TfdtWidening list) option" where
  "rebase_traf delta_ticks traf state =
     (case state of (out, widenings) \<Rightarrow>
      case find_child_box traf ''tfdt'' of
        None \<Rightarrow> None
      | Some tfdt \<Rightarrow>
          let payload = box_payload tfdt in
          if span_size payload < 4 then None
          else
            let version = byte_at out (span_offset payload); field = span_offset payload + 4 in
            if version = 1 \<and> span_size payload \<ge> 12 then
              Some (write_be64_at out field (read_be64 out field + delta_ticks), widenings)
            else if version = 0 \<and> span_size payload \<ge> 8 then
              let moved = ucast (read_be32 out field) + delta_ticks in
              if moved \<le> 0xFFFFFFFF then Some (write_be32_at out field (ucast moved), widenings)
              else if has_compact_header tfdt \<and> span_size payload = 8 then
                Some (out, widenings @ [\<lparr>tw_box_offset = span_offset (box_span tfdt), tw_value = moved\<rparr>])
              else None
            else None)"

fun rebase_trafs :: "u64 \<Rightarrow> Mp4Box list \<Rightarrow> bytes \<times> TfdtWidening list \<Rightarrow> (bytes \<times> TfdtWidening list) option" where
  "rebase_trafs delta_ticks [] state = Some state"
| "rebase_trafs delta_ticks (traf # trafs) state =
     (if box_type traf \<noteq> ''traf'' then rebase_trafs delta_ticks trafs state
      else Option.bind (rebase_traf delta_ticks traf state) (rebase_trafs delta_ticks trafs))"

fun rebase_moofs :: "u64 \<Rightarrow> Mp4Box list \<Rightarrow> bytes \<times> TfdtWidening list \<times> bool \<Rightarrow> (bytes \<times> TfdtWidening list \<times> bool) option" where
  "rebase_moofs delta_ticks [] state = Some state"
| "rebase_moofs delta_ticks (moof # boxes) (out, all_widenings, found) =
     (if box_type moof \<noteq> ''moof'' then rebase_moofs delta_ticks boxes (out, all_widenings, found)
      else
        case rebase_trafs delta_ticks (box_children moof) (out, []) of
          None \<Rightarrow> None
        | Some (out, widenings) \<Rightarrow>
            let found = (found \<or> list_ex (\<lambda>traf. box_type traf = ''traf'') (box_children moof)) in
            if widenings = [] then rebase_moofs delta_ticks boxes (out, all_widenings, found)
            else
              case adjust_for_widenings out moof widenings of
                None \<Rightarrow> None
              | Some out \<Rightarrow> rebase_moofs delta_ticks boxes (out, all_widenings @ widenings, found))"

text \<open>A version 0 box of 16 bytes becomes a version 1 box of 20: the four bytes of the time are replaced by eight.\<close>

definition widen :: "TfdtWidening \<Rightarrow> bytes \<Rightarrow> bytes" where
  "widen w out =
     (let box = tw_box_offset w;
          out = (write_be32_at out box 20)[unat (box + 8) := 1] in
      take (unat (box + 12)) out @ be_bytes 8 (tw_value w) @ drop (unat (box + 16)) out)"

definition rebase_boxes :: "Mp4Box list \<Rightarrow> bytes \<Rightarrow> u64 \<Rightarrow> bytes option" where
  "rebase_boxes boxes payload delta_ticks =
     (case rebase_moofs delta_ticks boxes (payload, [], False) of
        None \<Rightarrow> None
      | Some (out, all_widenings, found) \<Rightarrow> if \<not> found then None else Some (fold widen (rev all_widenings) out))"

text \<open>The outer \<open>None\<close> is the parser that does not return.\<close>

definition rebase_cmaf_timestamps :: "bytes \<Rightarrow> u64 \<Rightarrow> bytes option option" where
  "rebase_cmaf_timestamps payload delta_ticks =
     Option.bind (parse_mp4_boxes payload)
       (\<lambda>r. case r of Inl e \<Rightarrow> Some None | Inr boxes \<Rightarrow> Some (rebase_boxes boxes payload delta_ticks))"

subsection \<open>LOCMAF\<close>

function locmaf_varint_length :: "u8 \<Rightarrow> nat \<Rightarrow> nat" where
  "locmaf_varint_length first len =
     (if len < 9 \<and> first AND drop_bit (len - 1) 0x80 \<noteq> 0 then locmaf_varint_length first (len + 1) else len)"
  by pat_completeness auto
termination by (relation "measure (\<lambda>(first, len). 9 - len)") auto

declare locmaf_varint_length.simps [simp del]

definition read_locmaf_varint :: "bytes \<Rightarrow> nat \<Rightarrow> (u64 \<times> nat) option" where
  "read_locmaf_varint bs cursor =
     (if cursor \<ge> length bs then None
      else
        let first = bs ! cursor; len = locmaf_varint_length first 1 in
        if length bs - cursor < len then None
        else
          let start = (if len < 9 then ucast (first AND drop_bit len 0xFF) else 0) in
          Some (foldl (\<lambda>v i. push_bit 8 v OR ucast (bs ! (cursor + i))) start [1..<len], cursor + len))"

function locmaf_size :: "u64 \<Rightarrow> nat \<Rightarrow> nat" where
  "locmaf_size x len = (if len < 9 \<and> x \<ge> push_bit (7 * len) 1 then locmaf_size x (len + 1) else len)"
  by pat_completeness auto
termination by (relation "measure (\<lambda>(x, len). 9 - len)") auto

declare locmaf_size.simps [simp del]

definition locmaf_varint :: "u64 \<Rightarrow> bytes" where
  "locmaf_varint x =
     (let len = locmaf_size x 1;
          out = be_bytes len x in
      if len > 1 then out[0 := out ! 0 OR ucast (push_bit (9 - len) 0xFF :: u32)] else out)"

datatype locmaf_object = Properties_At nat | Delta_Object | Raw_At nat

lemma locmaf_varint_length_bounds: "len \<le> 9 \<Longrightarrow> len \<le> locmaf_varint_length first len \<and> locmaf_varint_length first len \<le> 9"
proof (induction first len rule: locmaf_varint_length.induct)
  case (1 first len)
  then show ?case by (subst (1 2) locmaf_varint_length.simps) auto
qed

lemma read_locmaf_varint_progress:
  "read_locmaf_varint bs cursor = Some (x, cursor') \<Longrightarrow> cursor < cursor' \<and> cursor' \<le> length bs"
  using locmaf_varint_length_bounds [of 1 "bs ! cursor"] by (auto simp: read_locmaf_varint_def Let_def split: if_splits)

text \<open>The boxes carried ahead of an object are skipped.\<close>

function locmaf_header :: "bytes \<Rightarrow> nat \<Rightarrow> locmaf_object option" where
  "locmaf_header payload cursor =
     (case read_locmaf_varint payload cursor of
        None \<Rightarrow> None
      | Some (type, cursor') \<Rightarrow>
          if type = 1 then
            (case read_locmaf_varint payload cursor' of
               None \<Rightarrow> None
             | Some (len, cursor'') \<Rightarrow>
                 if length payload - cursor'' < unat len then None
                 else locmaf_header payload (cursor'' + unat len))
          else if type = 3 then Some Delta_Object
          else if type = 4 then Some (Raw_At cursor')
          else if type = 2 then Some (Properties_At cursor')
          else None)"
  by pat_completeness auto
termination
proof (relation "measure (\<lambda>(payload, cursor). length payload - cursor)")
  fix payload cursor x type cursor' y len cursor''
  assume "read_locmaf_varint payload cursor = Some x" "(type, cursor') = x"
    and "read_locmaf_varint payload cursor' = Some y" "(len, cursor'') = y"
  then have "cursor < cursor'" "cursor' < cursor''" "cursor'' \<le> length payload"
    using read_locmaf_varint_progress by blast+
  then show "((payload, cursor'' + unat len), payload, cursor) \<in> measure (\<lambda>(payload, cursor). length payload - cursor)"
    by simp
qed simp

declare locmaf_header.simps [simp del]

text \<open>
  The properties up to the base time: its value with the offsets where it starts and ends. The cursor is a
  \<open>size_t\<close>; a length that crosses the end of the properties makes \<open>properties_end - cursor\<close> wrap,
  so the scan is a partial function.
\<close>

partial_function (option) find_base_time :: "bytes \<Rightarrow> u64 \<Rightarrow> u64 \<Rightarrow> (u64 \<times> u64 \<times> u64) option option" where
  "find_base_time payload cursor properties_end =
     (if cursor < properties_end then
        (case read_locmaf_varint payload (unat cursor) of
           None \<Rightarrow> Some None
         | Some (property_id, value_offset) \<Rightarrow>
             if property_id AND 1 \<noteq> 0 then
               (case read_locmaf_varint payload value_offset of
                  None \<Rightarrow> Some None
                | Some (len, next_cursor) \<Rightarrow>
                    if properties_end - of_nat next_cursor < len then Some None
                    else find_base_time payload (of_nat next_cursor + len) properties_end)
             else
               (case read_locmaf_varint payload value_offset of
                  None \<Rightarrow> Some None
                | Some (x, next_cursor) \<Rightarrow>
                    if of_nat next_cursor > properties_end then Some None
                    else if property_id \<noteq> 10 then find_base_time payload (of_nat next_cursor) properties_end
                    else Some (Some (x, of_nat value_offset, of_nat next_cursor))))
      else Some None)"

declare find_base_time.simps [code]

definition rebase_locmaf_properties :: "bytes \<Rightarrow> nat \<Rightarrow> u64 \<Rightarrow> bytes option option" where
  "rebase_locmaf_properties payload length_offset delta_ticks =
     (case read_locmaf_varint payload length_offset of
        None \<Rightarrow> Some None
      | Some (properties_length, properties_begin) \<Rightarrow>
          if length payload - properties_begin < unat properties_length then Some None
          else
            let properties_end = properties_begin + unat properties_length in
            map_option (map_option (\<lambda>(x, value_offset, cursor).
                let value_offset = unat value_offset; cursor = unat cursor;
                    encoded = locmaf_varint (x + delta_ticks);
                    new_properties_length = of_nat (properties_end - properties_begin) - (of_nat cursor - of_nat value_offset) +
                      of_nat (length encoded);
                    encoded_length = locmaf_varint new_properties_length in
                take length_offset payload @ encoded_length @
                  slice payload properties_begin (value_offset - properties_begin) @ encoded @ drop cursor payload))
              (find_base_time payload (of_nat properties_begin) (of_nat properties_end)))"

definition rebase_locmaf_timestamps :: "bytes \<Rightarrow> u64 \<Rightarrow> bytes option option" where
  "rebase_locmaf_timestamps payload delta_ticks =
     (case locmaf_header payload 0 of
        None \<Rightarrow> Some None
      | Some Delta_Object \<Rightarrow> Some (Some payload)
      | Some (Raw_At cursor) \<Rightarrow>
          map_option (map_option (\<lambda>chunk. take cursor payload @ chunk))
            (rebase_cmaf_timestamps (drop cursor payload) delta_ticks)
      | Some (Properties_At cursor) \<Rightarrow> rebase_locmaf_properties payload cursor delta_ticks)"

subsection \<open>LOC\<close>

definition rebase_loc_timestamps :: "ObjectProperty list \<Rightarrow> u64 \<Rightarrow> ObjectProperty list" where
  "rebase_loc_timestamps properties delta_ticks =
     map (\<lambda>p. if prop_id p = 16 then
         (case prop_value p of Integer_Value x \<Rightarrow> p\<lparr>prop_value := Integer_Value (x + delta_ticks)\<rparr> | Bytes_Value b \<Rightarrow> p)
       else p) properties"


subsection \<open>The offset is the nearest tick\<close>

lemma unat_prod: "unat a * unat b < 2 ^ 64 \<Longrightarrow> unat (a * b :: u64) = unat a * unat b"
  by (simp add: unat_word_ariths)

lemma loop_offset_ticks_eq:
  assumes "unat duration * unat cycle < 2 ^ 64"
    and "(unat duration * unat cycle * unat timescale + 500000) div 1000000 < 2 ^ 64"
  shows "unat (loop_offset_ticks duration cycle timescale) = (unat duration * unat cycle * unat timescale + 500000) div 1000000"
proof -
  define e where "e = unat duration * unat cycle"
  define t where "t = unat timescale"
  have t: "t < 2 ^ 32" using unsigned_less [of timescale] by (simp add: t_def)
  have e: "unat (duration * cycle) = e" using assms(1) by (simp add: unat_word_ariths e_def)
  have u: "unat (ucast timescale :: u64) = t" using t by (simp add: unsigned_ucast_eq take_bit_eq_mod t_def)
  have split: "(e * t + 500000) div 1000000 = e div 1000000 * t + (e mod 1000000 * t + 500000) div 1000000"
  proof -
    have "e * t = (1000000 * (e div 1000000) + e mod 1000000) * t" by simp
    also have "\<dots> = e mod 1000000 * t + 1000000 * (e div 1000000 * t)" by (simp only: distrib_right mult.assoc add.commute)
    finally have "e * t + 500000 = (e mod 1000000 * t + 500000) + 1000000 * (e div 1000000 * t)" by (simp only: ac_simps)
    then show ?thesis by simp
  qed
  have r: "e mod 1000000 * t + 500000 < 2 ^ 64"
  proof -
    have "e mod 1000000 * t \<le> 1000000 * 2 ^ 32" using t by (intro mult_le_mono) (simp_all add: less_imp_le)
    then show ?thesis by simp
  qed
  have b: "e div 1000000 * t < 2 ^ 64" "e div 1000000 * t + (e mod 1000000 * t + 500000) div 1000000 < 2 ^ 64"
    using assms(2) split by (simp_all add: e_def t_def)
  have k: "unat kMicrosecondsPerSecond = 1000000" "unat (kMicrosecondsPerSecond div 2) = 500000"
    by (simp_all add: kMicrosecondsPerSecond_def)
  let ?whole = "duration * cycle div kMicrosecondsPerSecond * ucast timescale"
    and ?part = "duration * cycle mod kMicrosecondsPerSecond * ucast timescale + kMicrosecondsPerSecond div 2"
  have w: "unat ?whole = e div 1000000 * t"
    by (subst unat_prod) (simp_all only: unat_div e u k b)
  have "unat (duration * cycle mod kMicrosecondsPerSecond * ucast timescale) = e mod 1000000 * t"
    using r by (subst unat_prod) (simp_all add: unat_mod e u k)
  then have m: "unat ?part = e mod 1000000 * t + 500000"
    using r by (subst unat_sum) (simp_all only: k)
  have "unat (?part div kMicrosecondsPerSecond) = (e mod 1000000 * t + 500000) div 1000000"
    by (simp only: unat_div m k)
  then have "unat (?whole + ?part div kMicrosecondsPerSecond) = e div 1000000 * t + (e mod 1000000 * t + 500000) div 1000000"
    using b(2) w by (subst unat_sum) simp_all
  then have "unat (loop_offset_ticks duration cycle timescale) = e div 1000000 * t + (e mod 1000000 * t + 500000) div 1000000"
    by (simp only: loop_offset_ticks_def Let_def)
  then show ?thesis using split by (simp add: e_def t_def)
qed


subsection \<open>Reading what was written\<close>

lemma length_be_bytes [simp]: "length (be_bytes n v) = n"
  by (simp add: be_bytes_def)

lemma be_bytes_Suc: "be_bytes (Suc n) v = be_bytes n (drop_bit 8 v) @ [ucast v]"
  by (auto simp: be_bytes_def drop_bit_drop_bit algebra_simps intro!: map_cong)

lemma nat_be_be_bytes: "nat_be (be_bytes n v) = unat v mod 256 ^ n"
proof (induction n arbitrary: v)
  case 0
  then show ?case by (simp add: be_bytes_def nat_be_def)
next
  case (Suc n)
  have "unat (ucast v :: u8) = unat v mod 256"
    by (simp add: unsigned_ucast_eq take_bit_eq_mod)
  moreover have "unat (drop_bit 8 v) = unat v div 256"
    by (simp add: drop_bit_eq_div unat_div)
  ultimately show ?case
    by (simp add: be_bytes_Suc nat_be_snoc Suc mod_mult2_eq mult.commute)
qed

lemma length_write_at [simp]: "o1 + length d \<le> length bs \<Longrightarrow> length (write_at bs o1 d) = length bs"
  by (simp add: write_at_def)

lemma nth_write_at:
  assumes "o1 + length d \<le> length bs" and "i < length bs"
  shows "write_at bs o1 d ! i = (if o1 \<le> i \<and> i < o1 + length d then d ! (i - o1) else bs ! i)"
  using assms by (auto simp: write_at_def nth_append min_def)

lemma slice_write_at: "o1 + length d \<le> length bs \<Longrightarrow> slice (write_at bs o1 d) o1 (length d) = d"
  by (simp add: write_at_def slice_def)

lemma read_write_be64:
  assumes "unat o1 + 8 \<le> length bs" and "length bs < 2 ^ 64"
  shows "read_be64 (write_be64_at bs o1 v) o1 = v"
proof -
  have "slice (write_be64_at bs o1 v) (unat o1) 8 = be_bytes 8 v"
    using slice_write_at [of "unat o1" "be_bytes 8 v" bs] assms by (simp add: write_be64_at_def)
  then have "unat (read_be64 (write_be64_at bs o1 v) o1) = unat v"
    using assms unat_u64_less [of v] by (subst unat_read_be64) (simp_all add: write_be64_at_def nat_be_be_bytes)
  then show ?thesis by (simp add: word_unat_eq_iff)
qed

lemma read_write_be32:
  assumes "unat o1 + 4 \<le> length bs" and "length bs < 2 ^ 64"
  shows "read_be32 (write_be32_at bs o1 v) o1 = v"
proof -
  have "slice (write_be32_at bs o1 v) (unat o1) 4 = be_bytes 4 (ucast v)"
    using slice_write_at [of "unat o1" "be_bytes 4 (ucast v)" bs] assms by (simp add: write_be32_at_def)
  moreover have "unat (ucast v :: u64) = unat v" "unat v < 2 ^ 32"
    using unsigned_less [of v, where 'a = nat] by (simp_all add: unsigned_ucast_eq take_bit_eq_mod)
  ultimately have "unat (read_be32 (write_be32_at bs o1 v) o1) = unat v"
    using assms by (subst unat_read_be32) (simp_all add: write_be32_at_def nat_be_be_bytes)
  then show ?thesis by (simp add: word_unat_eq_iff)
qed

lemma read_be32_cong:
  assumes "unat o1 + 4 < 2 ^ 64" and "\<And>i. unat o1 \<le> i \<Longrightarrow> i < unat o1 + 4 \<Longrightarrow> bs ! i = bs' ! i"
  shows "read_be32 bs o1 = read_be32 bs' o1"
proof -
  have "unat (o1 + 1) = unat o1 + 1" "unat (o1 + 2) = unat o1 + 2" "unat (o1 + 3) = unat o1 + 3"
    using unat_offset [of o1 1] unat_offset [of o1 2] unat_offset [of o1 3] assms(1) by simp_all
  then show ?thesis using assms(2) by (simp add: read_be32_def byte_at_def)
qed

lemma read_be64_cong:
  assumes "unat o1 + 8 < 2 ^ 64" and "\<And>i. unat o1 \<le> i \<Longrightarrow> i < unat o1 + 8 \<Longrightarrow> bs ! i = bs' ! i"
  shows "read_be64 bs o1 = read_be64 bs' o1"
proof -
  have "byte_at bs (o1 + of_nat i) = byte_at bs' (o1 + of_nat i)" if "i < 8" for i
    using unat_offset [of o1 i] assms that by (simp add: byte_at_def)
  then show ?thesis unfolding read_be64_def by (intro foldl_cong) simp_all
qed

subsection \<open>The time fields of a file\<close>

definition box_start :: "Mp4Box \<Rightarrow> nat" where "box_start box = unat (span_offset (box_span box))"
definition box_end :: "Mp4Box \<Rightarrow> nat" where "box_end box = box_start box + unat (span_size (box_span box))"
definition payload_start :: "Mp4Box \<Rightarrow> nat" where "payload_start box = unat (span_offset (box_payload box))"

lemma tiles_box:
  "tiles bs first limit boxes \<Longrightarrow> box \<in> set boxes \<Longrightarrow> first \<le> box_start box \<and> box_end box \<le> limit \<and>
     box_start box + 8 \<le> payload_start box \<and> payload_start box + unat (span_size (box_payload box)) = box_end box \<and>
     (is_container_type (box_type box) \<longrightarrow> tiles bs (payload_start box) (box_end box) (box_children box))"
proof (induction boxes arbitrary: first)
  case (Cons b boxes)
  obtain type span payload children where b: "b = Mp4Box type span payload children" by (cases b)
  show ?case
  proof (cases "box = b")
    case True
    then show ?thesis using Cons.prems(1)
      by (auto simp: b Let_def box_start_def box_end_def payload_start_def declared_header_def split: if_splits)
  next
    case False
    then have "box \<in> set boxes" using Cons.prems(2) by simp
    moreover have "tiles bs (first + declared_size bs first limit) limit boxes" using Cons.prems(1) by (simp add: b Let_def)
    ultimately show ?thesis using Cons.IH [of "first + declared_size bs first limit"] by simp
  qed
qed simp

lemma tiles_sorted: "tiles bs first limit boxes \<Longrightarrow> sorted_wrt (\<lambda>a b. box_end a \<le> box_start b) boxes"
proof (induction boxes arbitrary: first)
  case (Cons b boxes)
  obtain type span payload children where b: "b = Mp4Box type span payload children" by (cases b)
  let ?next = "first + declared_size bs first limit"
  have t: "tiles bs ?next limit boxes" "box_end b = ?next"
    using Cons.prems by (simp_all add: b Let_def box_end_def box_start_def)
  then have "\<forall>x \<in> set boxes. box_end b \<le> box_start x" using tiles_box by fastforce
  then show ?case using Cons.IH [OF t(1)] by simp
qed simp

fun traf_tfdts :: "Mp4Box list \<Rightarrow> Mp4Box list" where
  "traf_tfdts [] = []"
| "traf_tfdts (traf # trafs) =
     (if box_type traf = ''traf'' then (case find_child_box traf ''tfdt'' of None \<Rightarrow> [] | Some tfdt \<Rightarrow> [tfdt]) else []) @
     traf_tfdts trafs"

fun file_tfdts :: "Mp4Box list \<Rightarrow> Mp4Box list" where
  "file_tfdts [] = []"
| "file_tfdts (moof # boxes) =
     (if box_type moof = ''moof'' then traf_tfdts (box_children moof) else []) @ file_tfdts boxes"

definition in_order :: "nat \<Rightarrow> nat \<Rightarrow> Mp4Box list \<Rightarrow> bool" where
  "in_order first limit boxes \<longleftrightarrow> sorted_wrt (\<lambda>a b. box_end a \<le> box_start b) boxes \<and>
     (\<forall>b \<in> set boxes. first \<le> box_start b \<and> box_end b \<le> limit \<and> box_start b + 8 \<le> payload_start b \<and>
        payload_start b + unat (span_size (box_payload b)) = box_end b)"

lemma in_order_append:
  assumes "in_order first m xs" and "in_order m limit ys" and "first \<le> m" and "m \<le> limit"
  shows "in_order first limit (xs @ ys)"
  using assms by (fastforce simp: in_order_def sorted_wrt_append)

lemma in_order_appendD: "in_order first limit (xs @ ys) \<Longrightarrow> in_order first limit xs \<and> in_order first limit ys"
  by (simp add: in_order_def sorted_wrt_append)

lemma in_order_mono: "in_order first limit xs \<Longrightarrow> first' \<le> first \<Longrightarrow> limit \<le> limit' \<Longrightarrow> in_order first' limit' xs"
  by (fastforce simp: in_order_def)

text \<open>Boxes picked from each box of a tiling are in order when those picked from one box are.\<close>

lemma in_order_pick:
  assumes "tiles bs first limit boxes"
    and "\<And>b. b \<in> set boxes \<Longrightarrow> in_order (box_start b) (box_end b) (pick b)"
  shows "in_order first limit (concat (map pick boxes))"
  using assms
proof (induction boxes arbitrary: first)
  case (Cons b boxes)
  obtain type span payload children where b: "b = Mp4Box type span payload children" by (cases b)
  let ?next = "first + declared_size bs first limit"
  have t: "tiles bs ?next limit boxes" "box_end b = ?next" "box_start b = first" "?next \<le> limit"
    using Cons.prems(1) by (simp_all add: b Let_def box_end_def box_start_def)
  have "in_order ?next limit (concat (map pick boxes))" using Cons.IH [OF t(1)] Cons.prems(2) by simp
  moreover have "in_order first ?next (pick b)" using Cons.prems(2) [of b] t by simp
  ultimately show ?case using t(4) by (auto intro: in_order_append)
qed (simp add: in_order_def)

lemma traf_tfdts_concat: "traf_tfdts trafs = concat (map (\<lambda>traf. if box_type traf = ''traf''
    then (case find_child_box traf ''tfdt'' of None \<Rightarrow> [] | Some tfdt \<Rightarrow> [tfdt]) else []) trafs)"
  by (induction trafs) simp_all

lemma file_tfdts_concat: "file_tfdts boxes = concat (map (\<lambda>moof. if box_type moof = ''moof''
    then traf_tfdts (box_children moof) else []) boxes)"
  by (induction boxes) simp_all

lemma find_child_in: "find_child_box box type = Some child \<Longrightarrow> child \<in> set (box_children box)"
  by (auto simp: find_child_box_def find_Some_iff)

lemma containers: "is_container_type ''traf''" "is_container_type ''moof''"
  by (simp_all add: is_container_type_def kContainerBoxes_def)

lemma traf_tfdts_in_order:
  assumes "tiles bs first limit trafs"
  shows "in_order first limit (traf_tfdts trafs)"
  unfolding traf_tfdts_concat
proof (rule in_order_pick [OF assms])
  fix b assume b: "b \<in> set trafs"
  show "in_order (box_start b) (box_end b) (if box_type b = ''traf''
    then (case find_child_box b ''tfdt'' of None \<Rightarrow> [] | Some tfdt \<Rightarrow> [tfdt]) else [])"
  proof (cases "box_type b = ''traf'' \<and> find_child_box b ''tfdt'' \<noteq> None")
    case True
    then obtain tfdt where f: "find_child_box b ''tfdt'' = Some tfdt" by blast
    have "tiles bs (payload_start b) (box_end b) (box_children b)" "box_start b \<le> payload_start b"
      using tiles_box [OF assms b] True containers by auto
    then show ?thesis using tiles_box [OF _ find_child_in [OF f]] f True by (fastforce simp: in_order_def)
  next
    case False
    then show ?thesis
      by (cases "box_type b = ''traf''"; cases "find_child_box b ''tfdt''") (simp_all add: in_order_def)
  qed
qed

lemma file_tfdts_in_order:
  assumes "tiles bs first limit boxes"
  shows "in_order first limit (file_tfdts boxes)"
  unfolding file_tfdts_concat
proof (rule in_order_pick [OF assms])
  fix b assume b: "b \<in> set boxes"
  show "in_order (box_start b) (box_end b) (if box_type b = ''moof'' then traf_tfdts (box_children b) else [])"
  proof (cases "box_type b = ''moof''")
    case True
    then have "in_order (payload_start b) (box_end b) (traf_tfdts (box_children b))"
      using tiles_box [OF assms b] containers by (intro traf_tfdts_in_order) auto
    then show ?thesis using tiles_box [OF assms b] True by (auto intro: in_order_mono)
  qed (simp add: in_order_def)
qed

subsection \<open>What a rewrite changes\<close>

text \<open>A \<open>tfdt\<close> box: its version, whether it is well formed, its base time and the bytes of that time.\<close>

definition tfdt_version :: "bytes \<Rightarrow> Mp4Box \<Rightarrow> u8" where
  "tfdt_version bs tfdt = bs ! payload_start tfdt"

definition time_size :: "bytes \<Rightarrow> Mp4Box \<Rightarrow> nat" where
  "time_size bs tfdt = (if tfdt_version bs tfdt = 1 then 8 else 4)"

definition tfdt_ok :: "bytes \<Rightarrow> Mp4Box \<Rightarrow> bool" where
  "tfdt_ok bs tfdt \<longleftrightarrow> tfdt_version bs tfdt \<le> 1 \<and> payload_start tfdt + 4 + time_size bs tfdt \<le> box_end tfdt"

definition in_time :: "bytes \<Rightarrow> Mp4Box \<Rightarrow> nat \<Rightarrow> bool" where
  "in_time bs tfdt i \<longleftrightarrow> payload_start tfdt + 4 \<le> i \<and> i < payload_start tfdt + 4 + time_size bs tfdt"

definition base_time :: "bytes \<Rightarrow> Mp4Box \<Rightarrow> u64" where
  "base_time bs tfdt = (let field = span_offset (box_payload tfdt) + 4 in
     if tfdt_version bs tfdt = 1 then read_be64 bs field else ucast (read_be32 bs field))"

definition fits_version :: "u64 \<Rightarrow> bytes \<Rightarrow> Mp4Box \<Rightarrow> bool" where
  "fits_version delta_ticks bs tfdt \<longleftrightarrow> tfdt_version bs tfdt = 1 \<or> base_time bs tfdt + delta_ticks \<le> 0xFFFFFFFF"

definition advanced :: "u64 \<Rightarrow> Mp4Box list \<Rightarrow> bytes \<Rightarrow> bytes \<Rightarrow> bool" where
  "advanced delta_ticks tfdts bs out \<longleftrightarrow> length out = length bs \<and> (\<forall>tfdt \<in> set tfdts. tfdt_ok bs tfdt \<and> tfdt_version out tfdt = tfdt_version bs tfdt) \<and>
     (\<forall>i < length bs. (\<forall>tfdt \<in> set tfdts. \<not> in_time bs tfdt i) \<longrightarrow> out ! i = bs ! i) \<and>
     (\<forall>tfdt \<in> set tfdts. base_time out tfdt = base_time bs tfdt + delta_ticks)"

lemma time_field_offset:
  assumes "box_end tfdt < 2 ^ 63" and "payload_start tfdt + 4 \<le> box_end tfdt"
  shows "unat (span_offset (box_payload tfdt) + 4) = payload_start tfdt + 4"
  using unat_offset [of "span_offset (box_payload tfdt)" 4] assms by (simp add: payload_start_def)

text \<open>What a \<open>tfdt\<close> says depends on its own bytes only.\<close>

lemma same_tfdt:
  assumes "box_end tfdt < 2 ^ 63" and "tfdt_ok bs tfdt"
    and "\<And>i. payload_start tfdt \<le> i \<Longrightarrow> i < box_end tfdt \<Longrightarrow> out ! i = bs ! i"
  shows "tfdt_version out tfdt = tfdt_version bs tfdt \<and> base_time out tfdt = base_time bs tfdt \<and>
    tfdt_ok out tfdt \<and> (in_time out tfdt i \<longleftrightarrow> in_time bs tfdt i)"
proof -
  have l: "payload_start tfdt + 8 \<le> box_end tfdt"
      "tfdt_version bs tfdt = 1 \<Longrightarrow> payload_start tfdt + 12 \<le> box_end tfdt"
    using assms(2) by (auto simp: tfdt_ok_def time_size_def split: if_splits)
  have v: "tfdt_version out tfdt = tfdt_version bs tfdt"
    using assms(3) [of "payload_start tfdt"] l by (simp add: tfdt_version_def)
  let ?f = "span_offset (box_payload tfdt) + 4"
  have f: "unat ?f = payload_start tfdt + 4" using assms(1) l by (intro time_field_offset) simp_all
  have "read_be32 out ?f = read_be32 bs ?f" using assms(1,3) l f by (intro read_be32_cong) simp_all
  moreover have "read_be64 out ?f = read_be64 bs ?f" if "tfdt_version bs tfdt = 1"
    using assms(1,3) l(2) [OF that] f by (intro read_be64_cong) simp_all
  ultimately have "base_time out tfdt = base_time bs tfdt" by (simp add: base_time_def v Let_def)
  then show ?thesis using v assms(2) by (simp add: tfdt_ok_def time_size_def in_time_def)
qed

text \<open>Bytes of a box outside the time fields of earlier boxes.\<close>

lemma advanced_elsewhere:
  assumes "advanced delta F bs out" and "\<forall>a \<in> set F. box_end a \<le> box_start b \<or> box_end b \<le> box_start a"
    and "\<forall>a \<in> set F. box_start a + 8 \<le> payload_start a" and "box_start b + 8 \<le> payload_start b"
    and "payload_start b \<le> i" and "i < box_end b" and "box_end b \<le> length bs"
  shows "out ! i = bs ! i"
proof -
  have "\<not> in_time bs a i" if "a \<in> set F" for a
  proof -
    have "tfdt_ok bs a" using assms(1) that by (simp add: advanced_def)
    then show ?thesis using assms that by (fastforce simp: in_time_def tfdt_ok_def)
  qed
  then show ?thesis using assms(1,6,7) by (simp add: advanced_def)
qed

lemma advanced_append:
  assumes "in_order first limit (F @ G)" and "limit \<le> length bs" and "length bs < 2 ^ 63"
    and "advanced delta F bs mid" and "advanced delta G mid out"
  shows "advanced delta (F @ G) bs out"
proof -
  have ord: "\<forall>a \<in> set F. \<forall>b \<in> set G. box_end a \<le> box_start b" using assms(1) by (simp add: in_order_def sorted_wrt_append)
  have pos: "box_start b + 8 \<le> payload_start b \<and> box_end b \<le> limit" if "b \<in> set (F @ G)" for b
    using assms(1) that by (simp add: in_order_def)
  have len: "length mid = length bs" "length out = length bs" using assms(4,5) by (simp_all add: advanced_def)
  have later: "tfdt_version mid b = tfdt_version bs b \<and> base_time mid b = base_time bs b \<and> tfdt_ok bs b \<and>
      (\<forall>i. in_time mid b i \<longleftrightarrow> in_time bs b i)" if b: "b \<in> set G" for b
  proof -
    have eq: "bs ! i = mid ! i" if "payload_start b \<le> i" "i < box_end b" for i
      using advanced_elsewhere [OF assms(4), of b i] ord pos b that assms(2) by fastforce
    moreover have "tfdt_ok mid b" using assms(5) b by (simp add: advanced_def)
    moreover have "box_end b < 2 ^ 63" using pos [of b] b assms(2,3) by simp
    ultimately show ?thesis using same_tfdt [of b mid bs] by simp
  qed
  have earlier: "base_time out a = base_time mid a \<and> tfdt_version out a = tfdt_version mid a" if a: "a \<in> set F" for a
  proof -
    have "tfdt_ok bs a" "tfdt_version mid a = tfdt_version bs a" using assms(4) a by (simp_all add: advanced_def)
    then have "tfdt_ok mid a" by (simp add: tfdt_ok_def time_size_def)
    moreover have "out ! i = mid ! i" if "payload_start a \<le> i" "i < box_end a" for i
      using advanced_elsewhere [OF assms(5), of a i] ord pos a that assms(2) len by fastforce
    moreover have "box_end a < 2 ^ 63" using pos [of a] a assms(2,3) by simp
    ultimately show ?thesis using same_tfdt [of a mid out] by simp
  qed
  have "out ! i = bs ! i" if "i < length bs" "\<forall>tfdt \<in> set (F @ G). \<not> in_time bs tfdt i" for i
  proof -
    have "out ! i = mid ! i" using assms(5) that later len by (simp add: advanced_def)
    also have "mid ! i = bs ! i" using assms(4) that by (simp add: advanced_def)
    finally show ?thesis .
  qed
  then show ?thesis using assms(4,5) later earlier len by (auto simp: advanced_def)
qed


lemma advanced_Nil [simp]: "advanced delta [] bs bs"
  by (simp add: advanced_def)

lemma ucast_u32_u64: "unat x < 2 ^ 32 \<Longrightarrow> ucast (ucast x :: u32) = (x :: u64)"
proof -
  assume x: "unat x < 2 ^ 32"
  have "unat (ucast (ucast x :: u32) :: u64) = unat x mod 2 ^ 32 mod 2 ^ 64"
    by (simp only: unsigned_ucast_eq take_bit_eq_mod) (simp add: unat_mod)
  then show ?thesis using x by (simp add: word_unat_eq_iff)
qed

text \<open>One \<open>tfdt\<close>.\<close>

lemma rebase_traf_advanced:
  assumes "find_child_box traf ''tfdt'' = Some tfdt" and "in_order first limit [tfdt]" and "limit \<le> length out"
    and "length out < 2 ^ 63" and "tfdt_ok out tfdt" and "fits_version delta out tfdt"
  shows "\<exists>out'. rebase_traf delta traf (out, ws) = Some (out', ws) \<and> advanced delta [tfdt] out out'"
proof -
  let ?f = "span_offset (box_payload tfdt) + 4"
  have pos: "box_end tfdt \<le> length out" "payload_start tfdt + unat (span_size (box_payload tfdt)) = box_end tfdt"
    using assms(2,3) by (auto simp: in_order_def)
  have ok: "tfdt_version out tfdt \<le> 1" "payload_start tfdt + 4 + time_size out tfdt \<le> box_end tfdt"
    using assms(5) by (simp_all add: tfdt_ok_def)
  have f: "unat ?f = payload_start tfdt + 4" using pos ok assms(4) by (intro time_field_offset) simp_all
  have v: "byte_at out (span_offset (box_payload tfdt)) = tfdt_version out tfdt"
    by (simp add: byte_at_def tfdt_version_def payload_start_def)
  have other: "tfdt_version out tfdt = 0" if "tfdt_version out tfdt \<noteq> 1"
    using ok(1) that unfolding word_le_nat_alt word_unat_eq_iff by simp
  show ?thesis
  proof (cases "tfdt_version out tfdt = 1")
    case True
    let ?out = "write_be64_at out ?f (read_be64 out ?f + delta)"
    have l: "payload_start tfdt + 12 \<le> box_end tfdt" using ok(2) True by (simp add: time_size_def)
    then have psize: "4 \<le> span_size (box_payload tfdt)" "12 \<le> span_size (box_payload tfdt)"
      using pos by (simp_all add: word_le_nat_alt)
    have len: "length ?out = length out" using f l pos by (simp add: write_be64_at_def)
    have nth: "?out ! i = out ! i" if "i < length out" "\<not> in_time out tfdt i" for i
      using that f l pos True by (auto simp: write_be64_at_def nth_write_at in_time_def time_size_def)
    have "tfdt_version ?out tfdt = tfdt_version out tfdt"
      using nth [of "payload_start tfdt"] l pos by (simp add: tfdt_version_def in_time_def)
    moreover have "read_be64 ?out ?f = read_be64 out ?f + delta"
      using f l pos assms(4) by (intro read_write_be64) simp_all
    ultimately have "advanced delta [tfdt] out ?out"
      using assms(5) len nth True by (simp add: advanced_def base_time_def Let_def)
    then show ?thesis using assms(1) True psize by (simp add: rebase_traf_def v Let_def not_less)
  next
    case False
    then have zero: "tfdt_version out tfdt = 0" by (rule other)
    let ?t = "ucast (read_be32 out ?f) + delta"
    let ?out = "write_be32_at out ?f (ucast ?t)"
    have l: "payload_start tfdt + 8 \<le> box_end tfdt" using ok(2) False by (simp add: time_size_def)
    then have psize: "4 \<le> span_size (box_payload tfdt)" "8 \<le> span_size (box_payload tfdt)"
      using pos by (simp_all add: word_le_nat_alt)
    have t: "?t \<le> 0xFFFFFFFF" using assms(6) False by (simp add: fits_version_def base_time_def Let_def)
    have len: "length ?out = length out" using f l pos by (simp add: write_be32_at_def)
    have nth: "?out ! i = out ! i" if "i < length out" "\<not> in_time out tfdt i" for i
      using that f l pos False by (auto simp: write_be32_at_def nth_write_at in_time_def time_size_def)
    have "tfdt_version ?out tfdt = tfdt_version out tfdt"
      using nth [of "payload_start tfdt"] l pos by (simp add: tfdt_version_def in_time_def)
    moreover have "ucast (read_be32 ?out ?f) = ?t"
    proof -
      have "read_be32 ?out ?f = ucast ?t" using f l pos assms(4) by (intro read_write_be32) simp_all
      moreover have "unat ?t < 2 ^ 32" using t by (simp add: word_le_nat_alt)
      then have "ucast (ucast ?t :: u32) = ?t" by (rule ucast_u32_u64)
      ultimately show ?thesis by simp
    qed
    ultimately have "advanced delta [tfdt] out ?out"
      using assms(5) len nth False by (simp add: advanced_def base_time_def Let_def)
    then show ?thesis using assms(1) zero psize t by (simp add: rebase_traf_def v Let_def not_less)
  qed
qed

text \<open>What holds of a box still holds after earlier boxes were advanced.\<close>

lemma advanced_keeps:
  assumes "advanced delta F bs mid" and "in_order first limit (F @ G)" and "limit \<le> length bs" and "length bs < 2 ^ 63"
    and "b \<in> set G" and "tfdt_ok bs b \<and> fits_version delta bs b"
  shows "tfdt_ok mid b \<and> fits_version delta mid b"
proof -
  have pos: "\<forall>a \<in> set F. box_end a \<le> box_start b" "box_start b + 8 \<le> payload_start b" "box_end b \<le> limit"
      "\<forall>a \<in> set F. box_start a + 8 \<le> payload_start a"
    using assms(2,5) by (simp_all add: in_order_def sorted_wrt_append)
  have "mid ! i = bs ! i" if "payload_start b \<le> i" "i < box_end b" for i
    using advanced_elsewhere [OF assms(1), of b i] pos that assms(3) by fastforce
  moreover have "box_end b < 2 ^ 63" using pos assms(3,4) by simp
  ultimately show ?thesis using same_tfdt [of b bs mid] assms(6) by (simp add: fits_version_def)
qed

definition complete_trafs :: "Mp4Box list \<Rightarrow> bool" where
  "complete_trafs trafs \<longleftrightarrow> (\<forall>traf \<in> set trafs. box_type traf = ''traf'' \<longrightarrow> find_child_box traf ''tfdt'' \<noteq> None)"

lemma rebase_trafs_advanced:
  assumes "complete_trafs trafs" and "in_order first limit (traf_tfdts trafs)" and "limit \<le> length out" and "length out < 2 ^ 63"
    and "\<forall>t \<in> set (traf_tfdts trafs). tfdt_ok out t \<and> fits_version delta out t"
  shows "\<exists>out'. rebase_trafs delta trafs (out, ws) = Some (out', ws) \<and> advanced delta (traf_tfdts trafs) out out'"
  using assms
proof (induction trafs arbitrary: out)
  case (Cons traf trafs)
  show ?case
  proof (cases "box_type traf = ''traf''")
    case False
    then show ?thesis using Cons by (simp add: complete_trafs_def)
  next
    case True
    then have "find_child_box traf ''tfdt'' \<noteq> None" using Cons.prems(1) by (simp add: complete_trafs_def)
    then obtain tfdt where tfdt: "find_child_box traf ''tfdt'' = Some tfdt" by blast
    have eq: "traf_tfdts (traf # trafs) = [tfdt] @ traf_tfdts trafs" using True tfdt by simp
    have "in_order first limit [tfdt]" "in_order first limit (traf_tfdts trafs)"
      using in_order_appendD [OF Cons.prems(2) [unfolded eq]] by simp_all
    then obtain mid where mid: "rebase_traf delta traf (out, ws) = Some (mid, ws)" "advanced delta [tfdt] out mid"
      using rebase_traf_advanced [OF tfdt _ Cons.prems(3,4), of first delta ws] Cons.prems(5) [unfolded eq] by auto
    have len: "length mid = length out" using mid(2) by (simp add: advanced_def)
    have "\<forall>t \<in> set (traf_tfdts trafs). tfdt_ok mid t \<and> fits_version delta mid t"
      using advanced_keeps [OF mid(2) Cons.prems(2) [unfolded eq] Cons.prems(3,4)] Cons.prems(5) [unfolded eq] by simp
    then obtain out' where "rebase_trafs delta trafs (mid, ws) = Some (out', ws)" "advanced delta (traf_tfdts trafs) mid out'"
      using Cons.IH [of mid] Cons.prems(1,3,4) \<open>in_order first limit (traf_tfdts trafs)\<close> len by (auto simp: complete_trafs_def)
    then show ?thesis
      unfolding eq using True mid advanced_append [OF Cons.prems(2) [unfolded eq] Cons.prems(3,4) mid(2)] by auto
  qed
qed simp

lemma traf_tfdts_empty:
  "complete_trafs trafs \<Longrightarrow> traf_tfdts trafs \<noteq> [] \<longleftrightarrow> list_ex (\<lambda>traf. box_type traf = ''traf'') trafs"
proof (induction trafs)
  case (Cons traf trafs)
  then show ?case
    by (cases "box_type traf = ''traf''"; cases "find_child_box traf ''tfdt''") (simp_all add: complete_trafs_def)
qed simp

lemma rebase_moofs_advanced:
  assumes "\<forall>moof \<in> set boxes. box_type moof = ''moof'' \<longrightarrow> complete_trafs (box_children moof)"
    and "in_order first limit (file_tfdts boxes)" and "limit \<le> length out" and "length out < 2 ^ 63"
    and "\<forall>t \<in> set (file_tfdts boxes). tfdt_ok out t \<and> fits_version delta out t"
  shows "\<exists>out' found'. rebase_moofs delta boxes (out, [], found) = Some (out', [], found') \<and>
    (found' \<longleftrightarrow> found \<or> file_tfdts boxes \<noteq> []) \<and> advanced delta (file_tfdts boxes) out out'"
  using assms
proof (induction boxes arbitrary: out found)
  case (Cons moof boxes)
  show ?case
  proof (cases "box_type moof = ''moof''")
    case False
    then show ?thesis using Cons by simp
  next
    case True
    let ?F = "traf_tfdts (box_children moof)"
    have eq: "file_tfdts (moof # boxes) = ?F @ file_tfdts boxes" using True by simp
    have c: "complete_trafs (box_children moof)" using Cons.prems(1) True by simp
    have io: "in_order first limit ?F" "in_order first limit (file_tfdts boxes)"
      using in_order_appendD [OF Cons.prems(2) [unfolded eq]] by simp_all
    obtain mid where mid: "rebase_trafs delta (box_children moof) (out, []) = Some (mid, [])" "advanced delta ?F out mid"
      using rebase_trafs_advanced [OF c io(1) Cons.prems(3,4), of delta "[]"] Cons.prems(5) [unfolded eq] by auto
    have len: "length mid = length out" using mid(2) by (simp add: advanced_def)
    have "?F \<noteq> [] \<longleftrightarrow> list_ex (\<lambda>traf. box_type traf = ''traf'') (box_children moof)"
      by (rule traf_tfdts_empty [OF c])
    moreover have "\<forall>t \<in> set (file_tfdts boxes). tfdt_ok mid t \<and> fits_version delta mid t"
      using advanced_keeps [OF mid(2) Cons.prems(2) [unfolded eq] Cons.prems(3,4)] Cons.prems(5) [unfolded eq] by simp
    moreover note Cons.IH [of mid "found \<or> list_ex (\<lambda>traf. box_type traf = ''traf'') (box_children moof)"]
    ultimately obtain out' found' where "rebase_moofs delta boxes (mid, [], found \<or> ?F \<noteq> []) = Some (out', [], found')"
        "found' \<longleftrightarrow> (found \<or> ?F \<noteq> []) \<or> file_tfdts boxes \<noteq> []" "advanced delta (file_tfdts boxes) mid out'"
      using Cons.prems(1,3,4) io(2) len by auto
    then show ?thesis
      unfolding eq using True mid advanced_append [OF Cons.prems(2) [unfolded eq] Cons.prems(3,4) mid(2)]
        \<open>?F \<noteq> [] \<longleftrightarrow> list_ex (\<lambda>traf. box_type traf = ''traf'') (box_children moof)\<close>
      by auto
  qed
qed simp



lemma byte_of_eq: "byte_of v k = ucast (drop_bit k v)"
proof -
  have m: "(0xff :: u64) = mask 8" by (simp add: mask_eq_exp_minus_1)
  show ?thesis unfolding byte_of_def m by (intro bit_word_eqI) (auto simp: bit_simps)
qed

lemma locmaf_size_step: "locmaf_size v len =
    (if len < 9 \<and> push_bit (7 * len) 1 \<le> v then locmaf_size v (Suc len) else len)"
  by (subst locmaf_size.simps) simp

lemma locmaf_size_steps:
  "locmaf_size v (Suc 0) = (if v \<le> 127 then 1 else locmaf_size v 2)"
  "locmaf_size v 2 = (if v \<le> 16383 then 2 else locmaf_size v 3)"
  "locmaf_size v 3 = (if v \<le> 2097151 then 3 else locmaf_size v 4)"
  "locmaf_size v 4 = (if v \<le> 268435455 then 4 else locmaf_size v 5)"
  "locmaf_size v 5 = (if v \<le> 34359738367 then 5 else locmaf_size v 6)"
  "locmaf_size v 6 = (if v \<le> 4398046511103 then 6 else locmaf_size v 7)"
  "locmaf_size v 7 = (if v \<le> 562949953421311 then 7 else locmaf_size v 8)"
  "locmaf_size v 8 = (if v \<le> 72057594037927935 then 8 else locmaf_size v 9)"
  "locmaf_size v 9 = 9"
  by (subst locmaf_size_step; auto simp: word_le_nat_alt push_bit_eq_mult not_le)+

lemma top_mask: "unat v < 2 ^ (k + m) \<Longrightarrow> M = mask m \<Longrightarrow> drop_bit k v AND M = drop_bit k (v :: u64)"
  by (simp add: and_mask_self unat_drop_bit_less)

lemma ucast_or: "(ucast (a OR b :: 64 word) :: 8 word) = ucast a OR ucast b"
  by (rule bit_word_eqI) (auto simp: bit_simps)

lemma locmaf_prefixes:
  "(32640 :: u8) = 128" "(16320 :: u8) = 192" "(8160 :: u8) = 224" "(4080 :: u8) = 240" "(2040 :: u8) = 248"
  "(1020 :: u8) = 252" "(510 :: u8) = 254"
  by simp_all

lemma locmaf_varint_vi64: "locmaf_varint v = snd (append_vi64 [] v)"
proof -
  note evals = locmaf_varint_def append_vi64_def be_bytes_def ucast_or upt_rec byte_of_eq locmaf_size_steps
    locmaf_prefixes or.commute
  have drop: "drop_bit k v AND M = drop_bit k v" if "v \<le> n" "unat n < 2 ^ (k + m)" "M = mask m" for k m n M
    using unat_lt [OF that(1,2)] that(3) by (intro top_mask)
  consider (1) "v \<le> 127"
    | (2) "\<not> v \<le> 127" "v \<le> 16383"
    | (3) "\<not> v \<le> 127" "\<not> v \<le> 16383" "v \<le> 2097151"
    | (4) "\<not> v \<le> 127" "\<not> v \<le> 16383" "\<not> v \<le> 2097151" "v \<le> 268435455"
    | (5) "\<not> v \<le> 127" "\<not> v \<le> 16383" "\<not> v \<le> 2097151" "\<not> v \<le> 268435455" "v \<le> 34359738367"
    | (6) "\<not> v \<le> 127" "\<not> v \<le> 16383" "\<not> v \<le> 2097151" "\<not> v \<le> 268435455" "\<not> v \<le> 34359738367" "v \<le> 4398046511103"
    | (7) "\<not> v \<le> 127" "\<not> v \<le> 16383" "\<not> v \<le> 2097151" "\<not> v \<le> 268435455" "\<not> v \<le> 34359738367" "\<not> v \<le> 4398046511103" "v \<le> 562949953421311"
    | (8) "\<not> v \<le> 127" "\<not> v \<le> 16383" "\<not> v \<le> 2097151" "\<not> v \<le> 268435455" "\<not> v \<le> 34359738367" "\<not> v \<le> 4398046511103" "\<not> v \<le> 562949953421311" "v \<le> 72057594037927935"
    | (9) "\<not> v \<le> 127" "\<not> v \<le> 16383" "\<not> v \<le> 2097151" "\<not> v \<le> 268435455" "\<not> v \<le> 34359738367" "\<not> v \<le> 4398046511103" "\<not> v \<le> 562949953421311" "\<not> v \<le> 72057594037927935" by blast
  then show ?thesis
  proof cases
    case 1
    then show ?thesis by (simp add: evals)
  next
    case 2
    then show ?thesis using drop [of 16383 8 6 "0x3f"] by (simp add: evals mask_eq_exp_minus_1)
  next
    case 3
    then show ?thesis using drop [of 2097151 16 5 "0x1f"] by (simp add: evals mask_eq_exp_minus_1)
  next
    case 4
    then show ?thesis using drop [of 268435455 24 4 "0x0f"] by (simp add: evals mask_eq_exp_minus_1)
  next
    case 5
    then show ?thesis using drop [of 34359738367 32 3 "0x07"] by (simp add: evals mask_eq_exp_minus_1)
  next
    case 6
    then show ?thesis using drop [of 4398046511103 40 2 "0x03"] by (simp add: evals mask_eq_exp_minus_1)
  next
    case 7
    then show ?thesis using drop [of 562949953421311 48 1 "0x01"] by (simp add: evals mask_eq_exp_minus_1)
  next
    case 8
    then have "drop_bit 56 v = 0"
      using drop [of 72057594037927935 56 0 0] by simp
    with 8 show ?thesis by (simp add: evals)
  next
    case 9
    have "drop_bit 64 v = 0" by (rule bit_word_eqI) (auto simp: bit_simps dest: bit_imp_le_length)
    with 9 show ?thesis by (simp add: evals)
  qed
qed


subsection \<open>The LOCMAF integers are those of MOQT\<close>

lemma locmaf_length_form:
  "locmaf_varint_length b 1 = fst (vi64_form b) \<and>
   snd (vi64_form b) = (if fst (vi64_form b) < 9 then drop_bit (fst (vi64_form b)) 0xFF else 0)"
proof -
  let ?P = "\<lambda>b. locmaf_varint_length b 1 = fst (vi64_form b) \<and>
    snd (vi64_form b) = (if fst (vi64_form b) < 9 then drop_bit (fst (vi64_form b)) 0xFF else 0)"
  have "list_all ?P (map word_of_int [0..255])" by code_simp
  moreover have "b \<in> set (map word_of_int [0..255])"
    using uint_lt2p [of b] by (auto simp: image_iff intro!: bexI [of _ "uint b"])
  ultimately show ?thesis by (simp only: list_all_iff)
qed

lemma slice_map: "n + m \<le> length bs \<Longrightarrow> slice bs n m = map (\<lambda>i. bs ! (n + i)) [0..<m]"
  by (rule nth_equalityI) (simp_all add: slice_def)

lemma read_locmaf_varint_vi64:
  "read_locmaf_varint bs cursor = (case decode_vi64_impl bs cursor of Inl _ \<Rightarrow> None | Inr r \<Rightarrow> Some r)"
proof (cases "cursor < length bs")
  case True
  let ?first = "bs ! cursor"
  obtain len mask where f: "vi64_form ?first = (len, mask)" by (cases "vi64_form ?first")
  have lm: "locmaf_varint_length ?first 1 = len" "mask = (if len < 9 then drop_bit len 0xFF else 0)"
    using locmaf_length_form [of ?first] unfolding f fst_conv snd_conv by blast+
  have len: "1 \<le> len" "len \<le> 9" using vi64_form_length [of ?first] f by simp_all
  have fits: "fits cursor len (length bs) \<longleftrightarrow> \<not> length bs - cursor < len" using True by (auto simp: fits_def)
  show ?thesis
  proof (cases "length bs - cursor < len")
    case False
    have "[1..<len] = map Suc [0..<len - 1]" using len by (simp add: map_Suc_upt)
    then have "foldl (\<lambda>v i. push_bit 8 v OR ucast (bs ! (cursor + i))) v [1..<len] =
        be_accum v (slice bs (cursor + 1) (len - 1))" for v :: u64
      using False len True by (simp add: be_accum_def slice_map foldl_map)
    then show ?thesis
      using True False f lm fits
      by (cases "len < 9") (simp_all add: read_locmaf_varint_def decode_vi64_impl_def Let_def)
  qed (use True f lm(1) fits in \<open>simp add: read_locmaf_varint_def decode_vi64_impl_def Let_def\<close>)
qed (simp add: read_locmaf_varint_def decode_vi64_impl_def)

lemma read_locmaf_varint_append:
  "read_locmaf_varint (pre @ locmaf_varint v @ rest) (length pre) = Some (v, length pre + length (locmaf_varint v))"
  by (simp add: read_locmaf_varint_vi64 locmaf_varint_vi64 decode_vi64_append)

lemma read_locmaf_varint_at:
  "bs = pre @ locmaf_varint v @ rest \<Longrightarrow> c = length pre \<Longrightarrow>
     read_locmaf_varint bs c = Some (v, length (pre @ locmaf_varint v))"
  by (simp add: read_locmaf_varint_append)

subsection \<open>LOCMAF objects\<close>

text \<open>An object as the encoder writes it: the boxes ahead, then a property block with the base time, then the payload.\<close>

datatype locmaf_property = Scalar u64 u64 | Block u64 bytes

fun property_wire :: "locmaf_property \<Rightarrow> bytes" where
  "property_wire (Scalar i v) = locmaf_varint i @ locmaf_varint v"
| "property_wire (Block i d) = locmaf_varint i @ locmaf_varint (of_nat (length d)) @ d"

fun property_ok :: "locmaf_property \<Rightarrow> bool" where
  "property_ok (Scalar i v) \<longleftrightarrow> i AND 1 = 0 \<and> i \<noteq> 10"
| "property_ok (Block i d) \<longleftrightarrow> i AND 1 \<noteq> 0"

definition wires :: "locmaf_property list \<Rightarrow> bytes" where
  "wires ps = concat (map property_wire ps)"

definition box_ahead :: "bytes \<Rightarrow> bytes" where
  "box_ahead d = locmaf_varint 1 @ locmaf_varint (of_nat (length d)) @ d"

definition boxes_ahead :: "bytes list \<Rightarrow> bytes" where
  "boxes_ahead ds = concat (map box_ahead ds)"

definition full_properties :: "locmaf_property list \<Rightarrow> u64 \<Rightarrow> locmaf_property list \<Rightarrow> bytes" where
  "full_properties before time after = wires before @ property_wire (Scalar 10 time) @ wires after"

definition full_object :: "bytes list \<Rightarrow> locmaf_property list \<Rightarrow> u64 \<Rightarrow> locmaf_property list \<Rightarrow> bytes \<Rightarrow> bytes" where
  "full_object ahead before time after payload =
     boxes_ahead ahead @ locmaf_varint 2 @ locmaf_varint (of_nat (length (full_properties before time after))) @
     full_properties before time after @ payload"

lemma locmaf_header_ahead:
  assumes "length (pre @ boxes_ahead ahead @ locmaf_varint 2 @ rest) < 2 ^ 63"
  shows "locmaf_header (pre @ boxes_ahead ahead @ locmaf_varint 2 @ rest) (length pre) =
    Some (Properties_At (length (pre @ boxes_ahead ahead @ locmaf_varint 2)))"
  using assms
proof (induction ahead arbitrary: pre)
  case Nil
  then show ?case by (simp add: locmaf_header.simps boxes_ahead_def read_locmaf_varint_append)
next
  case (Cons d ahead)
  let ?rest = "boxes_ahead ahead @ locmaf_varint 2 @ rest"
  let ?bs = "pre @ boxes_ahead (d # ahead) @ locmaf_varint 2 @ rest"
  have bs: "?bs = pre @ locmaf_varint 1 @ locmaf_varint (of_nat (length d)) @ d @ ?rest"
    by (simp add: boxes_ahead_def box_ahead_def)
  have d: "unat (of_nat (length d) :: u64) = length d" using Cons.prems by (intro unat_of_nat_u64) (simp add: bs)
  have 1: "read_locmaf_varint ?bs (length pre) = Some (1, length (pre @ locmaf_varint 1))"
    by (rule read_locmaf_varint_at) (auto simp: bs)
  have 2: "read_locmaf_varint ?bs (length (pre @ locmaf_varint 1)) =
      Some (of_nat (length d), length ((pre @ locmaf_varint 1) @ locmaf_varint (of_nat (length d))))"
    by (rule read_locmaf_varint_at) (auto simp: bs)
  let ?pre = "pre @ locmaf_varint 1 @ locmaf_varint (of_nat (length d)) @ d"
  have "locmaf_header ?bs (length pre) = locmaf_header (?pre @ ?rest) (length ?pre)"
    using 1 2 d by (subst locmaf_header.simps) (simp add: bs add.assoc)
  then show ?case using Cons.IH [of ?pre] Cons.prems by (simp add: boxes_ahead_def box_ahead_def)
qed

lemma find_base_time_at:
  assumes "list_all property_ok before" and "bs = pre @ wires before @ property_wire (Scalar 10 time) @ rest"
    and "length bs < 2 ^ 63" and "length (pre @ wires before @ property_wire (Scalar 10 time)) \<le> n" and "n \<le> length bs"
  shows "find_base_time bs (of_nat (length pre)) (of_nat n) =
    Some (Some (time, of_nat (length (pre @ wires before @ locmaf_varint 10)),
      of_nat (length (pre @ wires before @ property_wire (Scalar 10 time)))))"
  using assms(1,2,4)
proof (induction before arbitrary: pre)
  case Nil
  have u: "unat (of_nat k :: u64) = k" if "k \<le> length bs" for k using assms(3) that by (intro unat_of_nat_u64) simp
  have bs: "bs = pre @ locmaf_varint 10 @ locmaf_varint time @ rest" using Nil.prems by (simp add: wires_def)
  have 1: "read_locmaf_varint bs (length pre) = Some (10, length (pre @ locmaf_varint 10))"
    by (rule read_locmaf_varint_at) (auto simp: bs)
  have 2: "read_locmaf_varint bs (length (pre @ locmaf_varint 10)) = Some (time, length ((pre @ locmaf_varint 10) @ locmaf_varint time))"
    by (rule read_locmaf_varint_at) (auto simp: bs)
  have n: "length ((pre @ locmaf_varint 10) @ locmaf_varint time) \<le> n" using Nil.prems(3) by (simp add: wires_def)
  have "length pre < n" using read_locmaf_varint_progress [OF 1] n unfolding length_append by linarith
  then have "(of_nat (length pre) :: u64) < of_nat n"
    using assms(5) unfolding word_less_nat_alt by (subst (1 2) u) simp_all
  moreover have "\<not> (of_nat n :: u64) < of_nat (length ((pre @ locmaf_varint 10) @ locmaf_varint time))"
    using n assms(5) unfolding word_less_nat_alt by (subst (1 2) u) simp_all
  ultimately show ?case
    using 1 2 u [of "length pre"] n assms(5) by (subst find_base_time.simps) (simp add: wires_def)
next
  case (Cons p before)
  have u: "unat (of_nat k :: u64) = k" if "k \<le> length bs" for k using assms(3) that by (intro unat_of_nat_u64) simp
  let ?rest = "wires before @ property_wire (Scalar 10 time) @ rest"
  let ?pre = "pre @ property_wire p"
  have bs: "bs = pre @ property_wire p @ ?rest" using Cons.prems(2) by (simp add: wires_def)
  have ih: "find_base_time bs (of_nat (length ?pre)) (of_nat n) =
    Some (Some (time, of_nat (length (?pre @ wires before @ locmaf_varint 10)),
      of_nat (length (?pre @ wires before @ property_wire (Scalar 10 time)))))"
    using Cons.prems by (intro Cons.IH) (simp_all add: wires_def)
  have n: "length ?pre \<le> n" using Cons.prems(3) by (simp add: wires_def)
  have "find_base_time bs (of_nat (length pre)) (of_nat n) = find_base_time bs (of_nat (length ?pre)) (of_nat n)"
  proof (cases p)
    case (Scalar i v)
    have 1: "read_locmaf_varint bs (length pre) = Some (i, length (pre @ locmaf_varint i))"
      by (rule read_locmaf_varint_at) (auto simp: bs Scalar)
    have 2: "read_locmaf_varint bs (length (pre @ locmaf_varint i)) = Some (v, length ?pre)"
      using read_locmaf_varint_at [of bs "pre @ locmaf_varint i" v ?rest] by (simp add: bs Scalar)
    have "length pre < n" using read_locmaf_varint_progress [OF 1] read_locmaf_varint_progress [OF 2] n by linarith
    then have "(of_nat (length pre) :: u64) < of_nat n"
      using assms(5) unfolding word_less_nat_alt by (subst (1 2) u) simp_all
    moreover have "\<not> (of_nat n :: u64) < of_nat (length ?pre)"
      using n assms(5) unfolding word_less_nat_alt by (subst (1 2) u) simp_all
    moreover have "i AND 1 = 0" "i \<noteq> 10" using Cons.prems(1) Scalar by simp_all
    ultimately show ?thesis
      using 1 2 u [of "length pre"] n assms(5) by (subst find_base_time.simps) simp
  next
    case (Block i d)
    let ?mid = "pre @ locmaf_varint i @ locmaf_varint (of_nat (length d))"
    have 1: "read_locmaf_varint bs (length pre) = Some (i, length (pre @ locmaf_varint i))"
      by (rule read_locmaf_varint_at) (auto simp: bs Block)
    have 2: "read_locmaf_varint bs (length (pre @ locmaf_varint i)) = Some (of_nat (length d), length ?mid)"
      using read_locmaf_varint_at [of bs "pre @ locmaf_varint i" "of_nat (length d)" "d @ ?rest"] by (simp add: bs Block)
    have l: "length ?pre = length ?mid + length d" by (simp add: Block)
    have "length pre < n" using read_locmaf_varint_progress [OF 1] read_locmaf_varint_progress [OF 2] n l by linarith
    then have "(of_nat (length pre) :: u64) < of_nat n"
      using assms(5) unfolding word_less_nat_alt by (subst (1 2) u) simp_all
    moreover have "\<not> (of_nat n :: u64) - of_nat (length ?mid) < of_nat (length d)"
    proof -
      have "(of_nat (n - length ?mid) :: u64) = of_nat n - of_nat (length ?mid)" using n l by (intro of_nat_diff) simp
      then have "unat ((of_nat n :: u64) - of_nat (length ?mid)) = n - length ?mid"
        using u [of "n - length ?mid"] assms(5) by simp
      then show ?thesis using n l assms(5) u [of "length d"] unfolding word_less_nat_alt by simp
    qed
    moreover have "i AND 1 \<noteq> 0" using Cons.prems(1) Block by simp
    moreover have "(of_nat (length ?mid) + of_nat (length d) :: u64) = of_nat (length ?pre)" by (simp only: l of_nat_add)
    ultimately show ?thesis
      using 1 2 u [of "length pre"] n assms(5) by (subst find_base_time.simps) (simp add: Block add.assoc)
  qed
  then show ?case using ih by (simp add: wires_def)
qed

text \<open>C29: Rewriting a LOCMAF object that carries a base time adds the ticks to that time and to nothing else:
  the result is the object with the later time, its length field adjusted, behind the same boxes, with the
  same properties around it and the same payload.\<close>

theorem rebase_locmaf_full_object:
  assumes "list_all property_ok before" and "length (full_object ahead before time after payload) < 2 ^ 63"
  shows "rebase_locmaf_timestamps (full_object ahead before time after payload) delta_ticks =
    Some (Some (full_object ahead before (time + delta_ticks) after payload))"
proof -
  let ?ahead = "boxes_ahead ahead @ locmaf_varint 2"
  let ?props = "full_properties before time after"
  let ?len = "locmaf_varint (of_nat (length ?props))"
  let ?bs = "full_object ahead before time after payload"
  have bs: "?bs = ?ahead @ ?len @ ?props @ payload" by (simp add: full_object_def)
  have u: "unat (of_nat k :: u64) = k" if "k \<le> length ?bs" for k using assms(2) that by (intro unat_of_nat_u64) simp
  have header: "locmaf_header ?bs 0 = Some (Properties_At (length ?ahead))"
    using locmaf_header_ahead [of "[]" ahead "?len @ ?props @ payload"] assms(2) by (simp add: full_object_def)
  have len: "read_locmaf_varint ?bs (length ?ahead) = Some (of_nat (length ?props), length (?ahead @ ?len))"
    by (rule read_locmaf_varint_at) (auto simp: bs)
  have up: "unat (of_nat (length ?props) :: u64) = length ?props" by (rule u) (simp add: bs)
  have found: "find_base_time ?bs (of_nat (length (?ahead @ ?len))) (of_nat (length (?ahead @ ?len @ ?props))) =
    Some (Some (time, of_nat (length ((?ahead @ ?len) @ wires before @ locmaf_varint 10)),
      of_nat (length ((?ahead @ ?len) @ wires before @ property_wire (Scalar 10 time)))))"
    using assms by (intro find_base_time_at [where rest = "wires after @ payload"])
      (simp_all add: bs full_properties_def)
  have u1: "unat (of_nat (length ((?ahead @ ?len) @ wires before @ locmaf_varint 10)) :: u64) =
      length ((?ahead @ ?len) @ wires before @ locmaf_varint 10)"
    "unat (of_nat (length ((?ahead @ ?len) @ wires before @ property_wire (Scalar 10 time))) :: u64) =
      length ((?ahead @ ?len) @ wires before @ property_wire (Scalar 10 time))"
    by (rule u; simp add: bs full_properties_def)+
  have new: "rebase_locmaf_properties ?bs (length ?ahead) delta_ticks =
      Some (Some (?ahead @ locmaf_varint (of_nat (length (full_properties before (time + delta_ticks) after))) @
        full_properties before (time + delta_ticks) after @ payload))"
  proof -
    let ?encoded = "locmaf_varint (time + delta_ticks)"
    let ?b = "length (?ahead @ ?len)" and ?v = "length ((?ahead @ ?len) @ wires before @ locmaf_varint 10)"
      and ?c = "length ((?ahead @ ?len) @ wires before @ property_wire (Scalar 10 time))"
    have e: "length (?ahead @ ?len) + length ?props = length (?ahead @ ?len @ ?props)" by simp
    have size: "of_nat (?b + length ?props - ?b) - (of_nat ?c - of_nat ?v) + of_nat (length ?encoded) =
        (of_nat (length (full_properties before (time + delta_ticks) after)) :: u64)"
      by (simp add: full_properties_def)
    have mid: "slice ?bs ?b (?v - ?b) = wires before @ locmaf_varint 10"
      by (simp add: bs slice_def full_properties_def)
    have rest: "drop ?c ?bs = wires after @ payload" by (simp add: bs full_properties_def)
    have ahead: "take (length ?ahead) ?bs = ?ahead" by (simp add: bs)
    have "\<not> length ?bs - ?b < length ?props" by (simp add: bs)
    then have "rebase_locmaf_properties ?bs (length ?ahead) delta_ticks =
        Some (Some (take (length ?ahead) ?bs @
          locmaf_varint (of_nat (?b + length ?props - ?b) - (of_nat ?c - of_nat ?v) + of_nat (length ?encoded)) @
          slice ?bs ?b (?v - ?b) @ ?encoded @ drop ?c ?bs))"
      using found by (simp only: rebase_locmaf_properties_def len option.case prod.case up if_False Let_def e option.map u1)
    then show ?thesis unfolding size mid rest ahead by (simp add: full_properties_def)
  qed
  show ?thesis
    by (simp only: rebase_locmaf_timestamps_def header option.case locmaf_object.case new) (simp add: full_object_def)
qed


lemma rebase_locmaf_full_object_witness:
  "rebase_locmaf_timestamps [1, 2, 7, 8, 2, 6, 14, 2, 7, 1, 9, 0, 0xaa] 5 = Some None \<and>
   rebase_locmaf_timestamps (full_object [[7, 8]] [Scalar 14 2, Block 7 [9]] 120 [] [0xaa]) 20 =
     Some (Some (full_object [[7, 8]] [Scalar 14 2, Block 7 [9]] 140 [] [0xaa])) \<and>
   full_object [[7, 8]] [Scalar 14 2, Block 7 [9]] 120 [] [0xaa] = [1, 2, 7, 8, 2, 7, 14, 2, 7, 1, 9, 10, 120, 0xaa] \<and>
   full_object [[7, 8]] [Scalar 14 2, Block 7 [9]] 140 [] [0xaa] = [1, 2, 7, 8, 2, 8, 14, 2, 7, 1, 9, 10, 0x80, 140, 0xaa]"
proof -
  have e: "full_object [[7, 8]] [Scalar 14 2, Block 7 [9]] 120 [] [0xaa] = [1, 2, 7, 8, 2, 7, 14, 2, 7, 1, 9, 10, 120, 0xaa]"
    "full_object [[7, 8]] [Scalar 14 2, Block 7 [9]] 140 [] [0xaa] = [1, 2, 7, 8, 2, 8, 14, 2, 7, 1, 9, 10, 0x80, 140, 0xaa]"
    by code_simp+
  have ok: "list_all property_ok [Scalar 14 2, Block 7 [9]]" by code_simp
  have l: "length (full_object [[7, 8]] [Scalar 14 2, Block 7 [9]] 120 [] [0xaa]) < 2 ^ 63" by (simp add: e)
  have "rebase_locmaf_timestamps [1, 2, 7, 8, 2, 6, 14, 2, 7, 1, 9, 0, 0xaa] 5 = Some None" by code_simp
  then show ?thesis using rebase_locmaf_full_object [OF ok l, of 20] e by simp
qed

text \<open>A property whose length crosses the end of the property block and wraps the cursor back to itself.\<close>

definition wrapping_object :: bytes where
  "wrapping_object = [2, 1, 1, 0xff, 0xff, 0xff, 0xff, 0xff, 0xff, 0xff, 0xff, 0xf6]"

lemma wrapping_reads:
  "locmaf_header wrapping_object 0 = Some (Properties_At 1)"
  "read_locmaf_varint wrapping_object (Suc 0) = Some (1, 2)" "length wrapping_object = 12"
  "read_locmaf_varint wrapping_object 2 = Some (1, 3)"
  "read_locmaf_varint wrapping_object 3 = Some (- 10, 12)"
  by code_simp+

text \<open>The rewrite of a LOCMAF object need not return. On twelve bytes whose only property claims a
  length of \<open>2 ^ 64 - 10\<close>, the length field itself lies beyond the property block, the room that is
  left wraps, and the scan comes back to the property it started from.\<close>

theorem rebase_locmaf_never_returns: "rebase_locmaf_timestamps wrapping_object delta_ticks = None"
proof -
  have "\<not> (bs = wrapping_object \<and> cursor = 2 \<and> limit = 3)" if "find_base_time bs cursor limit = Some r" for bs cursor limit r
  proof (rule find_base_time.raw_induct [where
      P = "\<lambda>bs cursor limit r. \<not> (bs = wrapping_object \<and> cursor = 2 \<and> limit = 3)", OF _ that])
    fix f bs cursor limit r
    assume ih: "\<And>bs cursor limit r. f bs cursor limit = Some r \<Longrightarrow>
        \<not> (bs = wrapping_object \<and> cursor = 2 \<and> limit = 3)"
      and eq: "(if cursor < limit then
        (case read_locmaf_varint bs (unat cursor) of
           None \<Rightarrow> Some None
         | Some (property_id, value_offset) \<Rightarrow>
             if property_id AND 1 \<noteq> 0 then
               (case read_locmaf_varint bs value_offset of
                  None \<Rightarrow> Some None
                | Some (len, next_cursor) \<Rightarrow>
                    if limit - of_nat next_cursor < len then Some None
                    else f bs (of_nat next_cursor + len) limit)
             else
               (case read_locmaf_varint bs value_offset of
                  None \<Rightarrow> Some None
                | Some (x, next_cursor) \<Rightarrow>
                    if of_nat next_cursor > limit then Some None
                    else if property_id \<noteq> 10 then f bs (of_nat next_cursor) limit
                    else Some (Some (x, of_nat value_offset, of_nat next_cursor))))
      else Some None) = Some r"
    have "f wrapping_object 2 3 = None" using ih [of wrapping_object 2 3] by (cases "f wrapping_object 2 3") auto
    then show "\<not> (bs = wrapping_object \<and> cursor = 2 \<and> limit = 3)"
      using eq by (auto simp: wrapping_reads)
  qed
  then have "find_base_time wrapping_object 2 3 = None" by (cases "find_base_time wrapping_object 2 3") auto
  then show ?thesis
    by (simp add: rebase_locmaf_timestamps_def rebase_locmaf_properties_def wrapping_reads)
qed

subsection \<open>CMAF files and cycles\<close>

text \<open>C28: Rewriting a CMAF payload advances every base time by the given ticks and changes nothing else. When
  the payload parses, every \<open>traf\<close> has a \<open>tfdt\<close> of a known version that is long enough, and no
  32-bit time would overflow, the rewrite succeeds; the bytes outside the times are the same.\<close>

theorem rebase_cmaf_advances_times:
  assumes "parse_mp4_boxes payload = Some (Inr boxes)" and "length payload < 2 ^ 63" and "sizes_fit payload"
    and "\<forall>moof \<in> set boxes. box_type moof = ''moof'' \<longrightarrow> complete_trafs (box_children moof)" and "file_tfdts boxes \<noteq> []"
    and "\<forall>t \<in> set (file_tfdts boxes). tfdt_ok payload t \<and> fits_version delta_ticks payload t"
  shows "\<exists>out. rebase_cmaf_timestamps payload delta_ticks = Some (Some out) \<and>
    advanced delta_ticks (file_tfdts boxes) payload out"
proof -
  have "tiles payload 0 (length payload) boxes"
    using parse_mp4_tiles [OF assms(2,3)] assms(1) by auto
  then have "in_order 0 (length payload) (file_tfdts boxes)" by (rule file_tfdts_in_order)
  from rebase_moofs_advanced [OF assms(4) this order.refl assms(2,6), of False] obtain out where
    "rebase_moofs delta_ticks boxes (payload, [], False) = Some (out, [], True)" "advanced delta_ticks (file_tfdts boxes) payload out"
    using assms(5) by auto
  then show ?thesis using assms(1) by (simp add: rebase_cmaf_timestamps_def rebase_boxes_def)
qed

definition example_fragment_file :: bytes where
  "example_fragment_file = [0, 0, 0, 36] @ to_bytes ''moof'' @ [0, 0, 0, 28] @ to_bytes ''traf'' @
     [0, 0, 0, 20] @ to_bytes ''tfdt'' @ [1, 0, 0, 0, 0, 0, 0, 0, 0, 0, 0, 200] @ [0, 0, 0, 9] @ to_bytes ''mdat'' @ [0xaa]"

definition example_boxes :: "Mp4Box list" where
  "example_boxes =
     [Mp4Box ''moof'' \<lparr>span_offset = 0, span_size = 36\<rparr> \<lparr>span_offset = 8, span_size = 28\<rparr>
        [Mp4Box ''traf'' \<lparr>span_offset = 8, span_size = 28\<rparr> \<lparr>span_offset = 16, span_size = 20\<rparr>
          [Mp4Box ''tfdt'' \<lparr>span_offset = 16, span_size = 20\<rparr> \<lparr>span_offset = 24, span_size = 12\<rparr> []]],
      Mp4Box ''mdat'' \<lparr>span_offset = 36, span_size = 9\<rparr> \<lparr>span_offset = 44, span_size = 1\<rparr> []]"

lemma example_parsed: "parse_mp4_boxes example_fragment_file = Some (Inr example_boxes)"
  by code_simp

lemma rebase_cmaf_advances_times_witness:
  "\<exists>out. rebase_cmaf_timestamps example_fragment_file 100 = Some (Some out) \<and>
    advanced 100 (file_tfdts example_boxes) example_fragment_file out"
proof (rule rebase_cmaf_advances_times [OF example_parsed])
  show l: "length example_fragment_file < 2 ^ 63" by (simp add: example_fragment_file_def to_bytes_def)
  have "list_all (\<lambda>i. slice example_fragment_file i 4 = [0, 0, 0, 1] \<longrightarrow> take 1 (slice example_fragment_file (i + 8) 8) = [0])
      [0..<length example_fragment_file]"
    by code_simp
  with l show "sizes_fit example_fragment_file" by (rule sizes_fit_small)
  show "\<forall>moof \<in> set example_boxes. box_type moof = ''moof'' \<longrightarrow> complete_trafs (box_children moof)"
    by (simp add: example_boxes_def complete_trafs_def find_child_box_def)
  show "file_tfdts example_boxes \<noteq> []" by (simp add: example_boxes_def find_child_box_def)
  have "list_all (\<lambda>t. tfdt_ok example_fragment_file t \<and> fits_version 100 example_fragment_file t) (file_tfdts example_boxes)"
    by code_simp
  then show "\<forall>t \<in> set (file_tfdts example_boxes). tfdt_ok example_fragment_file t \<and> fits_version 100 example_fragment_file t"
    by (simp only: list_all_iff)
qed

text \<open>The path that widens: a version 0 time that would overflow becomes a version 1 time, the sizes of its
  boxes grow by four, and the data offset of the \<open>trun\<close> follows the media.\<close>

definition narrow_file :: bytes where
  "narrow_file = [0, 0, 0, 68] @ to_bytes ''moof'' @ [0, 0, 0, 60] @ to_bytes ''traf'' @
     [0, 0, 0, 16] @ to_bytes ''tfhd'' @ [0, 2, 0, 0, 0, 0, 0, 1] @
     [0, 0, 0, 16] @ to_bytes ''tfdt'' @ [0, 0, 0, 0, 0xff, 0xff, 0xff, 0xff] @
     [0, 0, 0, 20] @ to_bytes ''trun'' @ [0, 0, 0, 1, 0, 0, 0, 1, 0, 0, 0, 76] @ [0, 0, 0, 9] @ to_bytes ''mdat'' @ [0xaa]"

definition wide_file :: bytes where
  "wide_file = [0, 0, 0, 72] @ to_bytes ''moof'' @ [0, 0, 0, 64] @ to_bytes ''traf'' @
     [0, 0, 0, 16] @ to_bytes ''tfhd'' @ [0, 2, 0, 0, 0, 0, 0, 1] @
     [0, 0, 0, 20] @ to_bytes ''tfdt'' @ [1, 0, 0, 0, 0, 0, 0, 1, 0, 0, 0, 1] @
     [0, 0, 0, 20] @ to_bytes ''trun'' @ [0, 0, 0, 1, 0, 0, 0, 1, 0, 0, 0, 80] @ [0, 0, 0, 9] @ to_bytes ''mdat'' @ [0xaa]"

lemma widening_example: "rebase_cmaf_timestamps narrow_file 2 = Some (Some wide_file)"
  by code_simp

text \<open>C30: The offset of a cycle is the elapsed media time in ticks, rounded to the nearest tick once: it does not
  accumulate the rounding of the cycles before it. This holds as long as the elapsed time and the result
  fit in 64 bits.\<close>

theorem loop_offset_ticks_exact:
  assumes "unat duration * unat cycle < 2 ^ 64"
    and "(unat duration * unat cycle * unat timescale + 500000) div 1000000 < 2 ^ 64"
  shows "unat (loop_offset_ticks duration cycle timescale) = (unat duration * unat cycle * unat timescale + 500000) div 1000000"
  by (rule loop_offset_ticks_eq [OF assms])

lemma loop_offset_ticks_exact_witness:
  "unat (loop_offset_ticks 33333333 3 90000) = 9000000 \<and> loop_offset_ticks 33333333 1 90000 = 3000000"
proof -
  have "loop_offset_ticks 33333333 1 90000 = 3000000" by code_simp
  moreover have "unat (loop_offset_ticks 33333333 3 90000) = (33333333 * 3 * 90000 + 500000) div 1000000"
    using loop_offset_ticks_exact [of 33333333 3 90000] by simp
  ultimately show ?thesis by simp
qed

end
