(* ===== verification/Locmaf_Encoder.thy ===== *)
theory Locmaf_Encoder
  imports Loop_Timestamps Ordered_Map
begin

text \<open>
  \<open>src/locmaf_encoder.cpp\<close>: LOCMAF objects from the CMAF chunks of one track. A chunk's \<open>moof\<close> is reduced to
  the fields that differ from the track's defaults (\<open>parse\<close>), and an object carries all fields (a full
  object) or their differences from the previous object (a delta object). The exceptions are \<open>bad\<close> (a
  malformed input), \<open>LocmafIneligible\<close> (the track stays CMAF) and \<open>Outside\<close>, which the encoder catches to
  send the chunk as it is. A \<open>Reader\<close> is the bytes it has not read yet. 32-bit fields are held in 64-bit
  integers, as \<open>get\<close> returns them.
\<close>

subsection \<open>Readers and boxes\<close>

datatype locmaf_error = Bad string | Ineligible string | Outside

definition get :: "nat \<Rightarrow> bytes \<Rightarrow> locmaf_error + u64 \<times> bytes" where
  "get n r = (if n > length r then Inl (Bad ''LOCMAF: truncated BMFF field'')
     else Inr (foldl (\<lambda>v b. push_bit 8 v OR ucast b) 0 (take n r), drop n r))"

definition take_bytes :: "nat \<Rightarrow> bytes \<Rightarrow> locmaf_error + bytes \<times> bytes" where
  "take_bytes n r = (if n > length r then Inl (Bad ''LOCMAF: truncated BMFF bytes'') else Inr (take n r, drop n r))"

definition end_of :: "bytes \<Rightarrow> locmaf_error + unit" where
  "end_of r = (if r \<noteq> [] then Inl (Bad ''LOCMAF: unexpected BMFF trailing fields'') else Inr ())"

record Box =
  bx_type :: string
  bx_all :: bytes
  bx_data :: bytes

definition next_of :: "bytes \<Rightarrow> locmaf_error + Box \<times> bytes" where
  "next_of r =
     bindE (get 4 r) (\<lambda>(n, r1).
     bindE (take_bytes 4 r1) (\<lambda>(name, r2).
     if n < 8 \<or> unat n > length r then Inl (Bad ''LOCMAF: invalid BMFF box size (size escapes unsupported)'')
     else
       bindE (take_bytes (unat n - 8) r2) (\<lambda>(payload, r3).
       Inr (\<lparr>bx_type = of_bytes name, bx_all = take (unat n) r, bx_data = payload\<rparr>, r3))))"

lemma get_shorter: "get n r = Inr (v, r') \<Longrightarrow> length r' + n = length r"
  by (auto simp: get_def split: if_splits)

lemma take_bytes_shorter: "take_bytes n r = Inr (d, r') \<Longrightarrow> length r' + n = length r"
  by (auto simp: take_bytes_def split: if_splits)

lemma next_of_shorter: "next_of r = Inr (b, r') \<Longrightarrow> length r' < length r"
  by (auto simp: next_of_def split: if_splits dest!: get_shorter take_bytes_shorter)

function boxes :: "bytes \<Rightarrow> locmaf_error + Box list" where
  "boxes r =
     (if r = [] then Inr []
      else bindE (next_of r) (\<lambda>(box, r'). bindE (boxes r') (\<lambda>result. Inr (box # result))))"
  by pat_completeness auto
termination by (relation "measure length") (auto dest: next_of_shorter)

declare boxes.simps [simp del]

definition one :: "Box list \<Rightarrow> string \<Rightarrow> locmaf_error + Box" where
  "one list type =
     (case filter (\<lambda>b. bx_type b = type) list of
        [] \<Rightarrow> Inl (Bad ''LOCMAF: missing required box'')
      | [found] \<Rightarrow> Inr found
      | _ \<Rightarrow> Inl (Bad ''LOCMAF: duplicate required box''))"

definition count_type :: "string \<Rightarrow> Box list \<Rightarrow> nat" where
  "count_type type list = length (filter (\<lambda>b. bx_type b = type) list)"

text \<open>The nesting depth is bounded by 32; the argument is the number of levels that remain.\<close>

fun excluded :: "bool \<Rightarrow> nat \<Rightarrow> Box list \<Rightarrow> locmaf_error + unit" where
  "excluded fragment 0 list = Inl (Bad ''LOCMAF: excessive BMFF nesting'')"
| "excluded fragment (Suc levels) [] = Inr ()"
| "excluded fragment (Suc levels) (b # list) =
     (if bx_type b \<in> {''sgpd'', ''sbgp'', ''subs''} \<or> (fragment \<and> bx_type b = ''pssh'') then
        Inl (Ineligible ''LOCMAF: track requires excluded sample groups, subs, or fragment pssh'')
      else
        bindE
          (if bx_type b \<in> {''moov'', ''trak'', ''mdia'', ''minf'', ''stbl'', ''moof'', ''traf''}
           then bindE (boxes (bx_data b)) (\<lambda>children. excluded fragment levels children) else Inr ())
          (\<lambda>_. excluded fragment (Suc levels) list))"

subsection \<open>The track\<close>

record Context =
  cx_track :: u64
  cx_description :: u64
  cx_duration :: u64
  cx_size :: u64
  cx_flags :: u64
  cx_protected_track :: bool
  cx_iv :: nat

definition tkhd_track :: "bytes \<Rightarrow> locmaf_error + u64" where
  "tkhd_track data =
     bindE (get 4 data) (\<lambda>(v, r).
     if drop_bit 24 v > 1 then Inl (Bad ''LOCMAF: unsupported tkhd version'')
     else
       bindE (take_bytes (if drop_bit 24 v \<noteq> 0 then 16 else 8) r) (\<lambda>(_, r).
       bindE (get 4 r) (\<lambda>(track, _). Inr track)))"

definition check_mdhd :: "bytes \<Rightarrow> locmaf_error + unit" where
  "check_mdhd data =
     bindE (get 4 data) (\<lambda>(v, r).
     if drop_bit 24 v > 1 then Inl (Bad ''LOCMAF: unsupported mdhd version'')
     else
       bindE (take_bytes (if drop_bit 24 v \<noteq> 0 then 16 else 8) r) (\<lambda>(_, r).
       bindE (get 4 r) (\<lambda>(timescale, _).
       if timescale = 0 then Inl (Bad ''LOCMAF: zero timescale'') else Inr ())))"

fun read_trexes :: "u64 \<Rightarrow> Box list \<Rightarrow> (u64 \<times> u64 \<times> u64 \<times> u64) option \<Rightarrow>
    locmaf_error + (u64 \<times> u64 \<times> u64 \<times> u64) option" where
  "read_trexes track [] matched = Inr matched"
| "read_trexes track (b # list) matched =
     (if bx_type b \<noteq> ''trex'' then read_trexes track list matched
      else
        bindE (get 4 (bx_data b)) (\<lambda>(version, r).
        if version \<noteq> 0 then Inl (Bad ''LOCMAF: invalid trex version/flags'')
        else
          bindE (get 4 r) (\<lambda>(trex_id, r).
          bindE (get 4 r) (\<lambda>(desc, r).
          bindE (get 4 r) (\<lambda>(dur, r).
          bindE (get 4 r) (\<lambda>(sz, r).
          bindE (get 4 r) (\<lambda>(flags, r).
          bindE (end_of r) (\<lambda>_.
          if trex_id \<noteq> track then read_trexes track list matched
          else if matched \<noteq> None then Inl (Bad ''LOCMAF: duplicate trex'')
          else read_trexes track list (Some (desc, dur, sz, flags))))))))))"

definition read_tenc :: "bytes \<Rightarrow> locmaf_error + bool \<times> nat" where
  "read_tenc data =
     bindE (get 4 data) (\<lambda>(vf, t).
     if drop_bit 24 vf > 1 \<or> vf AND 0xffffff \<noteq> 0 then Inl (Bad ''LOCMAF: invalid tenc'')
     else
       bindE (take_bytes 2 t) (\<lambda>(_, t).
       bindE (get 1 t) (\<lambda>(prot, t).
       if prot > 1 then Inl (Bad ''LOCMAF: invalid protection flag'')
       else
         bindE (get 1 t) (\<lambda>(iv, t).
         bindE (take_bytes 16 t) (\<lambda>(_, t).
         if iv \<noteq> 0 \<and> iv \<noteq> 8 \<and> iv \<noteq> 16 then Inl (Bad ''LOCMAF: invalid IV size'')
         else
           bindE
             (if prot \<noteq> 0 \<and> iv = 0 then
                bindE (get 1 t) (\<lambda>(n, t).
                if n \<noteq> 8 \<and> n \<noteq> 16 then Inl (Bad ''LOCMAF: invalid constant IV'')
                else bindE (take_bytes (unat n) t) (\<lambda>(_, t). Inr t))
              else Inr t)
             (\<lambda>t. bindE (end_of t) (\<lambda>_. Inr (prot \<noteq> 0, unat iv))))))))"

definition entry_fixed_size :: "Box \<Rightarrow> locmaf_error + nat" where
  "entry_fixed_size entry =
     (if bx_type entry = ''enca'' then
        bindE (take_bytes 8 (bx_data entry)) (\<lambda>(_, e).
        bindE (get 2 e) (\<lambda>(version, _).
        if version = 0 then Inr 28 else if version = 1 then Inr 44 else if version = 2 then Inr 64
        else Inl (Ineligible ''LOCMAF: unsupported audio sample entry version'')))
      else Inr 78)"

fun read_entries :: "nat \<Rightarrow> Box list \<Rightarrow> bool \<times> nat \<Rightarrow> locmaf_error + bool \<times> nat" where
  "read_entries entry_count [] protection = Inr protection"
| "read_entries entry_count (entry # list) protection =
     (if bx_type entry \<noteq> ''encv'' \<and> bx_type entry \<noteq> ''enca'' then read_entries entry_count list protection
      else if entry_count \<noteq> 1 then Inl (Ineligible ''LOCMAF: multiple protected sample descriptions unsupported'')
      else
        bindE (entry_fixed_size entry) (\<lambda>fixed.
        bindE (take_bytes fixed (bx_data entry)) (\<lambda>(_, e).
        bindE (boxes e) (\<lambda>children.
        bindE (one children ''sinf'') (\<lambda>sinf.
        bindE (boxes (bx_data sinf)) (\<lambda>sinf.
        bindE (one sinf ''schi'') (\<lambda>schi.
        bindE (boxes (bx_data schi)) (\<lambda>schi.
        bindE (one schi ''tenc'') (\<lambda>tenc.
        bindE (read_tenc (bx_data tenc)) (\<lambda>protection.
        read_entries entry_count list protection))))))))))"

definition read_stsd :: "bytes \<Rightarrow> locmaf_error + bool \<times> nat" where
  "read_stsd data =
     bindE (get 4 data) (\<lambda>(version, r).
     if version \<noteq> 0 then Inl (Bad ''LOCMAF: invalid stsd'')
     else
       bindE (get 4 r) (\<lambda>(entry_count, r).
       bindE (boxes r) (\<lambda>entries.
       if length entries \<noteq> unat entry_count then Inl (Bad ''LOCMAF: invalid stsd entry count'')
       else read_entries (length entries) entries (False, 0))))"

definition make_context :: "bytes \<Rightarrow> locmaf_error + Context" where
  "make_context init =
     bindE (boxes init) (\<lambda>all.
     bindE (excluded False 33 all) (\<lambda>_.
     bindE (one all ''moov'') (\<lambda>moov.
     bindE (boxes (bx_data moov)) (\<lambda>moov.
     if count_type ''trak'' moov \<noteq> 1 then Inl (Ineligible ''LOCMAF: initialization must contain exactly one track'')
     else
       bindE (one moov ''trak'') (\<lambda>trak.
       bindE (boxes (bx_data trak)) (\<lambda>trak.
       bindE (one trak ''tkhd'') (\<lambda>tkhd.
       bindE (tkhd_track (bx_data tkhd)) (\<lambda>track.
       bindE (one trak ''mdia'') (\<lambda>mdia.
       bindE (boxes (bx_data mdia)) (\<lambda>mdia.
       bindE (one mdia ''mdhd'') (\<lambda>mdhd.
       bindE (check_mdhd (bx_data mdhd)) (\<lambda>_.
       bindE (one moov ''mvex'') (\<lambda>mvex.
       bindE (boxes (bx_data mvex)) (\<lambda>mvex.
       bindE (read_trexes track mvex None) (\<lambda>trex.
       case trex of
         None \<Rightarrow> Inl (Bad ''LOCMAF: no matching trex'')
       | Some (desc, dur, sz, flags) \<Rightarrow>
           bindE (one mdia ''minf'') (\<lambda>minf.
           bindE (boxes (bx_data minf)) (\<lambda>minf.
           bindE (one minf ''stbl'') (\<lambda>stbl.
           bindE (boxes (bx_data stbl)) (\<lambda>stbl.
           bindE (one stbl ''stsd'') (\<lambda>stsd.
           bindE (read_stsd (bx_data stsd)) (\<lambda>(prot, iv).
           Inr \<lparr>cx_track = track, cx_description = desc, cx_duration = dur, cx_size = sz, cx_flags = flags,
             cx_protected_track = prot, cx_iv = iv\<rparr>)))))))))))))))))))))"


subsection \<open>The fields of a chunk\<close>

type_synonym field_values = "int list"
type_synonym fields = "(nat, field_values) omap"

definition all_equal :: "int list \<Rightarrow> nat \<Rightarrow> bool" where
  "all_equal v from_index \<longleftrightarrow> v = [] \<or> list_all (\<lambda>x. x = v ! from_index) (drop from_index v)"

record Parsed =
  pr_fields :: fields
  pr_ivs :: bytes
  pr_payload :: bytes
  pr_prefix :: "Box list"
  pr_bmdt :: u64
  pr_duration :: u64

text \<open>The subsamples of one sample: the sizes in clear and encrypted, and their sum.\<close>

fun read_subsamples :: "nat \<Rightarrow> bytes \<Rightarrow> locmaf_error + (int list \<times> int list \<times> u64) \<times> bytes" where
  "read_subsamples 0 r = Inr (([], [], 0), r)"
| "read_subsamples (Suc n) r =
     bindE (get 2 r) (\<lambda>(a, r).
     bindE (get 4 r) (\<lambda>(b, r).
     bindE (read_subsamples n r) (\<lambda>((clear, encrypted, sum), r).
     Inr ((uint a # clear, uint b # encrypted, a + b + sum), r))))"

fun read_senc :: "Context \<Rightarrow> u64 \<Rightarrow> int list \<Rightarrow> bytes \<Rightarrow>
    locmaf_error + (bytes \<times> int list \<times> int list \<times> int list) \<times> bytes" where
  "read_senc c vf [] r = Inr (([], [], [], []), r)"
| "read_senc c vf (sz # sizes) r =
     bindE (take_bytes (cx_iv c) r) (\<lambda>(iv, r).
     if vf AND 2 = 0 then
       bindE (read_senc c vf sizes r) (\<lambda>((ivs, counts, clear, encrypted), r).
       Inr ((iv @ ivs, counts, clear, encrypted), r))
     else
       bindE (get 2 r) (\<lambda>(n, r).
       if cx_iv c + 2 + 6 * unat n > 255 then Inl (Bad ''LOCMAF: CENC auxiliary information exceeds saiz capacity'')
       else
         bindE (read_subsamples (unat n) r) (\<lambda>((clear1, encrypted1, sum), r).
         if n \<noteq> 0 \<and> sum \<noteq> of_int sz then Inl (Bad ''LOCMAF: subsamples do not cover sample'')
         else
           bindE (read_senc c vf sizes r) (\<lambda>((ivs, counts, clear, encrypted), r).
           Inr ((iv @ ivs, uint n # counts, clear1 @ clear, encrypted1 @ encrypted), r)))))"

definition encryption :: "Box \<Rightarrow> Context \<Rightarrow> int list \<Rightarrow> Parsed \<Rightarrow> locmaf_error + Parsed" where
  "encryption senc c sizes out =
     (if \<not> cx_protected_track c then Inl Outside
      else
        bindE (get 4 (bx_data senc)) (\<lambda>(vf, r).
        if vf AND NOT 2 \<noteq> 0 then Inl Outside
        else
          bindE (get 4 r) (\<lambda>(n, r).
          if unat n \<noteq> length sizes then Inl (Bad ''LOCMAF: senc sample count mismatch'')
          else
            bindE (read_senc c vf sizes r) (\<lambda>((ivs, counts, clear, encrypted), r).
            bindE (end_of r) (\<lambda>_.
            let flds = (if cx_iv c \<noteq> 0 then omap_put 9 [] (pr_fields out) else pr_fields out);
                flds = (if vf AND 2 \<noteq> 0
                  then omap_put 15 encrypted (omap_put 13 clear (omap_put 11 counts flds)) else flds) in
            Inr (out\<lparr>pr_fields := flds, pr_ivs := ivs\<rparr>))))))"

text \<open>One row of the sample table: duration, size, flags and composition time offset.\<close>

type_synonym sample = "u64 \<times> u64 \<times> u64 \<times> int"

definition read_optional :: "bool \<Rightarrow> u64 \<Rightarrow> bytes \<Rightarrow> locmaf_error + u64 \<times> bytes" where
  "read_optional present otherwise r = (if present then get 4 r else Inr (otherwise, r))"

fun read_samples :: "u64 \<Rightarrow> u64 \<Rightarrow> u64 \<Rightarrow> u64 \<Rightarrow> u64 \<Rightarrow> nat \<Rightarrow> u64 \<Rightarrow> bytes \<Rightarrow> locmaf_error + sample list \<times> bytes" where
  "read_samples version tr_flags duration sz flags 0 this_flags r = Inr ([], r)"
| "read_samples version tr_flags duration sz flags (Suc n) this_flags r =
     bindE (read_optional (tr_flags AND 0x100 \<noteq> 0) duration r) (\<lambda>(d, r).
     bindE (read_optional (tr_flags AND 0x200 \<noteq> 0) sz r) (\<lambda>(s, r).
     bindE (read_optional (tr_flags AND 0x400 \<noteq> 0) this_flags r) (\<lambda>(f, r).
     bindE (read_optional (tr_flags AND 0x800 \<noteq> 0) 0 r) (\<lambda>(ct, r).
     bindE (read_samples version tr_flags duration sz flags n flags r) (\<lambda>(rows, r).
     Inr ((d, s, f, if version \<noteq> 0 \<and> ct \<ge> 0x80000000 then uint ct - 0x100000000 else uint ct) # rows, r))))))"

text \<open>The fields that describe a sample table against the defaults of the track.\<close>

definition sample_fields :: "Context \<Rightarrow> sample list \<Rightarrow> fields \<Rightarrow> fields" where
  "sample_fields c rows flds =
     (let durations = map (\<lambda>(d, s, f, ct). uint d) rows;
          sizes = map (\<lambda>(d, s, f, ct). uint s) rows;
          sample_flags = map (\<lambda>(d, s, f, ct). uint f) rows;
          ctos = map (\<lambda>(d, s, f, ct). ct) rows;
          n = length rows;
          flds = omap_put 14 [int n] flds in
      if n = 0 then flds
      else
        let flds = (if \<not> all_equal durations 0 then omap_put 3 durations flds
              else if durations ! 0 \<noteq> uint (cx_duration c) then omap_put 4 [durations ! 0] flds else flds);
            flds = (if n \<le> 1 then flds
              else if \<not> all_equal sizes 0 then omap_put 1 (butlast sizes) flds
              else if sizes ! 0 \<noteq> uint (cx_size c) then omap_put 6 [sizes ! 0] flds else flds);
            flds = (if all_equal sample_flags 0 then
                (if sample_flags ! 0 \<noteq> uint (cx_flags c) then omap_put 8 [sample_flags ! 0] flds else flds)
              else if all_equal sample_flags 1 then
                (let flds = omap_put 12 [sample_flags ! 0] flds in
                 if sample_flags ! 1 \<noteq> uint (cx_flags c) then omap_put 8 [sample_flags ! 1] flds else flds)
              else omap_put 7 sample_flags flds) in
        if list_ex (\<lambda>x. x \<noteq> 0) ctos then omap_put 5 ctos flds else flds)"

definition read_tfhd :: "Context \<Rightarrow> bytes \<Rightarrow> locmaf_error + u64 \<times> u64 \<times> u64 \<times> u64" where
  "read_tfhd c data =
     bindE (get 4 data) (\<lambda>(tf_flags, r).
     if tf_flags AND NOT 0x02003a \<noteq> 0 then Inl Outside
     else
       bindE (get 4 r) (\<lambda>(track, r).
       if track \<noteq> cx_track c then Inl (Ineligible ''LOCMAF: fragment track differs from init'')
       else
         bindE (read_optional (tf_flags AND 2 \<noteq> 0) (cx_description c) r) (\<lambda>(description, r).
         bindE (read_optional (tf_flags AND 8 \<noteq> 0) (cx_duration c) r) (\<lambda>(duration, r).
         bindE (read_optional (tf_flags AND 16 \<noteq> 0) (cx_size c) r) (\<lambda>(sz, r).
         bindE (read_optional (tf_flags AND 32 \<noteq> 0) (cx_flags c) r) (\<lambda>(flags, r).
         bindE (end_of r) (\<lambda>_. Inr (description, duration, sz, flags))))))))"

definition read_tfdt :: "bytes \<Rightarrow> locmaf_error + u64" where
  "read_tfdt data =
     bindE (get 4 data) (\<lambda>(dt_flags, r).
     if dt_flags \<noteq> 0 \<and> dt_flags \<noteq> 0x01000000 then Inl Outside
     else
       bindE (get (if dt_flags \<noteq> 0 then 8 else 4) r) (\<lambda>(bmdt, r).
       bindE (end_of r) (\<lambda>_. Inr bmdt)))"

definition read_trun :: "nat \<Rightarrow> u64 \<Rightarrow> u64 \<Rightarrow> u64 \<Rightarrow> bytes \<Rightarrow> locmaf_error + sample list" where
  "read_trun moof_size duration sz flags data =
     bindE (get 4 data) (\<lambda>(vf, r).
     let version = drop_bit 24 vf; tr_flags = vf AND 0xffffff in
     if version > 1 \<or> tr_flags AND NOT 0xf05 \<noteq> 0 \<or> (tr_flags AND 4 \<noteq> 0 \<and> tr_flags AND 0x400 \<noteq> 0) then Inl Outside
     else
       bindE (get 4 r) (\<lambda>(n, r).
       if n > 1000000 then Inl (Bad ''LOCMAF: sample count exceeds resource bound'')
       else if tr_flags AND 1 = 0 then Inl Outside
       else
         bindE (get 4 r) (\<lambda>(data_offset, r).
         if data_offset \<noteq> of_nat moof_size + 8 then Inl Outside
         else
           bindE (read_optional (tr_flags AND 4 \<noteq> 0) flags r) (\<lambda>(first, r).
           bindE (read_samples version tr_flags duration sz flags (unat n) first r) (\<lambda>(rows, r).
           bindE (end_of r) (\<lambda>_. Inr rows))))))"

definition parse_table :: "Context \<Rightarrow> Box list \<Rightarrow> bytes \<Rightarrow> u64 \<Rightarrow> u64 \<Rightarrow> sample list \<Rightarrow> Box list \<Rightarrow>
    locmaf_error + Parsed" where
  "parse_table c prefix payload description bmdt rows tc =
     (let flds = (if description \<noteq> cx_description c then [(2, [uint description])] else []);
          out = \<lparr>pr_fields = sample_fields c rows flds, pr_ivs = [], pr_payload = payload, pr_prefix = prefix,
            pr_bmdt = bmdt, pr_duration = sum_list (map (\<lambda>(d, s, f, ct). d) rows)\<rparr> in
      if count_type ''senc'' tc > 0 then
        bindE (one tc ''senc'') (\<lambda>senc. encryption senc c (map (\<lambda>(d, s, f, ct). uint s) rows) out)
      else if (cx_protected_track c \<and> cx_iv c \<noteq> 0 \<and> rows \<noteq> []) \<or>
        list_ex (\<lambda>b. bx_type b = ''saiz'' \<or> bx_type b = ''saio'') tc then Inl Outside
      else Inr out)"

definition parse_moof :: "Context \<Rightarrow> Box list \<Rightarrow> Box \<Rightarrow> bytes \<Rightarrow> locmaf_error + Parsed" where
  "parse_moof c prefix moof payload =
     bindE (boxes (bx_data moof)) (\<lambda>mc.
     if list_ex (\<lambda>b. bx_type b \<noteq> ''mfhd'' \<and> bx_type b \<noteq> ''traf'') mc \<or> count_type ''traf'' mc \<noteq> 1 then Inl Outside
     else
       bindE (one mc ''mfhd'') (\<lambda>mfhd.
       bindE (get 4 (bx_data mfhd)) (\<lambda>(mf, r).
       if mf \<noteq> 0 then Inl Outside
       else
         bindE (get 4 r) (\<lambda>(_, r).
         bindE (end_of r) (\<lambda>_.
         bindE (one mc ''traf'') (\<lambda>traf.
         bindE (boxes (bx_data traf)) (\<lambda>tc.
         if list_ex (\<lambda>b. bx_type b \<notin> {''tfhd'', ''tfdt'', ''trun'', ''senc'', ''saiz'', ''saio''}) tc \<or>
           count_type ''trun'' tc \<noteq> 1 then Inl Outside
         else
           bindE (one tc ''tfhd'') (\<lambda>tfhd.
           bindE (read_tfhd c (bx_data tfhd)) (\<lambda>(description, duration, sz, flags).
           bindE (one tc ''tfdt'') (\<lambda>tfdt.
           bindE (read_tfdt (bx_data tfdt)) (\<lambda>bmdt.
           bindE (one tc ''trun'') (\<lambda>trun.
           bindE (read_trun (length (bx_all moof)) duration sz flags (bx_data trun)) (\<lambda>rows.
           if sum_list (map (\<lambda>(d, s, f, ct). s) rows) \<noteq> of_nat (length payload) then
             Inl (Bad ''LOCMAF: sample sizes do not cover mdat'')
           else
             parse_table c prefix payload description bmdt rows tc)))))))))))))"

definition parse_chunk :: "Box list \<Rightarrow> Context \<Rightarrow> locmaf_error + Parsed" where
  "parse_chunk all c =
     (let prefix = takeWhile (\<lambda>b. bx_type b \<noteq> ''moof'') all in
      case dropWhile (\<lambda>b. bx_type b \<noteq> ''moof'') all of
        [moof, mdat] \<Rightarrow>
          if bx_type mdat \<noteq> ''mdat'' \<or> list_ex (\<lambda>b. bx_type b = ''mdat'' \<or> bx_type b = ''moof'') prefix then Inl Outside
          else parse_moof c prefix moof (bx_data mdat)
      | _ \<Rightarrow> Inl Outside)"

subsection \<open>The encoder\<close>

definition zz :: "int \<Rightarrow> u64" where
  "zz v = (if v \<ge> 0 then of_int v * 2 else of_int (- (v + 1)) * 2 + 1)"

definition vi :: "u64 \<Rightarrow> bytes" where
  "vi x =
     (let len = locmaf_size x 1; out = be_bytes len x in
      if len > 1 then out[0 := out ! 0 OR ucast (push_bit (9 - len) 0xFF :: u32)] else out)"

definition field_base :: "field_values option \<Rightarrow> nat \<Rightarrow> int" where
  "field_base before i = (case before of None \<Rightarrow> 0 | Some b \<Rightarrow> if i < length b then b ! i else 0)"

definition field_data :: "nat \<Rightarrow> field_values \<Rightarrow> bool \<Rightarrow> field_values option \<Rightarrow> bytes" where
  "field_data field_id field_values full before =
     concat (map (\<lambda>i.
       let v = field_values ! i; v = (if \<not> full \<and> field_id \<noteq> 27 then v - field_base before i else v) in
       vi (if (\<not> full \<and> field_id \<noteq> 27) \<or> field_id = 5 then zz v else of_int v)) [0..<length field_values])"

definition put_field :: "nat \<Rightarrow> field_values \<Rightarrow> bool \<Rightarrow> field_values option \<Rightarrow> bytes" where
  "put_field field_id field_values full before =
     (let data = field_data field_id field_values full before in
      vi (of_nat field_id) @ (if odd field_id then vi (of_nat (length data)) else []) @ data)"

record LocmafEncoder =
  le_context :: Context
  le_previous :: fields
  le_ivs :: bytes
  le_group :: u64
  le_object :: u64
  le_bmdt :: u64
  le_duration :: u64
  le_anchored :: bool

definition new_encoder :: "bytes \<Rightarrow> locmaf_error + LocmafEncoder" where
  "new_encoder init =
     bindE (make_context init) (\<lambda>c. Inr \<lparr>le_context = c, le_previous = [], le_ivs = [], le_group = 0, le_object = 0,
       le_bmdt = 0, le_duration = 0, le_anchored = False\<rparr>)"

definition reset :: "LocmafEncoder \<Rightarrow> LocmafEncoder" where
  "reset s = s\<lparr>le_anchored := False, le_previous := [], le_ivs := []\<rparr>"

definition needs_full :: "bool \<Rightarrow> LocmafEncoder \<Rightarrow> u64 \<Rightarrow> u64 \<Rightarrow> Parsed \<Rightarrow> bool" where
  "needs_full force_full s group_id object_id p \<longleftrightarrow>
     force_full \<or> \<not> le_anchored s \<or> group_id \<noteq> le_group s \<or> le_object s = - 1 \<or> object_id \<noteq> le_object s + 1 \<or>
     le_duration s > - 1 - le_bmdt s \<or> pr_bmdt p \<noteq> le_bmdt s + le_duration s"

definition object_property :: "LocmafEncoder \<Rightarrow> Parsed \<Rightarrow> bool \<Rightarrow> nat \<times> field_values \<Rightarrow> bytes" where
  "object_property s p full entry =
     (case entry of (field_id, field_values) \<Rightarrow>
      let before = map_of (le_previous s) field_id in
      if field_id = 10 then vi 10 @ vi (pr_bmdt p)
      else if field_id = 9 then
        (if \<not> full \<and> before \<noteq> None \<and> pr_ivs p = le_ivs s then []
         else vi 9 @ vi (of_nat (length (pr_ivs p))) @ pr_ivs p)
      else if full \<or> before = None \<or> before \<noteq> Some field_values then put_field field_id field_values full before
      else [])"

definition object_fields :: "LocmafEncoder \<Rightarrow> Parsed \<Rightarrow> bool \<Rightarrow> fields" where
  "object_fields s p full =
     (if full then omap_put 10 [] (pr_fields p)
      else
        let removed = map (\<lambda>e. int (fst e)) (filter (\<lambda>e. map_of (pr_fields p) (fst e) = None) (le_previous s)) in
        if removed \<noteq> [] then omap_put 27 removed (pr_fields p) else pr_fields p)"

definition encode_prefix :: "Box list \<Rightarrow> bytes" where
  "encode_prefix prefix = concat (map (\<lambda>b. vi 1 @ vi (of_nat (length (bx_all b) - 4)) @ drop 4 (bx_all b)) prefix)"

definition encode :: "bytes \<Rightarrow> u64 \<Rightarrow> u64 \<Rightarrow> bool \<Rightarrow> LocmafEncoder \<Rightarrow> locmaf_error + bytes \<times> LocmafEncoder" where
  "encode chunk group_id object_id force_full s =
     bindE (boxes chunk) (\<lambda>all.
     if all = [] then Inl (Bad ''LOCMAF: empty chunk'')
     else
       bindE (excluded True 33 all) (\<lambda>_.
       case parse_chunk all (le_context s) of
         Inl Outside \<Rightarrow> Inr (4 # chunk, reset s)
       | Inl e \<Rightarrow> Inl e
       | Inr p \<Rightarrow>
           let full = needs_full force_full s group_id object_id p;
               properties = concat (map (object_property s p full) (object_fields s p full)) in
           Inr (encode_prefix (pr_prefix p) @ vi (if full then 2 else 3) @ vi (of_nat (length properties)) @ properties @ pr_payload p,
             s\<lparr>le_previous := pr_fields p, le_ivs := pr_ivs p, le_group := group_id, le_object := object_id,
               le_bmdt := pr_bmdt p, le_duration := pr_duration p, le_anchored := True\<rparr>)))"


subsection \<open>The fields describe the sample table without loss\<close>

text \<open>The sample table that fields describe, for a payload of a given size.\<close>

definition default_of :: "fields \<Rightarrow> nat \<Rightarrow> u64 \<Rightarrow> int" where
  "default_of flds field_id otherwise = (case map_of flds field_id of Some (v # _) \<Rightarrow> v | _ \<Rightarrow> uint otherwise)"

definition sample_count :: "fields \<Rightarrow> nat" where
  "sample_count flds = (case map_of flds 14 of Some (n # _) \<Rightarrow> nat n | _ \<Rightarrow> 0)"

definition sample_durations :: "Context \<Rightarrow> fields \<Rightarrow> int list" where
  "sample_durations c flds = (case map_of flds 3 of Some ds \<Rightarrow> ds
     | None \<Rightarrow> replicate (sample_count flds) (default_of flds 4 (cx_duration c)))"

definition sample_sizes :: "Context \<Rightarrow> nat \<Rightarrow> fields \<Rightarrow> int list" where
  "sample_sizes c payload_size flds =
     (case map_of flds 1 of
        Some ss \<Rightarrow> ss @ [int payload_size - sum_list ss]
      | None \<Rightarrow> if sample_count flds = 1 then [int payload_size]
          else replicate (sample_count flds) (default_of flds 6 (cx_size c)))"

definition sample_flag_list :: "Context \<Rightarrow> fields \<Rightarrow> int list" where
  "sample_flag_list c flds =
     (case map_of flds 7 of
        Some fs \<Rightarrow> fs
      | None \<Rightarrow>
          let rest = default_of flds 8 (cx_flags c) in
          case map_of flds 12 of
            Some (first # _) \<Rightarrow> first # replicate (sample_count flds - 1) rest
          | _ \<Rightarrow> replicate (sample_count flds) rest)"

definition sample_offsets :: "fields \<Rightarrow> int list" where
  "sample_offsets flds = (case map_of flds 5 of Some cts \<Rightarrow> cts | None \<Rightarrow> replicate (sample_count flds) 0)"

definition sample_table :: "Context \<Rightarrow> nat \<Rightarrow> fields \<Rightarrow> (int \<times> int \<times> int \<times> int) list" where
  "sample_table c payload_size flds =
     zip (sample_durations c flds) (zip (sample_sizes c payload_size flds) (zip (sample_flag_list c flds) (sample_offsets flds)))"

lemma all_equal_replicate: "all_equal v 0 \<Longrightarrow> v = replicate (length v) (v ! 0)"
  by (cases v) (auto simp: all_equal_def list_all_iff intro: replicate_eqI)

lemma all_equal_tail:
  assumes "all_equal v 1" and "v \<noteq> []"
  shows "v = v ! 0 # replicate (length v - 1) (v ! 1)"
proof -
  obtain x xs where v: "v = x # xs" using assms(2) by (cases v) auto
  have "xs = replicate (length xs) (v ! 1)"
    using assms(1) by (intro replicate_eqI) (auto simp: all_equal_def list_all_iff v)
  then show ?thesis by (simp add: v)
qed


lemma sample_fields_lookup:
  fixes rows :: "sample list"
  defines "durations \<equiv> map (\<lambda>(d, s, f, ct). uint d) rows" and "sizes \<equiv> map (\<lambda>(d, s, f, ct). uint s) rows"
    and "flag_list \<equiv> map (\<lambda>(d, s, f, ct). uint f) rows" and "offsets \<equiv> map (\<lambda>(d, s, f, ct). ct) rows"
  assumes "omap_ok flds" and "\<And>k. k \<noteq> 2 \<Longrightarrow> map_of flds k = None" and "rows \<noteq> []"
  shows "map_of (sample_fields c rows flds) 14 = Some [int (length rows)]"
    and "map_of (sample_fields c rows flds) 3 = (if all_equal durations 0 then None else Some durations)"
    and "map_of (sample_fields c rows flds) 4 =
      (if all_equal durations 0 \<and> durations ! 0 \<noteq> uint (cx_duration c) then Some [durations ! 0] else None)"
    and "map_of (sample_fields c rows flds) 1 = (if length rows \<le> 1 \<or> all_equal sizes 0 then None else Some (butlast sizes))"
    and "map_of (sample_fields c rows flds) 6 =
      (if length rows > 1 \<and> all_equal sizes 0 \<and> sizes ! 0 \<noteq> uint (cx_size c) then Some [sizes ! 0] else None)"
    and "map_of (sample_fields c rows flds) 7 = (if all_equal flag_list 0 \<or> all_equal flag_list 1 then None else Some flag_list)"
    and "map_of (sample_fields c rows flds) 12 =
      (if \<not> all_equal flag_list 0 \<and> all_equal flag_list 1 then Some [flag_list ! 0] else None)"
    and "map_of (sample_fields c rows flds) 8 =
      (if all_equal flag_list 0 then (if flag_list ! 0 \<noteq> uint (cx_flags c) then Some [flag_list ! 0] else None)
       else if all_equal flag_list 1 then (if flag_list ! 1 \<noteq> uint (cx_flags c) then Some [flag_list ! 1] else None)
       else None)"
    and "map_of (sample_fields c rows flds) 5 = (if list_ex (\<lambda>x. x \<noteq> 0) offsets then Some offsets else None)"
  using assms(5,6,7) unfolding sample_fields_def durations_def [symmetric] sizes_def [symmetric] flag_list_def [symmetric]
    offsets_def [symmetric] Let_def
  by simp_all

lemma sum_list_snoc_int: "sum_list (xs @ [x]) = sum_list xs + (x :: int)"
  by simp

lemma sample_fields_lossless_lemma:
  assumes "omap_ok flds" and "\<And>k. k \<noteq> 2 \<Longrightarrow> map_of flds k = None"
    and "sum_list (map (\<lambda>(d, s, f, ct). uint s) rows) = int payload_size"
  shows "sample_table c payload_size (sample_fields c rows flds) =
    map (\<lambda>(d, s, f, ct). (uint d, uint s, uint f, ct)) rows"
proof (cases "rows = []")
  case True
  then show ?thesis
    using assms(1,2) by (simp add: sample_table_def sample_durations_def sample_count_def sample_fields_def)
next
  case False
  let ?ds = "map (\<lambda>(d, s, f, ct). uint d) rows" and ?ss = "map (\<lambda>(d, s, f, ct). uint s) rows"
    and ?fs = "map (\<lambda>(d, s, f, ct). uint f) rows" and ?cs = "map (\<lambda>(d, s, f, ct). ct) rows"
  note look = sample_fields_lookup [OF assms(1,2) False, of c]
  have n: "sample_count (sample_fields c rows flds) = length rows" by (simp add: sample_count_def look(1))
  have 1: "sample_durations c (sample_fields c rows flds) = ?ds"
    using all_equal_replicate [of ?ds] by (auto simp: sample_durations_def default_of_def look n)
  have 2: "sample_sizes c payload_size (sample_fields c rows flds) = ?ss"
  proof (cases "length rows = 1")
    case True
    then obtain r where "rows = [r]" by (auto simp: length_Suc_conv)
    then show ?thesis using assms(3) n look(4) by (cases r) (simp add: sample_sizes_def)
  next
    case neq: False
    then have l: "\<not> length rows \<le> 1" using False by (cases rows) auto
    have "butlast ?ss @ [int payload_size - sum_list (butlast ?ss)] = ?ss"
    proof -
      have s: "butlast ?ss @ [last ?ss] = ?ss" using False by (intro append_butlast_last_id) simp
      then have "sum_list ?ss = sum_list (butlast ?ss) + last ?ss" by (metis sum_list_snoc_int)
      then have "sum_list (butlast ?ss) + last ?ss = int payload_size" using assms(3) by simp
      then have "int payload_size - sum_list (butlast ?ss) = last ?ss" by simp
      with s show ?thesis by simp
    qed
    then show ?thesis
      using all_equal_replicate [of ?ss] l neq look(4) by (auto simp: sample_sizes_def default_of_def look(5) n)
  qed
  have 3: "sample_flag_list c (sample_fields c rows flds) = ?fs"
    using all_equal_replicate [of ?fs] all_equal_tail [of ?fs] False
    by (auto simp: sample_flag_list_def default_of_def look n Let_def)
  have 4: "sample_offsets (sample_fields c rows flds) = ?cs"
  proof (cases "list_ex (\<lambda>x. x \<noteq> 0) ?cs")
    case True
    then show ?thesis by (simp add: sample_offsets_def look)
  next
    case none: False
    then have "?cs = replicate (length ?cs) 0" by (intro replicate_eqI) (auto simp: list_ex_iff)
    then show ?thesis using none by (simp add: sample_offsets_def look n)
  qed
  show ?thesis unfolding sample_table_def 1 2 3 4 by (induction rows) auto
qed

text \<open>Reducing a chunk's sample table to the fields that differ from the track's defaults loses nothing: from
  the defaults, the fields and the size of the payload one computes back the duration, size, flags and
  composition offset of every sample, although common values are sent once or not at all and the last size never.\<close>

theorem sample_fields_lossless:
  assumes "sum_list (map (\<lambda>(d, s, f, ct). uint s) rows) = int payload_size"
  shows "sample_table c payload_size
      (sample_fields c rows (if description \<noteq> cx_description c then [(2, [uint description])] else [])) =
    map (\<lambda>(d, s, f, ct). (uint d, uint s, uint f, ct)) rows"
  by (rule sample_fields_lossless_lemma [OF _ _ assms]) (auto simp: omap_ok_def)

definition example_context :: Context where
  "example_context = \<lparr>cx_track = 1, cx_description = 1, cx_duration = 512, cx_size = 0, cx_flags = 0x10000,
     cx_protected_track = False, cx_iv = 0\<rparr>"

lemma sample_fields_lossless_witness:
  "sample_fields example_context [(512, 30, 0x2000000, 0), (512, 7, 0x10000, 512), (512, 8, 0x10000, - 256)] [] =
     [(1, [30, 7]), (5, [0, 512, - 256]), (12, [0x2000000]), (14, [3])] \<and>
   sample_table example_context 45 [(1, [30, 7]), (5, [0, 512, - 256]), (12, [0x2000000]), (14, [3])] =
     [(512, 30, 0x2000000, 0), (512, 7, 0x10000, 512), (512, 8, 0x10000, - 256)]"
proof -
  have e: "sample_fields example_context [(512, 30, 0x2000000, 0), (512, 7, 0x10000, 512), (512, 8, 0x10000, - 256)] [] =
     [(1, [30, 7]), (5, [0, 512, - 256]), (12, [0x2000000]), (14, [3])]" by code_simp
  show ?thesis
    using sample_fields_lossless [of "[(512, 30, 0x2000000, 0), (512, 7, 0x10000, 512), (512, 8, 0x10000, - 256)]" 45
      example_context 1] e by (simp add: example_context_def)
qed

end
