(* ===== verification/Locmaf_Stream.thy ===== *)
theory Locmaf_Stream
  imports Locmaf_Encoder
begin

text \<open>
  What a receiver makes of a stream of LOCMAF objects: each object is read back from its bytes, the fields of a
  delta object from those of the object before it. The receiver is a specification (the repository has no LOCMAF
  decoder); the theorems say that what the encoder of \<open>Locmaf_Encoder\<close> writes determines every chunk's
  fields, encryption data, base time and payload.
\<close>

subsection \<open>The receiver\<close>

definition next_int :: "bytes \<Rightarrow> (u64 \<times> bytes) option" where
  "next_int bs = map_option (\<lambda>(v, n). (v, drop n bs)) (read_locmaf_varint bs 0)"

definition next_block :: "bytes \<Rightarrow> (bytes \<times> bytes) option" where
  "next_block bs =
     (case next_int bs of
        None \<Rightarrow> None
      | Some (n, rest) \<Rightarrow> if unat n \<le> length rest then Some (take (unat n) rest, drop (unat n) rest) else None)"

lemma next_int_shorter: "next_int bs = Some (v, rest) \<Longrightarrow> length rest < length bs"
  by (auto simp: next_int_def dest!: read_locmaf_varint_progress)

lemma next_block_shorter: "next_block bs = Some (d, rest) \<Longrightarrow> length rest < length bs"
  by (auto simp: next_block_def dest!: next_int_shorter split: option.splits if_splits)

function read_values :: "bytes \<Rightarrow> u64 list option" where
  "read_values bs =
     (if bs = [] then Some []
      else case next_int bs of None \<Rightarrow> None | Some (v, rest) \<Rightarrow> map_option (\<lambda>vs. v # vs) (read_values rest))"
  by pat_completeness auto
termination by (relation "measure length") (auto dest: next_int_shorter)

function read_properties :: "bytes \<Rightarrow> locmaf_property list option" where
  "read_properties bs =
     (if bs = [] then Some []
      else
        case next_int bs of
          None \<Rightarrow> None
        | Some (i, rest) \<Rightarrow>
            if i AND 1 = 0 then
              (case next_int rest of
                 None \<Rightarrow> None
               | Some (v, rest) \<Rightarrow> map_option (\<lambda>ps. Scalar i v # ps) (read_properties rest))
            else
              (case next_block rest of
                 None \<Rightarrow> None
               | Some (d, rest) \<Rightarrow> map_option (\<lambda>ps. Block i d # ps) (read_properties rest)))"
  by pat_completeness auto
termination by (relation "measure length") (auto dest!: next_int_shorter next_block_shorter)

function read_object :: "bytes \<Rightarrow> (bytes list \<times> u64 \<times> bytes) option" where
  "read_object bs =
     (case next_int bs of
        None \<Rightarrow> None
      | Some (kind, rest) \<Rightarrow>
          if kind = 1 then
            (case next_block rest of
               None \<Rightarrow> None
             | Some (d, rest) \<Rightarrow> map_option (\<lambda>(ds, kind, rest). (d # ds, kind, rest)) (read_object rest))
          else Some ([], kind, rest))"
  by pat_completeness auto
termination by (relation "measure length") (auto dest!: next_int_shorter next_block_shorter)

declare read_values.simps [simp del] read_properties.simps [simp del] read_object.simps [simp del]

definition unzz :: "u64 \<Rightarrow> int" where
  "unzz x = (if even (uint x) then uint x div 2 else - (uint x div 2) - 1)"

text \<open>The fields so far, the initialisation vectors and the base time, if the object has one.\<close>

record Received =
  rv_fields :: fields
  rv_ivs :: bytes
  rv_time :: "u64 option"

definition restore :: "fields option \<Rightarrow> nat \<Rightarrow> u64 list \<Rightarrow> field_values" where
  "restore previous field_id vs =
     (case previous of
        None \<Rightarrow> map (if field_id = 5 then unzz else uint) vs
      | Some flds \<Rightarrow> map (\<lambda>i. field_base (map_of flds field_id) i + unzz (vs ! i)) [0..<length vs])"

fun receive_property :: "fields option \<Rightarrow> Received \<Rightarrow> locmaf_property \<Rightarrow> Received option" where
  "receive_property previous r (Scalar i v) =
     (if i = 10 then Some (r\<lparr>rv_time := Some v\<rparr>)
      else Some (r\<lparr>rv_fields := omap_put (unat i) (restore previous (unat i) [v]) (rv_fields r)\<rparr>))"
| "receive_property previous r (Block i d) =
     (if i = 9 then Some (r\<lparr>rv_fields := omap_put 9 [] (rv_fields r), rv_ivs := d\<rparr>)
      else
        case read_values d of
          None \<Rightarrow> None
        | Some vs \<Rightarrow>
            if i = 27 then Some (r\<lparr>rv_fields := fold (\<lambda>v. omap_erase (unat v)) vs (rv_fields r)\<rparr>)
            else Some (r\<lparr>rv_fields := omap_put (unat i) (restore previous (unat i) vs) (rv_fields r)\<rparr>))"

fun receive_properties :: "fields option \<Rightarrow> Received \<Rightarrow> locmaf_property list \<Rightarrow> Received option" where
  "receive_properties previous r [] = Some r"
| "receive_properties previous r (p # ps) =
     (case receive_property previous r p of None \<Rightarrow> None | Some r \<Rightarrow> receive_properties previous r ps)"

text \<open>Initialisation vectors without their field are not there.\<close>

definition settle :: "Received \<Rightarrow> Received" where
  "settle r = (if map_of (rv_fields r) 9 = None then r\<lparr>rv_ivs := []\<rparr> else r)"

text \<open>A receiver knows the last chunk's fields and where its samples end; a chunk sent as it is forgets them.\<close>

datatype delivery = Fragment "bytes list" fields bytes u64 bytes | Whole bytes

type_synonym receiver = "(fields \<times> bytes \<times> u64) option"

definition samples_end :: "Context \<Rightarrow> fields \<Rightarrow> u64 \<Rightarrow> u64" where
  "samples_end c flds time = time + of_int (sum_list (sample_durations c flds))"

definition receive_object :: "Context \<Rightarrow> receiver \<Rightarrow> bytes \<Rightarrow> (delivery \<times> receiver) option" where
  "receive_object c st bs =
     (case read_object bs of
        None \<Rightarrow> None
      | Some (ahead, kind, rest) \<Rightarrow>
          if kind = 4 then Some (Whole rest, None)
          else
            case next_block rest of
              None \<Rightarrow> None
            | Some (block, payload) \<Rightarrow>
                case read_properties block of
                  None \<Rightarrow> None
                | Some ps \<Rightarrow>
                    if kind = 2 then
                      (case receive_properties None \<lparr>rv_fields = [], rv_ivs = [], rv_time = None\<rparr> ps of
                         None \<Rightarrow> None
                       | Some r \<Rightarrow>
                           case rv_time r of
                             None \<Rightarrow> None
                           | Some time \<Rightarrow>
                               Some (Fragment ahead (rv_fields r) (rv_ivs (settle r)) time payload,
                                 Some (rv_fields r, rv_ivs (settle r), samples_end c (rv_fields r) time)))
                    else if kind = 3 then
                      (case st of
                         None \<Rightarrow> None
                       | Some (flds, ivs, time) \<Rightarrow>
                           case receive_properties (Some flds) \<lparr>rv_fields = flds, rv_ivs = ivs, rv_time = None\<rparr> ps of
                             None \<Rightarrow> None
                           | Some r \<Rightarrow>
                               Some (Fragment ahead (rv_fields r) (rv_ivs (settle r)) time payload,
                                 Some (rv_fields r, rv_ivs (settle r), samples_end c (rv_fields r) time)))
                    else None)"

subsection \<open>Reading what was written\<close>

lemma vi_locmaf_varint: "vi = locmaf_varint"
  by (rule ext) (simp add: vi_def locmaf_varint_def)

lemma next_int_vi [simp]: "next_int (vi v @ rest) = Some (v, rest)"
  using read_locmaf_varint_at [of "vi v @ rest" "[]" v rest 0] by (simp add: next_int_def vi_locmaf_varint)

lemma next_int_vi0 [simp]: "next_int (vi v) = Some (v, [])"
  using next_int_vi [of v "[]"] by simp

lemma vi_not_Nil [simp]: "vi v \<noteq> []"
  using next_int_vi0 [of v] by (auto simp: next_int_def read_locmaf_varint_def)

lemma next_block_vi [simp]:
  "length d < 2 ^ 64 \<Longrightarrow> next_block (vi (of_nat (length d)) @ d @ rest) = Some (d, rest)"
  by (simp add: next_block_def unat_of_nat_u64)

lemma read_values_vi: "read_values (concat (map vi vs)) = Some vs"
  by (induction vs) (subst read_values.simps; simp)+

fun wire_ok :: "locmaf_property \<Rightarrow> bool" where
  "wire_ok (Scalar i v) \<longleftrightarrow> i AND 1 = 0"
| "wire_ok (Block i d) \<longleftrightarrow> i AND 1 \<noteq> 0"

lemma read_properties_wires:
  "list_all wire_ok ps \<Longrightarrow> length (wires ps) < 2 ^ 64 \<Longrightarrow> read_properties (wires ps) = Some ps"
proof (induction ps)
  case Nil
  then show ?case by (subst read_properties.simps) (simp add: wires_def)
next
  case (Cons p ps)
  then have ih: "read_properties (wires ps) = Some ps" by (simp add: wires_def)
  have w: "wires (p # ps) = property_wire p @ wires ps" by (simp add: wires_def)
  show ?case
  proof (cases p)
    case (Scalar i v)
    then show ?thesis using Cons.prems ih
      unfolding w by (subst read_properties.simps) (simp add: vi_locmaf_varint [symmetric])
  next
    case (Block i d)
    then have "length d < 2 ^ 64" using Cons.prems(2) unfolding w by simp
    with Block show ?thesis using Cons.prems ih
      unfolding w by (subst read_properties.simps) (simp add: vi_locmaf_varint [symmetric])
  qed
qed

lemma read_object_ahead:
  "list_all (\<lambda>d. length d < 2 ^ 64) ds \<Longrightarrow> kind \<noteq> 1 \<Longrightarrow>
     read_object (concat (map (\<lambda>d. vi 1 @ vi (of_nat (length d)) @ d) ds) @ vi kind @ rest) = Some (ds, kind, rest)"
  by (induction ds) (subst read_object.simps; simp)+

lemma unzz_zz: "- (2 ^ 62) \<le> v \<Longrightarrow> v < 2 ^ 62 \<Longrightarrow> unzz (zz v) = v"
proof -
  assume v: "- (2 ^ 62) \<le> v" "v < 2 ^ 62"
  show ?thesis
  proof (cases "v \<ge> 0")
    case True
    then have "uint (of_int v * 2 :: u64) = v * 2" using v(2) by (simp add: uint_word_ariths uint_word_of_int)
    with True show ?thesis by (simp add: zz_def unzz_def)
  next
    case False
    define w where "w = - (v + 1)"
    then have w: "v = - w - 1" "0 \<le> w" "w < 2 ^ 62" using False v(1) by auto
    then have "uint (of_int w * 2 + 1 :: u64) = w * 2 + 1" by (simp add: uint_word_ariths uint_word_of_int)
    with w show ?thesis by (simp add: zz_def unzz_def)
  qed
qed


subsection \<open>The fields of a parsed chunk\<close>

definition values_ok :: "nat \<Rightarrow> field_values \<Rightarrow> bool" where
  "values_ok field_id vs \<longleftrightarrow>
     field_id \<noteq> 0 \<and> field_id \<le> 15 \<and> field_id \<noteq> 10 \<and> (even field_id \<longrightarrow> length vs = 1) \<and> (field_id = 9 \<longrightarrow> vs = []) \<and>
     list_all (\<lambda>v. - (2 ^ 32) \<le> v \<and> v < 2 ^ 32 \<and> (field_id = 5 \<or> 0 \<le> v)) vs"

definition fields_ok :: "fields \<Rightarrow> bool" where
  "fields_ok flds \<longleftrightarrow> omap_ok flds \<and> (\<forall>(field_id, vs) \<in> set flds. values_ok field_id vs)"

definition context_ok :: "Context \<Rightarrow> bool" where
  "context_ok c \<longleftrightarrow> uint (cx_description c) < 2 ^ 32 \<and> uint (cx_duration c) < 2 ^ 32 \<and> uint (cx_size c) < 2 ^ 32 \<and>
     uint (cx_flags c) < 2 ^ 32"

lemma fields_ok_put: "fields_ok flds \<Longrightarrow> values_ok k vs \<Longrightarrow> fields_ok (omap_put k vs flds)"
  using set_omap_put [of k vs flds] by (auto simp: fields_ok_def)

lemma get_bound:
  assumes "get n r = Inr (v, r')"
  shows "unat v < 2 ^ (8 * n)"
proof -
  have "n \<le> length r" "v = be_accum 0 (take n r)" using assms by (auto simp: get_def be_accum_def split: if_splits)
  then show ?thesis using be_accum_less [of 0 0 "take n r"] by simp
qed

lemma get_uint: "get n r = Inr (v, r') \<Longrightarrow> n \<le> 4 \<Longrightarrow> uint v < 2 ^ 32"
proof -
  assume "get n r = Inr (v, r')" "n \<le> 4"
  moreover from this(2) have "(2 :: nat) ^ (8 * n) \<le> 2 ^ 32" by (intro power_increasing) simp_all
  ultimately have "unat v < 2 ^ 32" by (meson get_bound order.strict_trans2)
  then show ?thesis unfolding uint_nat by (metis of_nat_less_iff of_nat_numeral of_nat_power)
qed

lemma read_optional_uint:
  "read_optional present otherwise r = Inr (v, r') \<Longrightarrow> uint otherwise < 2 ^ 32 \<Longrightarrow> uint v < 2 ^ 32"
  by (auto simp: read_optional_def dest: get_uint split: if_splits)

lemma uint_above: "- 4294967296 \<le> uint (v :: u64)" "- 4294967296 \<le> uint v - 4294967296"
  by (rule order.trans [OF _ uint_ge_0]) simp_all

lemma fields_ok_if: "(b \<Longrightarrow> fields_ok x) \<Longrightarrow> (\<not> b \<Longrightarrow> fields_ok y) \<Longrightarrow> fields_ok (if b then x else y)"
  by simp

definition row_ok :: "sample \<Rightarrow> bool" where
  "row_ok = (\<lambda>(d, s, f, ct). uint d < 2 ^ 32 \<and> uint s < 2 ^ 32 \<and> uint f < 2 ^ 32 \<and> - (2 ^ 32) \<le> ct \<and> ct < 2 ^ 32)"

lemma read_samples_ok:
  "read_samples version tr_flags duration sz flags n first r = Inr (rows, r') \<Longrightarrow>
     uint duration < 2 ^ 32 \<Longrightarrow> uint sz < 2 ^ 32 \<Longrightarrow> uint flags < 2 ^ 32 \<Longrightarrow> uint first < 2 ^ 32 \<Longrightarrow>
     list_all row_ok rows \<and> length rows = n"
proof (induction n arbitrary: first r rows r')
  case (Suc n)
  from Suc.prems(1) obtain d r1 s r2 f r3 ct r4 rows' where
    1: "read_optional (tr_flags AND 0x100 \<noteq> 0) duration r = Inr (d, r1)"
      "read_optional (tr_flags AND 0x200 \<noteq> 0) sz r1 = Inr (s, r2)"
      "read_optional (tr_flags AND 0x400 \<noteq> 0) first r2 = Inr (f, r3)"
      "read_optional (tr_flags AND 0x800 \<noteq> 0) 0 r3 = Inr (ct, r4)"
    and 2: "read_samples version tr_flags duration sz flags n flags r4 = Inr (rows', r')"
    and 3: "rows = (d, s, f, if version \<noteq> 0 \<and> ct \<ge> 0x80000000 then uint ct - 0x100000000 else uint ct) # rows'"
    by auto
  from 1 Suc.prems(2-) have "uint d < 2 ^ 32" "uint s < 2 ^ 32" "uint f < 2 ^ 32" "uint ct < 2 ^ 32"
    by (auto dest!: read_optional_uint)
  then have "row_ok (hd rows)" unfolding 3 row_ok_def by (simp add: uint_above)
  with Suc.IH [OF 2 Suc.prems(2-4,4)] show ?case by (simp add: 3)
qed simp

lemma sample_fields_ok:
  assumes "fields_ok flds" and "list_all row_ok rows" and "length rows \<le> 1000000"
  shows "fields_ok (sample_fields c rows flds)"
proof -
  define ds where "ds = map (\<lambda>(d, s, f, ct). uint d) rows"
  define ss where "ss = map (\<lambda>(d, s, f, ct). uint s) rows"
  define fs where "fs = map (\<lambda>(d, s, f, ct). uint f) rows"
  define cs where "cs = map (\<lambda>(d, s, f, ct). ct) rows"
  let ?in = "\<lambda>v. - (2 ^ 32) \<le> v \<and> v < 2 ^ 32 \<and> 0 \<le> v"
  have b: "list_all ?in ds" "list_all ?in ss" "list_all ?in fs" "list_all (\<lambda>v. - (2 ^ 32) \<le> v \<and> v < 2 ^ 32) cs"
    using assms(2) unfolding ds_def ss_def fs_def cs_def by (auto simp: list_all_iff row_ok_def uint_above)
  have len: "length ds = length rows" "length ss = length rows" "length fs = length rows"
    by (simp_all add: ds_def ss_def fs_def)
  have nth: "list_all P xs \<Longrightarrow> i < length xs \<Longrightarrow> list_all P [xs ! i]" for P i and xs :: "int list"
    by (simp add: list_all_length)
  have n: "values_ok 14 [int (length rows)]" using assms(3) by (simp add: values_ok_def)
  have many: "values_ok 3 ds" "values_ok 7 fs" "values_ok 5 cs" using b by (simp_all add: values_ok_def)
  have sizes: "values_ok (Suc 0) (butlast ss)"
    using b(2) unfolding values_ok_def list_all_iff by (auto dest: in_set_butlastD)
  have single: "values_ok 4 [ds ! i]" "values_ok 6 [ss ! i]" "values_ok 8 [fs ! i]" "values_ok 12 [fs ! i]"
    if "i < length rows" for i
    using nth [OF b(1), of i] nth [OF b(2), of i] nth [OF b(3), of i] that by (simp_all add: values_ok_def len)
  have second: "Suc 0 < length rows" if "\<not> all_equal fs 0" "all_equal fs (Suc 0)"
    unfolding len(3) [symmetric] using that by (cases fs; cases "tl fs") (auto simp: all_equal_def)
  show ?thesis
    unfolding sample_fields_def Let_def ds_def [symmetric] ss_def [symmetric] fs_def [symmetric] cs_def [symmetric]
    using assms(1) n many sizes single [of 0] single [of "Suc 0"] second
    by (intro fields_ok_if fields_ok_put) simp_all
qed


definition bounded :: "int list \<Rightarrow> bool" where
  "bounded vs \<longleftrightarrow> list_all (\<lambda>v. 0 \<le> v \<and> v < 2 ^ 32) vs"

lemma values_ok_bounded: "bounded vs \<Longrightarrow> odd k \<Longrightarrow> k < 16 \<Longrightarrow> k \<noteq> 9 \<Longrightarrow> values_ok k vs"
  by (cases "k = 0") (auto simp: bounded_def values_ok_def list_all_iff intro: order.trans)

lemma read_subsamples_ok:
  "read_subsamples n r = Inr ((clear, encrypted, covered), r') \<Longrightarrow> bounded clear \<and> bounded encrypted"
proof (induction n arbitrary: r clear encrypted covered)
  case (Suc n)
  from Suc.prems obtain a r1 b r2 clear' encrypted' covered' where
    1: "get 2 r = Inr (a, r1)" "get 4 r1 = Inr (b, r2)"
    and 2: "read_subsamples n r2 = Inr ((clear', encrypted', covered'), r')"
    and 3: "clear = uint a # clear'" "encrypted = uint b # encrypted'"
    by auto
  show ?case using Suc.IH [OF 2] get_uint [OF 1(1)] get_uint [OF 1(2)] by (simp add: 3 bounded_def)
qed (simp add: bounded_def)

lemma bounded_Cons: "bounded (v # vs) \<longleftrightarrow> 0 \<le> v \<and> v < 2 ^ 32 \<and> bounded vs"
  by (simp add: bounded_def)

lemma bounded_append: "bounded (xs @ ys) \<longleftrightarrow> bounded xs \<and> bounded ys"
  by (simp add: bounded_def)

lemma read_senc_ok:
  "read_senc c vf sizes r = Inr ((ivs, counts, clear, encrypted), r') \<Longrightarrow>
     bounded counts \<and> bounded clear \<and> bounded encrypted \<and> (cx_iv c = 0 \<longrightarrow> ivs = [])"
proof (induction sizes arbitrary: r ivs counts clear encrypted)
  case (Cons sz sizes)
  from Cons.prems obtain iv r1 where iv: "take_bytes (cx_iv c) r = Inr (iv, r1)" by (auto split: if_splits)
  then have e: "cx_iv c = 0 \<longrightarrow> iv = []" by (auto simp: take_bytes_def)
  show ?case
  proof (cases "vf AND 2 = 0")
    case True
    with Cons.prems iv obtain ivs' where
      "read_senc c vf sizes r1 = Inr ((ivs', counts, clear, encrypted), r')" "ivs = iv @ ivs'"
      by auto
    then show ?thesis using Cons.IH e by auto
  next
    case False
    with Cons.prems iv obtain n r2 clear1 encrypted1 covered r3 ivs' counts' clear' encrypted' where
      1: "get 2 r1 = Inr (n, r2)" "read_subsamples (unat n) r2 = Inr ((clear1, encrypted1, covered), r3)"
      and 2: "read_senc c vf sizes r3 = Inr ((ivs', counts', clear', encrypted'), r')"
      and 3: "ivs = iv @ ivs'" "counts = uint n # counts'" "clear = clear1 @ clear'" "encrypted = encrypted1 @ encrypted'"
      by (auto split: if_splits)
    show ?thesis using Cons.IH [OF 2] get_uint [OF 1(1)] read_subsamples_ok [OF 1(2)] e
      by (simp add: 3 bounded_append bounded_Cons)
  qed
qed (simp add: bounded_def)

definition parsed_ok :: "Context \<Rightarrow> Parsed \<Rightarrow> bool" where
  "parsed_ok c p \<longleftrightarrow> fields_ok (pr_fields p) \<and> (map_of (pr_fields p) 9 = None \<longrightarrow> pr_ivs p = []) \<and>
     pr_duration p = of_int (sum_list (sample_durations c (pr_fields p)))"

lemma sample_durations_put:
  assumes "omap_ok flds" and "k \<notin> {3, 4, 14}"
  shows "sample_durations c (omap_put k vs flds) = sample_durations c flds"
proof -
  have "sample_count (omap_put k vs flds) = sample_count flds"
    "default_of (omap_put k vs flds) 4 d = default_of flds 4 d" for d
    using assms by (simp_all add: sample_count_def default_of_def)
  then show ?thesis using assms by (simp add: sample_durations_def cong: option.case_cong)
qed

lemma encryption_ok:
  assumes "encryption senc c sizes out = Inr p" and "parsed_ok c out" and "map_of (pr_fields out) 9 = None"
  shows "parsed_ok c p"
proof -
  from assms(1) obtain vf r n r1 ivs counts clear encrypted r2 where
    r: "read_senc c vf sizes r1 = Inr ((ivs, counts, clear, encrypted), r2)"
    and p: "p = out\<lparr>pr_fields := (let flds = if cx_iv c \<noteq> 0 then omap_put 9 [] (pr_fields out) else pr_fields out
        in if vf AND 2 \<noteq> 0 then omap_put 15 encrypted (omap_put 13 clear (omap_put 11 counts flds)) else flds), pr_ivs := ivs\<rparr>"
    unfolding encryption_def Let_def by (auto split: if_splits)
  have ok: "bounded counts" "bounded clear" "bounded encrypted" "cx_iv c = 0 \<longrightarrow> ivs = []"
    using read_senc_ok [OF r] by auto
  have nine: "values_ok 9 []" by (simp add: values_ok_def)
  have f: "fields_ok (pr_fields out)" "omap_ok (pr_fields out)" using assms(2) by (simp_all add: parsed_ok_def fields_ok_def)
  have "fields_ok (pr_fields p)"
    unfolding p Let_def using ok f nine by (simp add: fields_ok_put values_ok_bounded)
  moreover have "map_of (pr_fields p) 9 = None \<longrightarrow> pr_ivs p = []"
    using ok(4) f(2) assms(3) by (simp add: p Let_def)
  moreover have "sample_durations c (pr_fields p) = sample_durations c (pr_fields out)"
    using f(2) by (simp add: p Let_def sample_durations_put)
  ultimately show ?thesis using assms(2) by (simp add: parsed_ok_def p)
qed


lemma sample_fields_durations:
  assumes "omap_ok flds" and "\<And>k. k \<noteq> 2 \<Longrightarrow> map_of flds k = None"
  shows "sample_durations c (sample_fields c rows flds) = map (\<lambda>(d, s, f, ct). uint d) rows"
proof (cases "rows = []")
  case True
  then show ?thesis using assms by (simp add: sample_durations_def sample_count_def sample_fields_def)
next
  case False
  note look = sample_fields_lookup [OF assms False, of c]
  show ?thesis using all_equal_replicate [of "map (\<lambda>(d, s, f, ct). uint d) rows"]
    by (auto simp: sample_durations_def sample_count_def default_of_def look)
qed

lemma sum_list_of_int: "sum_list (map (\<lambda>(d, s, f, ct). d) rows) =
    (of_int (sum_list (map (\<lambda>(d :: u64, s, f, ct). uint d) rows)) :: u64)"
  by (induction rows) auto

lemma read_tfhd_ok:
  assumes "read_tfhd c data = Inr (description, duration, sz, flags)" and "context_ok c"
  shows "uint description < 2 ^ 32 \<and> uint duration < 2 ^ 32 \<and> uint sz < 2 ^ 32 \<and> uint flags < 2 ^ 32"
proof -
  from assms(1) obtain b1 b2 b3 b4 r r1 r2 r3 r4 where
    "read_optional b1 (cx_description c) r = Inr (description, r1)"
    "read_optional b2 (cx_duration c) r1 = Inr (duration, r2)"
    "read_optional b3 (cx_size c) r2 = Inr (sz, r3)"
    "read_optional b4 (cx_flags c) r3 = Inr (flags, r4)"
    unfolding read_tfhd_def by (auto split: if_splits)
  then show ?thesis using assms(2) unfolding context_ok_def by (meson read_optional_uint)
qed

lemma read_trun_ok:
  assumes "read_trun moof_size duration sz flags data = Inr rows" and "uint duration < 2 ^ 32" and "uint sz < 2 ^ 32"
    and "uint flags < 2 ^ 32"
  shows "list_all row_ok rows \<and> length rows \<le> 1000000"
proof -
  from assms(1) obtain version tr_flags present first r r1 r2 and n :: u64 where
    n: "\<not> n > 1000000" and f: "read_optional present flags r = Inr (first, r1)"
    and s: "read_samples version tr_flags duration sz flags (unat n) first r1 = Inr (rows, r2)"
    unfolding read_trun_def Let_def by (auto split: if_splits)
  have "list_all row_ok rows \<and> length rows = unat n"
    using read_samples_ok [OF s assms(2-4)] read_optional_uint [OF f assms(4)] by simp
  moreover have "unat n \<le> 1000000" using n by (simp add: word_less_nat_alt)
  ultimately show ?thesis by simp
qed

definition no_iv :: "fields \<Rightarrow> bool" where
  "no_iv flds \<longleftrightarrow> omap_ok flds \<and> map_of flds 9 = None"

lemma no_iv_put: "no_iv flds \<Longrightarrow> k \<noteq> 9 \<Longrightarrow> no_iv (omap_put k vs flds)"
  by (simp add: no_iv_def)

lemma no_iv_if: "no_iv x \<Longrightarrow> no_iv y \<Longrightarrow> no_iv (if b then x else y)"
  by simp

lemma sample_fields_no_iv: "no_iv flds \<Longrightarrow> no_iv (sample_fields c rows flds)"
  unfolding sample_fields_def Let_def by (intro no_iv_if no_iv_put) simp_all

lemma parse_table_ok:
  assumes "parse_table c prefix_boxes payload description bmdt rows tc = Inr p"
    and "uint description < 2 ^ 32" and "list_all row_ok rows" and "length rows \<le> 1000000"
  shows "parsed_ok c p"
proof -
  let ?flds = "if description \<noteq> cx_description c then [(2, [uint description])] else []"
  define out where "out = \<lparr>pr_fields = sample_fields c rows ?flds,
    pr_ivs = [], pr_payload = payload, pr_prefix = prefix_boxes, pr_bmdt = bmdt,
    pr_duration = sum_list (map (\<lambda>(d, s, f, ct). d) rows)\<rparr>"
  have p: "p = out \<or> (\<exists>senc. encryption senc c (map (\<lambda>(d, s, f, ct). uint s) rows) out = Inr p)"
    using assms(1) unfolding parse_table_def Let_def out_def [symmetric] by (auto split: if_splits)
  have flds: "fields_ok ?flds" using assms(2) by (simp add: fields_ok_def omap_ok_def values_ok_def uint_above)
  have other: "\<And>k. k \<noteq> 2 \<Longrightarrow> map_of ?flds k = None" by simp
  have "fields_ok (sample_fields c rows ?flds)" by (rule sample_fields_ok [OF flds assms(3,4)])
  moreover have nine: "map_of (sample_fields c rows ?flds) 9 = None"
    using sample_fields_no_iv [of ?flds c rows] flds by (simp add: no_iv_def fields_ok_def)
  ultimately have "parsed_ok c out"
    using sample_fields_durations [OF _ other, of c rows] flds
    by (simp add: parsed_ok_def out_def fields_ok_def sum_list_of_int)
  moreover have "map_of (pr_fields out) 9 = None" using nine by (simp add: out_def)
  ultimately show ?thesis using p encryption_ok by blast
qed

lemma parse_moof_ok:
  assumes "parse_moof c prefix_boxes moof payload = Inr p" and "context_ok c"
  shows "parsed_ok c p"
proof -
  from assms(1) obtain tc description duration sz flags rows bmdt and tfhd trun :: Box where
    tfhd: "read_tfhd c (bx_data tfhd) = Inr (description, duration, sz, flags)"
    and trun: "read_trun (length (bx_all moof)) duration sz flags (bx_data trun) = Inr rows"
    and p: "parse_table c prefix_boxes payload description bmdt rows tc = Inr p"
    unfolding parse_moof_def by (auto split: if_splits)
  note bounds = read_tfhd_ok [OF tfhd assms(2)]
  show ?thesis
    using read_trun_ok [OF trun] bounds by (intro parse_table_ok [OF p]) auto
qed

lemma parse_chunk_ok: "parse_chunk all c = Inr p \<Longrightarrow> context_ok c \<Longrightarrow> parsed_ok c p"
  by (auto simp: parse_chunk_def Let_def split: list.splits if_splits dest: parse_moof_ok)

definition trex_ok :: "(u64 \<times> u64 \<times> u64 \<times> u64) option \<Rightarrow> bool" where
  "trex_ok matched = (case matched of None \<Rightarrow> True | Some (desc, dur, sz, flags) \<Rightarrow>
     uint desc < 2 ^ 32 \<and> uint dur < 2 ^ 32 \<and> uint sz < 2 ^ 32 \<and> uint flags < 2 ^ 32)"

lemma read_trexes_ok: "read_trexes track list matched = Inr matched' \<Longrightarrow> trex_ok matched \<Longrightarrow> trex_ok matched'"
proof (induction list arbitrary: matched)
  case (Cons b list)
  show ?case
  proof (cases "bx_type b = ''trex''")
    case True
    with Cons.prems(1) obtain r1 d1 r2 d2 r3 d3 r4 d4 r5 later where
      g: "get 4 r1 = Inr (d1, r2)" "get 4 r2 = Inr (d2, r3)" "get 4 r3 = Inr (d3, r4)" "get 4 r4 = Inr (d4, r5)"
      and cont: "read_trexes track list later = Inr matched'" and later: "later = matched \<or> later = Some (d1, d2, d3, d4)"
      by (auto split: if_splits)
    have "trex_ok (Some (d1, d2, d3, d4))" using g by (auto simp: trex_ok_def dest: get_uint)
    then have "trex_ok later" using Cons.prems(2) later by auto
    then show ?thesis by (rule Cons.IH [OF cont])
  next
    case False
    then show ?thesis using Cons by simp
  qed
qed simp

lemma make_context_ok: "make_context init = Inr c \<Longrightarrow> context_ok c"
  unfolding make_context_def
  apply (clarsimp split: if_splits option.splits)
  apply (drule read_trexes_ok)
   apply (simp add: trex_ok_def)
  apply (simp add: context_ok_def trex_ok_def)
  done


subsection \<open>One field\<close>

definition coded_values :: "nat \<Rightarrow> field_values \<Rightarrow> bool \<Rightarrow> field_values option \<Rightarrow> u64 list" where
  "coded_values field_id vs full before =
     map (\<lambda>i.
       let v = vs ! i; v = (if \<not> full \<and> field_id \<noteq> 27 then v - field_base before i else v) in
       if (\<not> full \<and> field_id \<noteq> 27) \<or> field_id = 5 then zz v else of_int v) [0..<length vs]"

lemma field_data_coded: "field_data field_id vs full before = concat (map vi (coded_values field_id vs full before))"
  by (simp add: field_data_def coded_values_def Let_def comp_def)

definition entry_properties :: "LocmafEncoder \<Rightarrow> Parsed \<Rightarrow> bool \<Rightarrow> nat \<times> field_values \<Rightarrow> locmaf_property list" where
  "entry_properties s p full entry =
     (case entry of (field_id, vs) \<Rightarrow>
      let before = map_of (le_previous s) field_id in
      if field_id = 10 then [Scalar 10 (pr_bmdt p)]
      else if field_id = 9 then (if \<not> full \<and> before \<noteq> None \<and> pr_ivs p = le_ivs s then [] else [Block 9 (pr_ivs p)])
      else if full \<or> before = None \<or> before \<noteq> Some vs then
        [if odd field_id then Block (of_nat field_id) (concat (map vi (coded_values field_id vs full before)))
         else Scalar (of_nat field_id) (hd (coded_values field_id vs full before))]
      else [])"

lemma object_property_wires:
  assumes "even field_id \<longrightarrow> field_id = 10 \<or> length vs = 1"
  shows "object_property s p full (field_id, vs) = wires (entry_properties s p full (field_id, vs))"
proof -
  have "field_data field_id vs full before = vi (hd (coded_values field_id vs full before))"
    if "even field_id" "field_id \<noteq> 10" for before
    using assms that by (cases vs) (simp_all add: field_data_coded coded_values_def Let_def)
  then show ?thesis
    by (auto simp: object_property_def entry_properties_def wires_def put_field_def vi_locmaf_varint [symmetric]
        field_data_coded Let_def)
qed

lemma field_base_bound:
  assumes "fields_ok flds"
  shows "- (2 ^ 32) \<le> field_base (map_of flds k) i \<and> field_base (map_of flds k) i < 2 ^ 32"
proof (cases "map_of flds k")
  case (Some b)
  then have "values_ok k b" using assms map_of_SomeD [OF Some] by (auto simp: fields_ok_def)
  then show ?thesis using Some by (auto simp: values_ok_def field_base_def list_all_length)
qed (simp add: field_base_def)

lemma restore_full:
  assumes "values_ok k vs"
  shows "restore None k (coded_values k vs True before) = vs"
proof (rule nth_equalityI)
  fix i assume "i < length (restore None k (coded_values k vs True before))"
  then have i: "i < length vs" by (simp add: restore_def coded_values_def)
  then have v: "- (2 ^ 32) \<le> vs ! i" "vs ! i < 2 ^ 32" "k = 5 \<or> 0 \<le> vs ! i"
    using assms by (simp_all add: values_ok_def list_all_length)
  then show "restore None k (coded_values k vs True before) ! i = vs ! i"
    using i unzz_zz [of "vs ! i"] by (auto simp: restore_def coded_values_def Let_def uint_word_of_int)
qed (simp add: restore_def coded_values_def)

lemma restore_delta:
  assumes "values_ok k vs" and "fields_ok prev"
  shows "restore (Some prev) k (coded_values k vs False (map_of prev k)) = vs"
proof (rule nth_equalityI)
  fix i assume "i < length (restore (Some prev) k (coded_values k vs False (map_of prev k)))"
  then have i: "i < length vs" by (simp add: restore_def coded_values_def)
  have k: "k \<noteq> 27" using assms(1) by (auto simp: values_ok_def)
  have "- (2 ^ 32) \<le> vs ! i" "vs ! i < 2 ^ 32"
    using assms(1) i by (simp_all add: values_ok_def list_all_length)
  then have "unzz (zz (vs ! i - field_base (map_of prev k) i)) = vs ! i - field_base (map_of prev k) i"
    using field_base_bound [OF assms(2), of k i] by (intro unzz_zz) auto
  then show "restore (Some prev) k (coded_values k vs False (map_of prev k)) ! i = vs ! i"
    using i k by (simp add: restore_def coded_values_def Let_def)
qed (simp add: restore_def coded_values_def)

definition basis :: "LocmafEncoder \<Rightarrow> bool \<Rightarrow> fields option" where
  "basis s full = (if full then None else Some (le_previous s))"

lemma restore_coded:
  assumes "values_ok k vs" and "\<not> full \<longrightarrow> fields_ok (le_previous s)"
  shows "restore (basis s full) k (coded_values k vs full (map_of (le_previous s) k)) = vs"
  using restore_full [OF assms(1)] restore_delta [OF assms(1)] assms(2) by (cases full) (simp_all add: basis_def)

lemma unat_of_id: "k \<le> 27 \<Longrightarrow> unat (of_nat k :: u64) = k"
  by (simp add: unat_of_nat_u64)

lemma of_id_eq: "k \<le> 27 \<Longrightarrow> m \<le> 27 \<Longrightarrow> (of_nat k :: u64) = of_nat m \<longleftrightarrow> k = m"
  by (metis unat_of_id)

lemma receive_entry:
  assumes "field_id = 10 \<or> values_ok field_id vs" and "\<not> full \<longrightarrow> fields_ok (le_previous s)"
    and "omap_ok (rv_fields r)"
    and "\<not> full \<Longrightarrow> map_of (le_previous s) field_id \<noteq> None \<Longrightarrow>
      map_of (rv_fields r) field_id = map_of (le_previous s) field_id \<and> (field_id = 9 \<longrightarrow> rv_ivs r = le_ivs s)"
  shows "\<exists>r'. receive_properties (basis s full) r (entry_properties s p full (field_id, vs)) = Some r' \<and>
     omap_ok (rv_fields r') \<and>
     map_of (rv_fields r') = (if field_id = 10 then map_of (rv_fields r) else (map_of (rv_fields r))(field_id \<mapsto> vs)) \<and>
     rv_ivs r' = (if field_id = 9 then pr_ivs p else rv_ivs r) \<and>
     rv_time r' = (if field_id = 10 then Some (pr_bmdt p) else rv_time r)"
proof -
  consider (time) "field_id = 10" | (iv) "field_id = 9" "vs = []" | (field) "values_ok field_id vs" "field_id \<noteq> 10" "field_id \<noteq> 9"
    using assms(1) by (auto simp: values_ok_def)
  then show ?thesis
  proof cases
    case time
    then show ?thesis using assms(3) by (simp add: entry_properties_def)
  next
    case iv
    show ?thesis
    proof (cases "\<not> full \<and> map_of (le_previous s) 9 \<noteq> None \<and> pr_ivs p = le_ivs s")
      case True
      then have f: "fields_ok (le_previous s)" using assms(2) by blast
      obtain b where b: "map_of (le_previous s) 9 = Some b" using True by blast
      then have "values_ok 9 b" using f map_of_SomeD [OF b] by (auto simp: fields_ok_def)
      then have "b = []" by (simp add: values_ok_def)
      then have "map_of (rv_fields r) 9 = Some []" "rv_ivs r = le_ivs s" using assms(4) True b iv by auto
      then show ?thesis using True iv assms(3) by (auto simp: entry_properties_def fun_upd_idem)
    next
      case False
      then show ?thesis using iv assms(3) by (auto simp: entry_properties_def)
    qed
  next
    case field
    let ?before = "map_of (le_previous s) field_id"
    have k: "field_id \<le> 27" "field_id \<noteq> 27" using field(1) by (auto simp: values_ok_def)
    have ids: "(of_nat field_id :: u64) \<noteq> 9" "(of_nat field_id :: u64) \<noteq> 10" "(of_nat field_id :: u64) \<noteq> 27"
      using of_id_eq [OF k(1), of 9] of_id_eq [OF k(1), of 10] of_id_eq [OF k(1), of 27] field k by simp_all
    show ?thesis
    proof (cases "full \<or> ?before = None \<or> ?before \<noteq> Some vs")
      case True
      have single: "[hd (coded_values field_id vs full ?before)] = coded_values field_id vs full ?before" if "even field_id"
        using that field(1) by (cases vs) (auto simp: values_ok_def coded_values_def)
      show ?thesis
        using True field ids assms(3) restore_coded [OF field(1) assms(2)] single
        by (cases "even field_id") (simp_all add: entry_properties_def read_values_vi unat_of_id [OF k(1)])
    next
      case False
      then have "map_of (rv_fields r) field_id = Some vs" using assms(4) by auto
      then show ?thesis using False field assms(3) by (auto simp: entry_properties_def fun_upd_idem)
    qed
  qed
qed


subsection \<open>One object\<close>

lemma receive_append:
  "receive_properties b r (ps @ qs) =
     (case receive_properties b r ps of None \<Rightarrow> None | Some r \<Rightarrow> receive_properties b r qs)"
  by (induction ps arbitrary: r) (simp_all split: option.split)

lemma receive_entries:
  assumes "distinct (map fst es)" and "\<forall>(k, vs) \<in> set es. k = 10 \<or> values_ok k vs"
    and "\<not> full \<longrightarrow> fields_ok (le_previous s)" and "omap_ok (rv_fields r)"
    and "\<And>k. \<not> full \<Longrightarrow> k \<in> fst ` set es \<Longrightarrow> map_of (le_previous s) k \<noteq> None \<Longrightarrow>
      map_of (rv_fields r) k = map_of (le_previous s) k \<and> (k = 9 \<longrightarrow> rv_ivs r = le_ivs s)"
  shows "\<exists>r'. receive_properties (basis s full) r (concat (map (entry_properties s p full) es)) = Some r' \<and>
     omap_ok (rv_fields r') \<and>
     (\<forall>k. map_of (rv_fields r') k = (if k = 10 \<or> map_of es k = None then map_of (rv_fields r) k else map_of es k)) \<and>
     rv_ivs r' = (if map_of es 9 \<noteq> None then pr_ivs p else rv_ivs r) \<and>
     rv_time r' = (if map_of es 10 \<noteq> None then Some (pr_bmdt p) else rv_time r)"
  using assms(1,2,4,5)
proof (induction es arbitrary: r)
  case (Cons e es)
  obtain k vs where e: "e = (k, vs)" by (cases e)
  have kv: "k = 10 \<or> values_ok k vs" using Cons.prems(2) e by auto
  have agree: "map_of (rv_fields r) k = map_of (le_previous s) k \<and> (k = 9 \<longrightarrow> rv_ivs r = le_ivs s)"
    if "\<not> full" "map_of (le_previous s) k \<noteq> None"
    using Cons.prems(4) [OF that(1) _ that(2)] e by simp
  obtain r1 where
    r1: "receive_properties (basis s full) r (entry_properties s p full (k, vs)) = Some r1" "omap_ok (rv_fields r1)"
      "map_of (rv_fields r1) = (if k = 10 then map_of (rv_fields r) else (map_of (rv_fields r))(k \<mapsto> vs))"
      "rv_ivs r1 = (if k = 9 then pr_ivs p else rv_ivs r)"
      "rv_time r1 = (if k = 10 then Some (pr_bmdt p) else rv_time r)"
    using receive_entry [OF kv assms(3) Cons.prems(3) agree, of p] by blast
  have fresh: "k \<notin> fst ` set es" using Cons.prems(1) e by simp
  have "map_of (rv_fields r1) k' = map_of (le_previous s) k' \<and> (k' = 9 \<longrightarrow> rv_ivs r1 = le_ivs s)"
    if "\<not> full" "k' \<in> fst ` set es" "map_of (le_previous s) k' \<noteq> None" for k'
    using Cons.prems(4) [OF that(1) _ that(3)] that(2) fresh r1(3,4) e by auto
  then obtain r2 where
    r2: "receive_properties (basis s full) r1 (concat (map (entry_properties s p full) es)) = Some r2" "omap_ok (rv_fields r2)"
      "\<forall>k. map_of (rv_fields r2) k = (if k = 10 \<or> map_of es k = None then map_of (rv_fields r1) k else map_of es k)"
      "rv_ivs r2 = (if map_of es 9 \<noteq> None then pr_ivs p else rv_ivs r1)"
      "rv_time r2 = (if map_of es 10 \<noteq> None then Some (pr_bmdt p) else rv_time r1)"
    using Cons.IH [of r1] Cons.prems(1,2) r1(2) by auto
  have none: "map_of es k = None" using fresh by (simp add: map_of_eq_None_iff)
  have "receive_properties (basis s full) r (concat (map (entry_properties s p full) (e # es))) = Some r2"
    using r1(1) r2(1) by (simp add: receive_append e)
  then show ?case using r2(2-) r1(3-) none by (auto simp: e)
qed simp

lemma omap_ext:
  assumes "omap_ok a" and "omap_ok b" and "map_of a = map_of b"
  shows "a = b"
proof -
  have "set a = set b" using omap_lookup_iff [OF assms(1)] omap_lookup_iff [OF assms(2)] assms(3) by auto
  moreover have "sorted (map fst a)" "sorted (map fst b)" "distinct (map fst a)" "distinct (map fst b)"
    using assms(1,2) by (auto simp: omap_ok_def strict_sorted_iff)
  ultimately show ?thesis by (intro map_sorted_distinct_set_unique [where f = fst]) (auto simp: distinct_map)
qed

lemma omap_put_last: "\<forall>e \<in> set m. fst e < k \<Longrightarrow> omap_put k v m = m @ [(k, v)]"
  by (induction k v m rule: omap_put.induct) auto

lemma fold_erase:
  "omap_ok m \<Longrightarrow> omap_ok (fold (\<lambda>v. omap_erase (f v)) vs m) \<and>
     map_of (fold (\<lambda>v. omap_erase (f v)) vs m) k = (if k \<in> f ` set vs then None else map_of m k)"
  by (induction vs arbitrary: m) auto

lemma fields_ok_key: "fields_ok flds \<Longrightarrow> map_of flds k = Some vs \<Longrightarrow> values_ok k vs"
  by (auto simp: fields_ok_def dest: map_of_SomeD)

lemma receive_full:
  assumes "parsed_ok c p"
  shows "\<exists>r. receive_properties None \<lparr>rv_fields = [], rv_ivs = [], rv_time = None\<rparr>
      (concat (map (entry_properties s p True) (object_fields s p True))) = Some r \<and>
    rv_fields r = pr_fields p \<and> rv_ivs (settle r) = pr_ivs p \<and> rv_time r = Some (pr_bmdt p)"
proof -
  have ok: "fields_ok (pr_fields p)" "omap_ok (pr_fields p)" using assms by (auto simp: parsed_ok_def fields_ok_def)
  let ?es = "object_fields s p True"
  have look: "map_of ?es = (map_of (pr_fields p))(10 \<mapsto> [])" using ok(2) by (simp add: object_fields_def)
  have es: "omap_ok ?es" using ok(2) by (simp add: object_fields_def)
  have ten: "map_of (pr_fields p) 10 = None"
    using fields_ok_key [OF ok(1), of 10] by (cases "map_of (pr_fields p) 10") (auto simp: values_ok_def)
  have "\<forall>(k, vs) \<in> set ?es. k = 10 \<or> values_ok k vs"
    using set_omap_put [of 10 "[]" "pr_fields p"] ok(1) by (auto simp: object_fields_def fields_ok_def)
  then obtain r where
    r: "receive_properties (basis s True) \<lparr>rv_fields = [], rv_ivs = [], rv_time = None\<rparr>
        (concat (map (entry_properties s p True) ?es)) = Some r" "omap_ok (rv_fields r)"
      "\<forall>k. map_of (rv_fields r) k = (if k = 10 \<or> map_of ?es k = None then None else map_of ?es k)"
      "rv_ivs r = (if map_of ?es 9 \<noteq> None then pr_ivs p else [])" "rv_time r = Some (pr_bmdt p)"
    using receive_entries [OF omap_ok_distinct [OF es], of True s "\<lparr>rv_fields = [], rv_ivs = [], rv_time = None\<rparr>" p] look
    by auto
  have "map_of (rv_fields r) = map_of (pr_fields p)"
    using r(3) look ten by (auto simp: fun_eq_iff split: if_splits)
  then have "rv_fields r = pr_fields p" using omap_ext r(2) ok(2) by blast
  moreover from this have "rv_ivs (settle r) = pr_ivs p"
    using r(4) look assms by (auto simp: settle_def parsed_ok_def split: if_splits)
  ultimately show ?thesis using r(1,5) by (auto simp: basis_def)
qed

lemma receive_delta:
  assumes "parsed_ok c p" and "fields_ok (le_previous s)"
  shows "\<exists>r. receive_properties (Some (le_previous s)) \<lparr>rv_fields = le_previous s, rv_ivs = le_ivs s, rv_time = None\<rparr>
      (concat (map (entry_properties s p False) (object_fields s p False))) = Some r \<and>
    rv_fields r = pr_fields p \<and> rv_ivs (settle r) = pr_ivs p"
proof -
  have ok: "fields_ok (pr_fields p)" "omap_ok (pr_fields p)" using assms(1) by (auto simp: parsed_ok_def fields_ok_def)
  have prev: "omap_ok (le_previous s)" using assms(2) by (simp add: fields_ok_def)
  let ?r0 = "\<lparr>rv_fields = le_previous s, rv_ivs = le_ivs s, rv_time = None\<rparr>"
  let ?gone = "map fst (filter (\<lambda>e. map_of (pr_fields p) (fst e) = None) (le_previous s))"
  have ids: "\<forall>(k, vs) \<in> set (pr_fields p). k = 10 \<or> values_ok k vs" using ok(1) by (auto simp: fields_ok_def)
  obtain r where
    r: "receive_properties (basis s False) ?r0 (concat (map (entry_properties s p False) (pr_fields p))) = Some r"
      "omap_ok (rv_fields r)"
      "\<forall>k. map_of (rv_fields r) k = (if k = 10 \<or> map_of (pr_fields p) k = None then map_of (le_previous s) k else map_of (pr_fields p) k)"
      "rv_ivs r = (if map_of (pr_fields p) 9 \<noteq> None then pr_ivs p else le_ivs s)"
    using receive_entries [OF omap_ok_distinct [OF ok(2)] ids, of False s ?r0 p] assms(2) prev by auto
  have small: "\<forall>e \<in> set (pr_fields p). fst e < 27" using ok(1) by (auto simp: fields_ok_def values_ok_def)
  have gone: "k \<le> 15" if "k \<in> set ?gone" for k
    using that assms(2) by (auto simp: fields_ok_def values_ok_def)
  have ten: "map_of (pr_fields p) 10 = None" "map_of (le_previous s) 10 = None"
    using fields_ok_key [OF ok(1), of 10] fields_ok_key [OF assms(2), of 10]
    by (cases "map_of (pr_fields p) 10"; cases "map_of (le_previous s) 10"; auto simp: values_ok_def)+
  have no27: "map_of (le_previous s) 27 = None"
    using fields_ok_key [OF assms(2), of 27] by (cases "map_of (le_previous s) 27") (auto simp: values_ok_def)
  let ?r1 = "r\<lparr>rv_fields := fold (\<lambda>v. omap_erase (unat v)) (map of_nat ?gone :: u64 list) (rv_fields r)\<rparr>"
  have received: "receive_properties (Some (le_previous s)) ?r0 (concat (map (entry_properties s p False) (object_fields s p False))) = Some ?r1"
  proof (cases "?gone = []")
    case True
    then show ?thesis using r(1) by (simp add: object_fields_def basis_def)
  next
    case False
    have es: "object_fields s p False = pr_fields p @ [(27, map int ?gone)]"
      using False omap_put_last [OF small, of "map int ?gone"] by (simp add: object_fields_def Let_def comp_def)
    have "coded_values 27 (map int ?gone) False None = map of_nat ?gone"
      by (rule nth_equalityI) (simp_all add: coded_values_def)
    then have "entry_properties s p False (27, map int ?gone) = [Block 27 (concat (map vi (map of_nat ?gone)))]"
      using no27 by (simp add: entry_properties_def)
    then show ?thesis unfolding es using r(1) by (simp add: receive_append basis_def read_values_vi del: map_map)
  qed
  have same: "(unat o (of_nat :: nat \<Rightarrow> u64)) ` set ?gone = set ?gone"
  proof -
    have "(unat o (of_nat :: nat \<Rightarrow> u64)) k = k" if "k \<in> set ?gone" for k
      using unat_of_id [of k] gone [OF that] by simp
    then have "(unat o (of_nat :: nat \<Rightarrow> u64)) ` set ?gone = (\<lambda>k. k) ` set ?gone" by (intro image_cong) simp_all
    then show ?thesis by simp
  qed
  have erased: "omap_ok (rv_fields ?r1)" "map_of (rv_fields ?r1) k = (if k \<in> set ?gone then None else map_of (rv_fields r) k)" for k
    using fold_erase [OF r(2), of unat "map of_nat ?gone :: u64 list"] same by (auto simp: image_comp)
  have "map_of (rv_fields ?r1) k = map_of (pr_fields p) k" for k
  proof (cases "map_of (pr_fields p) k")
    case None
    then have "k \<in> set ?gone \<or> map_of (le_previous s) k = None"
      by (cases "map_of (le_previous s) k") (force dest: map_of_SomeD)+
    then show ?thesis unfolding erased(2) using r(3) None by auto
  next
    case (Some vs)
    then have "k \<notin> set ?gone" by auto
    then show ?thesis unfolding erased(2) using r(3) Some ten by auto
  qed
  then have "rv_fields ?r1 = pr_fields p" using omap_ext [OF erased(1) ok(2)] by blast
  moreover from this have "rv_ivs (settle ?r1) = pr_ivs p"
    using r(4) assms(1) by (auto simp: settle_def parsed_ok_def)
  ultimately show ?thesis using received by blast
qed


subsection \<open>A stream of objects\<close>

text \<open>What a chunk delivers: its parsed content, or the chunk itself, or nothing when the encoder rejects it.\<close>

definition delivery_of :: "Context \<Rightarrow> bytes \<Rightarrow> delivery option" where
  "delivery_of c chunk =
     (case boxes chunk of
        Inl _ \<Rightarrow> None
      | Inr all \<Rightarrow>
          if all = [] \<or> excluded True 33 all \<noteq> Inr () then None
          else
            case parse_chunk all c of
              Inl Outside \<Rightarrow> Some (Whole chunk)
            | Inl _ \<Rightarrow> None
            | Inr p \<Rightarrow> Some (Fragment (map (\<lambda>b. drop 4 (bx_all b)) (pr_prefix p)) (pr_fields p) (pr_ivs p) (pr_bmdt p) (pr_payload p)))"

fun encode_stream :: "LocmafEncoder \<Rightarrow> (bytes \<times> u64 \<times> u64 \<times> bool) list \<Rightarrow> bytes list" where
  "encode_stream s [] = []"
| "encode_stream s ((chunk, group_id, object_id, force_full) # rest) =
     (case encode chunk group_id object_id force_full s of
        Inl _ \<Rightarrow> encode_stream s rest
      | Inr (bs, s') \<Rightarrow> bs # encode_stream s' rest)"

fun receive_stream :: "Context \<Rightarrow> receiver \<Rightarrow> bytes list \<Rightarrow> delivery list" where
  "receive_stream c st [] = []"
| "receive_stream c st (bs # rest) =
     (case receive_object c st bs of None \<Rightarrow> [] | Some (d, st') \<Rightarrow> d # receive_stream c st' rest)"

definition in_step :: "LocmafEncoder \<Rightarrow> receiver \<Rightarrow> bool" where
  "in_step s st \<longleftrightarrow> (le_anchored s \<longrightarrow>
     fields_ok (le_previous s) \<and> st = Some (le_previous s, le_ivs s, le_bmdt s + le_duration s))"

lemma object_properties_wires:
  assumes "\<forall>(k, vs) \<in> set es. even k \<longrightarrow> k = 10 \<or> length vs = 1"
  shows "concat (map (object_property s p full) es) = wires (concat (map (entry_properties s p full) es))"
  using assms by (induction es) (auto simp: object_property_wires wires_def)

lemma object_fields_keys:
  assumes "fields_ok (pr_fields p)" and "(k, vs) \<in> set (object_fields s p full)"
  shows "k \<in> {10, 27} \<or> values_ok k vs"
  using assms set_omap_put [of 10 "[]" "pr_fields p"] set_omap_put [of 27 _ "pr_fields p"]
  by (fastforce simp: object_fields_def fields_ok_def Let_def split: if_splits)

lemma entry_properties_wire_ok: "k \<in> {10, 27} \<or> values_ok k vs \<Longrightarrow> list_all wire_ok (entry_properties s p full (k, vs))"
proof -
  assume "k \<in> {10, 27} \<or> values_ok k vs"
  then have "k \<le> 27" by (auto simp: values_ok_def)
  then have "((of_nat k :: u64) AND 1 = 0) = even k"
    by (simp add: and_one_eq even_iff_mod_2_eq_zero [symmetric])
  then show ?thesis by (simp add: entry_properties_def Let_def)
qed

lemma ahead_length: "d \<in> set ds \<Longrightarrow> length d \<le> length (concat (map (\<lambda>d. vi 1 @ vi (of_nat (length d)) @ d) ds))"
  by (induction ds) auto

lemma encode_step:
  assumes "encode chunk group_id object_id force_full s = Inr (bs, s')" and "in_step s st" and "context_ok (le_context s)"
    and "length bs < 2 ^ 63"
  shows "\<exists>d st'. receive_object (le_context s) st bs = Some (d, st') \<and> delivery_of (le_context s) chunk = Some d \<and>
    in_step s' st' \<and> le_context s' = le_context s"
proof -
  let ?c = "le_context s"
  from assms(1) obtain all where all: "boxes chunk = Inr all" "all \<noteq> []" "excluded True 33 all = Inr ()"
    unfolding encode_def by (auto split: if_splits)
  consider (out) "parse_chunk all ?c = Inl Outside" "bs = 4 # chunk" "s' = reset s"
    | (parsed) p where "parse_chunk all ?c = Inr p"
    using assms(1) all unfolding encode_def by (auto split: sum.splits locmaf_error.splits)
  then show ?thesis
  proof cases
    case out
    have four: "vi 4 = [4]" by code_simp
    have "read_object (vi 4 @ chunk) = Some ([], 4, chunk)" by (subst read_object.simps) simp
    then show ?thesis using out all
      by (simp add: receive_object_def four delivery_of_def in_step_def reset_def)
  next
    case parsed
    let ?full = "needs_full force_full s group_id object_id p"
    let ?ps = "concat (map (entry_properties s p ?full) (object_fields s p ?full))"
    let ?ahead = "map (\<lambda>b. drop 4 (bx_all b)) (pr_prefix p)"
    have ok: "parsed_ok ?c p" by (rule parse_chunk_ok [OF parsed assms(3)])
    then have f: "fields_ok (pr_fields p)" by (simp add: parsed_ok_def)
    have keys: "\<forall>(k, vs) \<in> set (object_fields s p ?full). k \<in> {10, 27} \<or> values_ok k vs"
      using object_fields_keys [OF f] by auto
    then have w: "concat (map (object_property s p ?full) (object_fields s p ?full)) = wires ?ps"
      by (intro object_properties_wires) (auto simp: values_ok_def)
    have s': "s' = s\<lparr>le_previous := pr_fields p, le_ivs := pr_ivs p, le_group := group_id, le_object := object_id,
        le_bmdt := pr_bmdt p, le_duration := pr_duration p, le_anchored := True\<rparr>"
      and bs: "bs = encode_prefix (pr_prefix p) @ vi (if ?full then 2 else 3) @ vi (of_nat (length (wires ?ps))) @ wires ?ps @ pr_payload p"
      using assms(1) all parsed unfolding encode_def Let_def by (simp_all add: w)
    have pre: "encode_prefix (pr_prefix p) = concat (map (\<lambda>d. vi 1 @ vi (of_nat (length d)) @ d) ?ahead)"
      by (simp add: encode_prefix_def comp_def)
    have short: "list_all (\<lambda>d. length d < 2 ^ 64) ?ahead"
      using assms(4) ahead_length unfolding bs pre list_all_iff by fastforce
    have len: "length (wires ?ps) < 2 ^ 64" using assms(4) unfolding bs by simp
    have read: "read_object bs = Some (?ahead, if ?full then 2 else 3, vi (of_nat (length (wires ?ps))) @ wires ?ps @ pr_payload p)"
      unfolding bs pre using short by (intro read_object_ahead) simp_all
    have props: "read_properties (wires ?ps) = Some ?ps"
      using keys entry_properties_wire_ok [of _ _ s p ?full] len
      by (intro read_properties_wires) (fastforce simp: list_all_iff)+
    have time: "samples_end ?c (pr_fields p) (pr_bmdt p) = pr_bmdt p + pr_duration p"
      using ok by (simp add: parsed_ok_def samples_end_def)
    have d: "delivery_of ?c chunk = Some (Fragment ?ahead (pr_fields p) (pr_ivs p) (pr_bmdt p) (pr_payload p))"
      using all parsed by (simp add: delivery_of_def)
    have "receive_object ?c st bs = Some (Fragment ?ahead (pr_fields p) (pr_ivs p) (pr_bmdt p) (pr_payload p),
        Some (pr_fields p, pr_ivs p, pr_bmdt p + pr_duration p))"
    proof (cases ?full)
      case True
      from receive_full [OF ok, of s] show ?thesis
        using True read props len time by (auto simp: receive_object_def)
    next
      case False
      then have "le_anchored s" and next_time: "pr_bmdt p = le_bmdt s + le_duration s" by (auto simp: needs_full_def)
      then have st: "fields_ok (le_previous s)" "st = Some (le_previous s, le_ivs s, pr_bmdt p)"
        using assms(2) by (simp_all add: in_step_def)
      from receive_delta [OF ok st(1)] show ?thesis
        using False read props len time st(2) by (auto simp: receive_object_def)
    qed
    then show ?thesis using d f by (simp add: s' in_step_def)
  qed
qed

lemma stream_received:
  assumes "in_step s st" and "context_ok (le_context s)" and "\<forall>bs \<in> set (encode_stream s inputs). length bs < 2 ^ 63"
  shows "receive_stream (le_context s) st (encode_stream s inputs) =
    List.map_filter (\<lambda>(chunk, _). delivery_of (le_context s) chunk) inputs"
  using assms
proof (induction inputs arbitrary: s st)
  case (Cons i inputs)
  obtain chunk group_id object_id force_full where i: "i = (chunk, group_id, object_id, force_full)" by (cases i) auto
  show ?case
  proof (cases "encode chunk group_id object_id force_full s")
    case (Inl e)
    then have "delivery_of (le_context s) chunk = None"
      by (auto simp: encode_def delivery_of_def bindE_def Let_def split: sum.splits if_splits locmaf_error.splits)
    then show ?thesis using Cons Inl by (simp add: i map_filter_simps)
  next
    case (Inr r)
    then obtain bs s' where r: "encode chunk group_id object_id force_full s = Inr (bs, s')" by (cases r) auto
    have short: "length bs < 2 ^ 63" using Cons.prems(3) r by (simp add: i)
    from encode_step [OF r Cons.prems(1,2) short] obtain d st' where
      d: "receive_object (le_context s) st bs = Some (d, st')" "delivery_of (le_context s) chunk = Some d"
        "in_step s' st'" "le_context s' = le_context s" by blast
    then show ?thesis using Cons.IH [of s' st'] Cons.prems(2,3) r by (simp add: i map_filter_simps)
  qed
qed (simp add: map_filter_simps)


text \<open>C25: A LOCMAF stream is as good as the CMAF chunks it replaces: a receiver that knows the track's
  initialisation data reads back, from the objects alone, every chunk's fields, initialisation vectors, base
  time, payload and the boxes ahead of it, whether the object is full, a delta against the object before it
  with removed fields, or a chunk sent as it is. Rejected chunks produce no object and disturb nothing.\<close>

theorem locmaf_stream_received:
  assumes "new_encoder init = Inr s" and "\<forall>bs \<in> set (encode_stream s inputs). length bs < 2 ^ 63"
  shows "receive_stream (le_context s) None (encode_stream s inputs) =
    List.map_filter (\<lambda>(chunk, _). delivery_of (le_context s) chunk) inputs"
proof -
  have "context_ok (le_context s)" "in_step s None"
    using assms(1) make_context_ok by (auto simp: new_encoder_def in_step_def)
  then show ?thesis using assms(2) by (intro stream_received)
qed

definition stream_init :: bytes where
  "stream_init =
    [0, 0, 0, 144, 109, 111, 111, 118, 0, 0, 0, 96, 116, 114, 97, 107, 0, 0, 0, 24, 116, 107, 104, 100, 0, 0, 0, 0, 0,
    0, 0, 0, 0, 0, 0, 0, 0, 0, 0, 1, 0, 0, 0, 64, 109, 100, 105, 97, 0, 0, 0, 24, 109, 100, 104, 100, 0, 0, 0, 0, 0,
    0, 0, 0, 0, 0, 0, 0, 0, 0, 187, 128, 0, 0, 0, 32, 109, 105, 110, 102, 0, 0, 0, 24, 115, 116, 98, 108, 0, 0, 0, 16,
    115, 116, 115, 100, 0, 0, 0, 0, 0, 0, 0, 0, 0, 0, 0, 40, 109, 118, 101, 120, 0, 0, 0, 32, 116, 114, 101, 120, 0,
    0, 0, 0, 0, 0, 0, 1, 0, 0, 0, 1, 0, 0, 2, 0, 0, 0, 0, 0, 0, 0, 0, 0]"

definition stream_chunks :: "bytes list" where
  "stream_chunks =
    [[0, 0, 0, 92, 109, 111, 111, 102, 0, 0, 0, 16, 109, 102, 104, 100, 0, 0, 0, 0, 0, 0, 0, 7, 0, 0, 0, 68, 116, 114,
    97, 102, 0, 0, 0, 16, 116, 102, 104, 100, 0, 2, 0, 0, 0, 0, 0, 1, 0, 0, 0, 16, 116, 102, 100, 116, 0, 0, 0, 0, 0,
    0, 3, 232, 0, 0, 0, 28, 116, 114, 117, 110, 0, 0, 2, 1, 0, 0, 0, 2, 0, 0, 0, 100, 0, 0, 0, 3, 0, 0, 0, 2, 0, 0, 0,
    13, 109, 100, 97, 116, 1, 2, 3, 4, 5],
     [0, 0, 0, 92, 109, 111, 111, 102, 0, 0, 0, 16, 109, 102, 104, 100, 0, 0, 0, 0, 0, 0, 0, 7, 0, 0, 0, 68, 116, 114,
    97, 102, 0, 0, 0, 16, 116, 102, 104, 100, 0, 2, 0, 0, 0, 0, 0, 1, 0, 0, 0, 16, 116, 102, 100, 116, 0, 0, 0, 0, 0,
    0, 7, 232, 0, 0, 0, 28, 116, 114, 117, 110, 0, 0, 2, 1, 0, 0, 0, 2, 0, 0, 0, 100, 0, 0, 0, 2, 0, 0, 0, 2, 0, 0, 0,
    12, 109, 100, 97, 116, 6, 7, 8, 9],
     [0, 0, 0, 9, 109, 100, 97, 116, 5]]"

definition stream_encoder :: LocmafEncoder where
  "stream_encoder = \<lparr>le_context = \<lparr>cx_track = 1, cx_description = 1, cx_duration = 512, cx_size = 0, cx_flags = 0,
     cx_protected_track = False, cx_iv = 0\<rparr>, le_previous = [], le_ivs = [], le_group = 0, le_object = 0,
     le_bmdt = 0, le_duration = 0, le_anchored = False\<rparr>"

lemma stream_encoder_made: "new_encoder stream_init = Inr stream_encoder"
  by code_simp

definition stream_inputs :: "(bytes \<times> u64 \<times> u64 \<times> bool) list" where
  "stream_inputs = [(stream_chunks ! 0, 3, 0, False), ([1, 2], 3, 1, False), (stream_chunks ! 1, 3, 1, False), (stream_chunks ! 2, 3, 2, False)]"

definition stream_objects :: "bytes list" where
  "stream_objects =
    [[2, 8, 1, 1, 3, 10, 0x83, 0xE8, 14, 2, 1, 2, 3, 4, 5],
     [3, 5, 6, 4, 27, 1, 1, 6, 7, 8, 9],
     4 # stream_chunks ! 2]"

lemma stream_encoded: "encode_stream stream_encoder stream_inputs = stream_objects"
  by code_simp

lemma locmaf_stream_received_witness:
  "new_encoder stream_init = Inr stream_encoder \<and> encode_stream stream_encoder stream_inputs = stream_objects \<and>
   receive_stream (le_context stream_encoder) None stream_objects =
     [Fragment [] [(1, [3]), (14, [2])] [] 1000 [1, 2, 3, 4, 5], Fragment [] [(6, [2]), (14, [2])] [] 2024 [6, 7, 8, 9],
      Whole (stream_chunks ! 2)]"
proof -
  have "list_all (\<lambda>bs. length bs < 20) (encode_stream stream_encoder stream_inputs)"
    unfolding stream_encoded by code_simp
  then have "\<forall>bs \<in> set (encode_stream stream_encoder stream_inputs). length bs < 2 ^ 63" by (auto simp: list_all_iff)
  note received = locmaf_stream_received [OF stream_encoder_made this]
  have "List.map_filter (\<lambda>(chunk, _). delivery_of (le_context stream_encoder) chunk) stream_inputs =
     [Fragment [] [(1, [3]), (14, [2])] [] 1000 [1, 2, 3, 4, 5], Fragment [] [(6, [2]), (14, [2])] [] 2024 [6, 7, 8, 9],
      Whole (stream_chunks ! 2)]"
    by code_simp
  then show ?thesis using received stream_encoded stream_encoder_made by simp
qed

end
