(* ===== verification/Msf_Url.thy ===== *)
theory Msf_Url
  imports Prelude "HOL-Library.Product_Lexorder" "HOL-Library.Char_ord"
begin

text \<open>
  \<open>src/msf_url.cpp\<close>: MSF URLs, \<open>moqt://host[:port][/path][?query]#msf:track[&parameters]\<close>, the track as a
  namespace tuple and a name with every other byte escaped, and the ranges of a URL as their union. A
  \<open>std::string\<close> is a list of bytes written as characters. \<open>std::sort\<close> leaves the order of equivalent ranges
  open; the model keeps theirs.
\<close>

subsection \<open>Elements\<close>

definition fail :: "string \<Rightarrow> exn + 'a" where
  "fail message = Inl (Runtime_Error message)"

lemma fail_not_Inr [simp]: "fail message \<noteq> Inr x" "(fail message = Inl e) = (e = Runtime_Error message)"
  by (auto simp: fail_def)

lemma bindE_fail [simp]: "bindE (fail message) f = fail message"
  by (simp add: fail_def)

definition code :: "char \<Rightarrow> nat" where
  "code c = of_char c"

definition is_msf_unreserved :: "char \<Rightarrow> bool" where
  "is_msf_unreserved byte \<longleftrightarrow>
     (97 \<le> code byte \<and> code byte \<le> 122) \<or> (65 \<le> code byte \<and> code byte \<le> 90) \<or>
     (48 \<le> code byte \<and> code byte \<le> 57) \<or> code byte = 95"

definition hex_digits :: string where
  "hex_digits = ''0123456789abcdef''"

fun append_escaped :: "string \<Rightarrow> string \<Rightarrow> string" where
  "append_escaped out [] = out"
| "append_escaped out (character # element) =
     (if is_msf_unreserved character then append_escaped (out @ [character]) element
      else append_escaped
        (out @ [CHR ''.'', hex_digits ! (code character div 16), hex_digits ! (code character mod 16)]) element)"

definition hex_value :: "char \<Rightarrow> int" where
  "hex_value character =
     (let c = int (code character) in
      if 48 \<le> c \<and> c \<le> 57 then c - 48
      else if 97 \<le> c \<and> c \<le> 102 then c - 97 + 10
      else if 65 \<le> c \<and> c \<le> 70 then c - 65 + 10
      else - 1)"

fun decode_element :: "string \<Rightarrow> string \<Rightarrow> exn + string" where
  "decode_element what [] = Inr []"
| "decode_element what (character # element) =
     (if character = CHR ''.'' then
        (case element of
           h # l # rest \<Rightarrow>
             if hex_value h < 0 \<or> hex_value l < 0 then
               fail (''MSF '' @ what @ '' has a '' @ [CHR 0x27] @ ''.'' @ [CHR 0x27] @ '' escape with non-hexadecimal digits'')
             else
               bindE (decode_element what rest) (\<lambda>out.
               Inr (char_of (nat (push_bit 4 (hex_value h) OR hex_value l)) # out))
         | _ \<Rightarrow> fail (''MSF '' @ what @ '' has a truncated '' @ [CHR 0x27] @ ''.'' @ [CHR 0x27] @ '' escape''))
      else if \<not> is_msf_unreserved character then
        fail (''MSF '' @ what @ '' contains unescaped character '' @ [CHR 0x27, character, CHR 0x27])
      else bindE (decode_element what element) (\<lambda>out. Inr (character # out)))"

definition tolower :: "char \<Rightarrow> char" where
  "tolower c = (if 65 \<le> code c \<and> code c \<le> 90 then char_of (code c + 32) else c)"

definition equals_ignore_case :: "string \<Rightarrow> string \<Rightarrow> bool" where
  "equals_ignore_case left right \<longleftrightarrow> length left = length right \<and> list_all2 (\<lambda>l r. tolower l = tolower r) left right"

subsection \<open>Numbers\<close>

fun port_digits :: "string \<Rightarrow> string \<Rightarrow> u64 \<Rightarrow> exn + u64" where
  "port_digits text [] v = Inr v"
| "port_digits text (character # rest) v =
     (if code character < 48 \<or> code character > 57 then fail (''MSF URL port is not numeric: '' @ text)
      else
        let v = v * 10 + of_nat (code character - 48) in
        if v > 65535 then fail (''MSF URL port is out of range: '' @ text) else port_digits text rest v)"

definition parse_port :: "string \<Rightarrow> exn + u16" where
  "parse_port text =
     (if text = [] then fail ''MSF URL port is empty''
      else
        bindE (port_digits text text 0) (\<lambda>v.
        if v = 0 then fail ''MSF URL port must be between 1 and 65535'' else Inr (ucast v)))"

fun u64_digits :: "string \<Rightarrow> string \<Rightarrow> string \<Rightarrow> u64 \<Rightarrow> exn + u64" where
  "u64_digits what text [] v = Inr v"
| "u64_digits what text (character # rest) v =
     (if code character < 48 \<or> code character > 57 then fail (''MSF URL '' @ what @ '' is not numeric: '' @ text)
      else
        let digit = of_nat (code character - 48) in
        if v > (- 1 - digit) div 10 then fail (''MSF URL '' @ what @ '' overflows: '' @ text)
        else u64_digits what text rest (v * 10 + digit))"

definition parse_u64 :: "string \<Rightarrow> string \<Rightarrow> exn + u64" where
  "parse_u64 text what =
     (if text = [] then fail (''MSF URL '' @ what @ '' is empty'') else u64_digits what text text 0)"

text \<open>\<open>std::to_string\<close>.\<close>

fun decimal :: "nat \<Rightarrow> string" where
  "decimal n = (if n < 10 then [char_of (48 + n)] else decimal (n div 10) @ [char_of (48 + n mod 10)])"

declare decimal.simps [simp del]

definition to_string :: "u64 \<Rightarrow> string" where
  "to_string v = decimal (unat v)"

text \<open>\<open>find\<close> of a character: what is before it, and what is after it if it is there.\<close>

definition cut :: "char \<Rightarrow> string \<Rightarrow> string \<times> string option" where
  "cut c text =
     (takeWhile (\<lambda>x. x \<noteq> c) text, case dropWhile (\<lambda>x. x \<noteq> c) text of [] \<Rightarrow> None | _ # rest \<Rightarrow> Some rest)"

subsection \<open>Ranges\<close>

record MsfTimeRange =
  start_ms :: u64
  end_ms :: "u64 option"

record MsfLocation =
  ml_group_id :: u64
  ml_object_id :: "u64 option"

record MsfLocationRange =
  mr_start :: MsfLocation
  mr_end :: "MsfLocation option"

definition split_range :: "string \<Rightarrow> string \<Rightarrow> exn + string \<times> string option" where
  "split_range text what =
     (case cut (CHR ''-'') text of
        (start, None) \<Rightarrow> Inr (text, None)
      | (start, Some tail) \<Rightarrow>
          if snd (cut (CHR ''-'') tail) \<noteq> None then
            fail (''MSF URL '' @ what @ '' range has more than one '' @ [CHR 0x27] @ ''-'' @ [CHR 0x27])
          else Inr (start, Some tail))"

definition parse_time_range :: "string \<Rightarrow> string \<Rightarrow> exn + MsfTimeRange" where
  "parse_time_range text what =
     bindE (split_range text what) (\<lambda>(start_text, end_text).
     bindE (parse_u64 start_text what) (\<lambda>start.
     case end_text of
       None \<Rightarrow> Inr \<lparr>start_ms = start, end_ms = None\<rparr>
     | Some end_text \<Rightarrow>
         bindE (parse_u64 end_text what) (\<lambda>end.
         if end < start then fail (''MSF URL '' @ what @ '' range ends before it starts'')
         else Inr \<lparr>start_ms = start, end_ms = Some end\<rparr>)))"

definition parse_location :: "string \<Rightarrow> exn + MsfLocation" where
  "parse_location text =
     (case cut (CHR ''.'') text of
        (group_text, None) \<Rightarrow>
          bindE (parse_u64 text ''location group'') (\<lambda>g. Inr \<lparr>ml_group_id = g, ml_object_id = None\<rparr>)
      | (group_text, Some object_text) \<Rightarrow>
          bindE (parse_u64 group_text ''location group'') (\<lambda>g.
          bindE (parse_u64 object_text ''location object'') (\<lambda>obj.
          Inr \<lparr>ml_group_id = g, ml_object_id = Some obj\<rparr>)))"

definition value_or :: "u64 option \<Rightarrow> u64 \<Rightarrow> u64" where
  "value_or v otherwise = (case v of None \<Rightarrow> otherwise | Some x \<Rightarrow> x)"

definition location_start_key :: "MsfLocation \<Rightarrow> u64 \<times> u64" where
  "location_start_key location = (ml_group_id location, value_or (ml_object_id location) 0)"

definition location_end_key :: "MsfLocation option \<Rightarrow> u64 \<times> u64" where
  "location_end_key location =
     (case location of None \<Rightarrow> (- 1, - 1) | Some l \<Rightarrow> (ml_group_id l, value_or (ml_object_id l) (- 1)))"

definition parse_location_range :: "string \<Rightarrow> exn + MsfLocationRange" where
  "parse_location_range text =
     bindE (split_range text ''location-range'') (\<lambda>(start_text, end_text).
     bindE (parse_location start_text) (\<lambda>start.
     case end_text of
       None \<Rightarrow> Inr \<lparr>mr_start = start, mr_end = None\<rparr>
     | Some end_text \<Rightarrow>
         bindE (parse_location end_text) (\<lambda>end.
         if location_end_key (Some end) < location_start_key start then
           fail ''MSF URL location-range range ends before it starts''
         else Inr \<lparr>mr_start = start, mr_end = Some end\<rparr>)))"

definition time_key :: "MsfTimeRange \<Rightarrow> u64 \<times> u64" where
  "time_key r = (start_ms r, value_or (end_ms r) (- 1))"

text \<open>\<open>merged\<close> is kept as its last range and the ranges before it, latest first.\<close>

definition merge_time :: "MsfTimeRange \<times> MsfTimeRange list \<Rightarrow> MsfTimeRange \<Rightarrow> MsfTimeRange \<times> MsfTimeRange list" where
  "merge_time merged r =
     (case merged of (last_range, earlier) \<Rightarrow>
      let last_end = value_or (end_ms last_range) (- 1) in
      if start_ms r > last_end then (r, last_range # earlier)
      else
        let combined = max last_end (value_or (end_ms r) (- 1)) in
        (last_range\<lparr>end_ms := if combined = - 1 then None else Some combined\<rparr>, earlier))"

definition union_time_ranges :: "MsfTimeRange list \<Rightarrow> MsfTimeRange list" where
  "union_time_ranges ranges =
     (if length ranges \<le> 1 then ranges
      else
        let ranges = sort_key time_key ranges; merged = foldl merge_time (hd ranges, []) (tl ranges) in
        rev (fst merged # snd merged))"

definition location_range_key :: "MsfLocationRange \<Rightarrow> (u64 \<times> u64) \<times> (u64 \<times> u64)" where
  "location_range_key r = (location_start_key (mr_start r), location_end_key (mr_end r))"

definition merge_location :: "MsfLocationRange \<times> MsfLocationRange list \<Rightarrow> MsfLocationRange \<Rightarrow>
    MsfLocationRange \<times> MsfLocationRange list" where
  "merge_location merged r =
     (case merged of (last_range, earlier) \<Rightarrow>
      let last_end = location_end_key (mr_end last_range) in
      if location_start_key (mr_start r) > last_end then (r, last_range # earlier)
      else
        let candidate_end = location_end_key (mr_end r) in
        if candidate_end \<le> last_end then merged
        else if fst candidate_end = - 1 \<and> snd candidate_end = - 1 then (last_range\<lparr>mr_end := None\<rparr>, earlier)
        else (last_range\<lparr>mr_end := mr_end r\<rparr>, earlier))"

definition union_location_ranges :: "MsfLocationRange list \<Rightarrow> MsfLocationRange list" where
  "union_location_ranges ranges =
     (if length ranges \<le> 1 then ranges
      else
        let ranges = sort_key location_range_key ranges; merged = foldl merge_location (hd ranges, []) (tl ranges) in
        rev (fst merged # snd merged))"

definition format_location :: "MsfLocation \<Rightarrow> string" where
  "format_location location =
     to_string (ml_group_id location) @
     (case ml_object_id location of None \<Rightarrow> [] | Some obj \<Rightarrow> ''.'' @ to_string obj)"

definition format_time_range :: "MsfTimeRange \<Rightarrow> string" where
  "format_time_range r = to_string (start_ms r) @ (case end_ms r of None \<Rightarrow> [] | Some e \<Rightarrow> ''-'' @ to_string e)"

definition format_location_range :: "MsfLocationRange \<Rightarrow> string" where
  "format_location_range r =
     format_location (mr_start r) @ (case mr_end r of None \<Rightarrow> [] | Some e \<Rightarrow> ''-'' @ format_location e)"

subsection \<open>Track identifiers\<close>

record MsfTrackIdentifier =
  mt_namespace_tuple :: "string list"
  mt_track_name :: string

fun encode_tuple :: "nat \<Rightarrow> string list \<Rightarrow> string \<Rightarrow> exn + string" where
  "encode_tuple index [] out = Inr out"
| "encode_tuple index (element # rest) out =
     (if element = [] then
        fail (''MSF namespace tuple element '' @ decimal index @ '' is empty; empty elements cannot be encoded unambiguously'')
      else encode_tuple (index + 1) rest (append_escaped (if index \<noteq> 0 then out @ ''-'' else out) element))"

definition encode_namespace_name :: "MsfTrackIdentifier \<Rightarrow> exn + string" where
  "encode_namespace_name t =
     (if mt_namespace_tuple t = [] then fail ''MSF namespace tuple has no elements; a track requires a namespace''
      else if mt_track_name t = [] then fail ''MSF track name is empty; a track name is required''
      else
        bindE (encode_tuple 0 (mt_namespace_tuple t) []) (\<lambda>out.
        Inr (append_escaped (out @ ''--'') (mt_track_name t))))"

text \<open>Where the two hyphens of a delimiter start; the second is not matched again.\<close>

fun delimiters :: "nat \<Rightarrow> string \<Rightarrow> nat list" where
  "delimiters index (a # b # rest) =
     (if a = CHR ''-'' \<and> b = CHR ''-'' then index # delimiters (index + 2) rest else delimiters (index + 1) (b # rest))"
| "delimiters index _ = []"

lemma cut_shorter: "cut c s = (a, Some rest) \<Longrightarrow> length rest < length s"
proof -
  assume "cut c s = (a, Some rest)"
  then obtain x where "dropWhile (\<lambda>x. x \<noteq> c) s = x # rest" by (auto simp: cut_def split: list.splits)
  then show ?thesis using length_dropWhile_le [of "\<lambda>x. x \<noteq> c" s] by simp
qed

function decode_tuple :: "string \<Rightarrow> exn + string list" where
  "decode_tuple text =
     (case cut (CHR ''-'') text of
        (element, rest) \<Rightarrow>
          if element = [] then fail ''MSF namespace-name string has an empty namespace tuple element''
          else
            bindE (decode_element ''namespace tuple element'' element) (\<lambda>e.
            case rest of
              None \<Rightarrow> Inr [e]
            | Some rest \<Rightarrow> bindE (decode_tuple rest) (\<lambda>es. Inr (e # es))))"
  by pat_completeness auto
termination by (relation "measure length") (auto dest: cut_shorter [OF sym])

declare decode_tuple.simps [simp del]

definition decode_namespace_name :: "string \<Rightarrow> exn + MsfTrackIdentifier" where
  "decode_namespace_name text =
     (case delimiters 0 text of
        [] \<Rightarrow> fail ''MSF namespace-name string has no '--' delimiter separating the namespace from the track name''
      | [delimiter] \<Rightarrow>
          let namespace_text = take delimiter text; track_text = drop (delimiter + 2) text in
          if namespace_text = [] then fail ''MSF namespace-name string has an empty namespace''
          else if track_text = [] then fail ''MSF namespace-name string has an empty track name''
          else
            bindE (decode_tuple namespace_text) (\<lambda>tuple.
            bindE (decode_element ''track name'' track_text) (\<lambda>track.
            Inr \<lparr>mt_namespace_tuple = tuple, mt_track_name = track\<rparr>))
      | _ \<Rightarrow> fail ''MSF namespace-name string contains more than one '--' delimiter'')"

subsection \<open>URLs\<close>

datatype ConnectionRequirement = AnyConnection | RawQuic | WebTransport

record MsfUrl =
  mu_host :: string
  mu_port :: u16
  mu_path :: string
  mu_path_explicit :: bool
  mu_query :: string
  mu_track :: MsfTrackIdentifier
  mu_connection :: ConnectionRequirement
  mu_c4m_token :: "string option"
  mu_wallclock_ranges :: "MsfTimeRange list"
  mu_mediatime_ranges :: "MsfTimeRange list"
  mu_location_ranges :: "MsfLocationRange list"
  mu_extra_params :: "(string \<times> string) list"

definition new_url :: MsfUrl where
  "new_url = \<lparr>mu_host = [], mu_port = 443, mu_path = ''/'', mu_path_explicit = False, mu_query = [],
     mu_track = \<lparr>mt_namespace_tuple = [], mt_track_name = []\<rparr>, mu_connection = AnyConnection, mu_c4m_token = None,
     mu_wallclock_ranges = [], mu_mediatime_ranges = [], mu_location_ranges = [], mu_extra_params = []\<rparr>"

definition fragment_parameter :: "string \<Rightarrow> string \<Rightarrow> MsfUrl \<Rightarrow> exn + MsfUrl" where
  "fragment_parameter name val url =
     (if name = ''connection'' then
        if mu_connection url \<noteq> AnyConnection then fail ''MSF URL repeats the reserved 'connection' parameter''
        else if val = ''q'' then Inr (url\<lparr>mu_connection := RawQuic\<rparr>)
        else if val = ''wt'' then Inr (url\<lparr>mu_connection := WebTransport\<rparr>)
        else fail (''MSF URL 'connection' parameter must be 'q' or 'wt', got: '' @ val)
      else if name = ''c4m'' then
        if mu_c4m_token url \<noteq> None then fail ''MSF URL repeats the reserved 'c4m' parameter''
        else Inr (url\<lparr>mu_c4m_token := Some val\<rparr>)
      else if name = ''wallclock-range'' then
        bindE (parse_time_range val ''wallclock-range'') (\<lambda>r.
        Inr (url\<lparr>mu_wallclock_ranges := mu_wallclock_ranges url @ [r]\<rparr>))
      else if name = ''mediatime-range'' then
        bindE (parse_time_range val ''mediatime-range'') (\<lambda>r.
        Inr (url\<lparr>mu_mediatime_ranges := mu_mediatime_ranges url @ [r]\<rparr>))
      else if name = ''location-range'' then
        bindE (parse_location_range val) (\<lambda>r. Inr (url\<lparr>mu_location_ranges := mu_location_ranges url @ [r]\<rparr>))
      else Inr (url\<lparr>mu_extra_params := mu_extra_params url @ [(name, val)]\<rparr>))"

function parse_fragment_parameters :: "string \<Rightarrow> MsfUrl \<Rightarrow> exn + MsfUrl" where
  "parse_fragment_parameters text url =
     (case cut (CHR ''&'') text of
        (parameter, rest) \<Rightarrow>
          if parameter = [] then
            fail (''MSF URL fragment has a blank parameter segment between consecutive or trailing '' @ [CHR 0x27] @ ''&'' @ [CHR 0x27])
          else
            case cut (CHR ''='') parameter of
              (_, None) \<Rightarrow> fail (''MSF URL fragment parameter has no '=': '' @ parameter)
            | (name, Some val) \<Rightarrow>
                if name = [] then fail ''MSF URL fragment parameter has an empty name''
                else
                  bindE (fragment_parameter name val url) (\<lambda>url.
                  case rest of None \<Rightarrow> Inr url | Some rest \<Rightarrow> parse_fragment_parameters rest url))"
  by pat_completeness auto
termination by (relation "measure (length o fst)") (auto dest: cut_shorter [OF sym])

declare parse_fragment_parameters.simps [simp del]

definition parse_authority :: "string \<Rightarrow> MsfUrl \<Rightarrow> exn + MsfUrl" where
  "parse_authority authority url =
     (if authority = [] then fail ''MSF URL must contain a host''
      else
        bindE
          (case cut (CHR '':'') authority of
             (_, None) \<Rightarrow> Inr (url\<lparr>mu_host := authority\<rparr>)
           | (host, Some port) \<Rightarrow> bindE (parse_port port) (\<lambda>p. Inr (url\<lparr>mu_host := host, mu_port := p\<rparr>)))
          (\<lambda>url. if mu_host url = [] then fail ''MSF URL must contain a host'' else Inr url))"

definition parse_query :: "string \<Rightarrow> MsfUrl \<Rightarrow> MsfUrl \<times> string" where
  "parse_query before_fragment url =
     (case cut (CHR ''?'') before_fragment of
        (_, None) \<Rightarrow> (url, before_fragment)
      | (before, Some query) \<Rightarrow> (url\<lparr>mu_query := query\<rparr>, before))"

definition parse_path :: "string \<Rightarrow> MsfUrl \<Rightarrow> MsfUrl \<times> string" where
  "parse_path before_fragment url =
     (case cut (CHR ''/'') before_fragment of
        (_, None) \<Rightarrow> (url, before_fragment)
      | (authority, Some rest) \<Rightarrow> (url\<lparr>mu_path := CHR ''/'' # rest, mu_path_explicit := True\<rparr>, authority))"

definition parse_fragment :: "string \<Rightarrow> MsfUrl \<Rightarrow> exn + MsfUrl" where
  "parse_fragment fragment url =
     (if length fragment < 4 \<or> take 4 fragment \<noteq> ''msf:'' then fail (''MSF URL fragment must begin with '' @ [CHR 0x27] @ ''msf:'' @ [CHR 0x27])
      else
        case cut (CHR ''&'') (drop 4 fragment) of
          (track_text, parameters) \<Rightarrow>
            bindE (decode_namespace_name track_text) (\<lambda>track.
            bindE (case parameters of
                None \<Rightarrow> Inr (url\<lparr>mu_track := track\<rparr>)
              | Some parameters \<Rightarrow> parse_fragment_parameters parameters (url\<lparr>mu_track := track\<rparr>)) (\<lambda>url.
            Inr (url\<lparr>mu_wallclock_ranges := union_time_ranges (mu_wallclock_ranges url),
              mu_mediatime_ranges := union_time_ranges (mu_mediatime_ranges url),
              mu_location_ranges := union_location_ranges (mu_location_ranges url)\<rparr>))))"

definition parse_msf_url :: "string \<Rightarrow> exn + MsfUrl" where
  "parse_msf_url text =
     (if length text < 7 \<or> \<not> equals_ignore_case (take 7 text) ''moqt://'' then
        fail ''MSF URL must use the moqt:// scheme''
      else
        case cut (CHR ''#'') (drop 7 text) of
          (_, None) \<Rightarrow> fail ''MSF URL must contain a '#msf:' fragment''
        | (before_fragment, Some fragment) \<Rightarrow>
            let (url, before_fragment) = parse_query before_fragment new_url;
                (url, authority) = parse_path before_fragment url in
            bindE (parse_authority authority url) (parse_fragment fragment))"

definition connection_parameter :: "ConnectionRequirement \<Rightarrow> string" where
  "connection_parameter connection =
     (case connection of RawQuic \<Rightarrow> ''&connection=q'' | WebTransport \<Rightarrow> ''&connection=wt'' | AnyConnection \<Rightarrow> [])"

definition build_msf_url :: "MsfUrl \<Rightarrow> exn + string" where
  "build_msf_url url =
     (if mu_host url = [] then fail ''cannot build an MSF URL without a host''
      else if CHR ''#'' \<in> set (mu_host url) then
        fail ''cannot build an MSF URL: host contains '#', which would be misparsed as the fragment delimiter''
      else if mu_path_explicit url \<and> CHR ''#'' \<in> set (mu_path url) then
        fail ''cannot build an MSF URL: path contains '#', which would be misparsed as the fragment delimiter''
      else
        bindE (encode_namespace_name (mu_track url)) (\<lambda>track.
        Inr (''moqt://'' @ mu_host url @
          (if mu_port url \<noteq> 443 then '':'' @ decimal (unat (mu_port url)) else []) @
          (if mu_path_explicit url then mu_path url else []) @
          (if mu_query url \<noteq> [] then ''?'' @ mu_query url else []) @
          ''#msf:'' @ track @ connection_parameter (mu_connection url) @
          concat (map (\<lambda>r. ''&wallclock-range='' @ format_time_range r) (mu_wallclock_ranges url)) @
          concat (map (\<lambda>r. ''&mediatime-range='' @ format_time_range r) (mu_mediatime_ranges url)) @
          concat (map (\<lambda>r. ''&location-range='' @ format_location_range r) (mu_location_ranges url)) @
          concat (map (\<lambda>(name, val). ''&'' @ name @ ''='' @ val) (mu_extra_params url)) @
          (case mu_c4m_token url of None \<Rightarrow> [] | Some token \<Rightarrow> ''&c4m='' @ token))))"

function namespace_elements :: "string \<Rightarrow> string list" where
  "namespace_elements track_namespace =
     (case cut (CHR ''/'') track_namespace of
        (element, rest) \<Rightarrow>
          (if element \<noteq> [] then [element] else []) @ (case rest of None \<Rightarrow> [] | Some rest \<Rightarrow> namespace_elements rest))"
  by pat_completeness auto
termination by (relation "measure length") (auto dest: cut_shorter [OF sym])

declare namespace_elements.simps [simp del]

definition build_track_msf_url :: "string \<Rightarrow> u16 \<Rightarrow> string \<Rightarrow> bool \<Rightarrow> string \<Rightarrow> string \<Rightarrow> ConnectionRequirement \<Rightarrow> exn + string" where
  "build_track_msf_url host port path path_explicit track_namespace track_name connection =
     (let elements = namespace_elements track_namespace;
          tuple = (if elements = [] then [track_namespace] else elements) in
      build_msf_url (new_url\<lparr>mu_host := host, mu_port := port, mu_path := path, mu_path_explicit := path_explicit,
        mu_connection := connection, mu_track := \<lparr>mt_namespace_tuple = tuple, mt_track_name = track_name\<rparr>\<rparr>))"

subsection \<open>Escaping\<close>

definition escaped :: "char \<Rightarrow> string" where
  "escaped c = (if is_msf_unreserved c then [c]
     else [CHR ''.'', hex_digits ! (code c div 16), hex_digits ! (code c mod 16)])"

lemma append_escaped_eq: "append_escaped out e = out @ concat (map escaped e)"
  by (induction out e rule: append_escaped.induct) (simp_all add: escaped_def)

lemma code_less [simp]: "code c < 256"
  by (simp add: code_def)

lemma hex_digit:
  assumes "k < 16"
  shows "hex_value (hex_digits ! k) = int k" "is_msf_unreserved (hex_digits ! k)"
proof -
  have "list_all (\<lambda>k. hex_value (hex_digits ! k) = int k \<and> is_msf_unreserved (hex_digits ! k)) [0..<16]" by code_simp
  then show "hex_value (hex_digits ! k) = int k" "is_msf_unreserved (hex_digits ! k)"
    using assms by (simp_all add: list_all_iff)
qed

lemma byte_of_digits: "n < 256 \<Longrightarrow> nat (push_bit 4 (int (n div 16)) OR int (n mod 16)) = n"
proof -
  have "list_all (\<lambda>n. nat (push_bit 4 (int (n div 16)) OR int (n mod 16)) = n) [0..<256]" by code_simp
  then show "n < 256 \<Longrightarrow> nat (push_bit 4 (int (n div 16)) OR int (n mod 16)) = n" by (simp add: list_all_iff)
qed

lemma decode_escaped:
  "decode_element what (escaped c @ rest) = bindE (decode_element what rest) (\<lambda>out. Inr (c # out))"
proof (cases "is_msf_unreserved c")
  case True
  then have "c \<noteq> CHR ''.''" by (auto simp: is_msf_unreserved_def code_def)
  with True show ?thesis by (simp add: escaped_def)
next
  case False
  have "code c div 16 < 16" using code_less [of c] by (simp add: less_mult_imp_div_less)
  then show ?thesis
    using False byte_of_digits [of "code c"] by (simp add: escaped_def hex_digit) (simp add: code_def)
qed

lemma decode_element_escaped: "decode_element what (concat (map escaped e)) = Inr e"
  by (induction e) (simp_all add: decode_escaped)

definition plain :: "char \<Rightarrow> bool" where
  "plain c \<longleftrightarrow> is_msf_unreserved c \<or> c = CHR ''.''"

lemma plain_escaped: "list_all plain (concat (map escaped e))"
proof (induction e)
  case (Cons c e)
  have "code c div 16 < 16" using code_less [of c] by (simp add: less_mult_imp_div_less)
  with Cons show ?case by (simp add: escaped_def plain_def hex_digit)
qed simp

lemma not_plain: "\<not> plain (CHR ''-'')" "\<not> plain (CHR ''&'')" "\<not> plain (CHR ''#'')"
  by (simp_all add: plain_def is_msf_unreserved_def code_def)

lemma plain_notin: "list_all plain s \<Longrightarrow> \<not> plain c \<Longrightarrow> c \<notin> set s"
  by (auto simp: list_all_iff)

lemma escaped_not_Nil: "e \<noteq> [] \<Longrightarrow> concat (map escaped e) \<noteq> []"
  by (cases e) (simp_all add: escaped_def)

subsection \<open>Cutting\<close>

lemma cut_at [simp]: "c \<notin> set a \<Longrightarrow> cut c (a @ c # rest) = (a, Some rest)"
proof -
  assume "c \<notin> set a"
  then have "takeWhile (\<lambda>x. x \<noteq> c) (a @ c # rest) = a" "dropWhile (\<lambda>x. x \<noteq> c) (a @ c # rest) = c # rest"
    by (induction a) auto
  then show ?thesis unfolding cut_def by (simp only: list.case)
qed

lemma cut_none [simp]: "c \<notin> set a \<Longrightarrow> cut c a = (a, None)"
proof -
  assume "c \<notin> set a"
  then have "takeWhile (\<lambda>x. x \<noteq> c) a = a" "dropWhile (\<lambda>x. x \<noteq> c) a = []" by (induction a) auto
  then show ?thesis unfolding cut_def by (simp only: list.case)
qed

lemma cut_SomeD: "cut c s = (a, Some rest) \<Longrightarrow> s = a @ c # rest \<and> c \<notin> set a"
proof -
  assume h: "cut c s = (a, Some rest)"
  then obtain x where x: "dropWhile (\<lambda>x. x \<noteq> c) s = x # rest" "a = takeWhile (\<lambda>x. x \<noteq> c) s"
    by (auto simp: cut_def split: list.splits)
  then have "s = a @ x # rest" "x = c" unfolding dropWhile_eq_Cons_conv by blast+
  moreover have "c \<notin> set a" using x(2) by (auto dest: set_takeWhileD)
  ultimately show ?thesis by blast
qed

lemma cut_NoneD: "cut c s = (a, None) \<Longrightarrow> a = s \<and> c \<notin> set s"
proof -
  assume h: "cut c s = (a, None)"
  have n: "dropWhile (\<lambda>x. x \<noteq> c) s = []" and a: "a = takeWhile (\<lambda>x. x \<noteq> c) s"
    using h by (auto simp: cut_def split: list.splits)
  have "c \<notin> set s" using n by (auto simp: dropWhile_eq_Nil_conv)
  moreover from this have "a = s" unfolding a by (auto simp: takeWhile_eq_all_conv)
  ultimately show ?thesis by blast
qed

subsection \<open>Track identifiers\<close>

definition track_ok :: "MsfTrackIdentifier \<Rightarrow> bool" where
  "track_ok t \<longleftrightarrow> mt_namespace_tuple t \<noteq> [] \<and> list_all (\<lambda>e. e \<noteq> []) (mt_namespace_tuple t) \<and> mt_track_name t \<noteq> []"

fun joined :: "string list \<Rightarrow> string" where
  "joined [] = []"
| "joined [e] = concat (map escaped e)"
| "joined (e # es) = concat (map escaped e) @ ''-'' @ joined es"

lemma encode_tuple_joined:
  "list_all (\<lambda>e. e \<noteq> []) es \<Longrightarrow> es \<noteq> [] \<Longrightarrow>
     encode_tuple index es out = Inr (out @ (if index \<noteq> 0 then ''-'' else []) @ joined es)"
proof (induction es arbitrary: index out rule: joined.induct)
  case (3 e e' es)
  have "encode_tuple index (e # e' # es) out =
      encode_tuple (index + 1) (e' # es) (append_escaped (if index \<noteq> 0 then out @ ''-'' else out) e)"
    using 3(2) by (subst encode_tuple.simps) simp
  also have "\<dots> = Inr (append_escaped (if index \<noteq> 0 then out @ ''-'' else out) e @ ''-'' @ joined (e' # es))"
    using 3(2) by (subst 3(1)) simp_all
  finally show ?case by (simp add: append_escaped_eq)
qed (simp_all add: append_escaped_eq)

definition track_text :: "MsfTrackIdentifier \<Rightarrow> string" where
  "track_text t = joined (mt_namespace_tuple t) @ ''--'' @ concat (map escaped (mt_track_name t))"

lemma encode_namespace_name_text: "track_ok t \<Longrightarrow> encode_namespace_name t = Inr (track_text t)"
  by (simp add: track_ok_def encode_namespace_name_def encode_tuple_joined append_escaped_eq track_text_def)

lemma delimiters_plain:
  "list_all plain s \<Longrightarrow> s \<noteq> [] \<Longrightarrow> delimiters i (s @ rest) = delimiters (i + length s) rest"
proof (induction s arbitrary: i)
  case (Cons c s)
  have c: "c \<noteq> CHR ''-''" using Cons.prems(1) not_plain(1) by auto
  then have "delimiters i (c # x) = delimiters (i + 1) x" for x by (cases x) simp_all
  with Cons c show ?case by (cases s) simp_all
qed simp

lemma delimiters_end: "list_all plain s \<Longrightarrow> delimiters i s = []"
  using delimiters_plain [of s i "[]"] by (cases s) simp_all

lemma delimiters_joined:
  assumes "es \<noteq> []" and "list_all (\<lambda>e. e \<noteq> []) es"
  shows "delimiters i (joined es @ ''--'' @ rest) = (i + length (joined es)) # delimiters (i + length (joined es) + 2) rest"
  using assms
proof (induction es arbitrary: i rule: joined.induct)
  case (2 e)
  then show ?case using delimiters_plain [OF plain_escaped [of e] escaped_not_Nil] by simp
next
  case (3 e e' es)
  let ?rest = "joined (e' # es) @ ''--'' @ rest"
  have "e' \<noteq> []" using 3(3) by simp
  then obtain x xs where x: "joined (e' # es) = x # xs" "x \<noteq> CHR ''-''"
    using escaped_not_Nil [of e'] plain_escaped [of e'] not_plain(1)
    by (cases "concat (map escaped e')"; cases es) auto
  then have "delimiters j (CHR ''-'' # ?rest) = delimiters (j + 1) ?rest" for j by simp
  then show ?case
    using 3 delimiters_plain [OF plain_escaped [of e] escaped_not_Nil, of i "CHR ''-'' # ?rest"] by (simp add: add.assoc)
qed simp

lemma decode_tuple_joined:
  "es \<noteq> [] \<Longrightarrow> list_all (\<lambda>e. e \<noteq> []) es \<Longrightarrow> decode_tuple (joined es) = Inr es"
proof (induction es rule: joined.induct)
  case (2 e)
  then show ?case
    using plain_notin [OF plain_escaped [of e] not_plain(1)]
    by (subst decode_tuple.simps) (simp add: escaped_not_Nil [of e] decode_element_escaped del: concat_eq_Nil_conv)
next
  case (3 e e' es)
  then show ?case
    using plain_notin [OF plain_escaped [of e] not_plain(1)]
    by (subst decode_tuple.simps) (simp add: escaped_not_Nil [of e] decode_element_escaped del: concat_eq_Nil_conv)
qed simp

lemma joined_not_Nil: "es \<noteq> [] \<Longrightarrow> list_all (\<lambda>e. e \<noteq> []) es \<Longrightarrow> joined es \<noteq> []"
  by (induction es rule: joined.induct) (simp_all add: escaped_not_Nil del: concat_eq_Nil_conv)

lemma decode_track_text:
  assumes "track_ok t"
  shows "decode_namespace_name (track_text t) = Inr t"
proof -
  note ok = assms [unfolded track_ok_def]
  have "delimiters 0 (track_text t) = [length (joined (mt_namespace_tuple t))]"
    unfolding track_text_def
    by (subst delimiters_joined) (use ok delimiters_end [OF plain_escaped] in simp_all)
  then show ?thesis
    using ok joined_not_Nil [of "mt_namespace_tuple t"] escaped_not_Nil [of "mt_track_name t"]
    by (simp add: decode_namespace_name_def track_text_def decode_tuple_joined decode_element_escaped del: concat_eq_Nil_conv)
qed

lemma decode_element_not_Nil: "decode_element what s = Inr e \<Longrightarrow> s \<noteq> [] \<Longrightarrow> e \<noteq> []"
  by (cases s) (auto split: if_splits list.splits)

lemma decode_tuple_ok: "decode_tuple s = Inr es \<Longrightarrow> es \<noteq> [] \<and> list_all (\<lambda>e. e \<noteq> []) es"
proof (induction s arbitrary: es rule: decode_tuple.induct)
  case (1 s)
  obtain element rest where c: "cut (CHR ''-'') s = (element, rest)" by (cases "cut (CHR ''-'') s")
  have ne: "element \<noteq> []" using 1(2) c by (subst (asm) decode_tuple.simps) (auto split: if_splits)
  obtain e where e: "decode_element ''namespace tuple element'' element = Inr e"
    and es: "(case rest of None \<Rightarrow> Inr [e] | Some rest \<Rightarrow> bindE (decode_tuple rest) (\<lambda>es. Inr (e # es))) = Inr es"
    using 1(2) c ne by (subst (asm) decode_tuple.simps) auto
  have "e \<noteq> []" by (rule decode_element_not_Nil [OF e ne])
  with es show ?case using 1(1) [OF c [symmetric] ne e] by (cases rest) auto
qed

lemma decode_track_ok: "decode_namespace_name s = Inr t \<Longrightarrow> track_ok t"
  by (auto simp: decode_namespace_name_def track_ok_def Let_def split: list.splits if_splits
      dest: decode_tuple_ok decode_element_not_Nil)

lemma track_text_chars: "track_ok t \<Longrightarrow> c \<in> {CHR ''&'', CHR ''#''} \<Longrightarrow> c \<notin> set (track_text t)"
proof -
  have "list_all (\<lambda>c. plain c \<or> c = CHR ''-'') (joined es)" for es
    using plain_escaped by (induction es rule: joined.induct) (auto simp: list_all_iff)
  then have "list_all (\<lambda>c. plain c \<or> c = CHR ''-'') (track_text t)"
    using plain_escaped [of "mt_track_name t"] by (auto simp: track_text_def list_all_iff)
  then show "c \<in> {CHR ''&'', CHR ''#''} \<Longrightarrow> c \<notin> set (track_text t)"
    using not_plain by (auto simp: list_all_iff)
qed

subsection \<open>Numbers\<close>

definition is_digit :: "char \<Rightarrow> bool" where
  "is_digit c \<longleftrightarrow> 48 \<le> code c \<and> code c \<le> 57"

lemma code_char_of: "k < 256 \<Longrightarrow> code (char_of k) = k"
  by (simp add: code_def)

lemma digit_char: "(k :: nat) < 10 \<Longrightarrow> is_digit (char_of (48 + k))"
  by (simp add: is_digit_def code_char_of)

lemma decimal_digits: "list_all is_digit (decimal n) \<and> decimal n \<noteq> []"
proof (induction n rule: decimal.induct)
  case (1 n)
  then show ?case by (subst (1 2) decimal.simps) (simp add: digit_char)
qed

lemma u64_digits_append:
  "u64_digits what t (xs @ ys) v = bindE (u64_digits what t xs v) (\<lambda>v. u64_digits what t ys v)"
  by (induction xs arbitrary: v) (simp_all add: Let_def)

lemma port_digits_append: "port_digits t (xs @ ys) v = bindE (port_digits t xs v) (\<lambda>v. port_digits t ys v)"
  by (induction xs arbitrary: v) (simp_all add: Let_def)

lemma u64_digits_decimal: "n < 2 ^ 64 \<Longrightarrow> u64_digits what t (decimal n) 0 = Inr (of_nat n)"
proof (induction n rule: decimal.induct)
  case (1 n)
  show ?case
  proof (cases "n < 10")
    case True
    then have "(0 :: u64) \<le> (- 1 - of_nat n) div 10" by simp
    with True show ?thesis by (subst decimal.simps) (simp add: code_char_of)
  next
    case False
    let ?d = "n mod 10"
    have d: "?d < 10" by simp
    have "unat (- 1 - of_nat ?d :: u64) = 2 ^ 64 - 1 - ?d"
    proof -
      have "unat (- 1 :: u64) = 2 ^ 64 - 1" by (simp add: unsigned_minus_1_eq_mask mask_eq_exp_minus_1)
      moreover have "unat (of_nat ?d :: u64) = ?d" using d by (simp add: unat_of_nat_u64)
      moreover have "(of_nat ?d :: u64) \<le> - 1" by simp
      ultimately show ?thesis by (subst unat_sub) simp_all
    qed
    then have q: "unat ((- 1 - of_nat ?d :: u64) div 10) = (2 ^ 64 - 1 - ?d) div 10" by (simp add: unat_div)
    have "10 * (n div 10) + ?d = n" by simp
    then have "10 * (n div 10) \<le> 2 ^ 64 - 1 - ?d" using 1(2) by linarith
    then have "10 * (n div 10) div 10 \<le> (2 ^ 64 - 1 - ?d) div 10" by (rule div_le_mono)
    then have "n div 10 \<le> (2 ^ 64 - 1 - ?d) div 10" by simp
    moreover have "unat (of_nat (n div 10) :: u64) = n div 10" using 1(2) by (intro unat_of_nat_u64) simp
    ultimately have "\<not> (- 1 - of_nat ?d) div 10 < (of_nat (n div 10) :: u64)"
      unfolding word_less_nat_alt q by simp
    moreover have "(of_nat (n div 10) * 10 + of_nat ?d :: u64) = of_nat n"
      by (metis div_mult_mod_eq of_nat_add of_nat_mult of_nat_numeral)
    ultimately show ?thesis
      using False 1 d by (subst decimal.simps) (simp add: u64_digits_append code_char_of)
  qed
qed

lemma parse_u64_to_string [simp]: "parse_u64 (to_string v) what = Inr v"
  using u64_digits_decimal [of "unat v"] decimal_digits [of "unat v"] unsigned_less [of v, where 'a = nat]
  by (simp add: parse_u64_def to_string_def)

lemma port_digits_decimal: "n \<le> 65535 \<Longrightarrow> port_digits t (decimal n) 0 = Inr (of_nat n)"
proof (induction n rule: decimal.induct)
  case (1 n)
  have small: "\<not> (65535 :: u64) < of_nat n" if "n \<le> 65535" for n
    using that by (simp add: word_less_nat_alt unat_of_nat_u64)
  show ?case
  proof (cases "n < 10")
    case True
    then show ?thesis using small [of n] by (subst decimal.simps) (simp add: code_char_of)
  next
    case False
    have "(of_nat (n div 10) * 10 + of_nat (n mod 10) :: u64) = of_nat n"
      by (metis div_mult_mod_eq of_nat_add of_nat_mult of_nat_numeral)
    then show ?thesis
      using False 1 small [of n] by (subst decimal.simps) (simp add: port_digits_append code_char_of)
  qed
qed

lemma parse_port_decimal:
  assumes "p \<noteq> 0"
  shows "parse_port (decimal (unat p)) = Inr p"
proof -
  have l: "unat p \<le> 65535" using unsigned_less [of p, where 'a = nat] by simp
  then have u: "unat (of_nat (unat p) :: u64) = unat p" by (intro unat_of_nat_u64) simp
  have "(of_nat (unat p) :: u64) \<noteq> 0" using u assms by (metis unat_0 unat_eq_zero)
  moreover have "ucast (of_nat (unat p) :: u64) = p"
    by simp (rule bit_word_eqI, auto simp: bit_simps)
  ultimately show ?thesis
    using port_digits_decimal [OF l] decimal_digits [of "unat p"] by (simp add: parse_port_def)
qed

lemma digits_notin: "\<not> is_digit c \<Longrightarrow> c \<notin> set (decimal n)"
  using decimal_digits [of n] by (auto simp: list_all_iff)

lemma not_digits: "\<not> is_digit (CHR ''-'')" "\<not> is_digit (CHR ''.'')" "\<not> is_digit (CHR ''&'')" "\<not> is_digit (CHR ''/'')"
  "\<not> is_digit (CHR ''?'')" "\<not> is_digit (CHR ''#'')" "\<not> is_digit (CHR '':'')"
  by (simp_all add: is_digit_def code_def)

lemma to_string_notin: "\<not> is_digit c \<Longrightarrow> c \<notin> set (to_string v)"
  by (simp add: to_string_def digits_notin)

subsection \<open>Ranges\<close>

definition time_ok :: "MsfTimeRange \<Rightarrow> bool" where
  "time_ok r \<longleftrightarrow> start_ms r \<le> value_or (end_ms r) (- 1)"

definition location_ok :: "MsfLocationRange \<Rightarrow> bool" where
  "location_ok r \<longleftrightarrow> location_start_key (mr_start r) \<le> location_end_key (mr_end r)"

lemma parse_format_time: "time_ok r \<Longrightarrow> parse_time_range (format_time_range r) what = Inr r"
  by (cases "end_ms r")
    (simp_all add: parse_time_range_def split_range_def format_time_range_def to_string_notin not_digits time_ok_def value_or_def)

lemma parse_format_location: "parse_location (format_location l) = Inr l"
  by (cases "ml_object_id l") (simp_all add: parse_location_def format_location_def to_string_notin not_digits)

lemma format_location_notin: "\<not> is_digit c \<Longrightarrow> c \<noteq> CHR ''.'' \<Longrightarrow> c \<notin> set (format_location l)"
  by (auto simp: format_location_def to_string_notin split: option.splits)

lemma parse_format_location_range: "location_ok r \<Longrightarrow> parse_location_range (format_location_range r) = Inr r"
  by (cases "mr_end r")
    (simp_all add: parse_location_range_def split_range_def format_location_range_def parse_format_location
      format_location_notin not_digits location_ok_def)

lemma parse_time_ok: "parse_time_range s what = Inr r \<Longrightarrow> time_ok r"
  by (auto simp: parse_time_range_def time_ok_def value_or_def split: option.splits if_splits)

lemma location_key_top: "k \<le> location_end_key None"
  by (cases k) (simp add: location_end_key_def)

lemma parse_location_ok: "parse_location_range s = Inr r \<Longrightarrow> location_ok r"
  by (auto simp: parse_location_range_def location_ok_def location_key_top not_less split: option.splits if_splits)

subsection \<open>Unions of ranges\<close>

text \<open>
  The interface of a merge step: ranges with a first and a last point; a range that starts after the last
  one ends is added behind it, any other extends it.
\<close>

locale range_merge =
  fixes lo hi :: "'r \<Rightarrow> 'k :: linorder" and merge :: "'r \<times> 'r list \<Rightarrow> 'r \<Rightarrow> 'r \<times> 'r list"
  assumes apart: "hi l < lo r \<Longrightarrow> merge (l, e) r = (r, l # e)"
    and extends: "\<not> hi l < lo r \<Longrightarrow> \<exists>l'. merge (l, e) r = (l', e) \<and> lo l' = lo l \<and> hi l' = max (hi l) (hi r)"
begin

definition points :: "'r list \<Rightarrow> 'k set" where
  "points rs = (\<Union>r \<in> set rs. {lo r..hi r})"

definition separated :: "'r list \<Rightarrow> bool" where
  "separated rs \<longleftrightarrow> sorted_wrt (\<lambda>a b. hi a < lo b) rs \<and> list_all (\<lambda>r. lo r \<le> hi r) rs"

definition union_of :: "'r list \<Rightarrow> 'r list" where
  "union_of rs = (let rs = sort_key (\<lambda>r. (lo r, hi r)) rs; merged = foldl merge (hd rs, []) (tl rs) in
     rev (fst merged # snd merged))"

lemma points_append [simp]: "points (a @ b) = points a \<union> points b"
  by (simp add: points_def)

lemma points_Cons [simp]: "points (r # rs) = {lo r..hi r} \<union> points rs"
  by (simp add: points_def)

lemma points_rev [simp]: "points (rev rs) = points rs"
  by (simp add: points_def)

lemma fold_merge:
  assumes "sorted (map lo (l # rs))" and "list_all (\<lambda>r. lo r \<le> hi r) rs" and "separated (rev e @ [l])"
  shows "points (rev (fst (foldl merge (l, e) rs) # snd (foldl merge (l, e) rs))) = points (rev e @ l # rs) \<and>
     separated (rev (fst (foldl merge (l, e) rs) # snd (foldl merge (l, e) rs)))"
  using assms
proof (induction rs arbitrary: l e)
  case (Cons r rs)
  have r: "lo l \<le> lo r" "lo r \<le> hi r" "\<forall>x \<in> set rs. lo r \<le> lo x" using Cons.prems(1,2) by auto
  show ?case
  proof (cases "hi l < lo r")
    case True
    have "\<forall>x \<in> set e. hi x < lo r"
      using Cons.prems(3) r(1) by (auto simp: separated_def sorted_wrt_append intro: order.strict_trans2)
    then have "separated (rev (l # e) @ [r])"
      using Cons.prems(3) True r(2) by (auto simp: separated_def sorted_wrt_append)
    then show ?thesis using Cons.IH [of r "l # e"] Cons.prems apart [OF True] by simp
  next
    case False
    then obtain l' where l': "merge (l, e) r = (l', e)" "lo l' = lo l" "hi l' = max (hi l) (hi r)"
      using extends by blast
    have "separated (rev e @ [l'])" "sorted (map lo (l' # rs))"
      using Cons.prems(1,3) l'(2,3) r(1) by (auto simp: separated_def sorted_wrt_append le_max_iff_disj)
    moreover have "{lo l..hi l} \<union> {lo r..hi r} = {lo l'..hi l'}"
      using False r(1,2) unfolding l'(2,3) by (auto simp: max_def)
    ultimately show ?thesis using Cons.IH [of l' e] Cons.prems(2) l'(1) by (simp add: Un_assoc [symmetric])
  qed
qed simp

lemma union_of_points:
  assumes "rs \<noteq> []" and "list_all (\<lambda>r. lo r \<le> hi r) rs"
  shows "points (union_of rs) = points rs" and "separated (union_of rs)"
proof -
  let ?rs = "sort_key (\<lambda>r. (lo r, hi r)) rs"
  have set: "set ?rs = set rs" by simp
  then obtain l ls where ls: "?rs = l # ls" using assms(1) by (cases ?rs) auto
  have "sorted (map (\<lambda>r. (lo r, hi r)) ?rs)" by simp
  then have "sorted (map lo ?rs)" unfolding sorted_map by (rule sorted_wrt_mono_rel [rotated]) (auto simp: less_eq_prod_def)
  moreover have "list_all (\<lambda>r. lo r \<le> hi r) ?rs" using assms(2) by (simp add: list_all_iff)
  ultimately have "points (union_of rs) = points ?rs \<and> separated (union_of rs)"
    using fold_merge [of l ls "[]"] by (auto simp: union_of_def Let_def ls separated_def)
  moreover have "points ?rs = points rs" by (simp add: points_def)
  ultimately show "points (union_of rs) = points rs" "separated (union_of rs)" by simp_all
qed

lemma merge_separated:
  "sorted_wrt (\<lambda>a b. hi a < lo b) (l # rs) \<Longrightarrow> rev (fst (foldl merge (l, e) rs) # snd (foldl merge (l, e) rs)) = rev e @ l # rs"
proof (induction rs arbitrary: l e)
  case (Cons r rs)
  then show ?case using apart [of l r e] by simp
qed simp

lemma union_of_separated: "separated rs \<Longrightarrow> rs \<noteq> [] \<Longrightarrow> union_of rs = rs"
proof -
  assume s: "separated rs" "rs \<noteq> []"
  have "sorted_wrt (\<lambda>a b. lo a < lo b) rs"
    using s(1) unfolding separated_def list_all_iff
    by (auto intro: sorted_wrt_mono_rel [where P = "\<lambda>a b. hi a < lo b"] order.strict_trans1)
  then have "sorted (map (\<lambda>r. (lo r, hi r)) rs)"
    unfolding sorted_map by (rule sorted_wrt_mono_rel [rotated]) auto
  then have "sort_key (\<lambda>r. (lo r, hi r)) rs = rs" by (rule sort_key_id_if_sorted)
  moreover obtain l ls where "rs = l # ls" using s(2) by (cases rs) auto
  ultimately show ?thesis using merge_separated [of l ls "[]"] s(1) by (simp add: union_of_def Let_def separated_def)
qed

end

interpretation times: range_merge start_ms "\<lambda>r. value_or (end_ms r) (- 1)" merge_time
proof
  fix l r :: MsfTimeRange and e
  show "value_or (end_ms l) (- 1) < start_ms r \<Longrightarrow> merge_time (l, e) r = (r, l # e)" by (simp add: merge_time_def)
  show "\<not> value_or (end_ms l) (- 1) < start_ms r \<Longrightarrow> \<exists>l'. merge_time (l, e) r = (l', e) \<and> start_ms l' = start_ms l \<and>
      value_or (end_ms l') (- 1) = max (value_or (end_ms l) (- 1)) (value_or (end_ms r) (- 1))"
    by (simp add: merge_time_def Let_def value_or_def split: option.split)
qed

interpretation locations: range_merge "\<lambda>r. location_start_key (mr_start r)" "\<lambda>r. location_end_key (mr_end r)" merge_location
proof
  fix l r :: MsfLocationRange and e
  show "location_end_key (mr_end l) < location_start_key (mr_start r) \<Longrightarrow> merge_location (l, e) r = (r, l # e)"
    by (simp add: merge_location_def)
  show "\<not> location_end_key (mr_end l) < location_start_key (mr_start r) \<Longrightarrow>
      \<exists>l'. merge_location (l, e) r = (l', e) \<and> location_start_key (mr_start l') = location_start_key (mr_start l) \<and>
        location_end_key (mr_end l') = max (location_end_key (mr_end l)) (location_end_key (mr_end r))"
  proof -
    assume n: "\<not> location_end_key (mr_end l) < location_start_key (mr_start r)"
    have top: "fst k = - 1 \<Longrightarrow> snd k = - 1 \<Longrightarrow> location_end_key None = k" for k :: "u64 \<times> u64"
      by (cases k) (simp add: location_end_key_def)
    show ?thesis
      using n top [of "location_end_key (mr_end r)"] linear [of "location_end_key (mr_end r)" "location_end_key (mr_end l)"]
      by (auto simp: merge_location_def Let_def max_def)
  qed
qed

lemma union_time_ranges_eq: "union_time_ranges rs = (if length rs \<le> 1 then rs else times.union_of rs)"
proof -
  have k: "time_key = (\<lambda>r. (start_ms r, value_or (end_ms r) (- 1)))" by (rule ext) (simp add: time_key_def)
  show ?thesis by (simp only: union_time_ranges_def times.union_of_def k)
qed

lemma union_location_ranges_eq: "union_location_ranges rs = (if length rs \<le> 1 then rs else locations.union_of rs)"
proof -
  have k: "location_range_key = (\<lambda>r. (location_start_key (mr_start r), location_end_key (mr_end r)))"
    by (rule ext) (simp add: location_range_key_def)
  show ?thesis by (simp only: union_location_ranges_def locations.union_of_def k)
qed

lemma union_time_separated: "list_all time_ok rs \<Longrightarrow> times.separated (union_time_ranges rs)"
proof -
  assume ok: "list_all time_ok rs"
  then have ok': "list_all (\<lambda>r. start_ms r \<le> value_or (end_ms r) (- 1)) rs" by (simp add: list_all_iff time_ok_def)
  show ?thesis
  proof (cases "length rs \<le> 1")
    case True
    with ok' show ?thesis by (cases rs) (simp_all add: union_time_ranges_def times.separated_def)
  next
    case False
    then have "rs \<noteq> []" by auto
    with False ok' show ?thesis by (simp add: union_time_ranges_eq times.union_of_points)
  qed
qed

lemma union_location_separated: "list_all location_ok rs \<Longrightarrow> locations.separated (union_location_ranges rs)"
proof -
  assume ok: "list_all location_ok rs"
  then have ok': "list_all (\<lambda>r. location_start_key (mr_start r) \<le> location_end_key (mr_end r)) rs"
    by (simp add: list_all_iff location_ok_def)
  show ?thesis
  proof (cases "length rs \<le> 1")
    case True
    with ok' show ?thesis by (cases rs) (simp_all add: union_location_ranges_def locations.separated_def)
  next
    case False
    then have "rs \<noteq> []" by auto
    with False ok' show ?thesis by (simp add: union_location_ranges_eq locations.union_of_points)
  qed
qed

lemma union_time_id: "times.separated rs \<Longrightarrow> union_time_ranges rs = rs"
  by (cases rs) (simp_all add: union_time_ranges_eq times.union_of_separated)

lemma union_location_id: "locations.separated rs \<Longrightarrow> union_location_ranges rs = rs"
  by (cases rs) (simp_all add: union_location_ranges_eq locations.union_of_separated)

lemma separated_time_ok: "times.separated rs \<Longrightarrow> list_all time_ok rs"
  by (simp add: times.separated_def list_all_iff time_ok_def)

lemma separated_location_ok: "locations.separated rs \<Longrightarrow> list_all location_ok rs"
  by (simp add: locations.separated_def list_all_iff location_ok_def)

subsection \<open>Parameters\<close>

definition reserved :: "string \<Rightarrow> bool" where
  "reserved name \<longleftrightarrow> name \<in> {''connection'', ''c4m'', ''wallclock-range'', ''mediatime-range'', ''location-range''}"

definition parameter_ok :: "string \<times> string \<Rightarrow> bool" where
  "parameter_ok p \<longleftrightarrow> fst p \<noteq> [] \<and> CHR ''='' \<notin> set (fst p) \<and> CHR ''&'' \<notin> set (fst p) \<and> CHR ''&'' \<notin> set (snd p)"

definition url_ok :: "MsfUrl \<Rightarrow> bool" where
  "url_ok url \<longleftrightarrow>
     mu_host url \<noteq> [] \<and> {CHR ''#'', CHR ''?'', CHR ''/'', CHR '':''} \<inter> set (mu_host url) = {} \<and> mu_port url \<noteq> 0 \<and>
     (if mu_path_explicit url then mu_path url \<noteq> [] \<and> hd (mu_path url) = CHR ''/'' \<and> {CHR ''#'', CHR ''?''} \<inter> set (mu_path url) = {}
      else mu_path url = ''/'') \<and>
     CHR ''#'' \<notin> set (mu_query url) \<and> track_ok (mu_track url) \<and>
     list_all time_ok (mu_wallclock_ranges url) \<and> list_all time_ok (mu_mediatime_ranges url) \<and>
     list_all location_ok (mu_location_ranges url) \<and>
     list_all (\<lambda>p. parameter_ok p \<and> \<not> reserved (fst p)) (mu_extra_params url) \<and>
     (\<forall>token. mu_c4m_token url = Some token \<longrightarrow> CHR ''&'' \<notin> set token)"

definition ranges_united :: "MsfUrl \<Rightarrow> bool" where
  "ranges_united url \<longleftrightarrow> times.separated (mu_wallclock_ranges url) \<and> times.separated (mu_mediatime_ranges url) \<and>
     locations.separated (mu_location_ranges url)"

text \<open>The parameters of a URL in the order in which they are written.\<close>

definition connection_params :: "ConnectionRequirement \<Rightarrow> (string \<times> string) list" where
  "connection_params connection = (case connection of RawQuic \<Rightarrow> [(''connection'', ''q'')]
     | WebTransport \<Rightarrow> [(''connection'', ''wt'')] | AnyConnection \<Rightarrow> [])"

definition url_params :: "MsfUrl \<Rightarrow> (string \<times> string) list" where
  "url_params url = connection_params (mu_connection url) @
     map (\<lambda>r. (''wallclock-range'', format_time_range r)) (mu_wallclock_ranges url) @
     map (\<lambda>r. (''mediatime-range'', format_time_range r)) (mu_mediatime_ranges url) @
     map (\<lambda>r. (''location-range'', format_location_range r)) (mu_location_ranges url) @
     mu_extra_params url @ (case mu_c4m_token url of None \<Rightarrow> [] | Some token \<Rightarrow> [(''c4m'', token)])"

definition params_text :: "(string \<times> string) list \<Rightarrow> string" where
  "params_text ps = concat (map (\<lambda>(name, val). ''&'' @ name @ ''='' @ val) ps)"

fun apply_params :: "(string \<times> string) list \<Rightarrow> MsfUrl \<Rightarrow> exn + MsfUrl" where
  "apply_params [] url = Inr url"
| "apply_params ((name, val) # ps) url = bindE (fragment_parameter name val url) (apply_params ps)"

lemma apply_params_append: "apply_params (ps @ qs) url = bindE (apply_params ps url) (apply_params qs)"
  by (induction ps url rule: apply_params.induct) (simp_all add: bindE_def split: sum.split)

lemma parse_params:
  "list_all parameter_ok (p # ps) \<Longrightarrow>
     parse_fragment_parameters (tl (params_text (p # ps))) url = apply_params (p # ps) url"
proof (induction ps arbitrary: p url)
  case Nil
  obtain name val where p: "p = (name, val)" by (cases p)
  have ok: "name \<noteq> []" "CHR ''='' \<notin> set name" "CHR ''&'' \<notin> set (name @ CHR ''='' # val)"
    using Nil by (auto simp: p parameter_ok_def)
  have "parse_fragment_parameters (name @ CHR ''='' # val) url = apply_params [(name, val)] url"
    using ok by (subst parse_fragment_parameters.simps) (simp add: bindE_def split: sum.split)
  then show ?case by (simp add: p params_text_def)
next
  case (Cons q ps)
  obtain name val where p: "p = (name, val)" by (cases p)
  have ok: "name \<noteq> []" "CHR ''='' \<notin> set name" "CHR ''&'' \<notin> set (name @ CHR ''='' # val)"
    using Cons.prems by (auto simp: p parameter_ok_def)
  let ?rest = "tl (params_text (q # ps))"
  have t: "tl (params_text (p # q # ps)) = (name @ CHR ''='' # val) @ CHR ''&'' # ?rest"
    by (cases q) (simp add: p params_text_def)
  have c: "cut (CHR ''&'') ((name @ CHR ''='' # val) @ CHR ''&'' # ?rest) = (name @ CHR ''='' # val, Some ?rest)"
    using ok(3) by (rule cut_at)
  have "parse_fragment_parameters ((name @ CHR ''='' # val) @ CHR ''&'' # ?rest) url =
      bindE (fragment_parameter name val url) (parse_fragment_parameters ?rest)"
    using ok by (subst parse_fragment_parameters.simps) (simp only: c prod.case, simp)
  then show ?case using Cons.IH [of q] Cons.prems unfolding t by (simp add: p bindE_def split: sum.split)
qed

lemma time_params:
  "list_all time_ok rs \<Longrightarrow> apply_params (map (\<lambda>r. (''wallclock-range'', format_time_range r)) rs) url =
     Inr (url\<lparr>mu_wallclock_ranges := mu_wallclock_ranges url @ rs\<rparr>)"
  "list_all time_ok rs \<Longrightarrow> apply_params (map (\<lambda>r. (''mediatime-range'', format_time_range r)) rs) url =
     Inr (url\<lparr>mu_mediatime_ranges := mu_mediatime_ranges url @ rs\<rparr>)"
  by (induction rs arbitrary: url) (simp_all add: fragment_parameter_def parse_format_time)

lemma location_params:
  "list_all location_ok rs \<Longrightarrow> apply_params (map (\<lambda>r. (''location-range'', format_location_range r)) rs) url =
     Inr (url\<lparr>mu_location_ranges := mu_location_ranges url @ rs\<rparr>)"
  by (induction rs arbitrary: url) (simp_all add: fragment_parameter_def parse_format_location_range)

lemma extra_params:
  "list_all (\<lambda>p. \<not> reserved (fst p)) ps \<Longrightarrow> apply_params ps url = Inr (url\<lparr>mu_extra_params := mu_extra_params url @ ps\<rparr>)"
  by (induction ps url rule: apply_params.induct) (simp_all add: fragment_parameter_def reserved_def)

lemma apply_url_params:
  assumes "url_ok url" and "mu_connection u = AnyConnection" and "mu_c4m_token u = None" and "mu_wallclock_ranges u = []"
    and "mu_mediatime_ranges u = []" and "mu_location_ranges u = []" and "mu_extra_params u = []"
  shows "apply_params (url_params url) u = Inr (u\<lparr>mu_connection := mu_connection url, mu_c4m_token := mu_c4m_token url,
    mu_wallclock_ranges := mu_wallclock_ranges url, mu_mediatime_ranges := mu_mediatime_ranges url,
    mu_location_ranges := mu_location_ranges url, mu_extra_params := mu_extra_params url\<rparr>)"
proof -
  have ok: "list_all time_ok (mu_wallclock_ranges url)" "list_all time_ok (mu_mediatime_ranges url)"
    "list_all location_ok (mu_location_ranges url)" "list_all (\<lambda>p. \<not> reserved (fst p)) (mu_extra_params url)"
    using assms(1) by (auto simp: url_ok_def list_all_iff)
  have c: "apply_params (connection_params (mu_connection url)) u = Inr (u\<lparr>mu_connection := mu_connection url\<rparr>)"
    using assms(2) by (cases "mu_connection url") (simp_all add: connection_params_def fragment_parameter_def)
  have t: "apply_params (case mu_c4m_token url of None \<Rightarrow> [] | Some token \<Rightarrow> [(''c4m'', token)]) v =
      Inr (v\<lparr>mu_c4m_token := mu_c4m_token url\<rparr>)" if "mu_c4m_token v = None" for v
    using that by (cases "mu_c4m_token url") (simp_all add: fragment_parameter_def)
  show ?thesis
    unfolding url_params_def using assms(2-)
    by (simp add: apply_params_append c time_params [OF ok(1)] time_params [OF ok(2)] location_params [OF ok(3)]
        extra_params [OF ok(4)] t)
qed

lemma format_time_notin: "\<not> is_digit c \<Longrightarrow> c \<noteq> CHR ''-'' \<Longrightarrow> c \<notin> set (format_time_range r)"
  by (auto simp: format_time_range_def to_string_notin split: option.splits)

lemma format_location_range_notin:
  "\<not> is_digit c \<Longrightarrow> c \<noteq> CHR ''-'' \<Longrightarrow> c \<noteq> CHR ''.'' \<Longrightarrow> c \<notin> set (format_location_range r)"
  by (auto simp: format_location_range_def format_location_notin split: option.splits)

lemma url_params_ok: "url_ok url \<Longrightarrow> list_all parameter_ok (url_params url)"
  by (auto simp: url_params_def url_ok_def list_all_iff connection_params_def parameter_ok_def format_time_notin
      format_location_range_notin not_digits split: ConnectionRequirement.splits option.splits)

lemma url_ok_updates:
  "url_ok url \<Longrightarrow> url_ok (url\<lparr>mu_connection := connection\<rparr>)"
  "url_ok url \<Longrightarrow> CHR ''&'' \<notin> set val \<Longrightarrow> url_ok (url\<lparr>mu_c4m_token := Some val\<rparr>)"
  "url_ok url \<Longrightarrow> time_ok r \<Longrightarrow> url_ok (url\<lparr>mu_wallclock_ranges := mu_wallclock_ranges url @ [r]\<rparr>)"
  "url_ok url \<Longrightarrow> time_ok r \<Longrightarrow> url_ok (url\<lparr>mu_mediatime_ranges := mu_mediatime_ranges url @ [r]\<rparr>)"
  "url_ok url \<Longrightarrow> location_ok l \<Longrightarrow> url_ok (url\<lparr>mu_location_ranges := mu_location_ranges url @ [l]\<rparr>)"
  "url_ok url \<Longrightarrow> parameter_ok (name, val) \<Longrightarrow> \<not> reserved name \<Longrightarrow>
     url_ok (url\<lparr>mu_extra_params := mu_extra_params url @ [(name, val)]\<rparr>)"
  by (simp_all add: url_ok_def)

lemma fragment_parameter_ok:
  assumes "fragment_parameter name val url = Inr url'" and "url_ok url" and "parameter_ok (name, val)"
  shows "url_ok url'"
proof (cases "reserved name")
  case True
  have amp: "CHR ''&'' \<notin> set val" using assms(3) by (simp add: parameter_ok_def)
  from True have "name = ''connection'' \<or> name = ''c4m'' \<or> name = ''wallclock-range'' \<or> name = ''mediatime-range'' \<or>
    name = ''location-range''"
    unfolding reserved_def insert_iff empty_iff by simp
  then show ?thesis
  proof (elim disjE)
    assume "name = ''connection''"
    then obtain connection where "url' = url\<lparr>mu_connection := connection\<rparr>"
      using assms(1) by (simp add: fragment_parameter_def split: if_splits) blast+
    then show ?thesis using url_ok_updates(1) [OF assms(2)] by simp
  next
    assume "name = ''c4m''"
    then have "url' = url\<lparr>mu_c4m_token := Some val\<rparr>" using assms(1) by (simp add: fragment_parameter_def split: if_splits)
    then show ?thesis using url_ok_updates(2) [OF assms(2) amp] by simp
  next
    assume "name = ''wallclock-range''"
    then obtain r where "parse_time_range val ''wallclock-range'' = Inr r"
      "url' = url\<lparr>mu_wallclock_ranges := mu_wallclock_ranges url @ [r]\<rparr>"
      using assms(1) by (simp add: fragment_parameter_def) blast
    then show ?thesis using url_ok_updates(3) [OF assms(2)] parse_time_ok by simp
  next
    assume "name = ''mediatime-range''"
    then obtain r where "parse_time_range val ''mediatime-range'' = Inr r"
      "url' = url\<lparr>mu_mediatime_ranges := mu_mediatime_ranges url @ [r]\<rparr>"
      using assms(1) by (simp add: fragment_parameter_def) blast
    then show ?thesis using url_ok_updates(4) [OF assms(2)] parse_time_ok by simp
  next
    assume "name = ''location-range''"
    then obtain r where "parse_location_range val = Inr r"
      "url' = url\<lparr>mu_location_ranges := mu_location_ranges url @ [r]\<rparr>"
      using assms(1) by (simp add: fragment_parameter_def) blast
    then show ?thesis using url_ok_updates(5) [OF assms(2)] parse_location_ok by simp
  qed
next
  case False
  then have "url' = url\<lparr>mu_extra_params := mu_extra_params url @ [(name, val)]\<rparr>"
    using assms(1) by (auto simp: fragment_parameter_def reserved_def split: if_splits)
  then show ?thesis using url_ok_updates(6) [OF assms(2,3) False] by simp
qed

lemma parse_params_ok: "parse_fragment_parameters s url = Inr url' \<Longrightarrow> url_ok url \<Longrightarrow> url_ok url'"
proof (induction s url arbitrary: url' rule: parse_fragment_parameters.induct)
  case (1 s url)
  obtain parameter rest where c: "cut (CHR ''&'') s = (parameter, rest)" by (cases "cut (CHR ''&'') s")
  have amp: "CHR ''&'' \<notin> set parameter" using c by (cases rest) (auto dest: cut_SomeD cut_NoneD)
  have p: "parameter \<noteq> []" using 1(2) c by (subst (asm) parse_fragment_parameters.simps) (auto split: if_splits)
  obtain name val where e: "cut (CHR ''='') parameter = (name, Some val)"
    using 1(2) c p by (subst (asm) parse_fragment_parameters.simps) (auto split: prod.splits option.splits)
  have n: "name \<noteq> []" using 1(2) c p e by (subst (asm) parse_fragment_parameters.simps) (auto split: if_splits)
  have "parameter_ok (name, val)"
    using cut_SomeD [OF e] amp n by (auto simp: parameter_ok_def)
  moreover obtain u where u: "fragment_parameter name val url = Inr u"
    and r: "(case rest of None \<Rightarrow> Inr u | Some rest \<Rightarrow> parse_fragment_parameters rest u) = Inr url'"
    using 1(2) c p e n by (subst (asm) parse_fragment_parameters.simps) auto
  ultimately have ok: "url_ok u" using fragment_parameter_ok 1(3) by blast
  show ?case
  proof (cases rest)
    case None
    with r ok show ?thesis by simp
  next
    case (Some rest')
    then show ?thesis using 1(1) [OF c [symmetric] p e [symmetric] refl n u Some] r ok by simp
  qed
qed

subsection \<open>URLs\<close>

lemma parse_authority_ok:
  assumes "parse_authority authority url = Inr url'" and "{CHR ''#'', CHR ''?'', CHR ''/''} \<inter> set authority = {}"
    and "mu_port url = 443"
  shows "\<exists>host port. url' = url\<lparr>mu_host := host, mu_port := port\<rparr> \<and> host \<noteq> [] \<and> port \<noteq> 0 \<and>
    {CHR ''#'', CHR ''?'', CHR ''/'', CHR '':''} \<inter> set host = {}"
proof -
  have ne: "authority \<noteq> []" using assms(1) by (auto simp: parse_authority_def split: if_splits)
  obtain host port where c: "cut (CHR '':'') authority = (host, port)" by (cases "cut (CHR '':'') authority")
  show ?thesis
  proof (cases port)
    case None
    then have "url' = url\<lparr>mu_host := authority, mu_port := 443\<rparr>" "CHR '':'' \<notin> set authority"
      using assms(1,3) c ne cut_NoneD [of "CHR '':''" authority host] by (auto simp: parse_authority_def split: if_splits)
    then show ?thesis using assms(2) ne by (intro exI [of _ authority] exI [of _ "443 :: u16"]) auto
  next
    case (Some p)
    then have h: "authority = host @ CHR '':'' # p" "CHR '':'' \<notin> set host" using c cut_SomeD by blast+
    obtain v where v: "parse_port p = Inr v" "url' = url\<lparr>mu_host := host, mu_port := v\<rparr>" "host \<noteq> []"
      using assms(1) c Some ne by (auto simp: parse_authority_def split: if_splits)
    obtain n where "port_digits p p 0 = Inr n" "n \<noteq> 0" "v = ucast n"
      using v(1) by (auto simp: parse_port_def split: if_splits)
    moreover have "n \<le> 65535" if "port_digits t s m = Inr n" "m \<le> 65535" for t s m
      using that by (induction s arbitrary: m) (auto simp: Let_def not_less split: if_splits)
    ultimately have "n \<le> 65535" "n \<noteq> 0" "v = ucast n" by auto
    then have "unat n \<le> 65535" "unat n \<noteq> 0" by (simp_all add: word_le_nat_alt unat_eq_zero)
    then have "unat v \<noteq> 0" using \<open>v = ucast n\<close> by (simp add: unsigned_ucast_eq take_bit_eq_mod)
    then have "v \<noteq> 0" by auto
    then show ?thesis using v(2,3) h assms(2) by (intro exI [of _ host] exI [of _ v]) auto
  qed
qed

lemma parse_msf_url_ok: "parse_msf_url s = Inr url \<Longrightarrow> url_ok url \<and> ranges_united url"
proof -
  assume h: "parse_msf_url s = Inr url"
  obtain before fragment where b: "cut (CHR ''#'') (drop 7 s) = (before, Some fragment)"
    using h by (auto simp: parse_msf_url_def split: if_splits prod.splits option.splits)
  obtain u1 b1 where q: "parse_query before new_url = (u1, b1)" by (cases "parse_query before new_url")
  obtain u2 b2 where p: "parse_path b1 u1 = (u2, b2)" by (cases "parse_path b1 u1")
  obtain u3 where a: "parse_authority b2 u2 = Inr u3" and f: "parse_fragment fragment u3 = Inr url"
    using h b q p by (auto simp: parse_msf_url_def split: if_splits)
  have before: "CHR ''#'' \<notin> set before" using cut_SomeD [OF b] by blast
  have q': "CHR ''?'' \<notin> set b1 \<and> CHR ''#'' \<notin> set b1 \<and> (\<exists>query. u1 = new_url\<lparr>mu_query := query\<rparr> \<and> CHR ''#'' \<notin> set query)"
  proof (cases "cut (CHR ''?'') before")
    case (Pair x y)
    show ?thesis
    proof (cases y)
      case None
      then have "u1 = new_url\<lparr>mu_query := []\<rparr>" "b1 = before" using q Pair by (auto simp: parse_query_def new_url_def)
      then show ?thesis using before cut_NoneD [OF Pair [unfolded None]] by auto
    next
      case (Some query)
      then show ?thesis using q Pair before cut_SomeD [OF Pair [unfolded Some]] by (auto simp: parse_query_def)
    qed
  qed
  then obtain query where query: "u1 = new_url\<lparr>mu_query := query\<rparr>" "CHR ''#'' \<notin> set query" by blast
  have p': "{CHR ''#'', CHR ''?'', CHR ''/''} \<inter> set b2 = {} \<and>
     (u2 = u1 \<or> (\<exists>rest. u2 = u1\<lparr>mu_path := CHR ''/'' # rest, mu_path_explicit := True\<rparr> \<and> {CHR ''#'', CHR ''?''} \<inter> set rest = {}))"
  proof (cases "cut (CHR ''/'') b1")
    case (Pair x y)
    show ?thesis
    proof (cases y)
      case None
      then show ?thesis using p Pair q' cut_NoneD [OF Pair [unfolded None]] by (auto simp: parse_path_def)
    next
      case (Some rest)
      then show ?thesis using p Pair q' cut_SomeD [OF Pair [unfolded Some]] by (auto simp: parse_path_def)
    qed
  qed
  have port: "mu_port u2 = 443" using p' query by (auto simp: new_url_def)
  obtain host port where u3: "u3 = u2\<lparr>mu_host := host, mu_port := port\<rparr>" "host \<noteq> []" "port \<noteq> 0"
    "{CHR ''#'', CHR ''?'', CHR ''/'', CHR '':''} \<inter> set host = {}"
    using parse_authority_ok [OF a _ port] p' by blast
  obtain track_part parameters where c: "cut (CHR ''&'') (drop 4 fragment) = (track_part, parameters)"
    by (cases "cut (CHR ''&'') (drop 4 fragment)")
  obtain track u4 where t: "decode_namespace_name track_part = Inr track"
    and u4: "(case parameters of None \<Rightarrow> Inr (u3\<lparr>mu_track := track\<rparr>)
       | Some ps \<Rightarrow> parse_fragment_parameters ps (u3\<lparr>mu_track := track\<rparr>)) = Inr u4"
    and url: "url = u4\<lparr>mu_wallclock_ranges := union_time_ranges (mu_wallclock_ranges u4),
       mu_mediatime_ranges := union_time_ranges (mu_mediatime_ranges u4),
       mu_location_ranges := union_location_ranges (mu_location_ranges u4)\<rparr>"
    using f c by (auto simp: parse_fragment_def split: if_splits)
  have "url_ok (u3\<lparr>mu_track := track\<rparr>)"
    using u3 p' query decode_track_ok [OF t] unfolding url_ok_def by (elim conjE disjE exE) (simp_all add: new_url_def)
  then have ok: "url_ok u4" using u4 parse_params_ok by (cases parameters) auto
  then have sep: "times.separated (mu_wallclock_ranges url)" "times.separated (mu_mediatime_ranges url)"
    "locations.separated (mu_location_ranges url)"
    by (simp_all add: url url_ok_def union_time_separated union_location_separated)
  then have "ranges_united url" by (simp add: ranges_united_def)
  moreover have "url_ok url"
    using ok separated_time_ok [OF sep(1)] separated_time_ok [OF sep(2)] separated_location_ok [OF sep(3)]
    by (simp add: url url_ok_def)
  ultimately show ?thesis by blast
qed

definition authority_text :: "MsfUrl \<Rightarrow> string" where
  "authority_text url = mu_host url @ (if mu_port url \<noteq> 443 then '':'' @ decimal (unat (mu_port url)) else [])"

lemma build_text:
  assumes "url_ok url"
  shows "build_msf_url url = Inr (''moqt://'' @ (authority_text url @ (if mu_path_explicit url then mu_path url else []) @
    (if mu_query url \<noteq> [] then ''?'' @ mu_query url else [])) @ CHR ''#'' # ''msf:'' @ track_text (mu_track url) @ params_text (url_params url))"
proof -
  have "connection_parameter connection = params_text (connection_params connection)" for connection
    by (cases connection) (simp_all add: connection_parameter_def connection_params_def params_text_def)
  moreover have "(case token of None \<Rightarrow> [] | Some t \<Rightarrow> ''&c4m='' @ t) =
      params_text (case token of None \<Rightarrow> [] | Some t \<Rightarrow> [(''c4m'', t)])" for token
    by (cases token) (simp_all add: params_text_def)
  moreover have "mu_host url \<noteq> []" "CHR ''#'' \<notin> set (mu_host url)" "\<not> (mu_path_explicit url \<and> CHR ''#'' \<in> set (mu_path url))"
    "track_ok (mu_track url)"
    using assms by (auto simp: url_ok_def)
  ultimately show ?thesis
    by (simp add: build_msf_url_def encode_namespace_name_text authority_text_def url_params_def params_text_def comp_def)
qed

lemma authority_notin:
  "url_ok url \<Longrightarrow> c \<in> {CHR ''#'', CHR ''?'', CHR ''/''} \<Longrightarrow> c \<notin> set (authority_text url)"
  using digits_notin [of c "unat (mu_port url)"] not_digits by (auto simp: authority_text_def url_ok_def)

lemma parse_authority_text:
  assumes "url_ok url" and "mu_port u = 443"
  shows "parse_authority (authority_text url) u = Inr (u\<lparr>mu_host := mu_host url, mu_port := mu_port url\<rparr>)"
proof -
  have h: "mu_host url \<noteq> []" "CHR '':'' \<notin> set (mu_host url)" "mu_port url \<noteq> 0" using assms(1) by (auto simp: url_ok_def)
  show ?thesis
  proof (cases "mu_port url = 443")
    case True
    then have "u\<lparr>mu_host := mu_host url\<rparr> = u\<lparr>mu_host := mu_host url, mu_port := mu_port url\<rparr>" using assms(2) by (cases u) simp
    with True h show ?thesis by (simp add: parse_authority_def authority_text_def)
  next
    case False
    then show ?thesis using h by (simp add: parse_authority_def authority_text_def parse_port_decimal)
  qed
qed

lemma build_parse:
  assumes "url_ok url" and "ranges_united url"
  shows "\<exists>s. build_msf_url url = Inr s \<and> parse_msf_url s = Inr url"
proof -
  let ?path = "if mu_path_explicit url then mu_path url else []"
  let ?query = "if mu_query url \<noteq> [] then ''?'' @ mu_query url else []"
  let ?before = "authority_text url @ ?path @ ?query"
  let ?fragment = "''msf:'' @ track_text (mu_track url) @ params_text (url_params url)"
  have path: "if mu_path_explicit url then \<exists>rest. mu_path url = CHR ''/'' # rest \<and> {CHR ''#'', CHR ''?''} \<inter> set rest = {}
      else mu_path url = ''/''"
    using assms(1) by (cases "mu_path url") (auto simp: url_ok_def split: if_splits)
  have before: "CHR ''#'' \<notin> set ?before"
    using assms(1) authority_notin [OF assms(1), of "CHR ''#''"] by (auto simp: url_ok_def)
  have c1: "cut (CHR ''#'') (drop 7 (''moqt://'' @ ?before @ CHR ''#'' # ?fragment)) = (?before, Some ?fragment)"
    using cut_at [OF before, of ?fragment] by simp
  have np: "CHR ''?'' \<notin> set (authority_text url @ ?path)"
    using authority_notin [OF assms(1), of "CHR ''?''"] path by (auto split: if_splits)
  have c2: "parse_query ?before new_url = (new_url\<lparr>mu_query := mu_query url\<rparr>, authority_text url @ ?path)"
  proof (cases "mu_query url = []")
    case True
    then show ?thesis using cut_none [OF np] by (simp add: parse_query_def new_url_def)
  next
    case False
    then have "?before = (authority_text url @ ?path) @ CHR ''?'' # mu_query url" by simp
    then show ?thesis using cut_at [OF np, of "mu_query url"] by (simp add: parse_query_def)
  qed
  have na: "CHR ''/'' \<notin> set (authority_text url)" using authority_notin [OF assms(1)] by simp
  let ?u2 = "new_url\<lparr>mu_query := mu_query url, mu_path := mu_path url, mu_path_explicit := mu_path_explicit url\<rparr>"
  have c3: "parse_path (authority_text url @ ?path) (new_url\<lparr>mu_query := mu_query url\<rparr>) = (?u2, authority_text url)"
    using path na cut_none [OF na] cut_at [OF na]
    by (cases "mu_path_explicit url") (auto simp: parse_path_def new_url_def)
  have c4: "parse_authority (authority_text url) ?u2 = Inr (?u2\<lparr>mu_host := mu_host url, mu_port := mu_port url\<rparr>)"
    by (rule parse_authority_text [OF assms(1)]) (simp add: new_url_def)
  let ?u3 = "?u2\<lparr>mu_host := mu_host url, mu_port := mu_port url, mu_track := mu_track url\<rparr>"
  have t: "track_ok (mu_track url)" using assms(1) by (simp add: url_ok_def)
  note track = decode_track_text [OF t]
  have amp: "CHR ''&'' \<notin> set (track_text (mu_track url))" using track_text_chars [OF t] by simp
  have params: "apply_params (url_params url) ?u3 = Inr url"
    by (subst apply_url_params [OF assms(1)]) (simp_all add: new_url_def)
  have f: "parse_fragment ?fragment (?u2\<lparr>mu_host := mu_host url, mu_port := mu_port url\<rparr>) = Inr url"
  proof (cases "url_params url")
    case Nil
    then have "url = ?u3" using params by simp
    moreover have "url = url\<lparr>mu_wallclock_ranges := union_time_ranges (mu_wallclock_ranges url),
       mu_mediatime_ranges := union_time_ranges (mu_mediatime_ranges url),
       mu_location_ranges := union_location_ranges (mu_location_ranges url)\<rparr>"
      using assms(2) by (simp add: ranges_united_def union_time_id union_location_id)
    ultimately show ?thesis
      using cut_none [OF amp] track Nil by (simp add: parse_fragment_def params_text_def)
  next
    case (Cons p ps)
    have tail: "params_text (url_params url) = CHR ''&'' # tl (params_text (url_params url))"
      by (cases p) (simp add: Cons params_text_def)
    have parsed: "parse_fragment_parameters (tl (params_text (url_params url))) ?u3 = Inr url"
      using parse_params [of p ps ?u3] url_params_ok [OF assms(1)] params by (simp add: Cons)
    have "cut (CHR ''&'') (track_text (mu_track url) @ params_text (url_params url)) =
        (track_text (mu_track url), Some (tl (params_text (url_params url))))"
      by (subst tail) (rule cut_at [OF amp])
    then show ?thesis
      using track parsed assms(2) by (simp add: parse_fragment_def ranges_united_def union_time_id union_location_id)
  qed
  have "parse_msf_url (''moqt://'' @ ?before @ CHR ''#'' # ?fragment) = Inr url"
  proof -
    have "equals_ignore_case (take 7 (''moqt://'' @ ?before @ CHR ''#'' # ?fragment)) ''moqt://''"
      by (simp add: equals_ignore_case_def)
    then show ?thesis
      unfolding parse_msf_url_def c1 using c2 c3 c4 f by (simp del: append.simps)
  qed
  then show ?thesis using build_text [OF assms(1)] by blast
qed

text \<open>C33: A URL that was parsed can be written and parsed again without loss: building it succeeds, and parsing the
  result gives the same URL, although ranges were united, escapes normalised and default ports dropped.\<close>

theorem msf_url_build_parse:
  assumes "parse_msf_url s = Inr url"
  shows "\<exists>s'. build_msf_url url = Inr s' \<and> parse_msf_url s' = Inr url"
  using build_parse parse_msf_url_ok [OF assms] by blast

definition example_url :: MsfUrl where
  "example_url = \<lparr>mu_host = ''h'', mu_port = 44, mu_path = ''/p'', mu_path_explicit = True, mu_query = ''q'',
     mu_track = \<lparr>mt_namespace_tuple = [''/'', ''c''], mt_track_name = ''t''\<rparr>, mu_connection = AnyConnection,
     mu_c4m_token = Some ''z'', mu_wallclock_ranges = [\<lparr>start_ms = 5, end_ms = Some 20\<rparr>],
     mu_mediatime_ranges = [], mu_location_ranges = [], mu_extra_params = [(''x'', ''y=#'')]\<rparr>"

lemma msf_url_build_parse_witness:
  "parse_msf_url ''MoQT://h:44/p?q#msf:.2F-c--t&x=y=#&wallclock-range=7-20&c4m=z&wallclock-range=5-9'' =
     Inr example_url \<and>
   build_msf_url example_url = Inr ''moqt://h:44/p?q#msf:.2f-c--t&wallclock-range=5-20&x=y=#&c4m=z'' \<and>
   parse_msf_url ''moqt://h:44/p?q#msf:.2f-c--t&wallclock-range=5-20&x=y=#&c4m=z'' = Inr example_url"
proof -
  have p: "parse_msf_url ''MoQT://h:44/p?q#msf:.2F-c--t&x=y=#&wallclock-range=7-20&c4m=z&wallclock-range=5-9'' =
     Inr example_url" by code_simp
  have b: "build_msf_url example_url = Inr ''moqt://h:44/p?q#msf:.2f-c--t&wallclock-range=5-20&x=y=#&c4m=z''"
    by code_simp
  show ?thesis using msf_url_build_parse [OF p] p b by simp
qed

text \<open>C34: Parsing yields exactly the well-formed URLs: a host without delimiters, a nonzero port, a path that starts
  with a slash, a track with nonempty elements, ranges that do not end before they start, do not overlap and are
  in order, and free parameters with names that are not reserved; and every such URL is the result of some text.\<close>

theorem msf_urls_parsed: "(\<exists>s. parse_msf_url s = Inr url) = (url_ok url \<and> ranges_united url)"
  using build_parse parse_msf_url_ok by blast

text \<open>C35: Uniting the ranges of a URL keeps the points they cover and leaves ranges in order that do not overlap, for
  time ranges and for location ranges, where a missing end is the last point of the group or of the track.\<close>

theorem msf_ranges_united:
  assumes "list_all time_ok rs" and "list_all location_ok ls"
  shows "(\<Union>r \<in> set (union_time_ranges rs). {start_ms r..value_or (end_ms r) (- 1)}) =
      (\<Union>r \<in> set rs. {start_ms r..value_or (end_ms r) (- 1)}) \<and>
    sorted_wrt (\<lambda>a b. value_or (end_ms a) (- 1) < start_ms b) (union_time_ranges rs) \<and>
    (\<Union>l \<in> set (union_location_ranges ls). {location_start_key (mr_start l)..location_end_key (mr_end l)}) =
      (\<Union>l \<in> set ls. {location_start_key (mr_start l)..location_end_key (mr_end l)}) \<and>
    sorted_wrt (\<lambda>a b. location_end_key (mr_end a) < location_start_key (mr_start b)) (union_location_ranges ls)"
proof -
  have "times.points (union_time_ranges rs) = times.points rs"
    using times.union_of_points(1) [of rs] assms(1)
    by (cases "rs = []") (simp_all add: union_time_ranges_eq time_ok_def list_all_iff)
  moreover have "locations.points (union_location_ranges ls) = locations.points ls"
    using locations.union_of_points(1) [of ls] assms(2)
    by (cases "ls = []") (simp_all add: union_location_ranges_eq location_ok_def list_all_iff)
  ultimately show ?thesis
    using union_time_separated [OF assms(1)] union_location_separated [OF assms(2)]
    by (simp add: times.points_def locations.points_def times.separated_def locations.separated_def)
qed

lemma msf_ranges_united_witness:
  "union_time_ranges [\<lparr>start_ms = 8, end_ms = Some 9\<rparr>, \<lparr>start_ms = 1, end_ms = Some 3\<rparr>, \<lparr>start_ms = 9, end_ms = None\<rparr>] =
     [\<lparr>start_ms = 1, end_ms = Some 3\<rparr>, \<lparr>start_ms = 8, end_ms = None\<rparr>] \<and>
   (\<Union>r \<in> set [\<lparr>start_ms = 1, end_ms = Some 3\<rparr>, \<lparr>start_ms = 8, end_ms = None\<rparr>]. {start_ms r..value_or (end_ms r) (- 1)}) =
     (\<Union>r \<in> set [\<lparr>start_ms = 8, end_ms = Some 9\<rparr>, \<lparr>start_ms = 1, end_ms = Some 3\<rparr>, \<lparr>start_ms = 9, end_ms = None\<rparr>].
       {start_ms r..value_or (end_ms r) (- 1)})"
proof -
  have u: "union_time_ranges [\<lparr>start_ms = 8, end_ms = Some 9\<rparr>, \<lparr>start_ms = 1, end_ms = Some 3\<rparr>, \<lparr>start_ms = 9, end_ms = None\<rparr>] =
     [\<lparr>start_ms = 1, end_ms = Some 3\<rparr>, \<lparr>start_ms = 8, end_ms = None\<rparr>]" by code_simp
  have t: "list_all time_ok [\<lparr>start_ms = 8, end_ms = Some 9\<rparr>, \<lparr>start_ms = 1, end_ms = Some 3\<rparr>, \<lparr>start_ms = 9, end_ms = None\<rparr>]"
    by code_simp
  have l: "list_all location_ok []" by simp
  show ?thesis using msf_ranges_united [OF t l] unfolding u by blast
qed

text \<open>A query that the command line has folded into the path is a query again after parsing.\<close>

lemma folded_query_reparsed:
  "build_msf_url (example_url\<lparr>mu_path := ''/p?q'', mu_query := []\<rparr>) = build_msf_url example_url"
  by (simp add: example_url_def build_msf_url_def)

end
