(* ===== verification/Session_Loop.thy ===== *)
theory Session_Loop
  imports Subgroup_Sender Priority_Scheduler Loop_Timestamps
begin

text \<open>
  Looping a plan and the objects that a subscription waits for, from \<open>src/transport/moqt_session.cpp\<close>: the
  loop state of a plan and the objects of its later cycles, the times at which objects become available
  (\<open>GenerationAvailability\<close>), the state of an active subscription, its subgroup frontiers
  (\<open>rebuild_priority_frontiers\<close>) and its advance to the next cycle. An index into the plan is a natural
  number, a cycle a 64-bit word, a time point a number of nanoseconds; an overflow of the clock's 64-bit
  count, which C++ leaves undefined, is not modelled. Log lines are left out, and with them
  \<open>rebase_failed\<close>, which only limits a warning.
\<close>

subsection \<open>The plan and its loop state\<close>

text \<open>The fields of a track's description and of a plan that the session reads.\<close>

record TrackDescription =
  td_track_name :: string
  td_packaging :: string
  td_timescale :: u32

record PublishPlan =
  pp_tracks :: "TrackDescription list"
  pp_objects :: "CmsfObject list"

record TrackLoopInfo =
  tl_group_span :: u64
  tl_first_loop_object_index :: nat
  tl_has_loopable_objects :: bool
  tl_timescale :: u32
  tl_packaging :: string

record LoopState =
  ls_enabled :: bool
  ls_cycle_duration_us :: u64
  ls_tracks :: "string \<rightharpoonup> TrackLoopInfo"

definition new_track_loop_info :: TrackLoopInfo where
  "new_track_loop_info = \<lparr>tl_group_span = 0, tl_first_loop_object_index = 0, tl_has_loopable_objects = False,
     tl_timescale = 0, tl_packaging = []\<rparr>"

definition note_loop_object :: "nat \<times> CmsfObject \<Rightarrow> LoopState \<Rightarrow> LoopState" where
  "note_loop_object = (\<lambda>(index, object) state.
     let name = obj_track_name object;
         track = (case ls_tracks state name of None \<Rightarrow> new_track_loop_info | Some track \<Rightarrow> track);
         track = track\<lparr>tl_group_span := max (tl_group_span track) (obj_group_id object + 1)\<rparr> in
     if obj_kind object = Initialization then state\<lparr>ls_tracks := (ls_tracks state)(name \<mapsto> track)\<rparr>
     else
     let track = (if tl_has_loopable_objects track then track
           else track\<lparr>tl_first_loop_object_index := index, tl_has_loopable_objects := True\<rparr>);
         state = state\<lparr>ls_tracks := (ls_tracks state)(name \<mapsto> track)\<rparr> in
     if obj_kind object = Media
     then state\<lparr>ls_cycle_duration_us :=
            max (ls_cycle_duration_us state) (obj_media_time_us object + obj_media_duration_us object)\<rparr>
     else state)"

definition note_description :: "TrackDescription \<Rightarrow> LoopState \<Rightarrow> LoopState" where
  "note_description description state =
     (case ls_tracks state (td_track_name description) of
        None \<Rightarrow> state
      | Some track \<Rightarrow> state\<lparr>ls_tracks := (ls_tracks state)(td_track_name description \<mapsto>
          track\<lparr>tl_timescale := td_timescale description, tl_packaging := td_packaging description\<rparr>)\<rparr>)"

definition build_loop_state :: "PublishPlan \<Rightarrow> bool \<Rightarrow> LoopState" where
  "build_loop_state plan loop_enabled =
     (let state = \<lparr>ls_enabled = loop_enabled, ls_cycle_duration_us = 0, ls_tracks = Map.empty\<rparr> in
      if \<not> loop_enabled then state
      else fold note_description (pp_tracks plan)
        (fold note_loop_object (List.enumerate 0 (pp_objects plan)) state))"

definition track_can_loop :: "LoopState \<Rightarrow> string \<Rightarrow> bool" where
  "track_can_loop loop_state name =
     (case ls_tracks loop_state name of None \<Rightarrow> False | Some info \<Rightarrow> tl_has_loopable_objects info)"

subsection \<open>Objects of later cycles\<close>

definition make_looped_object :: "CmsfObject \<Rightarrow> LoopState \<Rightarrow> u64 \<Rightarrow> CmsfObject" where
  "make_looped_object object loop_state loop_cycle =
     (if \<not> ls_enabled loop_state \<or> loop_cycle = 0 then object
      else case ls_tracks loop_state (obj_track_name object) of
        None \<Rightarrow> object
      | Some info \<Rightarrow>
          if \<not> tl_has_loopable_objects info \<or> obj_kind object = Initialization then object
          else object
            \<lparr>obj_group_id := obj_group_id object + tl_group_span info * loop_cycle,
             obj_media_time_us := obj_media_time_us object + ls_cycle_duration_us loop_state * loop_cycle\<rparr>)"

text \<open>
  \<open>None\<close> is the rewriting that never returns (theory \<open>Loop_Timestamps\<close>); a payload that could not be
  rewritten is sent unchanged.
\<close>

definition rebase_payload :: "(bytes \<Rightarrow> u64 \<Rightarrow> bytes option option) \<Rightarrow> u64 \<Rightarrow> CmsfObject \<Rightarrow> CmsfObject option" where
  "rebase_payload rebase delta object =
     map_option (\<lambda>rebased. case rebased of None \<Rightarrow> object | Some payload \<Rightarrow> object\<lparr>obj_owned_payload := payload\<rparr>)
       (rebase (obj_owned_payload object) delta)"

definition make_looped_send_object :: "CmsfObject \<Rightarrow> LoopState \<Rightarrow> u64 \<Rightarrow> CmsfObject option" where
  "make_looped_send_object object loop_state loop_cycle =
     (let adjusted = make_looped_object object loop_state loop_cycle in
      if \<not> ls_enabled loop_state \<or> loop_cycle = 0 \<or> obj_kind object \<noteq> Media then Some adjusted
      else case ls_tracks loop_state (obj_track_name object) of
        None \<Rightarrow> Some adjusted
      | Some info \<Rightarrow>
          if tl_timescale info = 0 then Some adjusted
          else
          let delta = loop_offset_ticks (ls_cycle_duration_us loop_state) loop_cycle (tl_timescale info) in
          if tl_packaging info = ''loc'' then
            Some (adjusted\<lparr>obj_properties := rebase_loc_timestamps (obj_properties adjusted) delta\<rparr>)
          else if tl_packaging info = ''locmaf'' then rebase_payload rebase_locmaf_timestamps delta adjusted
          else if tl_packaging info = ''cmaf'' then rebase_payload rebase_cmaf_timestamps delta adjusted
          else Some adjusted)"

subsection \<open>When objects become available\<close>

definition kMaximumGenerationLeadCycles :: u64 where "kMaximumGenerationLeadCycles = 64"

text \<open>Offsets are microseconds, signed as \<open>std::chrono::microseconds\<close>; time points are nanoseconds.\<close>

record GenerationAvailability =
  ga_loop_state :: LoopState
  ga_paced :: bool
  ga_enabled :: bool
  ga_first_generation_at :: int
  ga_first_media_time_us :: "u64 option"
  ga_object_offsets :: "int list"
  ga_subgroup_completion_offsets :: "int list"
  ga_generation_origins :: "(u64, int) omap"
  ga_oldest_retained_cycle :: u64

definition first_media_time :: "CmsfObject list \<Rightarrow> u64 option" where
  "first_media_time objects =
     fold (\<lambda>object first. if obj_kind object \<noteq> Media then first
       else Some (case first of None \<Rightarrow> obj_media_time_us object | Some t \<Rightarrow> min t (obj_media_time_us object)))
     objects None"

definition object_offset :: "bool \<Rightarrow> u64 option \<Rightarrow> CmsfObject \<Rightarrow> int" where
  "object_offset paced first_media_time_us object =
     (case first_media_time_us of
        None \<Rightarrow> 0
      | Some first \<Rightarrow>
          if paced \<and> obj_kind object = Media \<and> obj_media_time_us object \<ge> first
          then sint (obj_media_time_us object - first) else 0)"

definition subgroup_of :: "CmsfObject \<Rightarrow> string \<times> u64 \<times> u64" where
  "subgroup_of object = (obj_track_name object, obj_group_id object, obj_subgroup_id object)"

text \<open>The last object of each subgroup, as its object id and its index.\<close>

definition note_final_object ::
    "nat \<times> CmsfObject \<Rightarrow> (string \<times> u64 \<times> u64 \<rightharpoonup> u64 \<times> nat) \<Rightarrow> (string \<times> u64 \<times> u64 \<rightharpoonup> u64 \<times> nat)" where
  "note_final_object = (\<lambda>(index, object) finals.
     (case finals (subgroup_of object) of
        None \<Rightarrow> finals(subgroup_of object \<mapsto> (obj_object_id object, index))
      | Some final \<Rightarrow>
          if obj_object_id object \<ge> fst final
          then finals(subgroup_of object \<mapsto> (obj_object_id object, index)) else finals))"

definition new_availability :: "CmsfObject list \<Rightarrow> LoopState \<Rightarrow> bool \<Rightarrow> int \<Rightarrow> bool \<Rightarrow> GenerationAvailability" where
  "new_availability objects loop_state paced now enabled =
     (let availability = \<lparr>ga_loop_state = loop_state, ga_paced = paced, ga_enabled = enabled,
            ga_first_generation_at = 0, ga_first_media_time_us = None, ga_object_offsets = [],
            ga_subgroup_completion_offsets = [], ga_generation_origins = [], ga_oldest_retained_cycle = 0\<rparr> in
      if \<not> enabled then availability
      else
      let first = first_media_time objects;
          offsets = map (object_offset paced first) objects;
          finals = fold note_final_object (List.enumerate 0 objects) Map.empty in
      availability\<lparr>ga_first_generation_at := now, ga_first_media_time_us := first, ga_object_offsets := offsets,
        ga_subgroup_completion_offsets := map (\<lambda>object. case finals (subgroup_of object) of
          None \<Rightarrow> 0 | Some final \<Rightarrow> offsets ! snd final) objects\<rparr>)"

text \<open>\<open>now\<close> is what the clock reads if it is read: at the first use of a cycle of an unpaced plan.\<close>

definition generation_origin :: "int \<Rightarrow> u64 \<Rightarrow> GenerationAvailability \<Rightarrow> int \<times> GenerationAvailability" where
  "generation_origin now loop_cycle ga =
     (if loop_cycle = 0 then (ga_first_generation_at ga, ga)
      else if ga_paced ga \<and> ls_cycle_duration_us (ga_loop_state ga) \<noteq> 0 then
        (ga_first_generation_at ga + sint (loop_cycle * ls_cycle_duration_us (ga_loop_state ga)) * 1000, ga)
      else case map_of (ga_generation_origins ga) loop_cycle of
        Some origin \<Rightarrow> (origin, ga)
      | None \<Rightarrow> (now, ga\<lparr>ga_generation_origins := omap_put loop_cycle now (ga_generation_origins ga)\<rparr>))"

definition available_at ::
    "(GenerationAvailability \<Rightarrow> int list) \<Rightarrow> int \<Rightarrow> u64 \<Rightarrow> nat \<Rightarrow> GenerationAvailability \<Rightarrow>
     exn + int \<times> GenerationAvailability" where
  "available_at offsets now loop_cycle plan_index ga =
     (if plan_index \<ge> length (offsets ga) then Inl Out_Of_Range
      else case generation_origin now loop_cycle ga of
        (origin, ga') \<Rightarrow> Inr (origin + offsets ga ! plan_index * 1000, ga'))"

definition object_available_at ::
    "int \<Rightarrow> u64 \<Rightarrow> nat \<Rightarrow> GenerationAvailability \<Rightarrow> exn + int \<times> GenerationAvailability" where
  "object_available_at = available_at ga_object_offsets"

definition subgroup_completed_at ::
    "int \<Rightarrow> u64 \<Rightarrow> nat \<Rightarrow> GenerationAvailability \<Rightarrow> exn + int \<times> GenerationAvailability" where
  "subgroup_completed_at = available_at ga_subgroup_completion_offsets"

definition initial_loop_cycle :: "GenerationAvailability \<Rightarrow> u64" where
  "initial_loop_cycle ga = (if ga_enabled ga then ga_oldest_retained_cycle ga else 0)"

text \<open>\<open>needed_cycles\<close> is a \<open>std::set\<close>; what the code reads of it is its least and its greatest element.\<close>

definition retain_generations :: "u64 list \<Rightarrow> GenerationAvailability \<Rightarrow> GenerationAvailability" where
  "retain_generations needed_cycles ga =
     (if \<not> ga_enabled ga \<or> ga_paced ga \<or> needed_cycles = [] then ga
      else
      let oldest = max (ga_oldest_retained_cycle ga) (Min (set needed_cycles));
          newest = Max (set needed_cycles) in
      ga\<lparr>ga_oldest_retained_cycle := oldest,
        ga_generation_origins := filter (\<lambda>(cycle, _). oldest \<le> cycle \<and> cycle \<le> newest) (ga_generation_origins ga)\<rparr>)"

subsection \<open>Active subscriptions\<close>

record SubgroupFrontier =
  sf_object_indices :: "nat list"
  sf_next :: nat

record ActiveSubscription =
  as_subscribe :: SubscribeMessage
  as_track :: PublishedTrack
  as_sender :: SubgroupSender
  as_request_stream_id :: u64
  as_loop_cycle :: u64
  as_next_object_index :: nat
  as_admitted_object_indices :: "nat set"
  as_send_sequence_by_object_index :: "(nat, u64) omap"
  as_subgroup_frontiers :: "(u64 \<times> u64, SubgroupFrontier) omap"
  as_scheduler_frontiers :: "CandidatePriority list"
  as_availability_by_object_index :: "(nat, ObjectWriteOptions) omap"
  as_pending_request_bytes :: bytes
  as_publisher_priority :: u8
  as_scheduling_round :: u64
  as_scheduler_generation :: u64
  as_forward_paused_by_update :: bool
  as_generation_lead_parked :: bool
  as_completed :: bool

text \<open>The initialisers of \<open>ActiveSubscription\<close> in the loops that serve subscriptions.\<close>

definition new_active ::
    "DraftVersion \<Rightarrow> SubscribeMessage \<Rightarrow> PublishedTrack \<Rightarrow> u64 \<Rightarrow> bytes \<Rightarrow> u8 \<Rightarrow> GenerationAvailability \<Rightarrow>
     ActiveSubscription" where
  "new_active draft subscribe track request_stream_id trailing_request_bytes publisher_priority availability =
     \<lparr>as_subscribe = subscribe, as_track = track, as_sender = new_sender,
      as_request_stream_id = request_stream_id, as_loop_cycle = initial_loop_cycle availability,
      as_next_object_index = 0, as_admitted_object_indices = {}, as_send_sequence_by_object_index = [],
      as_subgroup_frontiers = [], as_scheduler_frontiers = [], as_availability_by_object_index = [],
      as_pending_request_bytes = trailing_request_bytes, as_publisher_priority = publisher_priority,
      as_scheduling_round = 0, as_scheduler_generation = 0,
      as_forward_paused_by_update = (uses_priority_scheduler draft \<and> sub_forward subscribe = 0),
      as_generation_lead_parked = False, as_completed = False\<rparr>"

subsection \<open>Frontiers\<close>

text \<open>An object that the subscription has still to be sent in this cycle.\<close>

definition is_wanted :: "CmsfObject list \<Rightarrow> ActiveSubscription \<Rightarrow> nat \<Rightarrow> bool" where
  "is_wanted objects active index \<longleftrightarrow>
     index \<notin> as_admitted_object_indices active \<and>
     obj_track_name (objects ! index) = sub_track_name (as_subscribe active) \<and>
     object_matches_filter (objects ! index) (as_subscribe active)"

definition frontier_key :: "CmsfObject \<Rightarrow> u64 \<times> u64" where
  "frontier_key object = (obj_group_id object, obj_subgroup_id object)"

definition add_to_frontier ::
    "CmsfObject list \<Rightarrow> nat \<Rightarrow> (u64 \<times> u64, SubgroupFrontier) omap \<Rightarrow> (u64 \<times> u64, SubgroupFrontier) omap" where
  "add_to_frontier objects index frontiers =
     (let k = frontier_key (objects ! index) in
      omap_put k (case map_of frontiers k of
          None \<Rightarrow> \<lparr>sf_object_indices = [index], sf_next = 0\<rparr>
        | Some frontier \<Rightarrow> frontier\<lparr>sf_object_indices := sf_object_indices frontier @ [index]\<rparr>) frontiers)"

definition sort_frontier :: "CmsfObject list \<Rightarrow> SubgroupFrontier \<Rightarrow> SubgroupFrontier" where
  "sort_frontier objects frontier =
     frontier\<lparr>sf_object_indices := sort_key (\<lambda>i. (obj_object_id (objects ! i), i)) (sf_object_indices frontier)\<rparr>"

definition candidate :: "CmsfObject list \<Rightarrow> LoopState \<Rightarrow> ActiveSubscription \<Rightarrow> u64 \<Rightarrow> nat \<Rightarrow> CandidatePriority" where
  "candidate objects loop_state active request_id plan_index =
     (let object = objects ! plan_index in
      \<lparr>cp_subscriber_priority = sub_subscriber_priority (as_subscribe active),
       cp_publisher_priority = as_publisher_priority active,
       cp_media_time_us = (if obj_kind object = Media
         then obj_media_time_us (make_looped_object object loop_state (as_loop_cycle active)) else 0),
       cp_request_fairness_round = 0,
       cp_group_order = sub_group_order (as_subscribe active),
       cp_group_id = obj_group_id object,
       cp_subgroup_id = obj_subgroup_id object,
       cp_object_id = obj_object_id object,
       cp_request_id = request_id,
       cp_plan_index = plan_index\<rparr>)"

definition write_options ::
    "DraftVersion \<Rightarrow> int \<Rightarrow> ActiveSubscription \<Rightarrow> nat \<Rightarrow> GenerationAvailability \<Rightarrow>
     exn + ObjectWriteOptions \<times> GenerationAvailability" where
  "write_options draft now active plan_index ga =
     (let timeouts = timeouts_for_draft draft (sub_delivery_timeouts (as_subscribe active)) in
      bindE (object_available_at now (as_loop_cycle active) plan_index ga) (\<lambda>(available, ga).
      bindE (subgroup_completed_at now (as_loop_cycle active) plan_index ga) (\<lambda>(completed, ga).
      Inr (\<lparr>ow_transport_priority = 255,
            ow_object_deadline = deadline_after available (object_ms timeouts),
            ow_subgroup_deadline = deadline_after completed (subgroup_ms timeouts)\<rparr>, ga))))"

text \<open>\<open>try_emplace\<close>: the options are computed for each index and kept for a new one.\<close>

fun note_availability ::
    "DraftVersion \<Rightarrow> int \<Rightarrow> nat list \<Rightarrow> ActiveSubscription \<Rightarrow> GenerationAvailability \<Rightarrow>
     exn + ActiveSubscription \<times> GenerationAvailability" where
  "note_availability draft now [] active ga = Inr (active, ga)"
| "note_availability draft now (index # indices) active ga =
     bindE (write_options draft now active index ga) (\<lambda>(options, ga).
       note_availability draft now indices (active\<lparr>as_availability_by_object_index :=
         omap_emplace index options (as_availability_by_object_index active)\<rparr>) ga)"

definition rebuild_priority_frontiers ::
    "CmsfObject list \<Rightarrow> LoopState \<Rightarrow> DraftVersion \<Rightarrow> int \<Rightarrow> ActiveSubscription \<Rightarrow> GenerationAvailability \<Rightarrow>
     exn + ActiveSubscription \<times> GenerationAvailability" where
  "rebuild_priority_frontiers objects loop_state draft now active ga =
     (let frontiers = map (\<lambda>(k, frontier). (k, sort_frontier objects frontier))
            (fold (add_to_frontier objects) (filter (is_wanted objects active) [0..<length objects]) []);
          heads = map (\<lambda>(k, frontier). hd (sf_object_indices frontier))
            (filter (\<lambda>(k, frontier). sf_object_indices frontier \<noteq> []) frontiers);
          active = active\<lparr>as_scheduler_generation := as_scheduler_generation active + 1,
            as_subgroup_frontiers := frontiers,
            as_scheduler_frontiers := fold (set_insert precedes)
              (map (candidate objects loop_state active (sub_request_id (as_subscribe active))) heads) [],
            as_availability_by_object_index :=
              filter (\<lambda>(index, _). is_wanted objects active index) (as_availability_by_object_index active)\<rparr> in
      bindE (note_availability draft now (concat (map (\<lambda>(k, frontier). sf_object_indices frontier) frontiers))
        active ga) (\<lambda>(active, ga).
      Inr (active\<lparr>as_completed := (as_scheduler_frontiers active = [])\<rparr>, ga)))"

subsection \<open>The next cycle\<close>

text \<open>
  \<open>advance_subscription_to_next_loop_object\<close>: whether the subscription goes on, in the next cycle or parked
  because it leads by too many. The caller's \<open>generation_lead_parked\<close> is the subscription's own flag when
  \<open>set_parked\<close>.
\<close>

definition advance_subscription_to_next_loop_object ::
    "CmsfObject list \<Rightarrow> LoopState \<Rightarrow> DraftVersion \<Rightarrow> int \<Rightarrow> u64 option \<Rightarrow> bool \<Rightarrow> ActiveSubscription \<Rightarrow>
     GenerationAvailability \<Rightarrow> exn + bool \<times> ActiveSubscription \<times> GenerationAvailability" where
  "advance_subscription_to_next_loop_object objects loop_state draft now maximum_loop_cycle set_parked active ga =
     (let active = (if set_parked then active\<lparr>as_generation_lead_parked := False\<rparr> else active);
          track = pt_name (as_track active) in
      if \<not> ls_enabled loop_state \<or> \<not> track_can_loop loop_state track then Inr (False, active, ga)
      else case ls_tracks loop_state track of
        None \<Rightarrow> Inr (False, active, ga)
      | Some info \<Rightarrow>
      case find_next_matching_object_index objects (as_subscribe active) (tl_first_loop_object_index info) of
        None \<Rightarrow> Inr (False, active, ga)
      | Some next_object_index \<Rightarrow>
          if (case maximum_loop_cycle of None \<Rightarrow> False | Some maximum \<Rightarrow> as_loop_cycle active \<ge> maximum) then
            Inr (True, active\<lparr>as_generation_lead_parked := (set_parked \<or> as_generation_lead_parked active),
              as_completed := False\<rparr>, ga)
          else
          let active = active\<lparr>as_loop_cycle := as_loop_cycle active + 1, as_next_object_index := next_object_index,
                as_admitted_object_indices := {}, as_send_sequence_by_object_index := [],
                as_availability_by_object_index := []\<rparr> in
          bindE (if uses_priority_scheduler draft
                 then rebuild_priority_frontiers objects loop_state draft now active ga
                 else Inr (active, ga)) (\<lambda>(active, ga).
          Inr (True, active\<lparr>as_completed := False\<rparr>, ga)))"

text \<open>
  The subscriptions that \<open>minimum_active_loop_cycle\<close> and \<open>resume_generation_leaders\<close> range over are the values
  of \<open>active_subscriptions\<close>.
\<close>

definition minimum_active_loop_cycle :: "ActiveSubscription list \<Rightarrow> u64 option" where
  "minimum_active_loop_cycle actives =
     fold (\<lambda>active minimum. if as_completed active then minimum
       else Some (case minimum of None \<Rightarrow> as_loop_cycle active | Some m \<Rightarrow> min m (as_loop_cycle active)))
     actives None"

definition maximum_loop_cycle :: "DraftVersion \<Rightarrow> ActiveSubscription list \<Rightarrow> u64 option" where
  "maximum_loop_cycle draft actives =
     (if \<not> uses_priority_scheduler draft then None
      else map_option (\<lambda>minimum. if minimum \<le> - 1 - kMaximumGenerationLeadCycles
        then minimum + kMaximumGenerationLeadCycles else - 1) (minimum_active_loop_cycle actives))"

definition advance_active_subscription ::
    "CmsfObject list \<Rightarrow> LoopState \<Rightarrow> DraftVersion \<Rightarrow> int \<Rightarrow> ActiveSubscription list \<Rightarrow> ActiveSubscription \<Rightarrow>
     GenerationAvailability \<Rightarrow> exn + bool \<times> ActiveSubscription \<times> GenerationAvailability" where
  "advance_active_subscription objects loop_state draft now actives =
     advance_subscription_to_next_loop_object objects loop_state draft now (maximum_loop_cycle draft actives) True"

subsection \<open>What the loop state says of a plan\<close>

text \<open>The counts of a plan that fit a 64-bit word: the number after each group, and the end of each object.\<close>

definition object_fits :: "CmsfObject \<Rightarrow> bool" where
  "object_fits object \<longleftrightarrow> unat (obj_group_id object) + 1 < 2 ^ 64 \<and>
     unat (obj_media_time_us object) + unat (obj_media_duration_us object) < 2 ^ 64"

definition plan_counts_fit :: "CmsfObject list \<Rightarrow> bool" where
  "plan_counts_fit objects \<longleftrightarrow> list_all object_fits objects"

text \<open>The loop state describes an object: its group is within the span of its track, its end within the cycle.\<close>

definition describes :: "LoopState \<Rightarrow> nat \<times> CmsfObject \<Rightarrow> bool" where
  "describes state = (\<lambda>(index, object).
     (case ls_tracks state (obj_track_name object) of
        None \<Rightarrow> False
      | Some info \<Rightarrow>
          obj_group_id object + 1 \<le> tl_group_span info \<and>
          (obj_kind object \<noteq> Initialization \<longrightarrow>
             tl_has_loopable_objects info \<and> tl_first_loop_object_index info \<le> index)) \<and>
     (obj_kind object = Media \<longrightarrow>
        obj_media_time_us object + obj_media_duration_us object \<le> ls_cycle_duration_us state))"

lemma describes_noted: "fst object < n \<or> fst object = n \<Longrightarrow> describes state object \<Longrightarrow> describes (note_loop_object (n, x) state) object"
  by (auto simp: describes_def note_loop_object_def Let_def max_def split: option.splits prod.splits if_splits)

lemma describes_this:
  "\<forall>name info. ls_tracks state name = Some info \<longrightarrow> tl_has_loopable_objects info \<longrightarrow> tl_first_loop_object_index info \<le> n \<Longrightarrow>
   describes (note_loop_object (n, x) state) (n, x)"
  by (auto simp: describes_def note_loop_object_def new_track_loop_info_def Let_def max_def split: option.splits)

lemma first_index_noted:
  "\<forall>name info. ls_tracks state name = Some info \<longrightarrow> tl_has_loopable_objects info \<longrightarrow> tl_first_loop_object_index info \<le> n \<Longrightarrow>
   ls_tracks (note_loop_object (n, x) state) name = Some info \<Longrightarrow> tl_has_loopable_objects info \<Longrightarrow>
   tl_first_loop_object_index info \<le> n"
  by (auto simp: note_loop_object_def Let_def new_track_loop_info_def split: option.splits if_splits)

lemma describes_fold:
  assumes "\<And>name info. ls_tracks state name = Some info \<Longrightarrow> tl_has_loopable_objects info \<Longrightarrow> tl_first_loop_object_index info \<le> n"
    and "\<And>object. object \<in> set seen \<Longrightarrow> describes state object \<and> fst object < n"
  shows "object \<in> set (seen @ List.enumerate n objects) \<Longrightarrow>
    describes (fold note_loop_object (List.enumerate n objects) state) object"
  using assms
proof (induction objects arbitrary: n state seen)
  case (Cons x xs)
  let ?state = "note_loop_object (n, x) state"
  have le: "\<forall>name info. ls_tracks state name = Some info \<longrightarrow> tl_has_loopable_objects info \<longrightarrow> tl_first_loop_object_index info \<le> n"
    using Cons.prems(2) by blast
  have "describes (fold note_loop_object (List.enumerate (Suc n) xs) ?state) object"
  proof (rule Cons.IH [of "seen @ [(n, x)]"])
    show "object \<in> set ((seen @ [(n, x)]) @ List.enumerate (Suc n) xs)" using Cons.prems(1) by auto
    show "tl_first_loop_object_index info \<le> Suc n"
      if "ls_tracks ?state name = Some info" "tl_has_loopable_objects info" for name info
      using first_index_noted [OF le that] by simp
    show "describes ?state object \<and> fst object < Suc n" if "object \<in> set (seen @ [(n, x)])" for object
      using that Cons.prems(3) describes_noted [of object n state x] describes_this [OF le, of x] by fastforce
  qed
  then show ?case by simp
qed simp

lemma describes_description: "describes (note_description d state) object = describes state object"
  by (auto simp: describes_def note_description_def split: option.splits prod.splits)

lemma describes_descriptions: "describes (fold note_description ds state) object = describes state object"
  by (induction ds arbitrary: state) (simp_all add: describes_description)

lemma enabled_notes [simp]:
  "ls_enabled (fold note_description ds state) = ls_enabled state"
  "ls_enabled (fold note_loop_object os state) = ls_enabled state"
proof -
  show "ls_enabled (fold note_description ds state) = ls_enabled state"
    by (induction ds arbitrary: state) (simp_all add: note_description_def split: option.splits)
  show "ls_enabled (fold note_loop_object os state) = ls_enabled state"
    by (induction os arbitrary: state) (simp_all add: note_loop_object_def Let_def split: prod.splits)
qed

lemma build_loop_state_describes:
  assumes "i < length (pp_objects plan)"
  shows "describes (build_loop_state plan True) (i, pp_objects plan ! i)"
proof -
  have "describes (fold note_loop_object (List.enumerate 0 (pp_objects plan))
      \<lparr>ls_enabled = True, ls_cycle_duration_us = 0, ls_tracks = Map.empty\<rparr>) (i, pp_objects plan ! i)"
    by (rule describes_fold [where seen = "[]"]) (use assms in \<open>auto simp: in_set_enumerate_eq\<close>)
  then show ?thesis by (simp add: build_loop_state_def describes_descriptions)
qed

lemma describes_object:
  "describes state (i, object) \<Longrightarrow> \<exists>info. ls_tracks state (obj_track_name object) = Some info \<and>
     obj_group_id object + 1 \<le> tl_group_span info \<and> (obj_kind object \<noteq> Initialization \<longrightarrow> tl_has_loopable_objects info)"
  by (auto simp: describes_def split: option.splits)

lemma describes_media:
  "describes state (i, object) \<Longrightarrow> obj_kind object = Media \<Longrightarrow>
     obj_media_time_us object + obj_media_duration_us object \<le> ls_cycle_duration_us state"
  by (auto simp: describes_def)

lemma described_group:
  assumes "describes state (i, object)" "object_fits object" "ls_tracks state (obj_track_name object) = Some info"
  shows "unat (obj_group_id object) < unat (tl_group_span info)"
proof -
  have "obj_group_id object + 1 \<le> tl_group_span info" using describes_object [OF assms(1)] assms(3) by auto
  then show ?thesis using assms(2) by (simp add: object_fits_def word_le_nat_alt unat_word_ariths)
qed

lemma described_end:
  "describes state (i, object) \<Longrightarrow> object_fits object \<Longrightarrow> obj_kind object = Media \<Longrightarrow>
   unat (obj_media_time_us object) + unat (obj_media_duration_us object) \<le> unat (ls_cycle_duration_us state)"
  using describes_media [of state i object] by (simp add: object_fits_def word_le_nat_alt unat_word_ariths)

text \<open>The first cycles whose numbers fit: the groups and times of cycle \<open>c\<close> end within 64 bits.\<close>

definition cycle_fits :: "LoopState \<Rightarrow> string \<Rightarrow> u64 \<Rightarrow> bool" where
  "cycle_fits state name c \<longleftrightarrow>
     (\<forall>info \<in> set_option (ls_tracks state name). unat (tl_group_span info) * (unat c + 1) < 2 ^ 64) \<and>
     unat (ls_cycle_duration_us state) * (unat c + 1) < 2 ^ 64"

lemma cycle_fits_less:
  assumes "c \<le> d" and "cycle_fits state name d"
  shows "cycle_fits state name c"
proof -
  have "unat c + 1 \<le> unat d + 1" using assms(1) by (simp add: word_le_nat_alt)
  then have lt: "s * (unat c + 1) < 2 ^ 64" if "s * (unat d + 1) < 2 ^ 64" for s :: nat
    using that mult_le_mono2 le_less_trans by blast
  show ?thesis using assms(2) lt unfolding cycle_fits_def by (blast intro: conjI) 
qed

lemma unat_shifted:
  assumes "unat (span :: u64) * (unat c + 1) < 2 ^ 64" and "unat x \<le> unat span"
  shows "unat (x + span * c) = unat x + unat span * unat c"
proof -
  have "unat span * unat c < 2 ^ 64" using assms(1) by simp
  then have "unat (span * c) = unat span * unat c" by (rule unat_prod)
  moreover have "unat x + unat span * unat c < 2 ^ 64" using assms by (simp add: add_mult_distrib2)
  ultimately show ?thesis by (simp add: unat_word_ariths)
qed

lemma looped_numbers:
  assumes "ls_enabled state" "ls_tracks state (obj_track_name object) = Some info" "tl_has_loopable_objects info"
    and "obj_kind object \<noteq> Initialization" and "cycle_fits state (obj_track_name object) c"
  shows "unat (obj_group_id object) < unat (tl_group_span info) \<Longrightarrow>
      unat (obj_group_id (make_looped_object object state c)) = unat (obj_group_id object) + unat (tl_group_span info) * unat c"
    and "unat (obj_media_time_us object) \<le> unat (ls_cycle_duration_us state) \<Longrightarrow>
      unat (obj_media_time_us (make_looped_object object state c)) =
        unat (obj_media_time_us object) + unat (ls_cycle_duration_us state) * unat c"
  using assms unat_shifted [of "tl_group_span info" c "obj_group_id object"]
    unat_shifted [of "ls_cycle_duration_us state" c "obj_media_time_us object"]
  by (auto simp: make_looped_object_def cycle_fits_def)

lemma make_looped_object_keeps [simp]:
  "obj_track_name (make_looped_object object state c) = obj_track_name object"
  "obj_subgroup_id (make_looped_object object state c) = obj_subgroup_id object"
  "obj_object_id (make_looped_object object state c) = obj_object_id object"
  "obj_media_duration_us (make_looped_object object state c) = obj_media_duration_us object"
  "obj_kind (make_looped_object object state c) = obj_kind object"
  "obj_owned_payload (make_looped_object object state c) = obj_owned_payload object"
  by (simp_all add: make_looped_object_def split: option.splits)

text \<open>C7: A looped plan never reuses a group or a time: on every track the objects of a later cycle, initialization
  objects apart, have larger group ids than all objects of an earlier one, and media of a later cycle start no earlier
  than any media of an earlier one end. Within a cycle the groups, and for media the times, keep their order and their
  distances. This holds as long as the numbers fit: the number after each group and the end of each object of the plan
  (\<open>plan_counts_fit\<close>), and the number of cycles times the span of the track and times the cycle's
  duration (\<open>cycle_fits\<close>).
\<close>

theorem looped_cycles_disjoint:
  assumes "plan_counts_fit (pp_objects plan)"
    and "i < length (pp_objects plan)" and "j < length (pp_objects plan)"
    and "obj_track_name (pp_objects plan ! i) = obj_track_name (pp_objects plan ! j)"
    and "obj_kind (pp_objects plan ! i) \<noteq> Initialization" and "obj_kind (pp_objects plan ! j) \<noteq> Initialization"
    and "cycle_fits (build_loop_state plan True) (obj_track_name (pp_objects plan ! i)) d" and "c \<le> d"
  shows "let earlier = make_looped_object (pp_objects plan ! i) (build_loop_state plan True) c;
             later = make_looped_object (pp_objects plan ! j) (build_loop_state plan True) d in
     (c < d \<longrightarrow> obj_group_id earlier < obj_group_id later \<and>
        (obj_kind earlier = Media \<longrightarrow> obj_kind later = Media \<longrightarrow>
           unat (obj_media_time_us earlier) + unat (obj_media_duration_us earlier) \<le> unat (obj_media_time_us later))) \<and>
     (c = d \<longrightarrow>
        obj_group_id later - obj_group_id earlier = obj_group_id (pp_objects plan ! j) - obj_group_id (pp_objects plan ! i) \<and>
        (obj_group_id earlier < obj_group_id later) = (obj_group_id (pp_objects plan ! i) < obj_group_id (pp_objects plan ! j)) \<and>
        (obj_kind earlier = Media \<longrightarrow> obj_kind later = Media \<longrightarrow>
           obj_media_time_us later - obj_media_time_us earlier =
             obj_media_time_us (pp_objects plan ! j) - obj_media_time_us (pp_objects plan ! i) \<and>
           (obj_media_time_us earlier < obj_media_time_us later) =
             (obj_media_time_us (pp_objects plan ! i) < obj_media_time_us (pp_objects plan ! j))))"
proof -
  define state where "state = build_loop_state plan True"
  define x where "x = pp_objects plan ! i"
  define y where "y = pp_objects plan ! j"
  have on: "ls_enabled state" by (simp add: state_def build_loop_state_def)
  have dx: "describes state (i, x)" and dy: "describes state (j, y)"
    using build_loop_state_describes [of _ plan] assms(2,3) by (simp_all add: state_def x_def y_def)
  have k: "obj_kind x \<noteq> Initialization" "obj_kind y \<noteq> Initialization" "obj_track_name y = obj_track_name x"
    using assms by (simp_all add: x_def y_def)
  obtain info where info: "ls_tracks state (obj_track_name x) = Some info" "tl_has_loopable_objects info"
    using describes_object [OF dx] k by auto
  have fit: "object_fits x" "object_fits y"
    using assms(1-3) by (simp_all add: plan_counts_fit_def list_all_length x_def y_def)
  have fd: "cycle_fits state (obj_track_name x) d" using assms(7) by (simp add: state_def x_def)
  have fc: "cycle_fits state (obj_track_name x) c" using cycle_fits_less [OF assms(8) fd] .
  note gx = described_group [OF dx fit(1) info(1)] and gy = described_group [OF dy fit(2) info(1) [folded k(3)]]
  note ex = looped_numbers [OF on info k(1) fc]
  have ey: "unat (obj_group_id (make_looped_object y state d)) = unat (obj_group_id y) + unat (tl_group_span info) * unat d"
    "unat (obj_media_time_us y) \<le> unat (ls_cycle_duration_us state) \<Longrightarrow>
     unat (obj_media_time_us (make_looped_object y state d)) = unat (obj_media_time_us y) + unat (ls_cycle_duration_us state) * unat d"
    using looped_numbers [of state y info d] on info k fd gy by simp_all
  have step: "unat s * unat c + unat s \<le> unat s * unat d" if "c < d" for s :: u64
  proof -
    have "unat c + 1 \<le> unat d" using that by (simp add: word_less_nat_alt)
    from mult_le_mono2 [OF this, of "unat s"] show ?thesis by simp
  qed
  have groups: "obj_group_id (make_looped_object x state c) < obj_group_id (make_looped_object y state d)" if "c < d"
    using step [OF that, of "tl_group_span info"] ex(1) ey(1) gx gy unfolding word_less_nat_alt by linarith
  have times: "unat (obj_media_time_us (make_looped_object x state c)) + unat (obj_media_duration_us x) \<le>
      unat (obj_media_time_us (make_looped_object y state d))" if "c < d" "obj_kind x = Media" "obj_kind y = Media"
    using step [OF that(1), of "ls_cycle_duration_us state"] ex(2) ey(2)
      described_end [OF dx fit(1) that(2)] described_end [OF dy fit(2) that(3)] by linarith
  have same: "obj_group_id (make_looped_object y state d) - obj_group_id (make_looped_object x state c) =
       obj_group_id y - obj_group_id x \<and>
     (obj_group_id (make_looped_object x state c) < obj_group_id (make_looped_object y state d)) = (obj_group_id x < obj_group_id y)"
    if "c = d"
    using that info k ex(1) ey(1) gx gy unfolding word_less_nat_alt by (simp add: make_looped_object_def)
  have same_times: "obj_media_time_us (make_looped_object y state d) - obj_media_time_us (make_looped_object x state c) =
       obj_media_time_us y - obj_media_time_us x \<and>
     (obj_media_time_us (make_looped_object x state c) < obj_media_time_us (make_looped_object y state d)) =
       (obj_media_time_us x < obj_media_time_us y)"
    if "c = d" "obj_kind x = Media" "obj_kind y = Media"
    using that info k ex(2) ey(2) described_end [OF dx fit(1) that(2)] described_end [OF dy fit(2) that(3)]
    unfolding word_less_nat_alt by (simp add: make_looped_object_def)
  from groups times same same_times show ?thesis by (simp add: Let_def x_def y_def state_def)
qed

subsection \<open>When a generation began\<close>

lemma map_of_filter_key: "map_of (filter (\<lambda>(k, _). P k) m) k = (if P k then map_of m k else None)"
  by (induction m) auto

text \<open>What is done with the availability: a time is asked for, or the cycles still needed are announced.\<close>

datatype availability_use = Exposed int u64 | Retained "u64 list"

fun use_availability :: "availability_use \<Rightarrow> GenerationAvailability \<Rightarrow> GenerationAvailability" where
  "use_availability (Exposed now c) ga = snd (generation_origin now c ga)"
| "use_availability (Retained needed) ga = retain_generations needed ga"

text \<open>The cycle stays between the oldest and the newest that some subscription is in.\<close>

fun still_needed :: "u64 \<Rightarrow> availability_use \<Rightarrow> bool" where
  "still_needed c (Exposed now c') = True"
| "still_needed c (Retained needed) = (needed = [] \<or> list_ex (\<lambda>n. n \<le> c) needed \<and> list_ex (\<lambda>n. c \<le> n) needed)"

text \<open>The cycle has begun at \<open>t\<close>.\<close>

definition began :: "u64 \<Rightarrow> int \<Rightarrow> GenerationAvailability \<Rightarrow> bool" where
  "began c t ga \<longleftrightarrow> omap_ok (ga_generation_origins ga) \<and>
     (if c = 0 then t = ga_first_generation_at ga
      else if ga_paced ga \<and> ls_cycle_duration_us (ga_loop_state ga) \<noteq> 0
      then t = ga_first_generation_at ga + sint (c * ls_cycle_duration_us (ga_loop_state ga)) * 1000
      else map_of (ga_generation_origins ga) c = Some t)"

lemma began_origin: "began c t ga \<Longrightarrow> generation_origin now c ga = (t, ga)"
  by (simp add: began_def generation_origin_def split: if_splits)

lemma origin_added:
  "snd (generation_origin now c ga) = ga \<or> map_of (ga_generation_origins ga) c = None \<and>
     snd (generation_origin now c ga) = ga\<lparr>ga_generation_origins := omap_put c now (ga_generation_origins ga)\<rparr>"
  by (simp add: generation_origin_def split: option.splits)

lemma generation_origin_began:
  assumes "omap_ok (ga_generation_origins ga)" and "generation_origin now c ga = (t, ga')"
  shows "began c t ga'"
  using assms by (auto simp: began_def generation_origin_def split: option.splits if_splits)

lemma began_exposed:
  assumes "began c t ga"
  shows "began c t (snd (generation_origin now c' ga))"
  using assms origin_added [of now c' ga] by (auto simp: began_def split: if_splits)

lemma began_retained:
  assumes "began c t ga" and "still_needed c (Retained needed)" and "ga_oldest_retained_cycle ga \<le> c"
  shows "began c t (retain_generations needed ga) \<and> ga_oldest_retained_cycle (retain_generations needed ga) \<le> c"
proof (cases "\<not> ga_enabled ga \<or> ga_paced ga \<or> needed = []")
  case True
  then show ?thesis using assms(1,3) by (simp add: retain_generations_def)
next
  case False
  let ?oldest = "max (ga_oldest_retained_cycle ga) (Min (set needed))" and ?newest = "Max (set needed)"
  have "list_ex (\<lambda>n. n \<le> c) needed" "list_ex (\<lambda>n. c \<le> n) needed" using assms(2) False by simp_all
  then have bounds: "?oldest \<le> c" "c \<le> ?newest"
    using assms(3) False by (auto simp: list_ex_iff Min_le_iff Max_ge_iff)
  have r: "retain_generations needed ga = ga\<lparr>ga_oldest_retained_cycle := ?oldest,
      ga_generation_origins := filter (\<lambda>(cycle, _). ?oldest \<le> cycle \<and> cycle \<le> ?newest) (ga_generation_origins ga)\<rparr>"
    using False by (simp add: retain_generations_def Let_def)
  have "omap_ok (filter (\<lambda>(cycle, _). ?oldest \<le> cycle \<and> cycle \<le> ?newest) (ga_generation_origins ga))"
    using assms(1) by (auto simp: began_def omap_ok_def sorted_wrt_map sorted_wrt_filter)
  moreover have "map_of (filter (\<lambda>(cycle, _). ?oldest \<le> cycle \<and> cycle \<le> ?newest) (ga_generation_origins ga)) c =
      map_of (ga_generation_origins ga) c"
    using bounds by (simp add: map_of_filter_key)
  ultimately show ?thesis using assms(1) bounds unfolding r began_def by simp
qed

text \<open>C36: The delivery timers of a cycle never restart: once the beginning of a cycle has been fixed, every later use
  of it, whatever the clock reads then, sees the same time, as long as subscriptions remain on both sides of it.
\<close>

theorem generation_begins_once:
  assumes "omap_ok (ga_generation_origins ga)" and "ga_oldest_retained_cycle ga \<le> c"
    and "generation_origin now c ga = (t, ga')" and "list_all (still_needed c) uses"
  shows "fst (generation_origin later c (fold use_availability uses ga')) = t"
proof -
  have old: "ga_oldest_retained_cycle ga' \<le> c" using assms(2,3)
    by (auto simp: generation_origin_def split: option.splits if_splits)
  have "began c t ga'" by (rule generation_origin_began [OF assms(1,3)])
  then have "began c t (fold use_availability uses ga')" using old assms(4)
  proof (induction uses arbitrary: ga')
    case (Cons use uses)
    have "began c t (use_availability use ga') \<and> ga_oldest_retained_cycle (use_availability use ga') \<le> c"
    proof (cases "use")
      case (Exposed now c')
      then show ?thesis using began_exposed [OF Cons.prems(1)] Cons.prems(2)
        by (auto simp: generation_origin_def split: option.splits)
    next
      case (Retained needed)
      then show ?thesis using began_retained [OF Cons.prems(1)] Cons.prems(2,3) by simp
    qed
    then show ?case using Cons.IH Cons.prems(3) by simp
  qed simp
  then show ?thesis by (simp add: began_origin)
qed

subsection \<open>When objects are due\<close>

lemma first_media_time_fold:
  "(case fold (\<lambda>object first. if obj_kind object \<noteq> Media then first
       else Some (case first of None \<Rightarrow> obj_media_time_us object | Some t \<Rightarrow> min t (obj_media_time_us object))) objects first of
      None \<Rightarrow> first = None \<and> (\<forall>x \<in> set objects. obj_kind x \<noteq> Media)
    | Some t \<Rightarrow> (\<forall>t'. first = Some t' \<longrightarrow> t \<le> t') \<and> (\<forall>x \<in> set objects. obj_kind x = Media \<longrightarrow> t \<le> obj_media_time_us x) \<and>
        (first = Some t \<or> (\<exists>x \<in> set objects. obj_kind x = Media \<and> obj_media_time_us x = t)))"
proof (induction objects arbitrary: first)
  case (Cons x xs)
  let ?first = "if obj_kind x \<noteq> Media then first
    else Some (case first of None \<Rightarrow> obj_media_time_us x | Some t \<Rightarrow> min t (obj_media_time_us x))"
  show ?case using Cons.IH [of ?first]
    by (auto split: option.splits if_splits simp: min_def)
qed (simp split: option.splits)

lemma first_media_time_least:
  assumes "x \<in> set objects" and "obj_kind x = Media"
  shows "\<exists>t. first_media_time objects = Some t \<and> (\<forall>x \<in> set objects. obj_kind x = Media \<longrightarrow> t \<le> obj_media_time_us x) \<and>
    (\<exists>x \<in> set objects. obj_kind x = Media \<and> obj_media_time_us x = t)"
  using first_media_time_fold [of None objects] assms by (auto simp: first_media_time_def split: option.splits)

text \<open>The final objects of the subgroups among the objects that were noted.\<close>

definition finals_ok :: "(nat \<times> CmsfObject) list \<Rightarrow> (string \<times> u64 \<times> u64 \<rightharpoonup> u64 \<times> nat) \<Rightarrow> bool" where
  "finals_ok noted finals \<longleftrightarrow> (\<forall>s. (case finals s of
      None \<Rightarrow> (\<forall>e \<in> set noted. subgroup_of (snd e) \<noteq> s)
    | Some (object_id, index) \<Rightarrow>
        (\<exists>x. (index, x) \<in> set noted \<and> subgroup_of x = s \<and> obj_object_id x = object_id) \<and>
        (\<forall>e \<in> set noted. subgroup_of (snd e) = s \<longrightarrow> obj_object_id (snd e) \<le> object_id)))"

lemma finals_ok_note:
  assumes "finals_ok noted finals"
  shows "finals_ok (noted @ [e]) (note_final_object e finals)"
proof -
  obtain index x where e: "e = (index, x)" by (cases e)
  have old: "case finals s of
      None \<Rightarrow> (\<forall>e \<in> set noted. subgroup_of (snd e) \<noteq> s)
    | Some (object_id, index) \<Rightarrow>
        (\<exists>x. (index, x) \<in> set noted \<and> subgroup_of x = s \<and> obj_object_id x = object_id) \<and>
        (\<forall>e \<in> set noted. subgroup_of (snd e) = s \<longrightarrow> obj_object_id (snd e) \<le> object_id)" for s
    using assms unfolding finals_ok_def by (rule spec)
  show ?thesis
    unfolding finals_ok_def
  proof
    fix s
    show "case note_final_object e finals s of
      None \<Rightarrow> (\<forall>e \<in> set (noted @ [e]). subgroup_of (snd e) \<noteq> s)
    | Some (object_id, index) \<Rightarrow>
        (\<exists>x. (index, x) \<in> set (noted @ [e]) \<and> subgroup_of x = s \<and> obj_object_id x = object_id) \<and>
        (\<forall>e \<in> set (noted @ [e]). subgroup_of (snd e) = s \<longrightarrow> obj_object_id (snd e) \<le> object_id)"
    proof (cases "s = subgroup_of x")
      case False
      then have "note_final_object e finals s = finals s"
        by (auto simp: e note_final_object_def split: option.splits)
      then show ?thesis using old [of s] False e by (auto split: option.splits)
    next
      case True
      show ?thesis
      proof (cases "finals s")
        case None
        then show ?thesis using old [of s] True e by (auto simp: note_final_object_def)
      next
        case (Some final)
        then show ?thesis using old [of s] True e
          by (cases final) (fastforce simp: note_final_object_def)
      qed
    qed
  qed
qed

lemma finals_ok_fold: "finals_ok noted finals \<Longrightarrow> finals_ok (noted @ es) (fold note_final_object es finals)"
proof (induction es arbitrary: noted finals)
  case (Cons e es)
  then show ?case using Cons.IH [OF finals_ok_note [OF Cons.prems, of e]] by simp
qed simp

lemma final_object:
  assumes "i < length objects"
  shows "\<exists>object_id j. fold note_final_object (List.enumerate 0 objects) Map.empty (subgroup_of (objects ! i)) = Some (object_id, j) \<and>
    j < length objects \<and> subgroup_of (objects ! j) = subgroup_of (objects ! i) \<and>
    (\<forall>k < length objects. subgroup_of (objects ! k) = subgroup_of (objects ! i) \<longrightarrow> obj_object_id (objects ! k) \<le> obj_object_id (objects ! j))"
proof -
  let ?finals = "fold note_final_object (List.enumerate 0 objects) Map.empty"
  have ok: "finals_ok (List.enumerate 0 objects) ?finals"
    using finals_ok_fold [of "[]" Map.empty "List.enumerate 0 objects"] by (simp add: finals_ok_def)
  have mem: "(k, objects ! k) \<in> set (List.enumerate 0 objects)" if "k < length objects" for k
    using that by (simp add: in_set_enumerate_eq)
  have here: "case ?finals (subgroup_of (objects ! i)) of
      None \<Rightarrow> (\<forall>e \<in> set (List.enumerate 0 objects). subgroup_of (snd e) \<noteq> subgroup_of (objects ! i))
    | Some (object_id, index) \<Rightarrow>
        (\<exists>x. (index, x) \<in> set (List.enumerate 0 objects) \<and> subgroup_of x = subgroup_of (objects ! i) \<and> obj_object_id x = object_id) \<and>
        (\<forall>e \<in> set (List.enumerate 0 objects). subgroup_of (snd e) = subgroup_of (objects ! i) \<longrightarrow> obj_object_id (snd e) \<le> object_id)"
    using ok unfolding finals_ok_def by (rule spec)
  then obtain object_id j where f: "?finals (subgroup_of (objects ! i)) = Some (object_id, j)"
    using mem [OF assms] by (cases "?finals (subgroup_of (objects ! i))") fastforce+
  then have "j < length objects" "subgroup_of (objects ! j) = subgroup_of (objects ! i)" "obj_object_id (objects ! j) = object_id"
      "\<forall>e \<in> set (List.enumerate 0 objects). subgroup_of (snd e) = subgroup_of (objects ! i) \<longrightarrow> obj_object_id (snd e) \<le> object_id"
    using here by (auto simp: in_set_enumerate_eq)
  then show ?thesis using f mem by fastforce
qed

text \<open>When a cycle begins by the schedule: the first at the start, the later ones of a paced plan one duration after
  another. (The count of microseconds is a 64-bit product, read as signed.)
\<close>

definition scheduled_start :: "LoopState \<Rightarrow> bool \<Rightarrow> int \<Rightarrow> u64 \<Rightarrow> int option" where
  "scheduled_start loop_state paced start c =
     (if c = 0 then Some start
      else if paced \<and> ls_cycle_duration_us loop_state \<noteq> 0
      then Some (start + sint (c * ls_cycle_duration_us loop_state) * 1000) else None)"

lemma uses_keep:
  defines "fixed ga \<equiv> (ga_paced ga, ga_loop_state ga, ga_first_generation_at ga, ga_object_offsets ga,
      ga_subgroup_completion_offsets ga)"
  shows "fixed (fold use_availability uses ga) = fixed ga"
proof (induction uses arbitrary: ga)
  case (Cons use uses)
  have "fixed (use_availability use ga) = fixed ga" using origin_added
    by (cases "use") (auto simp: fixed_def generation_origin_def retain_generations_def Let_def split: option.splits)
  then show ?case using Cons.IH by simp
qed simp

lemma generation_origin_scheduled:
  "generation_origin now c ga =
     (case scheduled_start (ga_loop_state ga) (ga_paced ga) (ga_first_generation_at ga) c of
        Some t \<Rightarrow> (t, ga)
      | None \<Rightarrow> (case map_of (ga_generation_origins ga) c of
          Some t \<Rightarrow> (t, ga)
        | None \<Rightarrow> (now, ga\<lparr>ga_generation_origins := omap_put c now (ga_generation_origins ga)\<rparr>)))"
  by (simp add: generation_origin_def scheduled_start_def)

text \<open>C38: The times from which deadlines count, in every cycle and after any use of the availability: an object of a
  paced plan is available when, since its cycle began, its media time has passed from the earliest media of the plan,
  everything else when its cycle begins, and a subgroup is complete when the object with its largest id is available.
  A cycle begins on schedule when the schedule fixes it: the first at the start, the later ones of a paced plan with a
  duration one duration after another. Another cycle begins at the time recorded for it, or when nothing is recorded
  now, and then that is recorded.
\<close>

theorem objects_available_when_due:
  assumes "i < length objects" and "ga = fold use_availability uses (new_availability objects loop_state paced start True)"
  shows "\<exists>origin ga'.
    (case scheduled_start loop_state paced start c of
       Some t \<Rightarrow> origin = t \<and> ga' = ga
     | None \<Rightarrow> (case map_of (ga_generation_origins ga) c of
         Some t \<Rightarrow> origin = t \<and> ga' = ga
       | None \<Rightarrow> origin = now \<and> ga' = ga\<lparr>ga_generation_origins := omap_put c now (ga_generation_origins ga)\<rparr>)) \<and>
    (\<not> (paced \<and> obj_kind (objects ! i) = Media) \<longrightarrow> object_available_at now c i ga = Inr (origin, ga')) \<and>
    (paced \<and> obj_kind (objects ! i) = Media \<longrightarrow>
      (\<exists>x \<in> set objects. obj_kind x = Media \<and>
         (\<forall>y \<in> set objects. obj_kind y = Media \<longrightarrow> obj_media_time_us x \<le> obj_media_time_us y) \<and>
         object_available_at now c i ga =
           Inr (origin + sint (obj_media_time_us (objects ! i) - obj_media_time_us x) * 1000, ga'))) \<and>
    (\<exists>j < length objects. subgroup_of (objects ! j) = subgroup_of (objects ! i) \<and>
       (\<forall>k < length objects. subgroup_of (objects ! k) = subgroup_of (objects ! i) \<longrightarrow>
          obj_object_id (objects ! k) \<le> obj_object_id (objects ! j)) \<and>
       subgroup_completed_at now c i ga = object_available_at now c j ga)"
proof -
  let ?first = "first_media_time objects"
  let ?new = "new_availability objects loop_state paced start True"
  let ?origin = "fst (generation_origin now c ga)" and ?ga = "snd (generation_origin now c ga)"
  note kept = uses_keep [of uses ?new, folded assms(2)]
  have begins: "case scheduled_start loop_state paced start c of
       Some t \<Rightarrow> ?origin = t \<and> ?ga = ga
     | None \<Rightarrow> (case map_of (ga_generation_origins ga) c of
         Some t \<Rightarrow> ?origin = t \<and> ?ga = ga
       | None \<Rightarrow> ?origin = now \<and> ?ga = ga\<lparr>ga_generation_origins := omap_put c now (ga_generation_origins ga)\<rparr>)"
    using kept by (simp add: generation_origin_scheduled new_availability_def Let_def split: option.split)
  have at: "object_available_at now c k ga = Inr (?origin + object_offset paced ?first (objects ! k) * 1000, ?ga)"
    if "k < length objects" for k
    using that kept by (simp add: object_available_at_def available_at_def new_availability_def Let_def split: prod.split)
  have plain: "object_offset paced ?first (objects ! i) = 0" if "\<not> (paced \<and> obj_kind (objects ! i) = Media)"
    using that by (auto simp: object_offset_def split: option.splits)
  have media: "\<exists>x \<in> set objects. obj_kind x = Media \<and>
      (\<forall>y \<in> set objects. obj_kind y = Media \<longrightarrow> obj_media_time_us x \<le> obj_media_time_us y) \<and>
      object_offset paced ?first (objects ! i) = sint (obj_media_time_us (objects ! i) - obj_media_time_us x)"
    if due: "paced \<and> obj_kind (objects ! i) = Media"
  proof -
    have i: "objects ! i \<in> set objects" using assms(1) by simp
    obtain x where "?first = Some (obj_media_time_us x)" "x \<in> set objects" "obj_kind x = Media"
        "\<forall>y \<in> set objects. obj_kind y = Media \<longrightarrow> obj_media_time_us x \<le> obj_media_time_us y"
      using first_media_time_least [OF i conjunct2 [OF due]] by auto
    then show ?thesis using due i by (auto simp: object_offset_def)
  qed
  obtain object_id j where j: "fold note_final_object (List.enumerate 0 objects) Map.empty (subgroup_of (objects ! i)) = Some (object_id, j)"
      "j < length objects" "subgroup_of (objects ! j) = subgroup_of (objects ! i)"
      "\<forall>k < length objects. subgroup_of (objects ! k) = subgroup_of (objects ! i) \<longrightarrow> obj_object_id (objects ! k) \<le> obj_object_id (objects ! j)"
    using final_object [OF assms(1)] by blast
  have "subgroup_completed_at now c i ga = object_available_at now c j ga"
    unfolding at [OF j(2)] using assms(1) j(1,2) kept
    by (simp add: subgroup_completed_at_def available_at_def new_availability_def Let_def split: prod.split)
  with j have "\<exists>j < length objects. subgroup_of (objects ! j) = subgroup_of (objects ! i) \<and>
       (\<forall>k < length objects. subgroup_of (objects ! k) = subgroup_of (objects ! i) \<longrightarrow>
          obj_object_id (objects ! k) \<le> obj_object_id (objects ! j)) \<and>
       subgroup_completed_at now c i ga = object_available_at now c j ga" by blast
  then show ?thesis using begins at [OF assms(1)] plain media
    by (intro exI [of _ ?origin] exI [of _ ?ga]) fastforce
qed

subsection \<open>Examples\<close>

definition example_plan :: "CmsfObject list" where
  "example_plan = map (\<lambda>(g, i). (example_object g i)\<lparr>obj_track_name := ''v'', obj_owned_payload := [1],
     obj_media_time_us := g * 1000 + i * 100, obj_media_duration_us := 100\<rparr>) [(0, 0), (0, 1), (0, 2), (1, 0)]"

definition example_loop :: LoopState where
  "example_loop = \<lparr>ls_enabled = True, ls_cycle_duration_us = 1100, ls_tracks = [''v'' \<mapsto>
     \<lparr>tl_group_span = 2, tl_first_loop_object_index = 0, tl_has_loopable_objects = True, tl_timescale = 0,
      tl_packaging = []\<rparr>]\<rparr>"

lemma example_loop_built: "build_loop_state \<lparr>pp_tracks = [], pp_objects = example_plan\<rparr> True = example_loop"
  by (simp add: build_loop_state_def example_loop_def example_plan_def example_object_def new_track_loop_info_def
    note_loop_object_def Let_def)

lemma looped_cycles_disjoint_witness:
  "obj_group_id (make_looped_object (example_plan ! 3) example_loop 4) <
     obj_group_id (make_looped_object (example_plan ! 0) example_loop 5) \<and>
   obj_media_time_us (make_looped_object (example_plan ! 0) example_loop 5) <
     obj_media_time_us (make_looped_object (example_plan ! 3) example_loop 5)"
proof -
  let ?plan = "\<lparr>pp_tracks = [], pp_objects = example_plan\<rparr>"
  have counts: "plan_counts_fit (pp_objects ?plan)"
    by (simp add: plan_counts_fit_def object_fits_def example_plan_def example_object_def)
  have fits: "cycle_fits (build_loop_state ?plan True) (obj_track_name (pp_objects ?plan ! 3)) 5"
      "cycle_fits (build_loop_state ?plan True) (obj_track_name (pp_objects ?plan ! 0)) 5"
    unfolding example_loop_built by (simp_all add: cycle_fits_def example_loop_def example_plan_def)
  have plan: "(3 :: nat) < length (pp_objects ?plan)" "(0 :: nat) < length (pp_objects ?plan)"
      "obj_track_name (pp_objects ?plan ! 3) = obj_track_name (pp_objects ?plan ! 0)"
      "obj_kind (pp_objects ?plan ! 3) = Media" "obj_kind (pp_objects ?plan ! 0) = Media"
      "obj_media_time_us (pp_objects ?plan ! 0) < obj_media_time_us (pp_objects ?plan ! 3)" by code_simp+
  show ?thesis
    using looped_cycles_disjoint [of ?plan 3 0 5 4] looped_cycles_disjoint [of ?plan 0 3 5 5] counts fits plan
    by (simp add: Let_def example_loop_built)
qed

definition example_availability :: GenerationAvailability where
  "example_availability = new_availability example_plan example_loop False 0 True"

lemma objects_available_when_due_witness:
  "let ga = fold use_availability [Exposed 7 1, Retained [1, 2]] (new_availability example_plan example_loop True 50 True) in
   object_available_at 9 3 1 ga = Inr (50 + 3 * 1100 * 1000 + 100 * 1000, ga) \<and>
   (\<exists>j < 4. subgroup_completed_at 9 3 1 ga = object_available_at 9 3 j ga)"
proof -
  define ga where "ga = fold use_availability [Exposed 7 1, Retained [1, 2]] (new_availability example_plan example_loop True 50 True)"
  have i: "1 < length example_plan" by code_simp
  have l: "length example_plan = 4" by code_simp
  have "sint (3 * 1100 :: u64) = 3300" by code_simp
  then have s: "scheduled_start example_loop True 50 3 = Some (50 + 3 * 1100 * 1000)"
    by (simp add: scheduled_start_def example_loop_def)
  have k: "obj_kind (example_plan ! 1) = Media" by code_simp
  from objects_available_when_due [OF i ga_def, where c = 3 and now = 9] s k obtain x where
      x: "x \<in> set example_plan" "obj_kind x = Media"
      "\<forall>y \<in> set example_plan. obj_kind y = Media \<longrightarrow> obj_media_time_us x \<le> obj_media_time_us y"
      "object_available_at 9 3 1 ga =
         Inr (50 + 3 * 1100 * 1000 + sint (obj_media_time_us (example_plan ! 1) - obj_media_time_us x) * 1000, ga)"
    and j: "\<exists>j < length example_plan. subgroup_completed_at 9 3 1 ga = object_available_at 9 3 j ga"
    by auto
  have "example_plan ! 0 \<in> set example_plan" using l by simp
  moreover have "obj_kind (example_plan ! 0) = Media" "obj_media_time_us (example_plan ! 0) = 0" by code_simp+
  ultimately have "obj_media_time_us x = 0" using x(3) by fastforce
  moreover have "sint (obj_media_time_us (example_plan ! 1) - 0) = 100" by code_simp
  ultimately show ?thesis using x(4) j l unfolding ga_def [symmetric] Let_def by simp
qed

lemma generation_begins_once_witness:
  "fst (generation_origin 300 5 (fold use_availability [Retained [3, 6], Exposed 200 5, Exposed 250 6]
     (snd (generation_origin 100 5 example_availability)))) = 100"
proof -
  obtain ga' where g: "generation_origin 100 5 example_availability = (100, ga')"
    by (simp add: generation_origin_def example_availability_def new_availability_def Let_def)
  show ?thesis
    using generation_begins_once [of example_availability 5 100 100 ga' "[Retained [3, 6], Exposed 200 5, Exposed 250 6]" 300]
      g by (simp add: example_availability_def new_availability_def Let_def)
qed

text \<open>
  Past the newest cycle that is needed the beginning is not kept: a cycle that only an ended subscription had
  reached begins again when another one gets there.
\<close>

lemma leading_generation_begins_again:
  "fst (generation_origin 100 5 example_availability) = 100 \<and>
   fst (generation_origin 200 5 (use_availability (Retained [3]) (snd (generation_origin 100 5 example_availability)))) = 200"
  by (simp add: generation_origin_def example_availability_def new_availability_def Let_def retain_generations_def)

end
