(* ===== verification/Publish_Loop.thy ===== *)
theory Publish_Loop
  imports Session_Loop
begin

text \<open>
  How the session picks the next object for its subscriptions, from \<open>serve_subscriptions\<close> of
  \<open>src/transport/moqt_session.cpp\<close>: the candidates of the active subscriptions, one turn of the loop that
  serves the most urgent one, REQUEST_UPDATE on an active subscription and the end of a track. The transport
  and the clock are arguments, as in \<open>Subgroup_Sender\<close>; the calls that change the transport are the effects
  returned.
\<close>

subsection \<open>Candidates\<close>

record EligibleCandidate =
  ec_request_id :: u64
  ec_scheduler_generation :: u64
  ec_loop_cycle :: u64
  ec_plan_index :: nat
  ec_priority :: CandidatePriority

definition candidate_of :: "u64 \<Rightarrow> ActiveSubscription \<Rightarrow> CandidatePriority \<Rightarrow> EligibleCandidate" where
  "candidate_of request_id active priority =
     \<lparr>ec_request_id = request_id, ec_scheduler_generation = as_scheduler_generation active,
      ec_loop_cycle = as_loop_cycle active, ec_plan_index = cp_plan_index priority, ec_priority = priority\<rparr>"

definition enqueue_active_candidate :: "u64 \<Rightarrow> ActiveSubscription \<Rightarrow> EligibleCandidate list" where
  "enqueue_active_candidate request_id active =
     (if as_completed active \<or> as_forward_paused_by_update active \<or> as_generation_lead_parked active then []
      else case as_scheduler_frontiers active of
        [] \<Rightarrow> []
      | priority # _ \<Rightarrow> [candidate_of request_id active
          (priority\<lparr>cp_request_fairness_round := as_scheduling_round active, cp_request_id := request_id\<rparr>)])"

definition is_stale :: "EligibleCandidate \<Rightarrow> ActiveSubscription \<Rightarrow> bool" where
  "is_stale selected active \<longleftrightarrow>
     as_completed active \<or> as_forward_paused_by_update active \<or>
     ec_scheduler_generation selected \<noteq> as_scheduler_generation active \<or>
     ec_loop_cycle selected \<noteq> as_loop_cycle active \<or>
     cp_request_fairness_round (ec_priority selected) \<noteq> as_scheduling_round active \<or>
     as_scheduler_frontiers active = []"

text \<open>\<open>std::set::find\<close>: the element equivalent to the key, and the elements after it.\<close>

definition selected_frontier :: "EligibleCandidate \<Rightarrow> CandidatePriority list \<Rightarrow> CandidatePriority list" where
  "selected_frontier selected frontiers =
     (let k = (ec_priority selected)\<lparr>cp_request_fairness_round := 0\<rparr> in
      dropWhile (\<lambda>c. precedes c k \<or> precedes k c) frontiers)"

subsection \<open>Serving one candidate\<close>

datatype serve_outcome = Held "EligibleCandidate option" | Admitted bool

definition claim_send_sequence :: "u64 \<Rightarrow> nat \<Rightarrow> CmsfObject \<Rightarrow> ActiveSubscription \<Rightarrow> ActiveSubscription" where
  "claim_send_sequence next_sequence plan_index object active =
     active\<lparr>as_send_sequence_by_object_index := omap_emplace plan_index
       (if obj_kind object = Media then next_sequence else 0) (as_send_sequence_by_object_index active)\<rparr>"

definition admit_selected ::
    "CmsfObject list \<Rightarrow> LoopState \<Rightarrow> EligibleCandidate \<Rightarrow> CandidatePriority \<Rightarrow> ActiveSubscription \<Rightarrow>
     ActiveSubscription session" where
  "admit_selected objects loop_state selected frontier active =
     (let index = ec_plan_index selected;
          k = frontier_key (objects ! index);
          active = active\<lparr>as_admitted_object_indices := insert index (as_admitted_object_indices active),
            as_send_sequence_by_object_index := omap_erase index (as_send_sequence_by_object_index active),
            as_availability_by_object_index := omap_erase index (as_availability_by_object_index active),
            as_scheduler_frontiers := remove1 frontier (as_scheduler_frontiers active)\<rparr>;
          lost = Inl (Failed ''priority scheduler lost its subgroup frontier'') in
      case map_of (as_subgroup_frontiers active) k of
        None \<Rightarrow> lost
      | Some subgroup \<Rightarrow>
          if sf_next subgroup \<ge> length (sf_object_indices subgroup) \<or>
             sf_object_indices subgroup ! sf_next subgroup \<noteq> index then lost
          else
          let next_position = Suc (sf_next subgroup);
              active = active\<lparr>as_subgroup_frontiers :=
                  omap_put k (subgroup\<lparr>sf_next := next_position\<rparr>) (as_subgroup_frontiers active),
                as_scheduling_round := as_scheduling_round active + 1\<rparr> in
          Inr (if next_position < length (sf_object_indices subgroup) then
                 active\<lparr>as_scheduler_frontiers := set_insert precedes
                   (candidate objects loop_state active (ec_request_id selected)
                      (sf_object_indices subgroup ! next_position)) (as_scheduler_frontiers active)\<rparr>
               else active))"

text \<open>
  The candidate is current and its frontier was found: \<open>frontiers\<close> are the frontiers from it on. The outer
  \<open>None\<close> is the rewriting of timestamps that never returns.
\<close>

definition serve_selected ::
    "CmsfObject list \<Rightarrow> LoopState \<Rightarrow> DraftVersion \<Rightarrow> EligibleCandidate \<Rightarrow> CandidatePriority list \<Rightarrow> u64 \<Rightarrow> answers \<Rightarrow>
     ActiveSubscription \<Rightarrow> (effect list \<times> (serve_outcome \<times> ActiveSubscription) session) option" where
  "serve_selected objects loop_state draft selected frontiers next_sequence an active =
     (let index = ec_plan_index selected in
      map_option (\<lambda>object.
        if obj_owned_payload object = [] then
          ([], Inl (Failed ''transport publish requires materialized object payloads''))
        else
        let active = claim_send_sequence next_sequence index object active in
        case (subgroup_contains_group_largest objects index, is_final_object_in_subgroup objects index,
              map_of (as_availability_by_object_index active) index) of
          (Inr contains_group_largest, Inr is_final, Some options) \<Rightarrow>
            (case try_serve draft (pt_alias (as_track active)) object contains_group_largest is_final
                    (obj_owned_payload object) (sub_delivery_timeouts (as_subscribe active))
                    (sub_subscriber_priority (as_subscribe active), as_publisher_priority active)
                    (Some (ow_object_deadline options, ow_subgroup_deadline options)) an (as_sender active) of
               (effects, (status, disposition), sender) \<Rightarrow>
                 let active = active\<lparr>as_sender := sender\<rparr> in
                 (effects,
                  case status of
                    Failure message \<Rightarrow> Inl (Failed message)
                  | Success \<Rightarrow>
                      if disposition = WouldBlock then
                        Inr (Held (case tl frontiers of
                               [] \<Rightarrow> None
                             | priority # _ \<Rightarrow> Some (candidate_of (ec_request_id selected) active
                                 (priority\<lparr>cp_request_fairness_round := as_scheduling_round active\<rparr>))), active)
                      else bindE (admit_selected objects loop_state selected (hd frontiers) active)
                        (\<lambda>active. Inr (Admitted (disposition = Accepted), active))))
        | _ \<Rightarrow> ([], Inl (Thrown Out_Of_Range)))
      (make_looped_send_object (objects ! index) loop_state (ec_loop_cycle selected)))"

subsection \<open>One turn of the loop\<close>

text \<open>
  The state of the loop: the active subscriptions, the candidates in the heap and the blocked ones set aside in
  this round.
\<close>

record Publishing =
  pub_actives :: "(u64, ActiveSubscription) omap"
  pub_eligible :: "EligibleCandidate list"
  pub_blocked :: "EligibleCandidate list"
  pub_availability :: GenerationAvailability

text \<open>\<open>resume_generation_leaders\<close>: the loop over the subscriptions in the order of their request ids.\<close>

fun resume_leaders ::
    "CmsfObject list \<Rightarrow> LoopState \<Rightarrow> DraftVersion \<Rightarrow> int \<Rightarrow> u64 list \<Rightarrow> Publishing \<Rightarrow> exn + Publishing" where
  "resume_leaders objects loop_state draft now [] p = Inr p"
| "resume_leaders objects loop_state draft now (request_id # request_ids) p =
     (case map_of (pub_actives p) request_id of
        None \<Rightarrow> resume_leaders objects loop_state draft now request_ids p
      | Some active \<Rightarrow>
          if \<not> as_generation_lead_parked active then resume_leaders objects loop_state draft now request_ids p
          else
          bindE (advance_active_subscription objects loop_state draft now (map snd (pub_actives p)) active
                   (pub_availability p)) (\<lambda>(advanced, active, availability).
          let active = active\<lparr>as_completed := \<not> advanced\<rparr> in
          resume_leaders objects loop_state draft now request_ids
            (p\<lparr>pub_actives := omap_put request_id active (pub_actives p),
               pub_eligible := pub_eligible p @ enqueue_active_candidate request_id active,
               pub_availability := availability\<rparr>)))"

definition resume_generation_leaders ::
    "CmsfObject list \<Rightarrow> LoopState \<Rightarrow> DraftVersion \<Rightarrow> int \<Rightarrow> Publishing \<Rightarrow> exn + Publishing" where
  "resume_generation_leaders objects loop_state draft now p =
     resume_leaders objects loop_state draft now (map fst (pub_actives p)) p"

definition erase_active_subscription ::
    "CmsfObject list \<Rightarrow> LoopState \<Rightarrow> DraftVersion \<Rightarrow> int \<Rightarrow> u64 \<Rightarrow> Publishing \<Rightarrow> exn + Publishing" where
  "erase_active_subscription objects loop_state draft now request_id p =
     (if map_of (pub_actives p) request_id = None then Inr p
      else resume_generation_leaders objects loop_state draft now
        (p\<lparr>pub_actives := omap_erase request_id (pub_actives p)\<rparr>))"

text \<open>The set of cycles that are still needed, at the start of a round.\<close>

definition retain_needed :: "Publishing \<Rightarrow> Publishing" where
  "retain_needed p = p\<lparr>pub_availability :=
     retain_generations (map (as_loop_cycle \<circ> snd) (pub_actives p)) (pub_availability p)\<rparr>"

text \<open>
  The top of the heap. Candidates that the order does not separate belong to the same object of the same request;
  the model takes the first of them.
\<close>

fun top_candidate :: "EligibleCandidate \<Rightarrow> EligibleCandidate list \<Rightarrow> EligibleCandidate" where
  "top_candidate c [] = c"
| "top_candidate c (d # ds) =
     top_candidate (if precedes_cross_request (ec_priority d) (ec_priority c) then d else c) ds"

text \<open>
  What follows an admission: the next cycle when the subscription has no frontier left, the subscriptions that
  waited for the slowest one, and the next candidate of this one; the blocked candidates return to the heap.
\<close>

definition after_admission ::
    "CmsfObject list \<Rightarrow> LoopState \<Rightarrow> DraftVersion \<Rightarrow> int \<Rightarrow> u64 \<Rightarrow> ActiveSubscription \<Rightarrow> Publishing \<Rightarrow> exn + Publishing" where
  "after_admission objects loop_state draft now request_id active p =
     (let put = (\<lambda>active p. p\<lparr>pub_actives := omap_put request_id active (pub_actives p)\<rparr>) in
      bindE (if as_scheduler_frontiers active = [] then
               let active = active\<lparr>as_next_object_index := length objects\<rparr>; p = put active p in
               bindE (advance_active_subscription objects loop_state draft now (map snd (pub_actives p)) active
                        (pub_availability p)) (\<lambda>(advanced, active, availability).
               Inr (put (active\<lparr>as_completed := \<not> advanced\<rparr>) (p\<lparr>pub_availability := availability\<rparr>)))
             else Inr (put active p)) (\<lambda>p.
      bindE (resume_generation_leaders objects loop_state draft now p) (\<lambda>p.
      Inr (p\<lparr>pub_eligible := pub_eligible p @
               (case map_of (pub_actives p) request_id of
                  None \<Rightarrow> [] | Some active \<Rightarrow> enqueue_active_candidate request_id active) @ pub_blocked p,
             pub_blocked := []\<rparr>))))"

datatype turn = Made_Progress bool | Try_Next | No_Candidate

text \<open>One turn of \<open>while (!eligible_candidates.empty())\<close>; the effects of a failing turn come with the failure.\<close>

definition serve_turn ::
    "CmsfObject list \<Rightarrow> LoopState \<Rightarrow> DraftVersion \<Rightarrow> int \<Rightarrow> u64 \<Rightarrow> answers \<Rightarrow> Publishing \<Rightarrow>
     (effect list \<times> (turn \<times> Publishing) session) option" where
  "serve_turn objects loop_state draft now next_sequence an p =
     (case pub_eligible p of
        [] \<Rightarrow> Some ([], Inr (No_Candidate, p\<lparr>pub_eligible := pub_blocked p, pub_blocked := []\<rparr>))
      | c # cs \<Rightarrow>
          let selected = top_candidate c cs;
              request_id = ec_request_id selected;
              p = p\<lparr>pub_eligible := remove1 selected (c # cs)\<rparr> in
          case map_of (pub_actives p) request_id of
            None \<Rightarrow> Some ([], Inr (Try_Next, p))
          | Some active \<Rightarrow>
              if is_stale selected active then Some ([], Inr (Try_Next, p))
              else case selected_frontier selected (as_scheduler_frontiers active) of
                [] \<Rightarrow> Some ([], Inr (Try_Next, p))
              | frontiers \<Rightarrow>
                  map_option (\<lambda>(effects, served). (effects,
                    bindE served (\<lambda>(outcome, active).
                      case outcome of
                        Held later \<Rightarrow>
                          Inr (Try_Next, p\<lparr>pub_actives := omap_put request_id active (pub_actives p),
                            pub_eligible := pub_eligible p @ (case later of None \<Rightarrow> [] | Some later \<Rightarrow> [later]),
                            pub_blocked := pub_blocked p @ [selected]\<rparr>)
                      | Admitted published \<Rightarrow>
                          (case after_admission objects loop_state draft now request_id active p of
                             Inl e \<Rightarrow> Inl (Thrown e)
                           | Inr p \<Rightarrow> Inr (Made_Progress published, p)))))
                    (serve_selected objects loop_state draft selected frontiers next_sequence an active))"

subsection \<open>Updates of an active subscription\<close>

text \<open>The new deadlines of the objects that have not been admitted, for the subscription and for its sender.\<close>

fun refresh_deadlines ::
    "CmsfObject list \<Rightarrow> LoopState \<Rightarrow> DraftVersion \<Rightarrow> int \<Rightarrow> nat list \<Rightarrow> ActiveSubscription \<Rightarrow> GenerationAvailability \<Rightarrow>
     exn + ActiveSubscription \<times> GenerationAvailability" where
  "refresh_deadlines objects loop_state draft now [] active ga = Inr (active, ga)"
| "refresh_deadlines objects loop_state draft now (index # indices) active ga =
     bindE (write_options draft now active index ga) (\<lambda>(options, ga).
     let object = make_looped_object (objects ! index) loop_state (as_loop_cycle active);
         priority = (case map_of (as_availability_by_object_index active) index of
           None \<Rightarrow> 255 | Some old \<Rightarrow> ow_transport_priority old) in
     refresh_deadlines objects loop_state draft now indices
       (active\<lparr>as_availability_by_object_index := omap_put index
            (options\<lparr>ow_transport_priority := priority\<rparr>) (as_availability_by_object_index active),
          as_sender := refresh_unadmitted_deadlines (obj_group_id object) (obj_subgroup_id object)
            (obj_object_id object) (ow_object_deadline options) (ow_subgroup_deadline options) (as_sender active)\<rparr>) ga)"

definition discard_unmatched ::
    "CmsfObject list \<Rightarrow> LoopState \<Rightarrow> nat \<times> u64 \<Rightarrow> ActiveSubscription \<Rightarrow> ActiveSubscription" where
  "discard_unmatched objects loop_state = (\<lambda>(index, _) active.
     if object_matches_filter (objects ! index) (as_subscribe active) then active
     else
     let object = make_looped_object (objects ! index) loop_state (as_loop_cycle active) in
     active\<lparr>as_sender := discard_unadmitted (obj_group_id object) (obj_subgroup_id object) (obj_object_id object)
         (as_sender active),
       as_send_sequence_by_object_index := omap_erase index (as_send_sequence_by_object_index active)\<rparr>)"

text \<open>The settings of the subscription; its sender forgets what the peer had stopped when the update renews it.\<close>

definition update_settings ::
    "DraftVersion \<Rightarrow> (u64 \<Rightarrow> bool \<times> bool) \<Rightarrow> RequestUpdateMessage \<Rightarrow> ActiveSubscription \<Rightarrow> effect list \<times> ActiveSubscription" where
  "update_settings draft events update active =
     (let renew = request_update_renews_peer_stopped_subgroups draft (as_subscribe active) update;
          active = (case ru_forward update of None \<Rightarrow> active
            | Some forward \<Rightarrow> active\<lparr>as_forward_paused_by_update := (forward = 0)\<rparr>);
          active = active\<lparr>as_subscribe := apply_request_update update (as_subscribe active)\<rparr> in
      if renew then
        (case renew_peer_stopped_subgroups events (as_sender active) of (effects, sender) \<Rightarrow>
           (effects, active\<lparr>as_sender := sender\<rparr>))
      else ([], active))"

definition update_deadlines ::
    "CmsfObject list \<Rightarrow> LoopState \<Rightarrow> DraftVersion \<Rightarrow> int \<Rightarrow> RequestUpdateMessage \<Rightarrow> ActiveSubscription \<Rightarrow>
     GenerationAvailability \<Rightarrow> exn + ActiveSubscription \<times> GenerationAvailability" where
  "update_deadlines objects loop_state draft now update active ga =
     (if ru_object_delivery_timeout_ms update \<noteq> None \<or> ru_subgroup_delivery_timeout_ms update \<noteq> None
      then refresh_deadlines objects loop_state draft now (map fst (as_availability_by_object_index active)) active ga
      else Inr (active, ga))"

text \<open>What the subscription waits for under the new settings.\<close>

definition reselect_objects ::
    "CmsfObject list \<Rightarrow> LoopState \<Rightarrow> DraftVersion \<Rightarrow> int \<Rightarrow> (ActiveSubscription \<Rightarrow> ActiveSubscription list) \<Rightarrow>
     ActiveSubscription \<Rightarrow> GenerationAvailability \<Rightarrow> exn + ActiveSubscription \<times> GenerationAvailability" where
  "reselect_objects objects loop_state draft now actives active ga =
     (if uses_priority_scheduler draft then
        bindE (rebuild_priority_frontiers objects loop_state draft now
                 (active\<lparr>as_generation_lead_parked := False\<rparr>) ga) (\<lambda>(active, ga).
        if as_subgroup_frontiers active = [] then
          bindE (advance_active_subscription objects loop_state draft now (actives active) active ga)
            (\<lambda>(advanced, active, ga). Inr (active\<lparr>as_completed := \<not> advanced\<rparr>, ga))
        else Inr (active, ga))
      else case find_next_matching_object_index objects (as_subscribe active) 0 of
        Some index \<Rightarrow> Inr (active\<lparr>as_next_object_index := index, as_completed := False\<rparr>, ga)
      | None \<Rightarrow>
          bindE (advance_subscription_to_next_loop_object objects loop_state draft now None False
                   (active\<lparr>as_next_object_index := length objects\<rparr>) ga)
            (\<lambda>(advanced, active, ga). Inr (active\<lparr>as_completed := \<not> advanced\<rparr>, ga)))"

text \<open>
  \<open>apply_update_to_active\<close>. \<open>actives\<close> are the subscriptions of the map while this one is updated, given this
  one's state; \<open>events\<close> are the transport's events, and the delivery timeout noted is the second result.
\<close>

definition apply_update_to_active ::
    "CmsfObject list \<Rightarrow> LoopState \<Rightarrow> DraftVersion \<Rightarrow> int \<Rightarrow> (u64 \<Rightarrow> bool \<times> bool) \<Rightarrow>
     (ActiveSubscription \<Rightarrow> ActiveSubscription list) \<Rightarrow> RequestUpdateMessage \<Rightarrow> ActiveSubscription \<Rightarrow>
     GenerationAvailability \<Rightarrow> exn + (effect list \<times> u64 option) \<times> ActiveSubscription \<times> GenerationAvailability" where
  "apply_update_to_active objects loop_state draft now events actives update active ga =
     (case update_settings draft events update active of (effects, active) \<Rightarrow>
      let noted = note_delivery_timeouts (sub_delivery_timeouts (as_subscribe active)) in
      bindE (update_deadlines objects loop_state draft now update active ga) (\<lambda>(active, ga).
      bindE (reselect_objects objects loop_state draft now actives
               (fold (discard_unmatched objects loop_state) (as_send_sequence_by_object_index active) active) ga)
        (\<lambda>(active, ga). Inr ((effects, noted), active, ga))))"

text \<open>REQUEST_UPDATE for a subscription that is active.\<close>

definition update_subscription ::
    "CmsfObject list \<Rightarrow> LoopState \<Rightarrow> DraftVersion \<Rightarrow> int \<Rightarrow> (u64 \<Rightarrow> bool \<times> bool) \<Rightarrow> RequestUpdateMessage \<Rightarrow> u64 \<Rightarrow>
     ActiveSubscription \<Rightarrow> Publishing \<Rightarrow> exn + (effect list \<times> u64 option) \<times> Publishing" where
  "update_subscription objects loop_state draft now events update request_id active p =
     bindE (apply_update_to_active objects loop_state draft now events
              (\<lambda>active. map snd (omap_put request_id active (pub_actives p))) update active (pub_availability p))
       (\<lambda>(result, active, availability).
     Inr (result, p\<lparr>pub_actives := omap_put request_id active (pub_actives p),
       pub_eligible := pub_eligible p @ enqueue_active_candidate request_id active,
       pub_availability := availability\<rparr>))"

text \<open>
  A SUBSCRIBE that was accepted on a request stream: the second result is whether it is kept; a subscription that
  no object matches is finished at once before draft 21.
\<close>

definition add_subscription ::
    "CmsfObject list \<Rightarrow> LoopState \<Rightarrow> DraftVersion \<Rightarrow> int \<Rightarrow> SubscribeMessage \<Rightarrow> PublishedTrack \<Rightarrow> u64 \<Rightarrow> bytes \<Rightarrow> u8 \<Rightarrow>
     Publishing \<Rightarrow> exn + bool \<times> Publishing" where
  "add_subscription objects loop_state draft now subscribe track request_stream_id trailing_bytes publisher_priority p =
     (let request_id = sub_request_id subscribe;
          active = new_active draft subscribe track request_stream_id trailing_bytes publisher_priority (pub_availability p) in
      case find_next_matching_object_index objects subscribe 0 of
        Some index \<Rightarrow>
          let active = active\<lparr>as_next_object_index := index\<rparr> in
          bindE (if uses_priority_scheduler draft
                 then rebuild_priority_frontiers objects loop_state draft now active (pub_availability p)
                 else Inr (active, pub_availability p)) (\<lambda>(active, availability).
          Inr (True, p\<lparr>pub_actives := omap_put request_id active (pub_actives p),
            pub_eligible := pub_eligible p @ enqueue_active_candidate request_id active,
            pub_availability := availability\<rparr>))
      | None \<Rightarrow>
          if is_draft21_or_later draft then
            Inr (True, p\<lparr>pub_actives := omap_put request_id (active\<lparr>as_completed := True\<rparr>) (pub_actives p)\<rparr>)
          else Inr (False, p))"

subsection \<open>The end of a track\<close>

definition track_end_at ::
    "CmsfObject list \<Rightarrow> LoopState \<Rightarrow> DraftVersion \<Rightarrow> int \<Rightarrow> ActiveSubscription \<Rightarrow> GenerationAvailability \<Rightarrow>
     exn + int option \<times> GenerationAvailability" where
  "track_end_at objects loop_state draft now active ga =
     (let track = pt_name (as_track active) in
      if ls_enabled loop_state \<and> track_can_loop loop_state track then Inr (None, ga)
      else case filter (\<lambda>i. obj_track_name (objects ! i) = track) [0..<length objects] of
        [] \<Rightarrow> Inr (Some now, ga)
      | indices \<Rightarrow>
          if \<not> uses_priority_scheduler draft then Inr (Some now, ga)
          else bindE (object_available_at now (as_loop_cycle active) (last indices) ga) (\<lambda>(at, ga). Inr (Some at, ga)))"

text \<open>The clock is read again after \<open>track_end_at\<close>: \<open>later\<close> is that reading.\<close>

definition held_until_track_end ::
    "CmsfObject list \<Rightarrow> LoopState \<Rightarrow> DraftVersion \<Rightarrow> int \<Rightarrow> int \<Rightarrow> ActiveSubscription \<Rightarrow> GenerationAvailability \<Rightarrow>
     exn + bool \<times> GenerationAvailability" where
  "held_until_track_end objects loop_state draft now later active ga =
     (if \<not> is_draft21_or_later draft then Inr (False, ga)
      else bindE (track_end_at objects loop_state draft now active ga) (\<lambda>(end_at, ga).
        Inr (case end_at of None \<Rightarrow> True | Some at \<Rightarrow> later < at, ga)))"

end
