(* ===== verification/Publish_Loop_Invariant.thy ===== *)
theory Publish_Loop_Invariant
  imports Publish_Loop
begin

text \<open>
  The invariant of the loop in \<open>Publish_Loop\<close>: the frontiers of a subscription are exactly what it waits for
  (\<open>frontiers_ok\<close>), building, serving, advancing and updating keep that, and every live subscription has a
  candidate in the heap (\<open>publishing_ok\<close>).
\<close>

subsection \<open>What the frontiers hold\<close>

text \<open>The objects of a subgroup that the subscription waits for, in the order in which they are served.\<close>

definition waiting :: "CmsfObject list \<Rightarrow> ActiveSubscription \<Rightarrow> u64 \<times> u64 \<Rightarrow> nat list" where
  "waiting objects active k =
     sort_key (\<lambda>i. (obj_object_id (objects ! i), i))
       (filter (\<lambda>i. is_wanted objects active i \<and> frontier_key (objects ! i) = k) [0..<length objects])"

definition unserved :: "SubgroupFrontier \<Rightarrow> nat list" where
  "unserved frontier = drop (sf_next frontier) (sf_object_indices frontier)"

abbreviation own_candidate :: "CmsfObject list \<Rightarrow> LoopState \<Rightarrow> ActiveSubscription \<Rightarrow> nat \<Rightarrow> CandidatePriority" where
  "own_candidate objects loop_state active \<equiv>
     candidate objects loop_state active (sub_request_id (as_subscribe active))"

text \<open>
  The invariant of the frontiers: what is left of each subgroup's frontier is what the subscription waits for in
  it, the scheduler's set holds the first object of each, and the objects waited for are those with write options.
\<close>

definition frontiers_ok :: "CmsfObject list \<Rightarrow> LoopState \<Rightarrow> ActiveSubscription \<Rightarrow> bool" where
  "frontiers_ok objects loop_state active \<longleftrightarrow>
     omap_ok (as_subgroup_frontiers active) \<and> omap_ok (as_availability_by_object_index active) \<and>
     (\<forall>k. waiting objects active k =
        (case map_of (as_subgroup_frontiers active) k of None \<Rightarrow> [] | Some frontier \<Rightarrow> unserved frontier)) \<and>
     sorted_wrt precedes (as_scheduler_frontiers active) \<and>
     set (as_scheduler_frontiers active) =
       {own_candidate objects loop_state active (hd (waiting objects active k)) | k. waiting objects active k \<noteq> []} \<and>
     (\<forall>i. map_of (as_availability_by_object_index active) i \<noteq> None \<longleftrightarrow> i < length objects \<and> is_wanted objects active i)"

lemma set_waiting:
  "i \<in> set (waiting objects active k) \<longleftrightarrow>
     i < length objects \<and> is_wanted objects active i \<and> frontier_key (objects ! i) = k"
  by (auto simp: waiting_def)

lemma distinct_waiting [simp]: "distinct (waiting objects active k)"
  by (simp add: waiting_def)

lemma sorted_waiting: "sorted (map (\<lambda>i. (obj_object_id (objects ! i), i)) (waiting objects active k))"
  by (simp add: waiting_def)

lemma hd_waiting:
  "waiting objects active k \<noteq> [] \<Longrightarrow>
     hd (waiting objects active k) < length objects \<and> is_wanted objects active (hd (waiting objects active k)) \<and>
     frontier_key (objects ! hd (waiting objects active k)) = k"
  using hd_in_set [of "waiting objects active k"] by (simp add: set_waiting)

lemma no_waiting: "(\<forall>k. waiting objects active k = []) \<longleftrightarrow> (\<forall>i < length objects. \<not> is_wanted objects active i)"
proof
  assume none: "\<forall>k. waiting objects active k = []"
  show "\<forall>i < length objects. \<not> is_wanted objects active i"
  proof (intro allI impI notI)
    fix i assume "i < length objects" "is_wanted objects active i"
    then have "i \<in> set (waiting objects active (frontier_key (objects ! i)))" by (simp add: set_waiting)
    then show False using none by simp
  qed
next
  assume none: "\<forall>i < length objects. \<not> is_wanted objects active i"
  show "\<forall>k. waiting objects active k = []"
  proof
    fix k
    have "\<forall>i. i \<notin> set (waiting objects active k)" using none by (auto simp: set_waiting)
    then show "waiting objects active k = []" by (cases "waiting objects active k") auto
  qed
qed

lemma waiting_admitted:
  assumes "waiting objects active k = index # rest"
    and "as_admitted_object_indices active' = insert index (as_admitted_object_indices active)"
    and "as_subscribe active' = as_subscribe active"
  shows "waiting objects active' k' = (if k' = k then rest else waiting objects active k')"
proof -
  have w: "is_wanted objects active' i \<longleftrightarrow> is_wanted objects active i \<and> i \<noteq> index" for i
    using assms(2,3) by (auto simp: is_wanted_def)
  have key: "frontier_key (objects ! index) = k" using assms(1) set_waiting [of index objects active k] by simp
  have "waiting objects active' k' = filter (\<lambda>i. i \<noteq> index) (waiting objects active k')"
    unfolding waiting_def filter_sort w by (simp add: conj_ac)
  moreover have "filter (\<lambda>i. i \<noteq> index) (waiting objects active k') = waiting objects active k'" if "k' \<noteq> k"
    using that key by (auto simp: filter_id_conv set_waiting)
  moreover have "filter (\<lambda>i. i \<noteq> index) (waiting objects active k) = rest"
    using assms(1) distinct_waiting [of objects active k] by (auto simp: filter_id_conv)
  ultimately show ?thesis by simp
qed

subsection \<open>Building the frontiers\<close>

lemma add_to_frontier_lookup:
  assumes "omap_ok frontiers"
  shows "omap_ok (fold (add_to_frontier objects) indices frontiers) \<and>
    map_of (fold (add_to_frontier objects) indices frontiers) k =
      (case map_of frontiers k of
         None \<Rightarrow> (case filter (\<lambda>i. frontier_key (objects ! i) = k) indices of
             [] \<Rightarrow> None | is \<Rightarrow> Some \<lparr>sf_object_indices = is, sf_next = 0\<rparr>)
       | Some frontier \<Rightarrow> Some (frontier\<lparr>sf_object_indices :=
           sf_object_indices frontier @ filter (\<lambda>i. frontier_key (objects ! i) = k) indices\<rparr>))"
  using assms
proof (induction indices arbitrary: frontiers)
  case Nil
  then show ?case by (simp split: option.splits)
next
  case (Cons i indices)
  have ok: "omap_ok (add_to_frontier objects i frontiers)" using Cons.prems by (simp add: add_to_frontier_def Let_def)
  show ?case using Cons.IH [OF ok] Cons.prems
    by (simp add: add_to_frontier_def Let_def split: option.splits list.splits)
qed

lemma candidate_key:
  "priority_key (candidate objects loop_state active r i) = priority_key (candidate objects loop_state active r j) \<longleftrightarrow> i = j"
  by (auto simp: priority_key_def local_key_def candidate_def Let_def)

lemma candidate_plan_index [simp]: "cp_plan_index (candidate objects loop_state active r i) = i"
  by (simp add: candidate_def Let_def)

lemma inserted_candidates:
  "set (fold (set_insert precedes) (map (candidate objects loop_state active r) is) []) =
     candidate objects loop_state active r ` set is"
proof -
  let ?c = "candidate objects loop_state active r"
  have sub: "set (fold (set_insert precedes) (map ?c is) []) \<subseteq> ?c ` set is"
    using frontier_order.fold_set_insert_members [of "map ?c is" "[]"] by simp
  have "?c i \<in> set (fold (set_insert precedes) (map ?c is) [])" if i: "i \<in> set is" for i
  proof -
    obtain y where y: "y \<in> set (fold (set_insert precedes) (map ?c is) [])" "priority_key (?c i) = priority_key y"
      using frontier_order.fold_set_insert_equivalent [of "?c i" "map ?c is" "[]"] i
      by (auto simp: frontier_equivalent)
    then obtain j where "y = ?c j" using sub by auto
    with y show ?thesis using candidate_key [of objects loop_state active r i j] by simp
  qed
  with sub show ?thesis by blast
qed

lemma inserted_candidate:
  assumes "set ys \<subseteq> range (candidate objects loop_state active r)"
  shows "set (set_insert precedes (candidate objects loop_state active r i) ys) =
    insert (candidate objects loop_state active r i) (set ys)"
proof -
  let ?c = "candidate objects loop_state active r"
  obtain y where y: "y \<in> set (set_insert precedes (?c i) ys)" "priority_key (?c i) = priority_key y"
    using frontier_order.set_insert_equivalent [of "?c i" ys] by (auto simp: frontier_equivalent)
  then obtain j where "y = ?c j"
    using frontier_order.set_insert_members [of "?c i" ys] assms by auto
  with y have "?c i \<in> set (set_insert precedes (?c i) ys)"
    using candidate_key [of objects loop_state active r i j] by simp
  then show ?thesis
    using frontier_order.set_insert_members [of "?c i" ys] frontier_order.set_insert_keeps [of ys "?c i"] by auto
qed

text \<open>Only the clock reading of a new generation changes in the availability.\<close>

definition same_offsets :: "GenerationAvailability \<Rightarrow> GenerationAvailability \<Rightarrow> bool" where
  "same_offsets ga ga' \<longleftrightarrow> (\<exists>origins. ga' = ga\<lparr>ga_generation_origins := origins\<rparr>)"

lemma same_offsets_refl [simp]: "same_offsets ga ga"
  by (auto simp: same_offsets_def intro: exI [of _ "ga_generation_origins ga"])

lemma same_offsets_trans: "same_offsets a b \<Longrightarrow> same_offsets b c \<Longrightarrow> same_offsets a c"
  by (auto simp: same_offsets_def)

definition offsets_cover :: "CmsfObject list \<Rightarrow> GenerationAvailability \<Rightarrow> bool" where
  "offsets_cover objects ga \<longleftrightarrow>
     length (ga_object_offsets ga) = length objects \<and> length (ga_subgroup_completion_offsets ga) = length objects"

lemma same_offsets_cover: "same_offsets ga ga' \<Longrightarrow> offsets_cover objects ga \<Longrightarrow> offsets_cover objects ga'"
  by (auto simp: same_offsets_def offsets_cover_def)

lemma generation_origin_same: "same_offsets ga (snd (generation_origin now c ga))"
  by (auto simp: generation_origin_def same_offsets_def split: option.splits
      intro: exI [of _ "ga_generation_origins ga"])

lemma available_at_total:
  "i < length (offsets ga) \<Longrightarrow> \<exists>t ga'. available_at offsets now c i ga = Inr (t, ga') \<and> same_offsets ga ga'"
  using generation_origin_same [of ga now c] by (auto simp: available_at_def split: prod.splits)

lemma write_options_total:
  assumes "offsets_cover objects ga" and "i < length objects"
  shows "\<exists>options ga'. write_options draft now active i ga = Inr (options, ga') \<and> same_offsets ga ga'"
proof -
  obtain t ga1 where 1: "object_available_at now (as_loop_cycle active) i ga = Inr (t, ga1)" "same_offsets ga ga1"
    using available_at_total [of i ga_object_offsets ga now "as_loop_cycle active"] assms by (auto simp: object_available_at_def offsets_cover_def)
  have c: "offsets_cover objects ga1" using same_offsets_cover 1(2) assms(1) by blast
  obtain t' ga2 where 2: "subgroup_completed_at now (as_loop_cycle active) i ga1 = Inr (t', ga2)" "same_offsets ga1 ga2"
    using available_at_total [of i ga_subgroup_completion_offsets ga1 now "as_loop_cycle active"] assms(2) c
    by (auto simp: subgroup_completed_at_def offsets_cover_def)
  show ?thesis using 1 2 same_offsets_trans by (auto simp: write_options_def Let_def)
qed

lemma note_availability_total:
  assumes "offsets_cover objects ga" and "\<forall>i \<in> set is. i < length objects"
    and "omap_ok (as_availability_by_object_index active)"
  shows "\<exists>entries ga'. note_availability draft now is active ga =
      Inr (active\<lparr>as_availability_by_object_index := entries\<rparr>, ga') \<and> same_offsets ga ga' \<and> omap_ok entries \<and>
      (\<forall>i. map_of entries i \<noteq> None \<longleftrightarrow> i \<in> set is \<or> map_of (as_availability_by_object_index active) i \<noteq> None)"
  using assms
proof (induction "is" arbitrary: active ga)
  case Nil
  show ?case using Nil(3) by (auto intro: exI [of _ "as_availability_by_object_index active"])
next
  case (Cons i "is")
  obtain options ga1 where w: "write_options draft now active i ga = Inr (options, ga1)" "same_offsets ga ga1"
    using write_options_total [OF Cons.prems(1)] Cons.prems(2) by force
  let ?active = "active\<lparr>as_availability_by_object_index := omap_emplace i options (as_availability_by_object_index active)\<rparr>"
  have ok: "omap_ok (as_availability_by_object_index ?active)" using Cons.prems(3) by simp
  have c: "offsets_cover objects ga1" using same_offsets_cover w(2) Cons.prems(1) by blast
  obtain entries ga' where r: "note_availability draft now is ?active ga1 =
      Inr (?active\<lparr>as_availability_by_object_index := entries\<rparr>, ga')" "same_offsets ga1 ga'" "omap_ok entries"
    "\<forall>j. map_of entries j \<noteq> None \<longleftrightarrow> j \<in> set is \<or> map_of (as_availability_by_object_index ?active) j \<noteq> None"
    using Cons.IH [OF c _ ok] Cons.prems(2) by auto
  have "\<forall>j. map_of entries j \<noteq> None \<longleftrightarrow> j \<in> set (i # is) \<or> map_of (as_availability_by_object_index active) j \<noteq> None"
    using r(4) Cons.prems(3) by auto
  then show ?case using w r same_offsets_trans [OF w(2) r(2)] by auto
qed


lemma filter_wanted: "filter (\<lambda>i. frontier_key (objects ! i) = k) (filter (is_wanted objects active) [0..<length objects]) =
    filter (\<lambda>i. is_wanted objects active i \<and> frontier_key (objects ! i) = k) [0..<length objects]"
  by (simp add: conj_commute)

lemma built_frontiers:
  fixes objects active
  defines "frontiers \<equiv> map (\<lambda>(k, frontier). (k, sort_frontier objects frontier))
            (fold (add_to_frontier objects) (filter (is_wanted objects active) [0..<length objects]) [])"
  shows "omap_ok frontiers"
    and "map_of frontiers k =
      (if waiting objects active k = [] then None else Some \<lparr>sf_object_indices = waiting objects active k, sf_next = 0\<rparr>)"
proof -
  define m where "m = fold (add_to_frontier objects) (filter (is_wanted objects active) [0..<length objects]) []"
  note look = add_to_frontier_lookup [of "[]" objects "filter (is_wanted objects active) [0..<length objects]", folded m_def]
  show "omap_ok frontiers" using look by (simp add: frontiers_def m_def [symmetric] omap_ok_def comp_def case_prod_unfold)
  have "map_of frontiers k = map_option (sort_frontier objects) (map_of m k)"
    by (simp add: frontiers_def m_def [symmetric] map_of_map)
  also have "\<dots> = (if waiting objects active k = [] then None
      else Some \<lparr>sf_object_indices = waiting objects active k, sf_next = 0\<rparr>)"
  proof (cases "filter (\<lambda>i. is_wanted objects active i \<and> frontier_key (objects ! i) = k) [0..<length objects]")
    case Nil
    then have "waiting objects active k = []" by (simp add: waiting_def)
    moreover have "map_of m k = None" using look [of k] Nil by (simp add: filter_wanted del: filter_filter)
    ultimately show ?thesis by simp
  next
    case (Cons i "is")
    then have "waiting objects active k \<noteq> []" by (simp add: waiting_def)
    moreover have "map_of m k = Some \<lparr>sf_object_indices = i # is, sf_next = 0\<rparr>"
      using look [of k] Cons by (simp add: filter_wanted del: filter_filter)
    ultimately show ?thesis using Cons by (simp add: sort_frontier_def waiting_def)
  qed
  finally show "map_of frontiers k =
      (if waiting objects active k = [] then None else Some \<lparr>sf_object_indices = waiting objects active k, sf_next = 0\<rparr>)" .
qed

lemma built_heads:
  assumes "omap_ok frontiers"
    and "\<And>k. map_of frontiers k = (if w k = [] then None else Some \<lparr>sf_object_indices = w k, sf_next = 0\<rparr>)"
  shows "set (map (\<lambda>(k, frontier). hd (sf_object_indices frontier))
            (filter (\<lambda>(k, frontier). sf_object_indices frontier \<noteq> []) frontiers)) = {hd (w k) | k. w k \<noteq> []}"
    and "set (concat (map (\<lambda>(k, frontier). sf_object_indices frontier) frontiers)) = (\<Union>k. set (w k))"
proof -
  have members: "(k, frontier) \<in> set frontiers \<longleftrightarrow> w k \<noteq> [] \<and> frontier = \<lparr>sf_object_indices = w k, sf_next = 0\<rparr>" for k frontier
    using omap_lookup_iff [OF assms(1), of k frontier] assms(2) [of k] by (auto split: if_splits)
  show "set (map (\<lambda>(k, frontier). hd (sf_object_indices frontier))
            (filter (\<lambda>(k, frontier). sf_object_indices frontier \<noteq> []) frontiers)) = {hd (w k) | k. w k \<noteq> []}"
    by (force simp: members)
  show "set (concat (map (\<lambda>(k, frontier). sf_object_indices frontier) frontiers)) = (\<Union>k. set (w k))"
    by (force simp: members)
qed

lemma waiting_update [simp]:
  "waiting objects (active\<lparr>as_scheduler_generation := g\<rparr>) k = waiting objects active k"
  "waiting objects (active\<lparr>as_subgroup_frontiers := fs\<rparr>) k = waiting objects active k"
  "waiting objects (active\<lparr>as_scheduler_frontiers := cs\<rparr>) k = waiting objects active k"
  "waiting objects (active\<lparr>as_availability_by_object_index := es\<rparr>) k = waiting objects active k"
  "waiting objects (active\<lparr>as_completed := b\<rparr>) k = waiting objects active k"
  "is_wanted objects (active\<lparr>as_availability_by_object_index := es\<rparr>) i = is_wanted objects active i"
  by (simp_all add: waiting_def is_wanted_def)

lemma same_wanted:
  "as_admitted_object_indices a = as_admitted_object_indices b \<Longrightarrow> as_subscribe a = as_subscribe b \<Longrightarrow>
     is_wanted objects a = is_wanted objects b"
  "as_admitted_object_indices a = as_admitted_object_indices b \<Longrightarrow> as_subscribe a = as_subscribe b \<Longrightarrow>
     waiting objects a = waiting objects b"
  by (auto simp: fun_eq_iff waiting_def is_wanted_def)

lemma same_candidate:
  "as_subscribe a = as_subscribe b \<Longrightarrow> as_publisher_priority a = as_publisher_priority b \<Longrightarrow>
   as_loop_cycle a = as_loop_cycle b \<Longrightarrow> candidate objects loop_state a = candidate objects loop_state b"
  by (auto simp: candidate_def fun_eq_iff Let_def)

text \<open>What the entries that a subscription brings to a rebuild satisfy.\<close>

definition entries_ok :: "CmsfObject list \<Rightarrow> (nat, ObjectWriteOptions) omap \<Rightarrow> bool" where
  "entries_ok objects entries \<longleftrightarrow> omap_ok entries \<and> (\<forall>i. map_of entries i \<noteq> None \<longrightarrow> i < length objects)"

theorem rebuild_frontiers:
  assumes "offsets_cover objects ga" and "entries_ok objects (as_availability_by_object_index active)"
  shows "\<exists>frontiers candidates entries ga'.
    rebuild_priority_frontiers objects loop_state draft now active ga =
      Inr (active\<lparr>as_scheduler_generation := as_scheduler_generation active + 1, as_subgroup_frontiers := frontiers,
             as_scheduler_frontiers := candidates, as_availability_by_object_index := entries,
             as_completed := (candidates = [])\<rparr>, ga') \<and>
    frontiers_ok objects loop_state (active\<lparr>as_scheduler_generation := as_scheduler_generation active + 1,
      as_subgroup_frontiers := frontiers, as_scheduler_frontiers := candidates,
      as_availability_by_object_index := entries, as_completed := (candidates = [])\<rparr>) \<and>
    (frontiers = []) = (candidates = []) \<and> same_offsets ga ga'"
proof -
  define frontiers where "frontiers = map (\<lambda>(k, frontier). (k, sort_frontier objects frontier))
            (fold (add_to_frontier objects) (filter (is_wanted objects active) [0..<length objects]) [])"
  define heads where "heads = map (\<lambda>(k, frontier). hd (sf_object_indices frontier))
            (filter (\<lambda>(k, frontier). sf_object_indices frontier \<noteq> []) frontiers)"
  define indices where "indices = concat (map (\<lambda>(k, frontier). sf_object_indices frontier) frontiers)"
  let ?c = "own_candidate objects loop_state active"
  define candidates where "candidates = fold (set_insert precedes) (map ?c heads) []"
  define active1 where "active1 = active\<lparr>as_scheduler_generation := as_scheduler_generation active + 1,
     as_subgroup_frontiers := frontiers, as_scheduler_frontiers := candidates,
     as_availability_by_object_index := filter (\<lambda>(i, _). is_wanted objects active i) (as_availability_by_object_index active)\<rparr>"
  have fok: "omap_ok frontiers" and look: "\<And>k. map_of frontiers k = (if waiting objects active k = [] then None
      else Some \<lparr>sf_object_indices = waiting objects active k, sf_next = 0\<rparr>)"
    using built_frontiers [of objects active] by (simp_all add: frontiers_def)
  note heads = built_heads [OF fok look, folded heads_def indices_def]
  have ind: "\<forall>i \<in> set indices. i < length objects" unfolding heads(2) by (auto simp: set_waiting)
  have aok: "omap_ok (as_availability_by_object_index active1)"
    using assms(2) by (auto simp: active1_def entries_ok_def omap_ok_def sorted_wrt_map sorted_wrt_filter)
  obtain entries ga' where n: "note_availability draft now indices active1 ga =
      Inr (active1\<lparr>as_availability_by_object_index := entries\<rparr>, ga')" "same_offsets ga ga'" "omap_ok entries"
    "\<forall>i. map_of entries i \<noteq> None \<longleftrightarrow> i \<in> set indices \<or> map_of (as_availability_by_object_index active1) i \<noteq> None"
    using note_availability_total [OF assms(1) ind aok, of draft now] by auto
  let ?active = "active\<lparr>as_scheduler_generation := as_scheduler_generation active + 1, as_subgroup_frontiers := frontiers,
      as_scheduler_frontiers := candidates, as_availability_by_object_index := entries, as_completed := (candidates = [])\<rparr>"
  have r: "rebuild_priority_frontiers objects loop_state draft now active ga = Inr (?active, ga')"
    using n(1) by (simp add: rebuild_priority_frontiers_def Let_def frontiers_def [symmetric] heads_def [symmetric]
        indices_def [symmetric] candidates_def [symmetric] active1_def del: map_map)
  have cs: "set candidates = ?c ` set heads" unfolding candidates_def by (rule inserted_candidates)
  have avail: "map_of entries i \<noteq> None \<longleftrightarrow> i < length objects \<and> is_wanted objects active i" for i
    using n(4) assms(2) unfolding heads(2) by (auto simp: set_waiting active1_def map_of_filter_key entries_ok_def)
  have same: "is_wanted objects ?active = is_wanted objects active" "waiting objects ?active = waiting objects active"
    "candidate objects loop_state ?active = candidate objects loop_state active"
    by (simp_all add: same_wanted [of ?active active] same_candidate [of ?active active])
  have ok: "frontiers_ok objects loop_state ?active"
    unfolding frontiers_ok_def same
  proof (intro conjI allI impI)
    show "omap_ok (as_subgroup_frontiers ?active)" "omap_ok (as_availability_by_object_index ?active)"
      using fok n(3) by simp_all
    show "waiting objects active k = (case map_of (as_subgroup_frontiers ?active) k of None \<Rightarrow> [] | Some f \<Rightarrow> unserved f)" for k
      by (simp add: look unserved_def)
    show "sorted_wrt precedes (as_scheduler_frontiers ?active)"
      using frontier_order.fold_set_insert_sorted [of "[]" "map ?c heads"] by (simp add: candidates_def)
    show "set (as_scheduler_frontiers ?active) = {candidate objects loop_state active (sub_request_id (as_subscribe ?active))
        (hd (waiting objects active k)) |k. waiting objects active k \<noteq> []}"
      using cs heads(1) by auto
    show "map_of (as_availability_by_object_index ?active) i \<noteq> None \<longleftrightarrow> i < length objects \<and> is_wanted objects active i" for i
      using avail by simp
  qed
  have "(frontiers = []) = (candidates = [])"
  proof -
    have "candidates = [] \<longleftrightarrow> set heads = {}" using cs by auto
    also have "\<dots> \<longleftrightarrow> (\<forall>k. waiting objects active k = [])" unfolding heads(1) by (auto simp del: split_paired_All split_paired_Ex)
    also have "\<dots> \<longleftrightarrow> frontiers = []"
    proof
      assume "\<forall>k. waiting objects active k = []"
      then have "\<And>k. map_of frontiers k = None" using look by presburger
      then have "map_of frontiers = Map.empty" by (intro ext)
      then show "frontiers = []" by simp
    next
      assume "frontiers = []"
      then show "\<forall>k. waiting objects active k = []" using look by (metis map_of.simps(1) option.distinct(1))
    qed
    finally show ?thesis by simp
  qed
  with r ok n(2) show ?thesis by blast
qed

subsection \<open>Serving keeps the frontiers\<close>

lemma frontiers_ok_same:
  assumes "as_admitted_object_indices a = as_admitted_object_indices b" "as_subscribe a = as_subscribe b"
    "as_publisher_priority a = as_publisher_priority b" "as_loop_cycle a = as_loop_cycle b"
    "as_subgroup_frontiers a = as_subgroup_frontiers b" "as_scheduler_frontiers a = as_scheduler_frontiers b"
    "as_availability_by_object_index a = as_availability_by_object_index b"
  shows "frontiers_ok objects loop_state a = frontiers_ok objects loop_state b"
  unfolding frontiers_ok_def same_wanted [OF assms(1,2)] same_candidate [OF assms(2,3,4)] assms ..

lemma frontiers_ok_waiting: "frontiers_ok objects loop_state active \<Longrightarrow> waiting objects active k =
    (case map_of (as_subgroup_frontiers active) k of None \<Rightarrow> [] | Some frontier \<Rightarrow> unserved frontier)"
  unfolding frontiers_ok_def by blast

lemma frontiers_ok_update [simp]:
  "frontiers_ok objects loop_state (active\<lparr>as_sender := s\<rparr>) = frontiers_ok objects loop_state active"
  "frontiers_ok objects loop_state (active\<lparr>as_send_sequence_by_object_index := q\<rparr>) = frontiers_ok objects loop_state active"
  "frontiers_ok objects loop_state (active\<lparr>as_next_object_index := n\<rparr>) = frontiers_ok objects loop_state active"
  "frontiers_ok objects loop_state (active\<lparr>as_completed := b\<rparr>) = frontiers_ok objects loop_state active"
  "frontiers_ok objects loop_state (active\<lparr>as_generation_lead_parked := b\<rparr>) = frontiers_ok objects loop_state active"
  by (rule frontiers_ok_same, simp_all)+

lemma selected_frontier_found:
  assumes "selected_frontier selected frontiers = frontier # later"
  shows "frontier \<in> set frontiers" and "cp_plan_index frontier = cp_plan_index (ec_priority selected)"
proof -
  let ?k = "(ec_priority selected)\<lparr>cp_request_fairness_round := 0\<rparr>"
  obtain front where f: "frontiers = front @ frontier # later" "\<not> (precedes frontier ?k \<or> precedes ?k frontier)"
    using assms by (auto simp: selected_frontier_def Let_def dropWhile_eq_Cons_conv)
  show "frontier \<in> set frontiers" using f(1) by simp
  have "priority_key frontier = priority_key ?k" using f(2) by (simp add: frontier_equivalent [symmetric])
  then show "cp_plan_index frontier = cp_plan_index (ec_priority selected)"
    by (auto simp: priority_key_def local_key_def)
qed

text \<open>The candidate is one the session made: its index is that of its priority, its request the subscription's.\<close>

definition made_for :: "ActiveSubscription \<Rightarrow> EligibleCandidate \<Rightarrow> bool" where
  "made_for active selected \<longleftrightarrow>
     ec_plan_index selected = cp_plan_index (ec_priority selected) \<and>
     ec_request_id selected = sub_request_id (as_subscribe active)"

lemma found_is_first:
  assumes "frontiers_ok objects loop_state active" and "made_for active selected"
    and "selected_frontier selected (as_scheduler_frontiers active) = frontier # later"
  shows "frontier = own_candidate objects loop_state active (ec_plan_index selected) \<and>
    (\<exists>rest. waiting objects active (frontier_key (objects ! ec_plan_index selected)) = ec_plan_index selected # rest)"
proof -
  have "frontier \<in> set (as_scheduler_frontiers active)" "cp_plan_index frontier = ec_plan_index selected"
    using selected_frontier_found [OF assms(3)] assms(2) by (simp_all add: made_for_def)
  then obtain k where k: "frontier = own_candidate objects loop_state active (hd (waiting objects active k))"
      "waiting objects active k \<noteq> []" "ec_plan_index selected = hd (waiting objects active k)"
    using assms(1) by (auto simp: frontiers_ok_def)
  have "frontier_key (objects ! hd (waiting objects active k)) = k" using hd_waiting [OF k(2)] by simp
  then show ?thesis using k by (cases "waiting objects active k") auto
qed

lemma remove_candidate:
  assumes "sorted_wrt precedes cs"
  shows "set (remove1 c cs) = set cs - {c}" and "sorted_wrt precedes (remove1 c cs)"
proof -
  have "distinct cs" using assms by (induction cs) (auto simp: frontier_order.irreflexive)
  then show "set (remove1 c cs) = set cs - {c}" by (simp add: set_remove1_eq)
  show "sorted_wrt precedes (remove1 c cs)" using assms by (induction cs) (auto dest: notin_set_remove1 set_mp [OF set_remove1_subset])
qed

lemma drop_ConsD:
  assumes "drop n xs = x # rest"
  shows "n < length xs" "xs ! n = x" "drop (Suc n) xs = rest"
proof -
  show n: "n < length xs" using assms by (cases "n < length xs") auto
  show "xs ! n = x" "drop (Suc n) xs = rest" using Cons_nth_drop_Suc [OF n] assms by simp_all
qed

lemma heads_split:
  "{f (if k = k' then a else w k) | k. (if k = k' then a else w k) \<noteq> []} =
     (if a = [] then {} else {f a}) \<union> {f (w k) | k. w k \<noteq> [] \<and> k \<noteq> k'}"
  by (cases "a = []") force+

lemma admit_selected_ok:
  assumes ok: "frontiers_ok objects loop_state active" and made: "made_for active selected"
    and found: "selected_frontier selected (as_scheduler_frontiers active) = frontier # later"
  shows "\<exists>active'. admit_selected objects loop_state selected frontier active = Inr active' \<and>
    frontiers_ok objects loop_state active' \<and>
    as_admitted_object_indices active' = insert (ec_plan_index selected) (as_admitted_object_indices active) \<and>
    as_subscribe active' = as_subscribe active \<and> as_loop_cycle active' = as_loop_cycle active \<and>
    as_track active' = as_track active \<and> as_sender active' = as_sender active \<and>
    as_scheduler_generation active' = as_scheduler_generation active"
proof -
  let ?i = "ec_plan_index selected" and ?key = "frontier_key (objects ! ec_plan_index selected)"
  obtain rest where w: "waiting objects active ?key = ?i # rest" and f: "frontier = own_candidate objects loop_state active ?i"
    using found_is_first [OF ok made found] by auto
  obtain subgroup where sub: "map_of (as_subgroup_frontiers active) ?key = Some subgroup" "unserved subgroup = ?i # rest"
    using frontiers_ok_waiting [OF ok, of ?key] w by (auto split: option.splits)
  note n = drop_ConsD [OF sub(2) [unfolded unserved_def]]
  have r: "ec_request_id selected = sub_request_id (as_subscribe active)" using made by (simp add: made_for_def)
  define base where "base = active\<lparr>as_admitted_object_indices := insert ?i (as_admitted_object_indices active),
     as_send_sequence_by_object_index := omap_erase ?i (as_send_sequence_by_object_index active),
     as_availability_by_object_index := omap_erase ?i (as_availability_by_object_index active),
     as_scheduler_frontiers := remove1 frontier (as_scheduler_frontiers active),
     as_subgroup_frontiers := omap_put ?key (subgroup\<lparr>sf_next := Suc (sf_next subgroup)\<rparr>) (as_subgroup_frontiers active),
     as_scheduling_round := as_scheduling_round active + 1\<rparr>"
  define active' where "active' = (if rest \<noteq> []
     then base\<lparr>as_scheduler_frontiers := set_insert precedes (own_candidate objects loop_state active (hd rest)) (as_scheduler_frontiers base)\<rparr>
     else base)"
  have rest: "rest \<noteq> [] \<longleftrightarrow> Suc (sf_next subgroup) < length (sf_object_indices subgroup)"
    "rest \<noteq> [] \<Longrightarrow> hd rest = sf_object_indices subgroup ! Suc (sf_next subgroup)"
    using n(3) by (auto simp: hd_drop_conv_nth)
  have cand: "candidate objects loop_state base = candidate objects loop_state active"
    by (rule same_candidate) (simp_all add: base_def)
  have "admit_selected objects loop_state selected frontier active =
      Inr (if Suc (sf_next subgroup) < length (sf_object_indices subgroup) then base\<lparr>as_scheduler_frontiers := set_insert precedes
          (candidate objects loop_state base (ec_request_id selected) (sf_object_indices subgroup ! Suc (sf_next subgroup)))
          (as_scheduler_frontiers base)\<rparr> else base)"
    using n(1,2) by (simp add: admit_selected_def Let_def sub(1) base_def)
  also have "\<dots> = Inr active'" using rest by (simp add: active'_def cand r)
  finally have admitted: "admit_selected objects loop_state selected frontier active = Inr active'" .
  have wait: "waiting objects active' k = (if k = ?key then rest else waiting objects active k)" for k
    by (rule waiting_admitted [OF w]) (simp_all add: active'_def base_def)
  have same: "is_wanted objects active' i \<longleftrightarrow> is_wanted objects active i \<and> i \<noteq> ?i" for i
    by (auto simp: is_wanted_def active'_def base_def)
  have cand': "own_candidate objects loop_state active' = own_candidate objects loop_state active"
  proof -
    have "candidate objects loop_state active' = candidate objects loop_state active"
      by (rule same_candidate) (simp_all add: active'_def base_def)
    then show ?thesis by (simp add: active'_def base_def)
  qed
  have base_cs: "set (as_scheduler_frontiers base) = set (as_scheduler_frontiers active) - {frontier}"
    "sorted_wrt precedes (as_scheduler_frontiers base)"
    using remove_candidate [of "as_scheduler_frontiers active" frontier] ok by (simp_all add: base_def frontiers_ok_def)
  have members: "set (as_scheduler_frontiers active) =
      {own_candidate objects loop_state active (hd (waiting objects active k)) | k. waiting objects active k \<noteq> []}"
    using ok by (simp add: frontiers_ok_def)
  have others: "set (as_scheduler_frontiers base) =
      {own_candidate objects loop_state active (hd (waiting objects active k)) | k. waiting objects active k \<noteq> [] \<and> k \<noteq> ?key}"
  proof -
    have "own_candidate objects loop_state active (hd (waiting objects active k)) = frontier \<longleftrightarrow> k = ?key"
      if "waiting objects active k \<noteq> []" for k
    proof
      assume "own_candidate objects loop_state active (hd (waiting objects active k)) = frontier"
      then have "hd (waiting objects active k) = ?i" using f by (metis candidate_plan_index)
      then show "k = ?key" using hd_waiting [OF that] by simp
    next
      assume "k = ?key"
      then show "own_candidate objects loop_state active (hd (waiting objects active k)) = frontier" using w f by simp
    qed
    then show ?thesis unfolding base_cs(1) members by blast
  qed
  have now_waiting: "{own_candidate objects loop_state active (hd (waiting objects active' k)) | k. waiting objects active' k \<noteq> []} =
      (if rest = [] then {} else {own_candidate objects loop_state active (hd rest)}) \<union>
      {own_candidate objects loop_state active (hd (waiting objects active k)) | k. waiting objects active k \<noteq> [] \<and> k \<noteq> ?key}"
    unfolding wait by (rule heads_split)
  have "set (as_scheduler_frontiers base) \<subseteq> range (own_candidate objects loop_state active)" using others by auto
  from inserted_candidate [OF this] have "set (as_scheduler_frontiers active') =
      {own_candidate objects loop_state active (hd (waiting objects active' k)) | k. waiting objects active' k \<noteq> []}"
    unfolding now_waiting others by (simp add: active'_def others)
  moreover have "sorted_wrt precedes (as_scheduler_frontiers active')"
    using base_cs(2) frontier_order.set_insert_sorted by (simp add: active'_def)
  moreover have "waiting objects active' k =
      (case map_of (as_subgroup_frontiers active') k of None \<Rightarrow> [] | Some frontier \<Rightarrow> unserved frontier)" for k
  proof -
    have "as_subgroup_frontiers active' =
        omap_put ?key (subgroup\<lparr>sf_next := Suc (sf_next subgroup)\<rparr>) (as_subgroup_frontiers active)"
      by (simp add: active'_def base_def)
    moreover have "omap_ok (as_subgroup_frontiers active)" using ok by (simp add: frontiers_ok_def)
    ultimately show ?thesis using frontiers_ok_waiting [OF ok, of k] n(3) unfolding wait by (simp add: unserved_def)
  qed
  moreover have "omap_ok (as_subgroup_frontiers active')" "omap_ok (as_availability_by_object_index active')"
    using ok by (simp_all add: active'_def base_def frontiers_ok_def)
  moreover have "map_of (as_availability_by_object_index active') i \<noteq> None \<longleftrightarrow> i < length objects \<and> is_wanted objects active' i" for i
  proof -
    have "as_availability_by_object_index active' = omap_erase ?i (as_availability_by_object_index active)"
      by (simp add: active'_def base_def)
    then show ?thesis using ok by (auto simp: frontiers_ok_def same)
  qed
  ultimately have "frontiers_ok objects loop_state active'"
    unfolding frontiers_ok_def cand' by blast
  then show ?thesis using admitted
    by (auto simp: active'_def base_def)
qed

subsection \<open>The next cycle\<close>

lemma find_next_matching_Some:
  assumes "find_next_matching_object_index objects subscribe n = Some i"
  shows "n \<le> i" "i < length objects" "obj_track_name (objects ! i) = sub_track_name subscribe"
    "object_matches_filter (objects ! i) subscribe"
  using find_matching_from_Some [of "drop n objects" subscribe n i] assms
  by (auto simp: find_next_matching_object_index_def Let_def)

lemma no_candidates:
  "frontiers_ok objects loop_state active \<Longrightarrow>
     as_scheduler_frontiers active = [] \<longleftrightarrow> (\<forall>i < length objects. \<not> is_wanted objects active i)"
  unfolding no_waiting [symmetric] frontiers_ok_def set_empty [symmetric] by auto

text \<open>What an advance leaves: a consistent subscription that has something to send, is parked or has ended.\<close>

definition goes_on :: "CmsfObject list \<Rightarrow> LoopState \<Rightarrow> ActiveSubscription \<Rightarrow> bool \<Rightarrow> ActiveSubscription \<Rightarrow> bool" where
  "goes_on objects loop_state active continues active' \<longleftrightarrow>
     frontiers_ok objects loop_state active' \<and>
     as_subscribe active' = as_subscribe active \<and> as_track active' = as_track active \<and>
     as_sender active' = as_sender active \<and>
     (continues \<longrightarrow> as_scheduler_frontiers active' \<noteq> [] \<or> as_generation_lead_parked active')"

definition next_cycle :: "ActiveSubscription \<Rightarrow> nat \<Rightarrow> ActiveSubscription" where
  "next_cycle active index = active\<lparr>as_generation_lead_parked := False, as_loop_cycle := as_loop_cycle active + 1,
     as_next_object_index := index, as_admitted_object_indices := {}, as_send_sequence_by_object_index := [],
     as_availability_by_object_index := []\<rparr>"

lemma advance_cases:
  assumes "uses_priority_scheduler draft"
  obtains (no) "advance_subscription_to_next_loop_object objects loop_state draft now max_cycle True active ga =
        Inr (False, active\<lparr>as_generation_lead_parked := False\<rparr>, ga)"
    | (parked) maximum where "max_cycle = Some maximum" "maximum \<le> as_loop_cycle active"
        "advance_subscription_to_next_loop_object objects loop_state draft now max_cycle True active ga =
        Inr (True, active\<lparr>as_generation_lead_parked := True, as_completed := False\<rparr>, ga)"
    | (next_cycle) n index where "find_next_matching_object_index objects (as_subscribe active) n = Some index"
        "\<And>maximum. max_cycle = Some maximum \<Longrightarrow> as_loop_cycle active < maximum"
        "advance_subscription_to_next_loop_object objects loop_state draft now max_cycle True active ga =
          bindE (rebuild_priority_frontiers objects loop_state draft now (next_cycle active index) ga)
            (\<lambda>(active, ga). Inr (True, active\<lparr>as_completed := False\<rparr>, ga))"
proof -
  note def = advance_subscription_to_next_loop_object_def
  show ?thesis
  proof (cases "ls_enabled loop_state \<and> track_can_loop loop_state (pt_name (as_track active))")
    case False
    then show ?thesis using no by (simp add: def)
  next
    case loops: True
    then obtain info where info: "ls_tracks loop_state (pt_name (as_track active)) = Some info"
      by (auto simp: track_can_loop_def split: option.splits)
    show ?thesis
    proof (cases "find_next_matching_object_index objects (as_subscribe active) (tl_first_loop_object_index info)")
      case None
      then show ?thesis using no loops info by (simp add: def)
    next
      case (Some index)
      show ?thesis
      proof (cases "\<exists>maximum. max_cycle = Some maximum \<and> maximum \<le> as_loop_cycle active")
        case True
        then obtain maximum where "max_cycle = Some maximum" "maximum \<le> as_loop_cycle active" by blast
        then show ?thesis using parked loops info Some by (simp add: def Let_def)
      next
        case False
        then have "\<not> (case max_cycle of None \<Rightarrow> False | Some maximum \<Rightarrow> as_loop_cycle active \<ge> maximum)"
          by (simp split: option.splits)
        then have "advance_subscription_to_next_loop_object objects loop_state draft now max_cycle True active ga =
          bindE (rebuild_priority_frontiers objects loop_state draft now (next_cycle active index) ga)
            (\<lambda>(active, ga). Inr (True, active\<lparr>as_completed := False\<rparr>, ga))"
          using loops info Some assms by (cases max_cycle) (simp_all add: def next_cycle_def Let_def)
        from next_cycle [OF Some _ this] show ?thesis using False by force
      qed
    qed
  qed
qed

lemma advance_ok:
  assumes "uses_priority_scheduler draft" "offsets_cover objects ga" "frontiers_ok objects loop_state active"
  shows "\<exists>continues active' ga'.
    advance_subscription_to_next_loop_object objects loop_state draft now max_cycle True active ga =
      Inr (continues, active', ga') \<and> same_offsets ga ga' \<and> goes_on objects loop_state active continues active'"
  using assms(1)
proof (cases rule: advance_cases [of draft objects loop_state now max_cycle active ga])
  case no
  then show ?thesis using assms(3) by (intro exI [of _ False]) (simp add: goes_on_def)
next
  case parked
  then show ?thesis using assms(3) by (intro exI [of _ True]) (simp add: goes_on_def)
next
  case (next_cycle n index)
  let ?next = "next_cycle active index"
  have empty: "entries_ok objects (as_availability_by_object_index ?next)" by (simp add: next_cycle_def entries_ok_def)
  obtain frontiers candidates entries ga' where r:
    "rebuild_priority_frontiers objects loop_state draft now ?next ga = Inr (?next\<lparr>as_scheduler_generation := as_scheduler_generation ?next + 1,
       as_subgroup_frontiers := frontiers, as_scheduler_frontiers := candidates, as_availability_by_object_index := entries,
       as_completed := (candidates = [])\<rparr>, ga')"
    and ok: "frontiers_ok objects loop_state (?next\<lparr>as_scheduler_generation := as_scheduler_generation ?next + 1, as_subgroup_frontiers := frontiers,
       as_scheduler_frontiers := candidates, as_availability_by_object_index := entries, as_completed := (candidates = [])\<rparr>)"
    and ga': "same_offsets ga ga'"
    using rebuild_frontiers [OF assms(2) empty, of loop_state draft now] by blast
  have "candidates \<noteq> []"
    using no_candidates [OF ok] find_next_matching_Some [OF next_cycle(1)] by (auto simp: is_wanted_def next_cycle_def)
  then show ?thesis using next_cycle(3) r ok ga' by (intro exI [of _ True]) (simp add: goes_on_def next_cycle_def)
qed


subsection \<open>No subscription is forgotten\<close>

definition is_live :: "ActiveSubscription \<Rightarrow> bool" where
  "is_live active \<longleftrightarrow> \<not> as_completed active \<and> \<not> as_forward_paused_by_update active \<and> \<not> as_generation_lead_parked active"

text \<open>A candidate that will be tried for the subscription when it is popped.\<close>

definition stands_for :: "ActiveSubscription \<Rightarrow> EligibleCandidate \<Rightarrow> bool" where
  "stands_for active c \<longleftrightarrow> ec_request_id c = sub_request_id (as_subscribe active) \<and> \<not> is_stale c active \<and>
     selected_frontier c (as_scheduler_frontiers active) \<noteq> []"

definition subscription_ok :: "CmsfObject list \<Rightarrow> LoopState \<Rightarrow> u64 \<Rightarrow> ActiveSubscription \<Rightarrow> bool" where
  "subscription_ok objects loop_state request_id active \<longleftrightarrow>
     sub_request_id (as_subscribe active) = request_id \<and> frontiers_ok objects loop_state active \<and>
     (as_scheduler_frontiers active = [] \<longrightarrow> as_completed active \<or> as_generation_lead_parked active)"

text \<open>
  The invariant of the loop: consistent subscriptions, well-made candidates, and for every live subscription that
  is not in \<open>served\<close> a candidate that stands for it.
\<close>

definition publishing_ok :: "CmsfObject list \<Rightarrow> LoopState \<Rightarrow> u64 set \<Rightarrow> Publishing \<Rightarrow> bool" where
  "publishing_ok objects loop_state served p \<longleftrightarrow>
     omap_ok (pub_actives p) \<and> offsets_cover objects (pub_availability p) \<and>
     (\<forall>c \<in> set (pub_eligible p @ pub_blocked p). ec_plan_index c = cp_plan_index (ec_priority c)) \<and>
     (\<forall>request_id active. map_of (pub_actives p) request_id = Some active \<longrightarrow>
        subscription_ok objects loop_state request_id active \<and>
        (request_id \<notin> served \<longrightarrow> is_live active \<longrightarrow> (\<exists>c \<in> set (pub_eligible p @ pub_blocked p). stands_for active c)))"

lemma enqueued_made: "c \<in> set (enqueue_active_candidate r active) \<Longrightarrow> ec_plan_index c = cp_plan_index (ec_priority c)"
  by (auto simp: enqueue_active_candidate_def candidate_of_def split: list.splits if_splits)

lemma enqueued_stands:
  assumes "subscription_ok objects loop_state r active" and "is_live active"
  shows "\<exists>c \<in> set (enqueue_active_candidate r active). stands_for active c"
proof -
  obtain f fs where f: "as_scheduler_frontiers active = f # fs"
    using assms by (cases "as_scheduler_frontiers active") (auto simp: subscription_ok_def is_live_def)
  have ok: "frontiers_ok objects loop_state active" and r: "sub_request_id (as_subscribe active) = r"
    using assms(1) by (simp_all add: subscription_ok_def)
  have "f \<in> {own_candidate objects loop_state active (hd (waiting objects active k)) | k. waiting objects active k \<noteq> []}"
    using ok f unfolding frontiers_ok_def by (metis list.set_intros(1))
  then have own: "f\<lparr>cp_request_id := r, cp_request_fairness_round := 0\<rparr> = f"
    using r by (auto simp: candidate_def Let_def)
  let ?c = "candidate_of r active (f\<lparr>cp_request_fairness_round := as_scheduling_round active, cp_request_id := r\<rparr>)"
  have "(ec_priority ?c)\<lparr>cp_request_fairness_round := 0\<rparr> = f\<lparr>cp_request_id := r, cp_request_fairness_round := 0\<rparr>"
    by (simp add: candidate_of_def)
  then have "selected_frontier ?c (as_scheduler_frontiers active) = f # fs"
    unfolding selected_frontier_def own by (simp add: f frontier_order.irreflexive)
  moreover have "\<not> is_stale ?c active" using assms(2) f by (simp add: is_stale_def is_live_def candidate_of_def)
  ultimately have "stands_for active ?c" using r by (simp add: stands_for_def candidate_of_def)
  moreover have "?c \<in> set (enqueue_active_candidate r active)"
    using assms(2) f by (simp add: enqueue_active_candidate_def is_live_def)
  ultimately show ?thesis by blast
qed

lemma put_subscription:
  assumes "publishing_ok objects loop_state served p" and "subscription_ok objects loop_state r active"
    and "same_offsets (pub_availability p) ga"
    and "\<And>c. c \<in> set (E @ B) \<Longrightarrow> ec_plan_index c = cp_plan_index (ec_priority c)"
    and "\<And>c. c \<in> set (pub_eligible p @ pub_blocked p) \<Longrightarrow> c \<in> set (E @ B) \<or> ec_request_id c = r"
    and "r \<notin> served' \<Longrightarrow> is_live active \<Longrightarrow> \<exists>c \<in> set (E @ B). stands_for active c"
    and "served \<subseteq> insert r served'"
  shows "publishing_ok objects loop_state served' (p\<lparr>pub_actives := omap_put r active (pub_actives p),
      pub_eligible := E, pub_blocked := B, pub_availability := ga\<rparr>)"
    (is "publishing_ok _ _ _ ?p")
  unfolding publishing_ok_def
proof (intro conjI allI impI ballI)
  show "omap_ok (pub_actives ?p)" "offsets_cover objects (pub_availability ?p)"
    using assms(1,3) same_offsets_cover by (auto simp: publishing_ok_def)
  show "ec_plan_index c = cp_plan_index (ec_priority c)" if "c \<in> set (pub_eligible ?p @ pub_blocked ?p)" for c
    using that assms(4) by simp
  fix r' active'
  assume look: "map_of (pub_actives ?p) r' = Some active'"
  have ok: "omap_ok (pub_actives p)" using assms(1) by (simp add: publishing_ok_def)
  have cases: "r' = r \<and> active' = active \<or> r' \<noteq> r \<and> map_of (pub_actives p) r' = Some active'"
    using look ok by (auto split: if_splits)
  then show sub: "subscription_ok objects loop_state r' active'" using assms(1,2) by (auto simp: publishing_ok_def)
  show "\<exists>c \<in> set (pub_eligible ?p @ pub_blocked ?p). stands_for active' c"
    if out: "r' \<notin> served'" and live: "is_live active'"
    using cases
  proof
    assume "r' = r \<and> active' = active"
    then show ?thesis using assms(6) out live by simp
  next
    assume other: "r' \<noteq> r \<and> map_of (pub_actives p) r' = Some active'"
    then have "r' \<notin> served" using assms(7) out by blast
    then obtain c where c: "c \<in> set (pub_eligible p @ pub_blocked p)" "stands_for active' c"
      using assms(1) other live unfolding publishing_ok_def by blast
    have "ec_request_id c = r'" using c(2) sub by (simp add: stands_for_def subscription_ok_def)
    then have "c \<in> set (E @ B)" using assms(5) [OF c(1)] other by simp
    then show ?thesis using c(2) by auto
  qed
qed

lemma publishing_ok_made: "publishing_ok objects loop_state served p \<Longrightarrow> c \<in> set (pub_eligible p @ pub_blocked p) \<Longrightarrow>
    ec_plan_index c = cp_plan_index (ec_priority c)"
  by (simp add: publishing_ok_def)

lemma put_active:
  assumes "publishing_ok objects loop_state served p" and "subscription_ok objects loop_state r active"
    and "same_offsets (pub_availability p) ga"
  shows "publishing_ok objects loop_state (served - {r}) (p\<lparr>pub_actives := omap_put r active (pub_actives p),
      pub_eligible := pub_eligible p @ enqueue_active_candidate r active, pub_availability := ga\<rparr>)"
  using put_subscription [OF assms, of "pub_eligible p @ enqueue_active_candidate r active" "pub_blocked p" "served - {r}"]
    enqueued_stands [OF assms(2)] enqueued_made publishing_ok_made [OF assms(1)] by auto

lemma put_active_pending:
  assumes "publishing_ok objects loop_state served p" and "subscription_ok objects loop_state r active"
    and "same_offsets (pub_availability p) ga"
  shows "publishing_ok objects loop_state (insert r served)
    (p\<lparr>pub_actives := omap_put r active (pub_actives p), pub_availability := ga\<rparr>)"
  using put_subscription [OF assms, of "pub_eligible p" "pub_blocked p" "insert r served"]
    publishing_ok_made [OF assms(1)] by auto

lemma advance_subscription_ok:
  assumes "uses_priority_scheduler draft" "offsets_cover objects ga" "subscription_ok objects loop_state r active \<or>
    sub_request_id (as_subscribe active) = r \<and> frontiers_ok objects loop_state active"
  shows "\<exists>continues active' ga'. advance_active_subscription objects loop_state draft now actives active ga =
      Inr (continues, active', ga') \<and> same_offsets ga ga' \<and>
    subscription_ok objects loop_state r (active'\<lparr>as_completed := \<not> continues\<rparr>)"
proof -
  have ok: "frontiers_ok objects loop_state active" and r: "sub_request_id (as_subscribe active) = r"
    using assms(3) by (auto simp: subscription_ok_def)
  obtain continues active' ga' where adv: "advance_active_subscription objects loop_state draft now actives active ga =
      Inr (continues, active', ga')" "same_offsets ga ga'" "goes_on objects loop_state active continues active'"
    using advance_ok [OF assms(1,2) ok] unfolding advance_active_subscription_def by blast
  then have "subscription_ok objects loop_state r (active'\<lparr>as_completed := \<not> continues\<rparr>)"
    using r by (auto simp: goes_on_def subscription_ok_def)
  then show ?thesis using adv by blast
qed

lemma resume_leaders_ok:
  assumes "uses_priority_scheduler draft"
  shows "publishing_ok objects loop_state served p \<Longrightarrow>
    \<exists>p' served'. resume_leaders objects loop_state draft now rs p = Inr p' \<and> served' \<subseteq> served \<and>
      publishing_ok objects loop_state served' p' \<and> pub_blocked p' = pub_blocked p \<and>
      set (pub_eligible p) \<subseteq> set (pub_eligible p')"
proof (induction rs arbitrary: p served)
  case Nil
  then show ?case by auto
next
  case (Cons r rs)
  show ?case
  proof (cases "\<exists>active. map_of (pub_actives p) r = Some active \<and> as_generation_lead_parked active")
    case False
    then have "resume_leaders objects loop_state draft now (r # rs) p = resume_leaders objects loop_state draft now rs p"
      by (auto split: option.splits)
    then show ?thesis using Cons by simp
  next
    case True
    then obtain active where a: "map_of (pub_actives p) r = Some active" "as_generation_lead_parked active" by blast
    have ok: "subscription_ok objects loop_state r active" "offsets_cover objects (pub_availability p)"
      using Cons.prems a(1) by (auto simp: publishing_ok_def)
    obtain continues active' ga' where adv:
      "advance_active_subscription objects loop_state draft now (map snd (pub_actives p)) active (pub_availability p) =
        Inr (continues, active', ga')" "same_offsets (pub_availability p) ga'"
      "subscription_ok objects loop_state r (active'\<lparr>as_completed := \<not> continues\<rparr>)"
      using advance_subscription_ok [OF assms ok(2) disjI1 [OF ok(1)]] by blast
    let ?active = "active'\<lparr>as_completed := \<not> continues\<rparr>"
    let ?p = "p\<lparr>pub_actives := omap_put r ?active (pub_actives p),
        pub_eligible := pub_eligible p @ enqueue_active_candidate r ?active, pub_availability := ga'\<rparr>"
    have "resume_leaders objects loop_state draft now (r # rs) p = resume_leaders objects loop_state draft now rs ?p"
      using a adv(1) by (simp add: Let_def)
    moreover obtain p' served' where "resume_leaders objects loop_state draft now rs ?p = Inr p'" "served' \<subseteq> served - {r}"
        "publishing_ok objects loop_state served' p'" "pub_blocked p' = pub_blocked ?p" "set (pub_eligible ?p) \<subseteq> set (pub_eligible p')"
      using Cons.IH [OF put_active [OF Cons.prems adv(3,2)]] by blast
    ultimately show ?thesis by auto
  qed
qed

lemma admit_selected_flags:
  assumes "admit_selected objects loop_state selected frontier active = Inr active'"
  shows "as_completed active' = as_completed active" "as_forward_paused_by_update active' = as_forward_paused_by_update active"
    "as_generation_lead_parked active' = as_generation_lead_parked active"
  using assms by (auto simp: admit_selected_def Let_def split: option.splits if_splits)

text \<open>
  Why \<open>try_serve\<close> fails: the completion history is full, the subgroup waits with another object, the object has
  properties and its stream none, the encoder refuses the object, or the transport refused to open, reset or
  write.
\<close>

definition sending_failure :: "DraftVersion \<Rightarrow> CmsfObject \<Rightarrow> answers \<Rightarrow> string \<Rightarrow> bool" where
  "sending_failure draft object an message \<longleftrightarrow>
     message \<in> {''subgroup completion history exceeded bounded sparse range capacity'',
       ''attempted a later object while its subgroup predecessor is blocked'',
       ''cannot add properties to a subgroup opened without PROPERTIES''} \<or>
     (\<exists>alias contains_largest present stream e. encode_pending_object draft alias object contains_largest
        (obj_owned_payload object) present stream = Inl e \<and> message = exn_what e) \<or>
     an_open an = Inl message \<or> an_reset an = Failure message \<or>
     fst (an_write an) = WriteFailed \<and>
       message = (if snd (an_write an) = [] then ''transport object admission failed'' else snd (an_write an))"

lemma completion_history_failure:
  "completion_history_status s = Failure message \<Longrightarrow>
   message = ''subgroup completion history exceeded bounded sparse range capacity''"
  by (simp add: completion_history_status_def split: if_split_asm)

lemma expire_failure:
  "expire_open_subgroup k stream_id reset_status s = (es, (Failure message, d), s') \<Longrightarrow>
   message = ''subgroup completion history exceeded bounded sparse range capacity'' \<or> reset_status = Failure message"
  by (auto simp: expire_open_subgroup_def dest: completion_history_failure split: prod.splits if_splits)

text \<open>The check of the payload at the end of the encoded object always holds.\<close>

lemma encoded_payload:
  assumes "encode_pending_object draft alias object contains_largest payload present stream = Inr (header, encoded)"
  shows "\<not> (length encoded < length payload \<or> drop (length encoded - length payload) encoded \<noteq> payload)"
proof -
  obtain previous where "encode_subgroup_object draft previous (obj_object_id object) payload (obj_properties object)
      present = Inr encoded"
    using assms by (auto simp: encode_pending_object_def split: if_splits)
  from encode_subgroup_object_bytes [OF this] show ?thesis by (auto simp: object_bytes_def)
qed

lemma prepare_object_failure:
  assumes "prepare_object draft alias object contains_largest is_final (obj_owned_payload object) timeouts priority
      prepared an s = (es, Some (Failure message, d), s')"
  shows "sending_failure draft object an message"
proof -
  let ?k = "(obj_group_id object, obj_subgroup_id object)"
  let ?deadlines = "object_deadlines is_final timeouts prepared (an_first_available_at an)"
  let ?stream = "map_of (ss_streams s) ?k"
  let ?present = "case ?stream of None \<Rightarrow> obj_properties object \<noteq> [] | Some stream \<Rightarrow> os_properties_present stream"
  let ?encoded = "encode_pending_object draft alias object contains_largest (obj_owned_payload object) ?present ?stream"
  note def = assms [unfolded prepare_object_def Let_def]
  show ?thesis
  proof (cases "deadline_reached (an_now_prepared an) (fst ?deadlines) (snd ?deadlines)")
    case True
    with def show ?thesis
      by (auto simp: sending_failure_def dest: completion_history_failure expire_failure
          split: option.splits prod.splits if_splits)
  next
    case False
    note def = def [unfolded if_not_P [OF False]]
    show ?thesis
    proof (cases "\<not> ?present \<and> obj_properties object \<noteq> []")
      case True
      with def show ?thesis by (simp add: sending_failure_def)
    next
      case False
      note def = def [unfolded if_not_P [OF False]]
      show ?thesis
      proof (cases ?encoded)
        case (Inl e)
        with def have "message = exn_what e" by simp
        with Inl show ?thesis unfolding sending_failure_def by blast
      next
        case (Inr b)
        obtain header encoded where b: "b = (header, encoded)" by fastforce
        note never = encoded_payload [OF Inr [unfolded b]]
        show ?thesis
        proof (cases "claim_stream ?k priority ?present (an_open an) ?stream s")
          case (Inl m)
          with def Inr b have "message = m" by simp
          moreover have "an_open an = Inl m"
            using Inl by (cases ?stream; cases "an_open an") (auto simp: claim_stream_def Let_def)
          ultimately show ?thesis by (simp add: sending_failure_def)
        next
          case c: (Inr c)
          with def Inr b never show ?thesis by (cases c) (auto split: if_splits)
        qed
      qed
    qed
  qed
qed

lemma deliver_object_failure:
  assumes "deliver_object k priority an p s = (es, (Failure message, d), s')"
  shows "sending_failure draft object an message"
  using assms
  by (auto simp: deliver_object_def sending_failure_def finish_accepted_object_def Let_def
      dest!: completion_history_failure expire_failure
      split: option.splits prod.splits if_splits ObjectWriteDisposition.splits)

lemma try_serve_failure:
  assumes "try_serve draft alias object contains_largest is_final (obj_owned_payload object) timeouts priority prepared an s =
      (es, (Failure message, d), s')"
  shows "sending_failure draft object an message"
  using assms
  by (auto simp: try_serve_def Let_def sending_failure_def [of draft object an "''subgroup completion history exceeded bounded sparse range capacity''"]
      sending_failure_def [of draft object an "''attempted a later object while its subgroup predecessor is blocked''"]
      intro: prepare_object_failure deliver_object_failure dest: completion_history_failure
      split: option.splits prod.splits if_splits)

text \<open>
  A candidate whose frontier was found is served without a lost frontier or an index out of range: it fails only
  because the object of its place in the plan has no payload or for one of the reasons above.
\<close>

lemma serve_selected_cases:
  assumes ok: "frontiers_ok objects loop_state active" and made: "made_for active selected"
    and found: "selected_frontier selected (as_scheduler_frontiers active) = frontier # later"
    and served: "serve_selected objects loop_state draft selected (frontier # later) next_sequence an active = Some (effects, result)"
  obtains (failed) message object where "result = Inl (Failed message)" "ec_plan_index selected < length objects"
        "make_looped_send_object (objects ! ec_plan_index selected) loop_state (ec_loop_cycle selected) = Some object"
        "if obj_owned_payload object = [] then message = ''transport publish requires materialized object payloads''
         else sending_failure draft object an message"
    | (held) sequences sender waits where "result = Inr (Held waits,
        active\<lparr>as_send_sequence_by_object_index := sequences, as_sender := sender\<rparr>)"
        "\<And>c. waits = Some c \<Longrightarrow> ec_plan_index c = cp_plan_index (ec_priority c)"
    | (admitted) sequences sender published active' where "result = Inr (Admitted published, active')"
        "admit_selected objects loop_state selected frontier
          (active\<lparr>as_send_sequence_by_object_index := sequences, as_sender := sender\<rparr>) = Inr active'"
proof -
  let ?i = "ec_plan_index selected"
  obtain rest where w: "waiting objects active (frontier_key (objects ! ?i)) = ?i # rest"
    using found_is_first [OF ok made found] by blast
  then have i: "?i < length objects" "is_wanted objects active ?i"
    using set_waiting [of ?i objects active "frontier_key (objects ! ?i)"] by simp_all
  obtain options where options: "map_of (as_availability_by_object_index active) ?i = Some options"
    using ok i unfolding frontiers_ok_def by fastforce
  obtain largest where largest: "subgroup_contains_group_largest objects ?i = Inr largest"
    using i(1) by (auto simp: subgroup_contains_group_largest_def Let_def)
  obtain is_final where is_final: "is_final_object_in_subgroup objects ?i = Inr is_final"
    using i(1) by (auto simp: is_final_object_in_subgroup_def Let_def)
  obtain object where object: "make_looped_send_object (objects ! ?i) loop_state (ec_loop_cycle selected) = Some object"
    using served by (auto simp: serve_selected_def Let_def)
  let ?claimed = "claim_send_sequence next_sequence ?i object active"
  obtain effects' status disposition sender where tried: "try_serve draft (pt_alias (as_track active)) object largest is_final
      (obj_owned_payload object) (sub_delivery_timeouts (as_subscribe active))
      (sub_subscriber_priority (as_subscribe active), as_publisher_priority active)
      (Some (ow_object_deadline options, ow_subgroup_deadline options)) an (as_sender active) =
      (effects', (status, disposition), sender)" by (metis prod.exhaust)
  show ?thesis
  proof (cases "obj_owned_payload object = []")
    case True
    then have "result = Inl (Failed ''transport publish requires materialized object payloads'')"
      using served object by (simp add: serve_selected_def Let_def)
    then show ?thesis using failed [OF _ i(1) object] True by simp
  next
    case False
    note eval = serve_selected_def claim_send_sequence_def object False largest is_final options tried Let_def
    show ?thesis
    proof (cases status)
      case (Failure message)
      then have "result = Inl (Failed message)" using served by (simp add: eval)
      then show ?thesis using failed [OF _ i(1) object] False try_serve_failure [OF tried [unfolded Failure]] by simp
    next
      case Success
      show ?thesis
      proof (cases "disposition = WouldBlock")
        case True
        then show ?thesis using held served Success
          by (auto simp: eval candidate_of_def split: list.splits)
      next
        case False
        let ?active = "active\<lparr>as_send_sequence_by_object_index := as_send_sequence_by_object_index ?claimed, as_sender := sender\<rparr>"
        have ok': "frontiers_ok objects loop_state ?active" using ok by simp
        have "made_for ?active selected" "selected_frontier selected (as_scheduler_frontiers ?active) = frontier # later"
          using made found by (simp_all add: made_for_def)
        from admit_selected_ok [OF ok' this] obtain active' where a: "admit_selected objects loop_state selected frontier ?active = Inr active'"
          by blast
        then have "result = Inr (Admitted (disposition = Accepted), active')"
          using served Success False by (simp add: eval)
        then show ?thesis using admitted a by blast
      qed
    qed
  qed
qed

lemma drop_candidate:
  assumes "publishing_ok objects loop_state {} p"
    and "\<And>active. map_of (pub_actives p) (ec_request_id c) = Some active \<Longrightarrow> ec_request_id c \<in> served \<or> \<not> stands_for active c"
  shows "publishing_ok objects loop_state served (p\<lparr>pub_eligible := remove1 c (pub_eligible p)\<rparr>)"
  unfolding publishing_ok_def
proof (intro conjI allI impI ballI)
  let ?p = "p\<lparr>pub_eligible := remove1 c (pub_eligible p)\<rparr>"
  show "omap_ok (pub_actives ?p)" "offsets_cover objects (pub_availability ?p)"
    using assms(1) by (simp_all add: publishing_ok_def)
  show "ec_plan_index d = cp_plan_index (ec_priority d)" if "d \<in> set (pub_eligible ?p @ pub_blocked ?p)" for d
    using that publishing_ok_made [OF assms(1)] set_remove1_subset [of c "pub_eligible p"] by auto
  fix r active
  assume a: "map_of (pub_actives ?p) r = Some active"
  then show "subscription_ok objects loop_state r active" using assms(1) by (simp add: publishing_ok_def)
  then have r: "sub_request_id (as_subscribe active) = r" by (simp add: subscription_ok_def)
  assume out: "r \<notin> served" and live: "is_live active"
  obtain d where d: "d \<in> set (pub_eligible p @ pub_blocked p)" "stands_for active d"
    using assms(1) a live unfolding publishing_ok_def by fastforce
  have "ec_request_id d = r" using d(2) r by (simp add: stands_for_def)
  then have "d \<noteq> c" using assms(2) [of active] a d(2) out by auto
  then show "\<exists>d \<in> set (pub_eligible ?p @ pub_blocked ?p). stands_for active d" using d by auto
qed

lemma top_candidate_member: "top_candidate c cs \<in> set (c # cs)"
proof (induction cs arbitrary: c)
  case (Cons d ds)
  show ?case using Cons.IH [of "if precedes_cross_request (ec_priority d) (ec_priority c) then d else c"]
    by (auto split: if_splits)
qed simp

lemma stands_for_same:
  assumes "as_subscribe a = as_subscribe b" "as_completed a = as_completed b"
    "as_forward_paused_by_update a = as_forward_paused_by_update b" "as_scheduler_generation a = as_scheduler_generation b"
    "as_loop_cycle a = as_loop_cycle b" "as_scheduling_round a = as_scheduling_round b"
    "as_scheduler_frontiers a = as_scheduler_frontiers b"
  shows "stands_for a c = stands_for b c"
  using assms by (simp add: stands_for_def is_stale_def)

lemma omap_put_put [simp]: "omap_ok m \<Longrightarrow> omap_put k v (omap_put k w m) = omap_put k v m"
  by (induction k w m rule: omap_put.induct) (auto simp: omap_ok_Cons)

lemma admitted_put_ok:
  assumes "uses_priority_scheduler draft" and "publishing_ok objects loop_state {r} p"
    and "sub_request_id (as_subscribe active) = r" "frontiers_ok objects loop_state active"
  defines "put \<equiv> \<lambda>active p. p\<lparr>pub_actives := omap_put r active (pub_actives p)\<rparr>"
  shows "\<exists>p'. (if as_scheduler_frontiers active = [] then
               let active = active\<lparr>as_next_object_index := length objects\<rparr>; p = put active p in
               bindE (advance_active_subscription objects loop_state draft now (map snd (pub_actives p)) active
                        (pub_availability p)) (\<lambda>(advanced, active, availability).
               Inr (put (active\<lparr>as_completed := \<not> advanced\<rparr>) (p\<lparr>pub_availability := availability\<rparr>)))
             else Inr (put active p)) = Inr p' \<and> publishing_ok objects loop_state {r} p' \<and>
    pub_eligible p' = pub_eligible p \<and> pub_blocked p' = pub_blocked p"
proof (cases "as_scheduler_frontiers active = []")
  case False
  then have "subscription_ok objects loop_state r active" using assms(3,4) by (simp add: subscription_ok_def)
  from put_active_pending [OF assms(2) this same_offsets_refl] False show ?thesis by (simp add: put_def)
next
  case True
  let ?active = "active\<lparr>as_next_object_index := length objects\<rparr>"
  have cover: "offsets_cover objects (pub_availability p)" using assms(2) by (simp add: publishing_ok_def)
  have ok: "sub_request_id (as_subscribe ?active) = r \<and> frontiers_ok objects loop_state ?active" using assms(3,4) by simp
  obtain continues active' ga' where adv:
    "advance_active_subscription objects loop_state draft now (map snd (omap_put r ?active (pub_actives p))) ?active (pub_availability p) =
      Inr (continues, active', ga')" "same_offsets (pub_availability p) ga'"
    "subscription_ok objects loop_state r (active'\<lparr>as_completed := \<not> continues\<rparr>)"
    using advance_subscription_ok [OF assms(1) cover disjI2 [OF ok]] by blast
  have m: "omap_ok (pub_actives p)" using assms(2) by (simp add: publishing_ok_def)
  have "p\<lparr>pub_actives := omap_put r (active'\<lparr>as_completed := \<not> continues\<rparr>) (pub_actives p), pub_availability := ga'\<rparr> =
      p\<lparr>pub_availability := ga', pub_actives := omap_put r (active'\<lparr>as_completed := \<not> continues\<rparr>) (pub_actives p)\<rparr>" by simp
  from put_active_pending [OF assms(2) adv(3,2), unfolded this] show ?thesis using True adv(1) m by (simp add: put_def Let_def)
qed

lemma after_admission_ok:
  assumes "uses_priority_scheduler draft" and "publishing_ok objects loop_state {r} p"
    and "sub_request_id (as_subscribe active) = r" "frontiers_ok objects loop_state active"
  shows "\<exists>p'. after_admission objects loop_state draft now r active p = Inr p' \<and> publishing_ok objects loop_state {} p'"
proof -
  obtain p1 where 1: "publishing_ok objects loop_state {r} p1" "pub_blocked p1 = pub_blocked p"
      "after_admission objects loop_state draft now r active p = bindE (resume_generation_leaders objects loop_state draft now p1) (\<lambda>p.
        Inr (p\<lparr>pub_eligible := pub_eligible p @ (case map_of (pub_actives p) r of
            None \<Rightarrow> [] | Some active \<Rightarrow> enqueue_active_candidate r active) @ pub_blocked p, pub_blocked := []\<rparr>))"
    using admitted_put_ok [OF assms, of now] unfolding after_admission_def Let_def by auto
  obtain p2 served where 2: "resume_generation_leaders objects loop_state draft now p1 = Inr p2" "served \<subseteq> {r}"
      "publishing_ok objects loop_state served p2"
    using resume_leaders_ok [OF assms(1) 1(1)] unfolding resume_generation_leaders_def by blast
  let ?p = "p2\<lparr>pub_eligible := pub_eligible p2 @ (case map_of (pub_actives p2) r of
      None \<Rightarrow> [] | Some active \<Rightarrow> enqueue_active_candidate r active) @ pub_blocked p2, pub_blocked := []\<rparr>"
  have "publishing_ok objects loop_state {} ?p"
  proof (cases "map_of (pub_actives p2) r")
    case None
    then have "publishing_ok objects loop_state {} p2" using 2(2,3) by (fastforce simp: publishing_ok_def)
    then show ?thesis using None by (simp add: publishing_ok_def)
  next
    case (Some active2)
    have ok: "subscription_ok objects loop_state r active2" "omap_ok (pub_actives p2)"
      using 2(3) Some by (auto simp: publishing_ok_def)
    have "publishing_ok objects loop_state {} (p2\<lparr>pub_actives := omap_put r active2 (pub_actives p2),
        pub_eligible := pub_eligible p2 @ enqueue_active_candidate r active2 @ pub_blocked p2, pub_blocked := [],
        pub_availability := pub_availability p2\<rparr>)"
      by (rule put_subscription [OF 2(3) ok(1)])
        (use enqueued_stands [OF ok(1)] enqueued_made publishing_ok_made [OF 2(3)] 2(2) in auto)
    then show ?thesis using Some omap_put_lookup_same [OF ok(2) Some] by simp
  qed
  then show ?thesis using 1(3) 2(1) by simp
qed

theorem serve_turn_ok:
  assumes "uses_priority_scheduler draft" and "publishing_ok objects loop_state {} p"
    and "serve_turn objects loop_state draft now next_sequence an p = Some (effects, Inr (turn, p'))"
  shows "publishing_ok objects loop_state {} p'"
proof (cases "pub_eligible p")
  case Nil
  then show ?thesis using assms(2,3) by (auto simp: serve_turn_def publishing_ok_def)
next
  case (Cons c cs)
  let ?c = "top_candidate c cs" and ?p = "p\<lparr>pub_eligible := remove1 (top_candidate c cs) (pub_eligible p)\<rparr>"
  let ?r = "ec_request_id (top_candidate c cs)"
  have member: "?c \<in> set (pub_eligible p)" using Cons top_candidate_member [of c cs] by simp
  show ?thesis
  proof (cases "map_of (pub_actives p) ?r")
    case None
    then have "p' = ?p" using assms(3) Cons by (simp add: serve_turn_def Let_def)
    then show ?thesis using drop_candidate [OF assms(2), of ?c "{}"] None by simp
  next
    case (Some active)
    have sub: "subscription_ok objects loop_state ?r active" using assms(2) Some by (simp add: publishing_ok_def)
    show ?thesis
    proof (cases "is_stale ?c active \<or> selected_frontier ?c (as_scheduler_frontiers active) = []")
      case True
      then have "p' = ?p" using assms(3) Cons Some by (auto simp: serve_turn_def Let_def split: if_splits)
      then show ?thesis using drop_candidate [OF assms(2), of ?c "{}"] Some True by (simp add: stands_for_def)
    next
      case False
      then obtain f fs where found: "selected_frontier ?c (as_scheduler_frontiers active) = f # fs"
        by (cases "selected_frontier ?c (as_scheduler_frontiers active)") auto
      have made: "made_for active ?c"
        using sub publishing_ok_made [OF assms(2), of ?c] member by (simp add: made_for_def subscription_ok_def)
      have ok: "frontiers_ok objects loop_state active" and r: "sub_request_id (as_subscribe active) = ?r"
        using sub by (simp_all add: subscription_ok_def)
      obtain result where result: "serve_selected objects loop_state draft ?c (f # fs) next_sequence an active = Some (effects, result)"
        using assms(3) Cons Some False found by (auto simp: serve_turn_def Let_def)
      have p': "bindE result (\<lambda>(outcome, active). case outcome of
                Held later \<Rightarrow> Inr (Try_Next, ?p\<lparr>pub_actives := omap_put ?r active (pub_actives ?p),
                    pub_eligible := pub_eligible ?p @ (case later of None \<Rightarrow> [] | Some later \<Rightarrow> [later]),
                    pub_blocked := pub_blocked ?p @ [?c]\<rparr>)
              | Admitted published \<Rightarrow> (case after_admission objects loop_state draft now ?r active ?p of
                    Inl e \<Rightarrow> Inl (Thrown e) | Inr p \<Rightarrow> Inr (Made_Progress published, p))) = Inr (turn, p')"
        using assms(3) Cons Some False found result
        by (simp add: serve_turn_def Let_def del: remove1.simps cong: serve_outcome.case_cong)
      show ?thesis using ok made found result
      proof (cases rule: serve_selected_cases)
        case failed
        then show ?thesis using p' by simp
      next
        case (held sequences sender waits)
        let ?active = "active\<lparr>as_send_sequence_by_object_index := sequences, as_sender := sender\<rparr>"
        have sub': "subscription_ok objects loop_state ?r ?active" using sub by (simp add: subscription_ok_def)
        have stands: "stands_for ?active ?c" using False r by (simp add: stands_for_def is_stale_def)
        let ?E = "pub_eligible ?p @ (case waits of None \<Rightarrow> [] | Some later \<Rightarrow> [later])" and ?B = "pub_blocked p @ [?c]"
        have "publishing_ok objects loop_state {} (p\<lparr>pub_actives := omap_put ?r ?active (pub_actives p),
            pub_eligible := ?E, pub_blocked := ?B, pub_availability := pub_availability p\<rparr>)"
        proof (rule put_subscription [OF assms(2) sub' same_offsets_refl])
          show "ec_plan_index d = cp_plan_index (ec_priority d)" if "d \<in> set (?E @ ?B)" for d
            using that held(2) publishing_ok_made [OF assms(2)] member set_remove1_subset [of ?c "pub_eligible p"]
            by (auto split: option.splits)
          show "d \<in> set (?E @ ?B) \<or> ec_request_id d = ?r" if "d \<in> set (pub_eligible p @ pub_blocked p)" for d
            using that by (cases "d = ?c") auto
          show "\<exists>d \<in> set (?E @ ?B). stands_for ?active d" using stands by auto
        qed simp
        then show ?thesis using p' held(1) by simp
      next
        case (admitted sequences sender published active')
        let ?active = "active\<lparr>as_send_sequence_by_object_index := sequences, as_sender := sender\<rparr>"
        have "frontiers_ok objects loop_state ?active" "made_for ?active ?c"
            "selected_frontier ?c (as_scheduler_frontiers ?active) = f # fs"
          using ok made found by (simp_all add: made_for_def)
        from admit_selected_ok [OF this] admitted(2) have a: "frontiers_ok objects loop_state active'"
            "as_subscribe active' = as_subscribe active" by auto
        have dropped: "publishing_ok objects loop_state {?r} ?p" using drop_candidate [OF assms(2), of ?c "{?r}"] by simp
        obtain p2 where "after_admission objects loop_state draft now ?r active' ?p = Inr p2" "publishing_ok objects loop_state {} p2"
          using after_admission_ok [OF assms(1) dropped _ a(1)] a(2) r by auto
        then show ?thesis using p' admitted(1) by simp
      qed
    qed
  qed
qed

subsection \<open>Updates, new and finished subscriptions\<close>

lemma discard_unmatched_fold:
  "\<exists>sender sequences. fold (discard_unmatched objects loop_state) entries active =
     active\<lparr>as_sender := sender, as_send_sequence_by_object_index := sequences\<rparr>"
proof (induction entries arbitrary: active)
  case Nil
  show ?case by (intro exI [of _ "as_sender active"] exI [of _ "as_send_sequence_by_object_index active"]) simp
next
  case (Cons e es)
  have "\<exists>sender sequences. discard_unmatched objects loop_state e active =
     active\<lparr>as_sender := sender, as_send_sequence_by_object_index := sequences\<rparr>"
  proof (cases "object_matches_filter (objects ! fst e) (as_subscribe active)")
    case True
    then show ?thesis
      by (intro exI [of _ "as_sender active"] exI [of _ "as_send_sequence_by_object_index active"])
        (simp add: discard_unmatched_def case_prod_unfold)
  next
    case False
    then show ?thesis by (auto simp: discard_unmatched_def case_prod_unfold Let_def)
  qed
  then obtain s q where "discard_unmatched objects loop_state e active =
      active\<lparr>as_sender := s, as_send_sequence_by_object_index := q\<rparr>" by blast
  then show ?case using Cons.IH [of "active\<lparr>as_sender := s, as_send_sequence_by_object_index := q\<rparr>"] by auto
qed

lemma refresh_deadlines_total:
  assumes "offsets_cover objects ga" and "\<forall>i \<in> set is. i < length objects"
    and "omap_ok (as_availability_by_object_index active)"
  shows "\<exists>entries sender ga'. refresh_deadlines objects loop_state draft now is active ga =
      Inr (active\<lparr>as_availability_by_object_index := entries, as_sender := sender\<rparr>, ga') \<and>
    omap_ok entries \<and> same_offsets ga ga' \<and>
    (\<forall>i. map_of entries i \<noteq> None \<longrightarrow> i \<in> set is \<or> map_of (as_availability_by_object_index active) i \<noteq> None)"
  using assms
proof (induction "is" arbitrary: active ga)
  case Nil
  then show ?case
    by (intro exI [of _ "as_availability_by_object_index active"] exI [of _ "as_sender active"]) auto
next
  case (Cons i "is")
  obtain options ga1 where w: "write_options draft now active i ga = Inr (options, ga1)" "same_offsets ga ga1"
    using write_options_total [OF Cons.prems(1)] Cons.prems(2) by force
  have c: "offsets_cover objects ga1" using same_offsets_cover w(2) Cons.prems(1) by blast
  obtain options' sender where step: "refresh_deadlines objects loop_state draft now (i # is) active ga =
      refresh_deadlines objects loop_state draft now is
        (active\<lparr>as_availability_by_object_index := omap_put i options' (as_availability_by_object_index active),
           as_sender := sender\<rparr>) ga1"
    using w(1) by (simp add: Let_def)
  let ?active = "active\<lparr>as_availability_by_object_index := omap_put i options' (as_availability_by_object_index active),
      as_sender := sender\<rparr>"
  obtain entries sender' ga' where r: "refresh_deadlines objects loop_state draft now is ?active ga1 =
      Inr (?active\<lparr>as_availability_by_object_index := entries, as_sender := sender'\<rparr>, ga')" "omap_ok entries" "same_offsets ga1 ga'"
    "\<forall>j. map_of entries j \<noteq> None \<longrightarrow> j \<in> set is \<or> map_of (as_availability_by_object_index ?active) j \<noteq> None"
    using Cons.IH [of ga1 ?active] c Cons.prems(2,3) by auto
  have "\<forall>j. map_of entries j \<noteq> None \<longrightarrow> j \<in> set (i # is) \<or> map_of (as_availability_by_object_index active) j \<noteq> None"
    using r(4) Cons.prems(3) by (auto split: if_splits)
  then show ?case unfolding step using r(1-3) same_offsets_trans [OF w(2) r(3)] by auto
qed

lemma updated_request_id [simp]: "sub_request_id (apply_request_update update subscribe) = sub_request_id subscribe"
  by (simp add: apply_request_update_def Let_def split: option.splits)

lemma rebuilt_subscription:
  assumes "offsets_cover objects ga" and "entries_ok objects (as_availability_by_object_index active)"
    and "sub_request_id (as_subscribe active) = r"
  shows "\<exists>active' ga'. rebuild_priority_frontiers objects loop_state draft now active ga = Inr (active', ga') \<and>
    same_offsets ga ga' \<and> subscription_ok objects loop_state r active' \<and>
    (as_subgroup_frontiers active' = [] \<longleftrightarrow> as_scheduler_frontiers active' = [])"
proof -
  obtain frontiers candidates entries ga' where
    "rebuild_priority_frontiers objects loop_state draft now active ga =
      Inr (active\<lparr>as_scheduler_generation := as_scheduler_generation active + 1, as_subgroup_frontiers := frontiers,
             as_scheduler_frontiers := candidates, as_availability_by_object_index := entries,
             as_completed := (candidates = [])\<rparr>, ga')"
    "frontiers_ok objects loop_state (active\<lparr>as_scheduler_generation := as_scheduler_generation active + 1,
      as_subgroup_frontiers := frontiers, as_scheduler_frontiers := candidates,
      as_availability_by_object_index := entries, as_completed := (candidates = [])\<rparr>)"
    "(frontiers = []) = (candidates = [])" "same_offsets ga ga'"
    using rebuild_frontiers [OF assms(1,2), of loop_state draft now] by blast
  then show ?thesis using assms(3) by (auto simp: subscription_ok_def)
qed

lemma updated_settings:
  assumes "update_settings draft events update active = (effects, active')"
  shows "as_availability_by_object_index active' = as_availability_by_object_index active"
    and "sub_request_id (as_subscribe active') = sub_request_id (as_subscribe active)"
  using assms by (auto simp: update_settings_def Let_def split: option.splits if_splits prod.splits)

lemma updated_deadlines:
  assumes "offsets_cover objects ga" and "entries_ok objects (as_availability_by_object_index active)"
  shows "\<exists>active' ga'. update_deadlines objects loop_state draft now update active ga = Inr (active', ga') \<and>
    same_offsets ga ga' \<and> entries_ok objects (as_availability_by_object_index active') \<and>
    as_subscribe active' = as_subscribe active"
proof (cases "ru_object_delivery_timeout_ms update \<noteq> None \<or> ru_subgroup_delivery_timeout_ms update \<noteq> None")
  case True
  have av: "omap_ok (as_availability_by_object_index active)"
      "\<And>i. map_of (as_availability_by_object_index active) i \<noteq> None \<Longrightarrow> i < length objects"
    using assms(2) by (simp_all add: entries_ok_def)
  then have indices: "\<forall>i \<in> set (map fst (as_availability_by_object_index active)). i < length objects"
    by (metis domI dom_map_of_conv_image_fst list.set_map domIff)
  obtain entries sender ga1 where r: "refresh_deadlines objects loop_state draft now (map fst (as_availability_by_object_index active)) active ga =
      Inr (active\<lparr>as_availability_by_object_index := entries, as_sender := sender\<rparr>, ga1)" "omap_ok entries" "same_offsets ga ga1"
      "\<And>i. map_of entries i \<noteq> None \<Longrightarrow> i \<in> set (map fst (as_availability_by_object_index active)) \<or>
        map_of (as_availability_by_object_index active) i \<noteq> None"
    using refresh_deadlines_total [OF assms(1) indices av(1), of loop_state draft now] by blast
  have "entries_ok objects entries" using r(2,4) av(2) indices unfolding entries_ok_def by blast
  then show ?thesis using r(1,3) True by (simp add: update_deadlines_def)
next
  case False
  then show ?thesis using assms(2) by (simp add: update_deadlines_def)
qed

lemma reselected_subscription:
  assumes draft: "uses_priority_scheduler draft" and cover: "offsets_cover objects ga"
    and "entries_ok objects (as_availability_by_object_index active)" and "sub_request_id (as_subscribe active) = r"
  shows "\<exists>active' ga'. reselect_objects objects loop_state draft now actives active ga = Inr (active', ga') \<and>
    same_offsets ga ga' \<and> subscription_ok objects loop_state r active'"
proof -
  let ?start = "active\<lparr>as_generation_lead_parked := False\<rparr>"
  obtain active2 ga2 where r2: "rebuild_priority_frontiers objects loop_state draft now ?start ga = Inr (active2, ga2)"
      "same_offsets ga ga2" "subscription_ok objects loop_state r active2"
    using rebuilt_subscription [OF cover, of ?start r loop_state draft now] assms(3,4) by auto
  obtain continues active3 ga3 where r3: "advance_active_subscription objects loop_state draft now (actives active2) active2 ga2 =
      Inr (continues, active3, ga3)" "same_offsets ga2 ga3"
      "subscription_ok objects loop_state r (active3\<lparr>as_completed := \<not> continues\<rparr>)"
    using advance_subscription_ok [OF draft same_offsets_cover [OF r2(2) cover] disjI1 [OF r2(3)]] by blast
  show ?thesis
    using r2 r3 same_offsets_trans [OF r2(2) r3(2)] draft by (simp add: reselect_objects_def)
qed

lemma updated_subscription_ok:
  assumes draft: "uses_priority_scheduler draft" and ok: "subscription_ok objects loop_state r active"
    and cover: "offsets_cover objects ga"
  shows "\<exists>result active' ga'. apply_update_to_active objects loop_state draft now events actives update active ga =
      Inr (result, active', ga') \<and> same_offsets ga ga' \<and> subscription_ok objects loop_state r active'"
proof -
  obtain effects active1 where s: "update_settings draft events update active = (effects, active1)"
    by (metis prod.exhaust)
  have s1: "entries_ok objects (as_availability_by_object_index active1)" "sub_request_id (as_subscribe active1) = r"
    using updated_settings [OF s] ok by (simp_all add: subscription_ok_def frontiers_ok_def entries_ok_def)
  obtain active2 ga2 where d: "update_deadlines objects loop_state draft now update active1 ga = Inr (active2, ga2)"
      "same_offsets ga ga2" "entries_ok objects (as_availability_by_object_index active2)" "as_subscribe active2 = as_subscribe active1"
    using updated_deadlines [OF cover s1(1), of loop_state draft now update] by blast
  obtain sender sequences where f: "fold (discard_unmatched objects loop_state) (as_send_sequence_by_object_index active2) active2 =
      active2\<lparr>as_sender := sender, as_send_sequence_by_object_index := sequences\<rparr>"
    using discard_unmatched_fold by blast
  obtain active3 ga3 where r: "reselect_objects objects loop_state draft now actives
        (active2\<lparr>as_sender := sender, as_send_sequence_by_object_index := sequences\<rparr>) ga2 = Inr (active3, ga3)"
      "same_offsets ga2 ga3" "subscription_ok objects loop_state r active3"
    using reselected_subscription [OF draft same_offsets_cover [OF d(2) cover],
        of "active2\<lparr>as_sender := sender, as_send_sequence_by_object_index := sequences\<rparr>" r loop_state now actives]
      d(3,4) s1(2) by auto
  show ?thesis
    using s d(1) f r(1,3) same_offsets_trans [OF d(2) r(2)] by (simp add: apply_update_to_active_def Let_def)
qed

lemma update_subscription_ok:
  assumes "uses_priority_scheduler draft" and "publishing_ok objects loop_state {} p"
    and "map_of (pub_actives p) r = Some active"
  shows "\<exists>result p'. update_subscription objects loop_state draft now events update r active p = Inr (result, p') \<and>
    publishing_ok objects loop_state {} p'"
proof -
  have sub: "subscription_ok objects loop_state r active" and cover: "offsets_cover objects (pub_availability p)"
    using assms(2,3) by (simp_all add: publishing_ok_def)
  obtain result active' ga' where u: "apply_update_to_active objects loop_state draft now events
      (\<lambda>active. map snd (omap_put r active (pub_actives p))) update active (pub_availability p) = Inr (result, active', ga')"
      "same_offsets (pub_availability p) ga'" "subscription_ok objects loop_state r active'"
    using updated_subscription_ok [OF assms(1) sub cover] by blast
  from put_active [OF assms(2) u(3,2)] u(1) show ?thesis by (simp add: update_subscription_def)
qed

lemma new_active_fields [simp]:
  "as_subscribe (new_active draft subscribe track stream trailing priority ga) = subscribe"
  "as_availability_by_object_index (new_active draft subscribe track stream trailing priority ga) = []"
  "as_scheduler_frontiers (new_active draft subscribe track stream trailing priority ga) = []"
  by (simp_all add: new_active_def)

lemma entries_ok_Nil [simp]: "entries_ok objects []"
  by (simp add: entries_ok_def)

lemma find_matching_from_None:
  "find_matching_from objects subscribe n = None \<Longrightarrow> i < length objects \<Longrightarrow>
     \<not> (obj_track_name (objects ! i) = sub_track_name subscribe \<and> object_matches_filter (objects ! i) subscribe)"
  by (induction objects arbitrary: n i) (auto simp: nth_Cons' split: if_splits)

lemma unmatched_active_ok:
  assumes "find_next_matching_object_index objects subscribe 0 = None"
  shows "frontiers_ok objects loop_state (new_active draft subscribe track stream trailing priority ga)"
proof -
  let ?new = "new_active draft subscribe track stream trailing priority ga"
  have none: "\<not> is_wanted objects ?new i" if "i < length objects" for i
    using assms that find_matching_from_None [of objects subscribe 0 i]
    by (auto simp: find_next_matching_object_index_def is_wanted_def)
  then have "waiting objects ?new k = []" for k using no_waiting [of objects ?new] by blast
  then show ?thesis using none by (auto simp: frontiers_ok_def new_active_def [of draft subscribe track stream trailing priority ga])
qed

lemma add_subscription_ok:
  assumes "uses_priority_scheduler draft" and "publishing_ok objects loop_state {} p"
  shows "\<exists>kept p'. add_subscription objects loop_state draft now subscribe track stream trailing priority p = Inr (kept, p') \<and>
    publishing_ok objects loop_state {} p'"
proof (cases "find_next_matching_object_index objects subscribe 0")
  case None
  let ?new = "new_active draft subscribe track stream trailing priority (pub_availability p)"
  have "subscription_ok objects loop_state (sub_request_id subscribe) (?new\<lparr>as_completed := True\<rparr>)"
    using unmatched_active_ok [OF None] by (simp add: subscription_ok_def)
  from put_active [OF assms(2) this same_offsets_refl] show ?thesis
    using assms(2) None by (auto simp: add_subscription_def Let_def enqueue_active_candidate_def)
next
  case (Some index)
  let ?new = "new_active draft subscribe track stream trailing priority (pub_availability p)\<lparr>as_next_object_index := index\<rparr>"
  have cover: "offsets_cover objects (pub_availability p)" using assms(2) by (simp add: publishing_ok_def)
  obtain active' ga' where r: "rebuild_priority_frontiers objects loop_state draft now ?new (pub_availability p) = Inr (active', ga')"
      "same_offsets (pub_availability p) ga'" "subscription_ok objects loop_state (sub_request_id subscribe) active'"
    using rebuilt_subscription [OF cover, of ?new "sub_request_id subscribe" loop_state draft now] by auto
  from put_active [OF assms(2) r(3,2)] show ?thesis using r(1) Some assms(1)
    by (intro exI [of _ True]) (simp add: add_subscription_def Let_def)
qed

lemma erase_subscription_ok:
  assumes "uses_priority_scheduler draft" and "publishing_ok objects loop_state {} p"
  shows "\<exists>p'. erase_active_subscription objects loop_state draft now r p = Inr p' \<and> publishing_ok objects loop_state {} p'"
proof (cases "map_of (pub_actives p) r")
  case None
  then show ?thesis using assms(2) by (simp add: erase_active_subscription_def)
next
  case (Some active)
  have "publishing_ok objects loop_state {} (p\<lparr>pub_actives := omap_erase r (pub_actives p)\<rparr>)"
    using assms(2) by (auto simp: publishing_ok_def split: if_splits)
  from resume_leaders_ok [OF assms(1) this, of now "map fst (omap_erase r (pub_actives p))"] Some show ?thesis
    by (auto simp: erase_active_subscription_def resume_generation_leaders_def)
qed

lemma retain_needed_ok:
  "publishing_ok objects loop_state {} p \<Longrightarrow> publishing_ok objects loop_state {} (retain_needed p)"
  by (auto simp: publishing_ok_def retain_needed_def retain_generations_def offsets_cover_def Let_def)

end
