(* ===== verification/Publish_Loop_Run.thy ===== *)
theory Publish_Loop_Run
  imports Publish_Loop_Invariant
begin

text \<open>
  Runs of the loop in \<open>Publish_Loop\<close>: subscriptions come, go and are updated, candidates are served. No
  subscription is forgotten, a cycle serves each object once and in order, and no subscription runs far ahead.
\<close>

subsection \<open>Runs of the loop\<close>

inductive reachable :: "CmsfObject list \<Rightarrow> LoopState \<Rightarrow> DraftVersion \<Rightarrow> bool \<Rightarrow> Publishing \<Rightarrow> bool"
  for objects loop_state draft paced where
  started: "reachable objects loop_state draft paced \<lparr>pub_actives = [], pub_eligible = [], pub_blocked = [],
     pub_availability = new_availability objects loop_state paced now (uses_priority_scheduler draft)\<rparr>"
| subscribed: "reachable objects loop_state draft paced p \<Longrightarrow>
     add_subscription objects loop_state draft now subscribe track stream trailing priority p = Inr (kept, p') \<Longrightarrow>
     reachable objects loop_state draft paced p'"
| updated: "reachable objects loop_state draft paced p \<Longrightarrow> map_of (pub_actives p) r = Some active \<Longrightarrow>
     update_subscription objects loop_state draft now events update r active p = Inr (result, p') \<Longrightarrow>
     reachable objects loop_state draft paced p'"
| ended: "reachable objects loop_state draft paced p \<Longrightarrow>
     erase_active_subscription objects loop_state draft now r p = Inr p' \<Longrightarrow> reachable objects loop_state draft paced p'"
| retained: "reachable objects loop_state draft paced p \<Longrightarrow> reachable objects loop_state draft paced (retain_needed p)"
| turned: "reachable objects loop_state draft paced p \<Longrightarrow>
     serve_turn objects loop_state draft now next_sequence an p = Some (effects, Inr (turn, p')) \<Longrightarrow>
     reachable objects loop_state draft paced p'"

lemma new_availability_covers: "offsets_cover objects (new_availability objects loop_state paced now True)"
  by (simp add: offsets_cover_def new_availability_def Let_def)

lemma reachable_ok:
  assumes "reachable objects loop_state draft paced p" and "uses_priority_scheduler draft"
  shows "publishing_ok objects loop_state {} p"
  using assms(1)
proof (induction rule: reachable.induct)
  case (started now)
  show ?case using assms(2) new_availability_covers by (simp add: publishing_ok_def)
next
  case (subscribed p now subscribe track stream trailing priority kept p')
  then show ?case using add_subscription_ok [OF assms(2) subscribed.IH] by (metis Inr_inject prod.inject)
next
  case (updated p r active now events update result p')
  then show ?case using update_subscription_ok [OF assms(2) updated.IH updated.hyps(2)] by (metis Inr_inject prod.inject)
next
  case (ended p now r p')
  then show ?case using erase_subscription_ok [OF assms(2) ended.IH] by (metis Inr_inject)
next
  case (retained p)
  then show ?case using retain_needed_ok by blast
next
  case (turned p now next_sequence an effects turn p')
  then show ?case using serve_turn_ok [OF assms(2)] by blast
qed

subsection \<open>Properties of the loop\<close>

text \<open>C4: No subscription is forgotten: at every point of a run, whatever subscriptions came and went, were updated,
  held back by the transport or parked, each subscription that may send has a frontier and a candidate, in the
  heap or set aside in this round, that is current and whose frontier is found when it is popped.
\<close>

theorem no_subscription_forgotten:
  assumes "reachable objects loop_state draft paced p" and "uses_priority_scheduler draft"
    and "map_of (pub_actives p) request_id = Some active"
    and "\<not> as_completed active" and "\<not> as_forward_paused_by_update active" and "\<not> as_generation_lead_parked active"
  shows "as_scheduler_frontiers active \<noteq> [] \<and>
    (\<exists>c \<in> set (pub_eligible p @ pub_blocked p). ec_request_id c = request_id \<and> \<not> is_stale c active \<and>
       selected_frontier c (as_scheduler_frontiers active) \<noteq> [])"
proof -
  have "publishing_ok objects loop_state {} p" by (rule reachable_ok [OF assms(1,2)])
  then have ok: "subscription_ok objects loop_state request_id active"
      "\<exists>c \<in> set (pub_eligible p @ pub_blocked p). stands_for active c"
    using assms(3-6) by (auto simp: publishing_ok_def is_live_def)
  then show ?thesis using assms(4,6) by (auto simp: subscription_ok_def stands_for_def)
qed

text \<open>C6: A turn of the loop never loses a frontier and never indexes the plan or the prepared options out of range: when
  it fails, an object of the plan was being sent and the message says why. The object has no payload, the encoder
  refused it, its subgroup was opened without properties or waits with another object, the completion history is
  full, or the message is the transport's own for opening, resetting or writing, with a text in place of an empty one
  for the write.
\<close>

theorem turn_fails_sending_an_object:
  assumes "reachable objects loop_state draft paced p" and "uses_priority_scheduler draft"
    and "serve_turn objects loop_state draft now next_sequence an p = Some (effects, Inl e)"
  shows "\<exists>message i cycle object. e = Failed message \<and> i < length objects \<and>
    make_looped_send_object (objects ! i) loop_state cycle = Some object \<and>
    (if obj_owned_payload object = [] then message = ''transport publish requires materialized object payloads''
     else sending_failure draft object an message)"
proof -
  have ok: "publishing_ok objects loop_state {} p" by (rule reachable_ok [OF assms(1,2)])
  obtain c cs where E: "pub_eligible p = c # cs" using assms(3) by (cases "pub_eligible p") (auto simp: serve_turn_def)
  let ?c = "top_candidate c cs" and ?r = "ec_request_id (top_candidate c cs)"
  let ?p = "p\<lparr>pub_eligible := remove1 (top_candidate c cs) (pub_eligible p)\<rparr>"
  obtain active where a: "map_of (pub_actives p) ?r = Some active" "\<not> is_stale ?c active"
      "selected_frontier ?c (as_scheduler_frontiers active) \<noteq> []"
    using assms(3) E by (auto simp: serve_turn_def Let_def split: option.splits if_splits list.splits)
  then obtain f fs where found: "selected_frontier ?c (as_scheduler_frontiers active) = f # fs"
    by (cases "selected_frontier ?c (as_scheduler_frontiers active)") auto
  have sub: "subscription_ok objects loop_state ?r active" using ok a(1) by (simp add: publishing_ok_def)
  have member: "?c \<in> set (pub_eligible p)" using E top_candidate_member [of c cs] by simp
  have made: "made_for active ?c"
    using sub publishing_ok_made [OF ok, of ?c] member by (simp add: made_for_def subscription_ok_def)
  have fok: "frontiers_ok objects loop_state active" and r: "sub_request_id (as_subscribe active) = ?r"
    using sub by (simp_all add: subscription_ok_def)
  obtain result where result: "serve_selected objects loop_state draft ?c (f # fs) next_sequence an active = Some (effects, result)"
    using assms(3) E a found by (auto simp: serve_turn_def Let_def)
  have e: "bindE result (\<lambda>(outcome, active). case outcome of
            Held later \<Rightarrow> Inr (Try_Next, ?p\<lparr>pub_actives := omap_put ?r active (pub_actives ?p),
                pub_eligible := pub_eligible ?p @ (case later of None \<Rightarrow> [] | Some later \<Rightarrow> [later]),
                pub_blocked := pub_blocked ?p @ [?c]\<rparr>)
          | Admitted published \<Rightarrow> (case after_admission objects loop_state draft now ?r active ?p of
                Inl e \<Rightarrow> Inl (Thrown e) | Inr p \<Rightarrow> Inr (Made_Progress published, p))) = Inl e"
    using assms(3) E a found result
    by (simp add: serve_turn_def Let_def del: remove1.simps cong: serve_outcome.case_cong)
  show ?thesis using fok made found result
  proof (cases rule: serve_selected_cases)
    case (failed message object)
    then show ?thesis using e by (intro exI [of _ message] exI [of _ "ec_plan_index ?c"] exI [of _ "ec_loop_cycle ?c"]
          exI [of _ object]) simp
  next
    case held
    then show ?thesis using e by simp
  next
    case (admitted sequences sender published active')
    let ?active = "active\<lparr>as_send_sequence_by_object_index := sequences, as_sender := sender\<rparr>"
    have "frontiers_ok objects loop_state ?active" "made_for ?active ?c"
        "selected_frontier ?c (as_scheduler_frontiers ?active) = f # fs"
      using fok made found by (simp_all add: made_for_def)
    from admit_selected_ok [OF this] admitted(2) have a': "frontiers_ok objects loop_state active'"
        "as_subscribe active' = as_subscribe active" by auto
    have dropped: "publishing_ok objects loop_state {?r} ?p" using drop_candidate [OF ok, of ?c "{?r}"] by simp
    obtain p2 where "after_admission objects loop_state draft now ?r active' ?p = Inr p2"
      using after_admission_ok [OF assms(2) dropped _ a'(1)] a'(2) r by auto
    then show ?thesis using e admitted(1) by simp
  qed
qed

subsection \<open>A cycle of one subscription\<close>

text \<open>The objects of a cycle: which candidates are tried when, and what the transport answers, is arbitrary.\<close>

inductive cycle_run ::
    "CmsfObject list \<Rightarrow> LoopState \<Rightarrow> DraftVersion \<Rightarrow> ActiveSubscription \<Rightarrow> nat list \<Rightarrow> ActiveSubscription \<Rightarrow> bool"
  for objects loop_state draft start where
  cycle_started: "cycle_run objects loop_state draft start [] start"
| cycle_held: "cycle_run objects loop_state draft start served active \<Longrightarrow> made_for active c \<Longrightarrow>
     selected_frontier c (as_scheduler_frontiers active) = frontier # later \<Longrightarrow>
     serve_selected objects loop_state draft c (frontier # later) next_sequence an active = Some (effects, Inr (Held waits, active')) \<Longrightarrow>
     cycle_run objects loop_state draft start served active'"
| cycle_admitted: "cycle_run objects loop_state draft start served active \<Longrightarrow> made_for active c \<Longrightarrow>
     selected_frontier c (as_scheduler_frontiers active) = frontier # later \<Longrightarrow>
     serve_selected objects loop_state draft c (frontier # later) next_sequence an active = Some (effects, Inr (Admitted published, active')) \<Longrightarrow>
     cycle_run objects loop_state draft start (served @ [ec_plan_index c]) active'"

lemma cycle_run_ok:
  assumes "cycle_run objects loop_state draft start served active" and "frontiers_ok objects loop_state start"
  shows "frontiers_ok objects loop_state active \<and>
    (\<forall>k. waiting objects start k = filter (\<lambda>i. frontier_key (objects ! i) = k) served @ waiting objects active k)"
  using assms(1)
proof (induction rule: cycle_run.induct)
  case cycle_started
  then show ?case using assms(2) by simp
next
  case (cycle_held served active c frontier later next_sequence an effects waits active')
  then have ok: "frontiers_ok objects loop_state active" by simp
  show ?case using ok cycle_held.hyps(2,3,4)
  proof (cases rule: serve_selected_cases)
    case (held sequences sender waits')
    then have a': "active' = active\<lparr>as_send_sequence_by_object_index := sequences, as_sender := sender\<rparr>" by simp
    have "waiting objects active' = waiting objects active" by (rule same_wanted) (simp_all add: a')
    then show ?thesis using cycle_held.IH a' by simp
  qed simp_all
next
  case (cycle_admitted served active c frontier later next_sequence an effects published active')
  then have ok: "frontiers_ok objects loop_state active" by simp
  show ?case using ok cycle_admitted.hyps(2,3,4)
  proof (cases rule: serve_selected_cases)
    case (admitted sequences sender published' active'')
    let ?active = "active\<lparr>as_send_sequence_by_object_index := sequences, as_sender := sender\<rparr>"
    have ok': "frontiers_ok objects loop_state ?active" "made_for ?active c"
        "selected_frontier c (as_scheduler_frontiers ?active) = frontier # later"
      using ok cycle_admitted.hyps(2,3) by (simp_all add: made_for_def)
    from admit_selected_ok [OF ok'] admitted have a: "frontiers_ok objects loop_state active'"
        "as_admitted_object_indices active' = insert (ec_plan_index c) (as_admitted_object_indices active)"
        "as_subscribe active' = as_subscribe active" by auto
    let ?key = "frontier_key (objects ! ec_plan_index c)"
    obtain rest where w: "waiting objects active ?key = ec_plan_index c # rest"
      using found_is_first [OF ok cycle_admitted.hyps(2,3)] by blast
    note wait = waiting_admitted [OF w a(2,3)]
    have "waiting objects start k = filter (\<lambda>i. frontier_key (objects ! i) = k) (served @ [ec_plan_index c]) @ waiting objects active' k" for k
    proof -
      have "waiting objects start k = filter (\<lambda>i. frontier_key (objects ! i) = k) served @ waiting objects active k"
        using cycle_admitted.IH by blast
      then show ?thesis using w by (cases "k = ?key") (simp_all add: wait)
    qed
    then show ?thesis using a(1) by blast
  qed simp_all
qed

lemma filters_distinct:
  assumes "\<And>k. distinct (filter (\<lambda>x. f x = k) xs)"
  shows "distinct xs"
  using assms
proof (induction xs)
  case (Cons x xs)
  have "distinct (filter (\<lambda>y. f y = k) xs)" for k using Cons.prems [of k] by (auto split: if_splits)
  moreover have "x \<notin> set xs" using Cons.prems [of "f x"] by auto
  ultimately show ?case using Cons.IH by simp
qed simp

text \<open>C5: A cycle of a subscription serves the objects that its filter selects, each once and those of a subgroup in
  the order of their ids, whatever the order in which subgroups are picked and whenever the transport blocks; when
  no frontier is left, all of them have been served.
\<close>

theorem cycle_serves_in_order:
  assumes "rebuild_priority_frontiers objects loop_state draft now before ga = Inr (start, ga')"
    and "offsets_cover objects ga" and "entries_ok objects (as_availability_by_object_index before)"
    and "cycle_run objects loop_state draft start served active"
  shows "distinct served \<and> (\<forall>i \<in> set served. i < length objects \<and> is_wanted objects before i) \<and>
    (\<forall>k. \<exists>rest. waiting objects before k = filter (\<lambda>i. frontier_key (objects ! i) = k) served @ rest) \<and>
    (as_scheduler_frontiers active = [] \<longleftrightarrow> set served = {i. i < length objects \<and> is_wanted objects before i})"
proof -
  obtain frontiers candidates entries where start: "start = before\<lparr>as_scheduler_generation := as_scheduler_generation before + 1,
      as_subgroup_frontiers := frontiers, as_scheduler_frontiers := candidates, as_availability_by_object_index := entries,
      as_completed := (candidates = [])\<rparr>" and ok: "frontiers_ok objects loop_state start"
    using rebuild_frontiers [OF assms(2,3), of loop_state draft now] assms(1) by auto
  have same: "waiting objects start = waiting objects before" by (rule same_wanted) (simp_all add: start)
  have run: "frontiers_ok objects loop_state active"
      "\<And>k. waiting objects before k = filter (\<lambda>i. frontier_key (objects ! i) = k) served @ waiting objects active k"
    using cycle_run_ok [OF assms(4) ok] unfolding same by blast+
  have "distinct (filter (\<lambda>i. frontier_key (objects ! i) = k) served)" for k
    using distinct_waiting [of objects before k] unfolding run(2) by simp
  then have d: "distinct served" by (rule filters_distinct)
  have sub: "i < length objects \<and> is_wanted objects before i" if "i \<in> set served" for i
    using that set_waiting [of i objects before "frontier_key (objects ! i)"] unfolding run(2) by simp
  have "as_scheduler_frontiers active = [] \<longleftrightarrow> (\<forall>k. waiting objects active k = [])"
    using no_candidates [OF run(1)] no_waiting [of objects active] by simp
  also have "\<dots> \<longleftrightarrow> {i. i < length objects \<and> is_wanted objects before i} \<subseteq> set served"
  proof
    assume none: "\<forall>k. waiting objects active k = []"
    show "{i. i < length objects \<and> is_wanted objects before i} \<subseteq> set served"
    proof
      fix i assume "i \<in> {i. i < length objects \<and> is_wanted objects before i}"
      then have "i \<in> set (waiting objects before (frontier_key (objects ! i)))" by (simp add: set_waiting)
      then show "i \<in> set served" unfolding run(2) using none by simp
    qed
  next
    assume all: "{i. i < length objects \<and> is_wanted objects before i} \<subseteq> set served"
    show "\<forall>k. waiting objects active k = []"
    proof
      fix k
      have "False" if i: "i \<in> set (waiting objects active k)" for i
      proof -
        have w: "i \<in> set (waiting objects before k)" using i unfolding run(2) by simp
        then have "i \<in> set served" "frontier_key (objects ! i) = k" using all by (auto simp: set_waiting)
        then show False using i distinct_waiting [of objects before k] unfolding run(2) by auto
      qed
      then show "waiting objects active k = []" by (cases "waiting objects active k") auto
    qed
  qed
  finally show ?thesis using d sub run(2) by blast
qed


subsection \<open>The lead of a subscription\<close>

lemma note_availability_cycle:
  "note_availability draft now is active ga = Inr (active', ga') \<Longrightarrow> as_loop_cycle active' = as_loop_cycle active"
  by (induction "is" arbitrary: active ga) (fastforce split: prod.splits)+

lemma rebuild_cycle:
  "rebuild_priority_frontiers objects loop_state draft now active ga = Inr (active', ga') \<Longrightarrow>
     as_loop_cycle active' = as_loop_cycle active"
  by (auto simp: rebuild_priority_frontiers_def Let_def dest!: note_availability_cycle)

definition least_of :: "u64 option \<Rightarrow> u64 option \<Rightarrow> ActiveSubscription list \<Rightarrow> bool" where
  "least_of m m0 actives \<longleftrightarrow>
     (case m of
        None \<Rightarrow> m0 = None \<and> list_all as_completed actives
      | Some x \<Rightarrow> (\<forall>y. m0 = Some y \<longrightarrow> x \<le> y) \<and> (\<forall>b \<in> set actives. \<not> as_completed b \<longrightarrow> x \<le> as_loop_cycle b))"

lemma minimum_fold:
  "least_of (fold (\<lambda>active minimum. if as_completed active then minimum
       else Some (case minimum of None \<Rightarrow> as_loop_cycle active | Some m \<Rightarrow> min m (as_loop_cycle active))) actives m0) m0 actives"
proof (induction actives arbitrary: m0)
  case Nil
  show ?case by (cases m0) (simp_all add: least_of_def)
next
  case (Cons b bs)
  let ?m = "if as_completed b then m0 else Some (case m0 of None \<Rightarrow> as_loop_cycle b | Some m \<Rightarrow> min m (as_loop_cycle b))"
  show ?case using Cons.IH [of ?m] by (auto simp: least_of_def split: option.splits if_splits)
qed

lemma minimum_least:
  assumes "b \<in> set actives" and "\<not> as_completed b"
  obtains m where "minimum_active_loop_cycle actives = Some m" "m \<le> as_loop_cycle b"
  using minimum_fold [of actives None] assms
  by (auto simp: least_of_def minimum_active_loop_cycle_def list_all_iff split: option.splits)

text \<open>C37: On the drafts with a priority scheduler, advancing a subscription past its cycle never takes it more than 64
  cycles beyond a subscription that has not completed: the call leaves the cycle as it is or enters the next one,
  and the cycle it enters is at most 64 beyond that of every subscription still running. (A subscription may still be
  further behind: one that joins a paced loop late starts at cycle 0, and the others wait for it.)
\<close>

theorem generation_lead_bounded:
  assumes "uses_priority_scheduler draft" and "b \<in> set actives" and "\<not> as_completed b"
    and "advance_active_subscription objects loop_state draft now actives active ga = Inr (continues, active', ga')"
  shows "as_loop_cycle active' = as_loop_cycle active \<or>
    as_loop_cycle active' = as_loop_cycle active + 1 \<and> unat (as_loop_cycle active') \<le> unat (as_loop_cycle b) + 64"
proof -
  obtain m where m: "minimum_active_loop_cycle actives = Some m" "m \<le> as_loop_cycle b"
    using minimum_least [OF assms(2,3)] by blast
  define maximum where "maximum = (if m \<le> - 1 - kMaximumGenerationLeadCycles then m + kMaximumGenerationLeadCycles else - 1)"
  have lim: "maximum_loop_cycle draft actives = Some maximum"
    using m(1) assms(1) by (simp add: maximum_loop_cycle_def maximum_def)
  have bound: "unat maximum \<le> unat m + 64"
  proof (cases "m \<le> - 1 - kMaximumGenerationLeadCycles")
    case True
    have "unat (m + kMaximumGenerationLeadCycles) \<le> unat m + 64"
      by (simp add: kMaximumGenerationLeadCycles_def unat_word_ariths)
    then show ?thesis unfolding maximum_def if_P [OF True] .
  next
    case False
    have "- 1 - kMaximumGenerationLeadCycles = (18446744073709551551 :: u64)"
      unfolding kMaximumGenerationLeadCycles_def by simp
    then have "unat (- 1 - kMaximumGenerationLeadCycles) = unat (18446744073709551551 :: u64)" by (rule arg_cong)
    then have "unat (- 1 - kMaximumGenerationLeadCycles) = 18446744073709551551" unfolding unat_numeral by simp
    moreover have "unat (- 1 - kMaximumGenerationLeadCycles) < unat m" using False unfolding word_le_nat_alt not_le .
    moreover have "unat maximum = 18446744073709551615" unfolding maximum_def if_not_P [OF False]
      by (simp add: unsigned_minus_1_eq_mask mask_eq_exp_minus_1)
    ultimately show ?thesis by linarith
  qed
  have mb: "unat m \<le> unat (as_loop_cycle b)" using m(2) by (simp add: word_le_nat_alt)
  note adv = assms(4) [unfolded advance_active_subscription_def lim]
  show ?thesis
    using assms(1)
  proof (cases rule: advance_cases [of draft objects loop_state now "Some maximum" active ga])
    case no
    then show ?thesis using adv by auto
  next
    case parked
    then show ?thesis using adv by auto
  next
    case (next_cycle n index)
    have "bindE (rebuild_priority_frontiers objects loop_state draft now (next_cycle active index) ga)
        (\<lambda>(active, ga). Inr (True, active\<lparr>as_completed := False\<rparr>, ga)) = Inr (continues, active', ga')"
      using next_cycle(3) adv by simp
    then have c: "as_loop_cycle active' = as_loop_cycle active + 1"
      by (auto simp: next_cycle_def dest!: rebuild_cycle)
    have "unat (as_loop_cycle active) < unat maximum" using next_cycle(2) by (simp add: word_less_nat_alt)
    moreover have "unat (as_loop_cycle active + 1) \<le> unat (as_loop_cycle active) + 1"
      by (simp add: unat_word_ariths)
    ultimately show ?thesis using c bound mb by simp
  qed
qed

subsection \<open>Example runs\<close>

definition example_subscribe :: SubscribeMessage where
  "example_subscribe = default_subscribe\<lparr>sub_request_id := 7, sub_track_name := ''v'', sub_forward := 1,
     sub_filter_type := 3, sub_start_object_id := 1\<rparr>"

definition example_track :: PublishedTrack where
  "example_track = \<lparr>pt_name = ''v'', pt_alias = 1, pt_largest_group_id = 1, pt_largest_object_id = 0,
     pt_content_exists = True\<rparr>"

definition example_start :: Publishing where
  "example_start = \<lparr>pub_actives = [], pub_eligible = [], pub_blocked = [],
     pub_availability = new_availability example_plan example_loop False 0 (uses_priority_scheduler kDraft18)\<rparr>"

definition example_subscribed :: "exn + bool \<times> Publishing" where
  "example_subscribed =
     add_subscription example_plan example_loop kDraft18 0 example_subscribe example_track 4 [] 128 example_start"

definition example_state :: Publishing where
  "example_state = (case example_subscribed of Inr (_, p) \<Rightarrow> p | _ \<Rightarrow> example_start)"

definition transport_answers :: "ObjectWriteDisposition \<Rightarrow> answers" where
  "transport_answers d = \<lparr>an_events = (\<lambda>_. (False, False)), an_first_available_at = 0, an_now_prepared = 0,
     an_now_written = 0, an_open = Inr 2, an_reset = Success, an_write = (d, ''refused''),
     an_events_after = (\<lambda>_. (False, False))\<rparr>"

definition example_turn ::
    "ObjectWriteDisposition \<Rightarrow> Publishing \<Rightarrow> (effect list \<times> (turn \<times> Publishing) session) option" where
  "example_turn d p = serve_turn example_plan example_loop kDraft18 0 0 (transport_answers d) p"

definition after_turn :: "ObjectWriteDisposition \<Rightarrow> Publishing \<Rightarrow> Publishing" where
  "after_turn d p = (case example_turn d p of Some (_, Inr (_, p')) \<Rightarrow> p' | _ \<Rightarrow> p)"

definition failure_of :: "(effect list \<times> (turn \<times> Publishing) session) option \<Rightarrow> string option" where
  "failure_of r = (case r of Some (_, Inl (Failed m)) \<Rightarrow> Some m | _ \<Rightarrow> None)"

lemma example_scheduler: "uses_priority_scheduler kDraft18"
  by code_simp

lemma example_reachable: "reachable example_plan example_loop kDraft18 False example_state"
proof -
  have start: "reachable example_plan example_loop kDraft18 False example_start"
    unfolding example_start_def by (rule reachable.started)
  obtain kept p' where p': "example_subscribed = Inr (kept, p')"
    using add_subscription_ok [OF example_scheduler reachable_ok [OF start example_scheduler]]
    unfolding example_subscribed_def by blast
  then have "reachable example_plan example_loop kDraft18 False p'"
    unfolding example_subscribed_def by (rule reachable.subscribed [OF start])
  moreover have "example_state = p'" unfolding example_state_def p' by simp
  ultimately show ?thesis by simp
qed

lemma no_subscription_forgotten_witness:
  "\<exists>active c. map_of (pub_actives example_state) 7 = Some active \<and>
     c \<in> set (pub_eligible example_state @ pub_blocked example_state) \<and> ec_request_id c = 7 \<and> \<not> is_stale c active"
proof -
  have "case map_of (pub_actives example_state) 7 of None \<Rightarrow> False | Some active \<Rightarrow>
      \<not> as_completed active \<and> \<not> as_forward_paused_by_update active \<and> \<not> as_generation_lead_parked active" by code_simp
  then obtain active where a: "map_of (pub_actives example_state) 7 = Some active" "\<not> as_completed active"
      "\<not> as_forward_paused_by_update active" "\<not> as_generation_lead_parked active"
    by (auto split: option.splits)
  show ?thesis using no_subscription_forgotten [OF example_reachable example_scheduler a] a(1) by blast
qed

lemma turn_fails_sending_an_object_witness:
  "\<exists>effects message i cycle object. example_turn WriteFailed example_state = Some (effects, Inl (Failed message)) \<and>
     message = ''refused'' \<and> make_looped_send_object (example_plan ! i) example_loop cycle = Some object \<and>
     obj_owned_payload object \<noteq> [] \<and> sending_failure kDraft18 object (transport_answers WriteFailed) message"
proof -
  have f: "failure_of (example_turn WriteFailed example_state) = Some ''refused''" by code_simp
  then obtain effects e where t: "example_turn WriteFailed example_state = Some (effects, Inl e)"
    by (auto simp: failure_of_def split: option.splits sum.splits)
  obtain message i cycle object where "e = Failed message" "make_looped_send_object (example_plan ! i) example_loop cycle = Some object"
      "if obj_owned_payload object = [] then message = ''transport publish requires materialized object payloads''
       else sending_failure kDraft18 object (transport_answers WriteFailed) message"
    using turn_fails_sending_an_object [OF example_reachable example_scheduler t [unfolded example_turn_def]] by blast
  then show ?thesis using t f by (auto simp: failure_of_def split: if_splits)
qed

definition example_before :: ActiveSubscription where
  "example_before = new_active kDraft18 example_subscribe example_track 4 [] 128 example_availability"

definition example_rebuilt :: ActiveSubscription where
  "example_rebuilt = (case rebuild_priority_frontiers example_plan example_loop kDraft18 0 example_before example_availability of
     Inr (active, _) \<Rightarrow> active | _ \<Rightarrow> example_before)"

definition example_served :: "(effect list \<times> (serve_outcome \<times> ActiveSubscription) session) option" where
  "example_served = serve_selected example_plan example_loop kDraft18 (hd (enqueue_active_candidate 7 example_rebuilt))
     (selected_frontier (hd (enqueue_active_candidate 7 example_rebuilt)) (as_scheduler_frontiers example_rebuilt)) 0
     (transport_answers WriteAccepted) example_rebuilt"

lemma cycle_serves_in_order_witness:
  "\<exists>active. cycle_run example_plan example_loop kDraft18 example_rebuilt [1] active \<and> distinct [1 :: nat] \<and>
     (\<exists>rest. waiting example_plan example_before (0, 0) = filter (\<lambda>i. frontier_key (example_plan ! i) = (0, 0)) [1] @ rest)"
proof -
  let ?c = "hd (enqueue_active_candidate 7 example_rebuilt)"
  have cover: "offsets_cover example_plan example_availability"
    unfolding example_availability_def by (rule new_availability_covers)
  have entries: "entries_ok example_plan (as_availability_by_object_index example_before)" by (simp add: example_before_def)
  obtain start ga' where r: "rebuild_priority_frontiers example_plan example_loop kDraft18 0 example_before example_availability =
      Inr (start, ga')"
    using rebuild_frontiers [OF cover entries, of example_loop kDraft18 0] by blast
  then have start: "start = example_rebuilt" by (simp add: example_rebuilt_def)
  have "selected_frontier ?c (as_scheduler_frontiers example_rebuilt) \<noteq> []" by code_simp
  then obtain f fs where found: "selected_frontier ?c (as_scheduler_frontiers example_rebuilt) = f # fs"
    by (cases "selected_frontier ?c (as_scheduler_frontiers example_rebuilt)") auto
  have made: "made_for example_rebuilt ?c" by code_simp
  have index: "ec_plan_index ?c = 1" by code_simp
  have "case example_served of Some (_, Inr (Admitted _, _)) \<Rightarrow> True | _ \<Rightarrow> False" by code_simp
  then obtain effects published active where "example_served = Some (effects, Inr (Admitted published, active))"
    by (auto split: option.splits sum.splits serve_outcome.splits) (metis sum.exhaust serve_outcome.exhaust surj_pair)
  then have "cycle_run example_plan example_loop kDraft18 example_rebuilt ([] @ [ec_plan_index ?c]) active"
    unfolding example_served_def found by (rule cycle_run.cycle_admitted [OF cycle_run.cycle_started made found])
  then have run: "cycle_run example_plan example_loop kDraft18 example_rebuilt [1] active" using index by simp
  show ?thesis using cycle_serves_in_order [OF r cover entries run [folded start]] run by blast
qed

lemma generation_lead_bounded_witness:
  "\<exists>continues active' ga'.
     advance_active_subscription example_plan example_loop kDraft18 0 [example_rebuilt] example_rebuilt example_availability =
       Inr (continues, active', ga') \<and> unat (as_loop_cycle active') \<le> 64"
proof -
  have cover: "offsets_cover example_plan example_availability"
    unfolding example_availability_def by (rule new_availability_covers)
  have "case advance_active_subscription example_plan example_loop kDraft18 0 [example_rebuilt] example_rebuilt example_availability of
      Inl _ \<Rightarrow> False | Inr (continues, active', _) \<Rightarrow> continues \<and> as_loop_cycle active' = 1" by code_simp
  then obtain continues active' ga' where a:
    "advance_active_subscription example_plan example_loop kDraft18 0 [example_rebuilt] example_rebuilt example_availability =
       Inr (continues, active', ga')" "as_loop_cycle active' = 1"
    by (auto split: sum.splits)
  have b: "example_rebuilt \<in> set [example_rebuilt]" by simp
  have c: "\<not> as_completed example_rebuilt" and z: "as_loop_cycle example_rebuilt = 0" by code_simp+
  show ?thesis using generation_lead_bounded [OF example_scheduler b c a(1)] a z by auto
qed

text \<open>
  A REQUEST_UPDATE that moves the start of a subscription back into a subgroup that is open makes the earlier
  object a frontier again; the encoder refuses it and the session ends with that failure.
\<close>

definition widened :: RequestUpdateMessage where
  "widened = default_request_update\<lparr>ru_subscription_filter := Some \<lparr>sf_filter_type = 3, sf_start_group_id = 0,
     sf_start_object_id = 0, sf_end_group_id = 0, sf_end_object_id = None\<rparr>\<rparr>"

definition after_update :: "Publishing \<Rightarrow> Publishing" where
  "after_update p =
     (case map_of (pub_actives p) 7 of
        None \<Rightarrow> p
      | Some active \<Rightarrow>
          (case update_subscription example_plan example_loop kDraft18 0 (\<lambda>_. (False, False)) widened 7 active p of
             Inr (_, p) \<Rightarrow> p | _ \<Rightarrow> p))"

lemma widened_start_ends_session:
  "failure_of (example_turn WriteAccepted (after_turn WriteAccepted (after_update (after_turn WriteAccepted example_state)))) =
     Some ''subgroup object IDs must increase''"
  by code_simp

end
