(* ===== verification/Close_Codes.thy ===== *)
theory Close_Codes
  imports Prelude
begin

text \<open>
  How a session ends and what is said of it: the description of a close by the peer (\<open>peer_close.h\<close>), the names of
  stream reset codes (\<open>stream_reset_codes.h\<close>), the map between MOQT codes and HTTP/3 codes on WebTransport
  (\<open>webtransport_error_codes.h\<close>), the settings a WebTransport server must have
  (\<open>webtransport_requirements.h\<close>) and the drain of the send side before a close (\<open>picoquic_close_drain.h\<close>,
  \<open>picoquic_stream_errors.h\<close>), all under \<open>src/transport\<close>. The structures of picoquic are records of the fields
  that the code reads. Durations are milliseconds, time points nanoseconds.
\<close>

subsection \<open>Text\<close>

definition hex_digit :: "nat \<Rightarrow> char" where
  "hex_digit n = ''0123456789abcdef'' ! n"

fun hex_of_nat :: "nat \<Rightarrow> string" where
  "hex_of_nat n = (if n < 16 then [hex_digit n] else hex_of_nat (n div 16) @ [hex_digit (n mod 16)])"

declare hex_of_nat.simps [simp del]

definition hex :: "u64 \<Rightarrow> string" where
  "hex value = ''0x'' @ hex_of_nat (unat value)"

definition kMaxReasonBytes :: nat where "kMaxReasonBytes = 256"

definition quotation_mark :: char where "quotation_mark = CHR 0x22"
definition backslash :: char where "backslash = CHR 0x5C"

definition is_plain :: "char \<Rightarrow> bool" where
  "is_plain c \<longleftrightarrow> of_char c \<ge> (0x20 :: nat) \<and> of_char c < (0x7F :: nat) \<and> c \<noteq> quotation_mark \<and> c \<noteq> backslash"

definition printable_char :: "char \<Rightarrow> string" where
  "printable_char c =
     (if is_plain c then [c]
      else [backslash, CHR ''x'', hex_digit (of_char c div 16), hex_digit (of_char c mod 16)])"

definition printable_reason :: "string \<Rightarrow> string" where
  "printable_reason reason =
     concat (map printable_char (take kMaxReasonBytes reason)) @ (if length reason > kMaxReasonBytes then ''...'' else [])"

subsection \<open>Why the peer closed the session\<close>

record PeerClose =
  pc_application_error :: u64
  pc_transport_error :: u64
  pc_reason :: string

definition termination_codes :: "(u64 \<times> string) list" where
  "termination_codes =
     [(0x0, ''NO_ERROR''), (0x1, ''INTERNAL_ERROR''), (0x2, ''UNAUTHORIZED''), (0x3, ''PROTOCOL_VIOLATION''),
      (0x4, ''INVALID_REQUEST_ID''), (0x5, ''DUPLICATE_TRACK_ALIAS''), (0x6, ''KEY_VALUE_FORMATTING_ERROR''),
      (0x8, ''INVALID_PATH''), (0x9, ''MALFORMED_PATH''), (0x10, ''GOAWAY_TIMEOUT''),
      (0x11, ''CONTROL_MESSAGE_TIMEOUT''), (0x12, ''DATA_STREAM_TIMEOUT''), (0x13, ''AUTH_TOKEN_CACHE_OVERFLOW''),
      (0x14, ''DUPLICATE_AUTH_TOKEN_ALIAS''), (0x15, ''VERSION_NEGOTIATION_FAILED''), (0x16, ''MALFORMED_AUTH_TOKEN''),
      (0x17, ''UNKNOWN_AUTH_TOKEN_ALIAS''), (0x18, ''EXPIRED_AUTH_TOKEN''), (0x19, ''INVALID_AUTHORITY''),
      (0x1A, ''MALFORMED_AUTHORITY''), (0x1B, ''TOO_MANY_REQUEST_UPDATES''), (0x200, ''INVALID_STREAM_HEADER''),
      (0x201, ''MALFORMED_OBJECT''), (0x202, ''INVALID_OBJECT_STATUS''), (0x203, ''TRUNCATED_OBJECT''),
      (0x300, ''MALFORMED_MESSAGE''), (0x301, ''INVALID_FIELD''), (0x302, ''INVALID_TRACK_NAMESPACE''),
      (0x303, ''UNEXPECTED_MESSAGE''), (0x304, ''ROLE_VIOLATION''), (0x305, ''INVALID_PARAMETER''),
      (0x306, ''CLOSED_CONTROL_STREAM''), (0x400, ''DELTA_ENCODING_OVERFLOW''), (0x401, ''FIELD_LENGTH_EXCEEDED'')]"

definition moqt_termination_code_name :: "u64 \<Rightarrow> string" where
  "moqt_termination_code_name code = (case map_of termination_codes code of None \<Rightarrow> [] | Some name \<Rightarrow> name)"

definition describe_peer_close :: "PeerClose \<Rightarrow> string" where
  "describe_peer_close close =
     (let message = ''relay closed the session'';
          quoted = (if pc_reason close \<noteq> []
            then '', reason '' @ [quotation_mark] @ printable_reason (pc_reason close) @ [quotation_mark] else []) in
      if pc_transport_error close \<noteq> 0 then
        message @ '': QUIC transport error '' @ hex (pc_transport_error close) @ quoted
      else if pc_application_error close = 0 \<and> pc_reason close = [] then message @ '' without an error code or reason''
      else
      let name = moqt_termination_code_name (pc_application_error close) in
      message @ (if name = [] then '': MoQT error '' @ hex (pc_application_error close)
        else '': '' @ name @ '' ('' @ hex (pc_application_error close) @ '')'') @ quoted)"

subsection \<open>Stream reset codes\<close>

definition reset_codes :: "(u64 \<times> string) list" where
  "reset_codes =
     [(0x0, ''INTERNAL_ERROR''), (0x1, ''CANCELLED''), (0x2, ''DELIVERY_TIMEOUT''), (0x3, ''SESSION_CLOSED''),
      (0x4, ''GOING_AWAY''), (0x5, ''TOO_FAR_BEHIND''), (0x6, ''UNKNOWN_OBJECT_STATUS''),
      (0x7, ''EXPIRED_AUTH_TOKEN''), (0x9, ''EXCESSIVE_LOAD''), (0x12, ''MALFORMED_TRACK'')]"

definition stream_reset_code_name :: "u64 \<Rightarrow> string option" where
  "stream_reset_code_name code = map_of reset_codes code"

text \<open>The loop that writes a code from its last digit, to its end.\<close>

function reset_code_digits :: "u64 \<Rightarrow> string \<Rightarrow> string" where
  "reset_code_digits code digits =
     (let digits = hex_digit (unat (code AND 0xf)) # digits; code = drop_bit 4 code in
      if code \<noteq> 0 then reset_code_digits code digits else digits)"
  by pat_completeness auto

lemma unat_drop_nibble: "unat (drop_bit 4 (code :: u64)) = unat code div 16"
  by (simp only: unat_drop_bit_eq) (simp add: drop_bit_eq_div)

lemma unat_nibble: "unat (code AND 0xf :: u64) = unat code mod 16"
proof -
  have "code AND 0xf = code mod 2 ^ 4"
    using take_bit_eq_mask [of 4 code] by (simp add: take_bit_eq_mod mask_eq_exp_minus_1)
  then show ?thesis by (simp add: unat_mod_distrib)
qed

termination reset_code_digits
proof (relation "measure (unat \<circ> fst)")
  fix code code' :: u64 and digits digits' :: string
  assume "code' = drop_bit 4 code" and "code' \<noteq> 0"
  then have "unat (drop_bit 4 code) \<noteq> 0" by (simp add: unat_eq_0)
  then have "unat code div 16 \<noteq> 0" unfolding unat_drop_nibble .
  then show "((code', digits'), code, digits) \<in> measure (unat \<circ> fst)"
    using \<open>code' = drop_bit 4 code\<close> by (simp add: unat_drop_nibble)
qed simp

declare reset_code_digits.simps [simp del]

definition describe_stream_reset_code :: "u64 \<Rightarrow> string" where
  "describe_stream_reset_code code =
     (case stream_reset_code_name code of None \<Rightarrow> ''unknown'' | Some name \<Rightarrow> name) @ ''(0x'' @
     reset_code_digits code [] @ '')''"

subsection \<open>WebTransport stream error codes\<close>

definition kWebTransportApplicationErrorFirst :: u64 where "kWebTransportApplicationErrorFirst = 0x52e4a40fa8db"
definition kWebTransportApplicationErrorLast :: u64 where "kWebTransportApplicationErrorLast = 0x52e5ac983162"
definition kWebTransportMaxApplicationError :: u64 where "kWebTransportMaxApplicationError = 0xffffffff"

definition webtransport_code_to_http_code :: "u64 \<Rightarrow> u64" where
  "webtransport_code_to_http_code code =
     (let code = (if code > kWebTransportMaxApplicationError then kWebTransportMaxApplicationError else code) in
      kWebTransportApplicationErrorFirst + code + code div 0x1e)"

definition http_code_to_webtransport_code :: "u64 \<Rightarrow> u64 option" where
  "http_code_to_webtransport_code http_code =
     (if http_code < kWebTransportApplicationErrorFirst \<or> http_code > kWebTransportApplicationErrorLast \<or>
         (http_code - 0x21) mod 0x1f = 0 then None
      else let shifted = http_code - kWebTransportApplicationErrorFirst in Some (shifted - shifted div 0x1f))"

subsection \<open>What a WebTransport server must offer\<close>

record WebTransportPeerRequirements =
  wr_settings_received :: bool
  wr_h3_datagram :: bool
  wr_enable_connect_protocol :: bool
  wr_wt_enabled :: u64
  wr_wt_max_sessions :: u64
  wr_transport_parameters_known :: bool
  wr_max_datagram_frame_size :: u64
  wr_reset_stream_at :: bool

definition missing_webtransport_requirements :: "WebTransportPeerRequirements \<Rightarrow> string list" where
  "missing_webtransport_requirements peer =
     (if \<not> wr_settings_received peer then [''server SETTINGS'']
      else (if \<not> wr_h3_datagram peer then [''SETTINGS_H3_DATAGRAM=1''] else []) @
        (if wr_wt_enabled peer = 0 \<and> wr_wt_max_sessions peer = 0 then [''SETTINGS_WT_ENABLED''] else []) @
        (if wr_wt_enabled peer \<noteq> 0 \<and> \<not> wr_enable_connect_protocol peer
         then [''SETTINGS_ENABLE_CONNECT_PROTOCOL=1''] else [])) @
     (if \<not> wr_transport_parameters_known peer then [''server transport parameters'']
      else (if wr_max_datagram_frame_size peer = 0 then [''max_datagram_frame_size transport parameter''] else []) @
        (if \<not> wr_reset_stream_at peer then [''reset_stream_at transport parameter''] else []))"

fun comma_separated :: "string list \<Rightarrow> string" where
  "comma_separated [] = []"
| "comma_separated [s] = s"
| "comma_separated (s # ss) = s @ '', '' @ comma_separated ss"

definition describe_webtransport_requirements_failure :: "WebTransportPeerRequirements \<Rightarrow> string" where
  "describe_webtransport_requirements_failure peer =
     (let missing = missing_webtransport_requirements peer in
      if missing = [] then []
      else ''webtransport CONNECT not sent: server does not meet the WebTransport over HTTP/3 '' @
        ''requirements (draft-ietf-webtrans-http3 section 3.1); missing '' @ comma_separated missing @
        (if length missing = 1 \<and> wr_settings_received peer \<and> wr_transport_parameters_known peer \<and>
            \<not> wr_reset_stream_at peer
         then '' (use --webtransport-allow-missing-reset-stream-at to connect anyway, or --transport raw)''
         else []))"

subsection \<open>Draining the send side\<close>

definition kDefaultCloseDrainTimeout :: int where "kDefaultCloseDrainTimeout = 10000"
definition kMaxCloseDrainTimeout :: int where "kMaxCloseDrainTimeout = 30000"

record CloseDrainState =
  cd_unsent_bytes :: u64
  cd_pending_fin_streams :: u64
  cd_backlog_empty :: bool

definition drained :: "CloseDrainState \<Rightarrow> bool" where
  "drained state \<longleftrightarrow> cd_unsent_bytes state = 0 \<and> cd_pending_fin_streams state = 0 \<and> cd_backlog_empty state"

text \<open>The fields of a picoquic stream and of a connection that the code reads; a queue node is its offset and length.\<close>

record stream_head =
  sh_sent_offset :: u64
  sh_send_queue :: "(u64 \<times> u64) list"
  sh_fin_requested :: bool
  sh_fin_sent :: bool
  sh_reset_requested :: bool
  sh_reset_sent :: bool
  sh_stop_sending_received :: bool
  sh_remote_stop_error :: u64

record connection =
  cx_disconnecting :: bool
  cx_streams :: "stream_head list"
  cx_backlog_empty :: bool

definition queued_end :: "stream_head \<Rightarrow> u64" where
  "queued_end stream = fold (\<lambda>(offset, len) queued. if offset + len > queued then offset + len else queued)
     (sh_send_queue stream) (sh_sent_offset stream)"

definition note_stream :: "stream_head \<Rightarrow> CloseDrainState \<Rightarrow> CloseDrainState" where
  "note_stream stream state =
     (let state = state\<lparr>cd_unsent_bytes := cd_unsent_bytes state + (queued_end stream - sh_sent_offset stream)\<rparr> in
      if (sh_fin_requested stream \<and> \<not> sh_fin_sent stream) \<or> (sh_reset_requested stream \<and> \<not> sh_reset_sent stream)
      then state\<lparr>cd_pending_fin_streams := cd_pending_fin_streams state + 1\<rparr> else state)"

definition inspect_close_drain :: "connection option \<Rightarrow> CloseDrainState" where
  "inspect_close_drain cnx =
     (let state = \<lparr>cd_unsent_bytes = 0, cd_pending_fin_streams = 0, cd_backlog_empty = True\<rparr> in
      case cnx of None \<Rightarrow> state
      | Some cnx \<Rightarrow> (fold note_stream (cx_streams cnx) state)\<lparr>cd_backlog_empty := cx_backlog_empty cnx\<rparr>)"

record CloseDrainTracker =
  dt_bound :: int
  dt_bound_negotiated :: bool
  dt_deadline :: int
  dt_timeout_logged :: bool

definition new_drain_tracker :: CloseDrainTracker where
  "new_drain_tracker = \<lparr>dt_bound = kDefaultCloseDrainTimeout, dt_bound_negotiated = False, dt_deadline = 0,
     dt_timeout_logged = False\<rparr>"

definition note_delivery_timeout :: "int \<Rightarrow> CloseDrainTracker \<Rightarrow> CloseDrainTracker" where
  "note_delivery_timeout timeout tracker =
     (if timeout \<le> 0 then tracker
      else let timeout = min timeout kMaxCloseDrainTimeout in
        tracker\<lparr>dt_bound := (if dt_bound_negotiated tracker then max (dt_bound tracker) timeout else timeout),
          dt_bound_negotiated := True\<rparr>)"

definition arm_drain :: "int \<Rightarrow> CloseDrainTracker \<Rightarrow> CloseDrainTracker" where
  "arm_drain now tracker = tracker\<lparr>dt_deadline := now + dt_bound tracker * 1000000\<rparr>"

text \<open>Whether to wait, whether a warning is logged, and \<open>timeout_logged\<close> afterwards.\<close>

definition close_drain_should_wait :: "connection option \<Rightarrow> nat \<Rightarrow> int \<Rightarrow> int \<Rightarrow> bool \<Rightarrow> bool \<times> bool \<times> bool" where
  "close_drain_should_wait cnx queued_writes now deadline timeout_logged =
     (if (case cnx of None \<Rightarrow> True | Some cnx \<Rightarrow> cx_disconnecting cnx) then (False, False, timeout_logged)
      else if queued_writes = 0 \<and> drained (inspect_close_drain cnx) then (False, False, timeout_logged)
      else if now < deadline then (True, False, timeout_logged)
      else (False, \<not> timeout_logged, True))"

definition picoquic_remote_stop_error :: "stream_head option \<Rightarrow> u64" where
  "picoquic_remote_stop_error stream = (case stream of None \<Rightarrow> 0 | Some stream \<Rightarrow> sh_remote_stop_error stream)"

definition picoquic_stream_send_closed :: "stream_head option \<Rightarrow> bool" where
  "picoquic_stream_send_closed stream =
     (case stream of None \<Rightarrow> True | Some stream \<Rightarrow> sh_stop_sending_received stream \<or> sh_reset_requested stream)"

subsection \<open>Codes as text\<close>

text \<open>Reading a hexadecimal number.\<close>

definition digit_value :: "char \<Rightarrow> nat" where
  "digit_value c = length (takeWhile (\<lambda>d. d \<noteq> c) ''0123456789abcdef'')"

definition read_hex :: "string \<Rightarrow> nat" where
  "read_hex digits = foldl (\<lambda>n c. 16 * n + digit_value c) 0 digits"

lemma digit_value_hex_digit [simp]:
  assumes "n < 16"
  shows "digit_value (hex_digit n) = n"
proof -
  have "list_all (\<lambda>n. digit_value (hex_digit n) = n) [0..<16]" by code_simp
  then show ?thesis using assms by (simp add: list_all_iff)
qed

lemma read_hex_digits [simp]: "read_hex (hex_of_nat n) = n"
proof (induction n rule: hex_of_nat.induct)
  case (1 n)
  then show ?case by (subst hex_of_nat.simps) (auto simp: read_hex_def)
qed

lemma reset_code_digits_hex: "reset_code_digits code digits = hex_of_nat (unat code) @ digits"
proof (induction code digits rule: reset_code_digits.induct)
  case (1 code digits)
  show ?case
  proof (cases "drop_bit 4 code = 0")
    case True
    then have "unat code < 16" using unat_drop_nibble [of code] by simp
    then show ?thesis using True
      by (subst reset_code_digits.simps, subst hex_of_nat.simps) (simp add: Let_def unat_nibble)
  next
    case False
    then have "\<not> unat code < 16" using unat_drop_nibble [of code] by (auto simp: unat_eq_0 [symmetric])
    then show ?thesis using 1 [OF refl refl False] False
      by (subst reset_code_digits.simps, subst hex_of_nat.simps) (simp add: Let_def unat_nibble unat_drop_nibble)
  qed
qed

text \<open>The two writers of hexadecimal codes agree and write the code itself: a reset is described by its name, or
  as unknown, with the digits that the description of a close would have, and these digits read as the code.
\<close>

theorem reset_code_described:
  "describe_stream_reset_code code =
     (case stream_reset_code_name code of None \<Rightarrow> ''unknown'' | Some name \<Rightarrow> name) @ ''('' @ hex code @ '')'' \<and>
   read_hex (drop 2 (hex code)) = unat code"
  by (simp add: describe_stream_reset_code_def reset_code_digits_hex hex_def)

subsection \<open>The reason of a close\<close>

text \<open>Reading what \<open>printable_reason\<close> wrote.\<close>

fun read_reason :: "string \<Rightarrow> string" where
  "read_reason [] = []"
| "read_reason (c # cs) =
     (if c = backslash then
        (case cs of
           _ # high # low # rest \<Rightarrow> char_of (16 * digit_value high + digit_value low) # read_reason rest
         | _ \<Rightarrow> [])
      else c # read_reason cs)"

lemma char_nibbles: "of_char c div 16 < (16 :: nat)" "of_char c mod 16 < (16 :: nat)"
proof -
  have "of_char c < (256 :: nat)" by (rule nat_of_char_less_256)
  then show "of_char c div 16 < (16 :: nat)" by (simp add: less_mult_imp_div_less)
qed simp

lemma read_printable_char: "read_reason (printable_char c @ rest) = c # read_reason rest"
proof (cases "is_plain c")
  case True
  then show ?thesis by (simp add: printable_char_def is_plain_def)
next
  case False
  then show ?thesis using char_nibbles [of c] by (simp add: printable_char_def)
qed

lemma read_printable_chars: "read_reason (concat (map printable_char cs)) = cs"
  by (induction cs) (simp_all add: read_printable_char)

lemma is_plain_hex_digit:
  assumes "n < 16"
  shows "is_plain (hex_digit n)"
proof -
  have "list_all (\<lambda>n. is_plain (hex_digit n)) [0..<16]" by code_simp
  then show ?thesis using assms by (simp add: list_all_iff)
qed

lemma printable_char_safe: "d \<in> set (printable_char c) \<Longrightarrow> is_plain d \<or> d = backslash"
  using is_plain_hex_digit [OF char_nibbles(1), of c] is_plain_hex_digit [OF char_nibbles(2), of c]
  by (auto simp: printable_char_def is_plain_def [of "CHR ''x''"] quotation_mark_def backslash_def split: if_splits)

lemma length_printable_chars: "length (concat (map printable_char cs)) \<le> 4 * length cs"
  by (induction cs) (simp_all add: printable_char_def)

text \<open>What the peer gives as its reason reaches a log only as printable ASCII without quotation marks, in at most
  1027 characters, and a reason of at most 256 bytes can be read back from it.
\<close>

theorem peer_reason_printed:
  "(\<forall>c \<in> set (printable_reason reason). is_plain c \<or> c = backslash) \<and>
   length (printable_reason reason) \<le> 1027 \<and>
   (length reason \<le> kMaxReasonBytes \<longrightarrow> read_reason (printable_reason reason) = reason)"
proof (intro conjI impI)
  show "\<forall>c \<in> set (printable_reason reason). is_plain c \<or> c = backslash"
    using printable_char_safe by (auto simp: printable_reason_def is_plain_def quotation_mark_def backslash_def)
  show "length (printable_reason reason) \<le> 1027"
    using length_printable_chars [of "take kMaxReasonBytes reason"]
    by (cases "length reason > 256") (simp_all add: printable_reason_def kMaxReasonBytes_def min_def)
  show "read_reason (printable_reason reason) = reason" if "length reason \<le> kMaxReasonBytes"
    using that by (simp add: printable_reason_def read_printable_chars)
qed

lemma peer_reason_printed_witness:
  "read_reason (printable_reason [CHR ''a'', quotation_mark, CHR 0x0A]) = [CHR ''a'', quotation_mark, CHR 0x0A]"
proof -
  have "length [CHR ''a'', quotation_mark, CHR 0x0A] \<le> kMaxReasonBytes" by (simp add: kMaxReasonBytes_def)
  then show ?thesis using peer_reason_printed by blast
qed

subsection \<open>The map between MOQT and HTTP/3 codes\<close>

lemmas wt_bounds =
  kWebTransportApplicationErrorFirst_def kWebTransportApplicationErrorLast_def kWebTransportMaxApplicationError_def

lemma every_thirtieth_skipped:
  fixes c :: nat
  shows "(c + c div 30) mod 31 = c mod 30" and "(c + c div 30) div 31 = c div 30"
proof -
  have r: "c mod 30 < 31" using mod_less_divisor [of 30 c] by simp
  have "c = 30 * (c div 30) + c mod 30" by simp
  then have sum: "c + c div 30 = c mod 30 + 31 * (c div 30)" by linarith
  show "(c + c div 30) mod 31 = c mod 30" "(c + c div 30) div 31 = c div 30" unfolding sum using r by simp_all
qed

lemma every_thirtieth_restored:
  fixes s :: nat
  assumes "s mod 31 \<noteq> 30"
  shows "s - s div 31 + (s - s div 31) div 30 = s"
proof -
  have r: "s mod 31 < 30" using assms mod_less_divisor [of 31 s] by linarith
  have "s = 31 * (s div 31) + s mod 31" by simp
  then have rest: "s - s div 31 = s mod 31 + 30 * (s div 31)" by linarith
  have "(s - s div 31) div 30 = s div 31" unfolding rest using r by simp
  then show ?thesis by simp
qed

lemma unat_to_http:
  assumes "code \<le> kWebTransportMaxApplicationError"
  shows "unat (webtransport_code_to_http_code code) = 0x52e4a40fa8db + unat code + unat code div 30"
proof -
  have c: "unat code \<le> 0xffffffff" using assms by (simp add: wt_bounds word_le_nat_alt)
  then have "unat code div 30 \<le> 0xffffffff" by (meson div_le_dividend le_trans)
  moreover have "unat (code div 0x1e) = unat code div 30" by (simp add: unat_div)
  ultimately show ?thesis using assms c
    by (simp add: webtransport_code_to_http_code_def wt_bounds unat_word_ariths not_less [symmetric])
qed

lemma http_code_residue:
  fixes http_code :: u64
  assumes "0x52e4a40fa8db \<le> unat http_code"
  shows "(http_code - 0x21) mod 0x1f = 0 \<longleftrightarrow> (unat http_code - 0x52e4a40fa8db) mod 31 = 30"
proof -
  have le: "(0x21 :: u64) \<le> http_code" using assms by (simp add: word_le_nat_alt)
  have "(http_code - 0x21) mod 0x1f = 0 \<longleftrightarrow> unat ((http_code - 0x21) mod 0x1f) = 0" by (simp add: unat_eq_0)
  also have "unat ((http_code - 0x21) mod 0x1f) = (unat http_code - 33) mod 31"
    using le by (simp add: unat_mod unat_sub)
  also have "(unat http_code - 33) mod 31 = 0 \<longleftrightarrow> (unat http_code - 0x52e4a40fa8db) mod 31 = 30"
  proof -
    obtain s where s: "unat http_code = 0x52e4a40fa8db + s" using assms le_Suc_ex by blast
    have "unat http_code - 33 = Suc s + 2940063177767 * 31" by (simp add: s)
    then have "(unat http_code - 33) mod 31 = Suc s mod 31" by (simp only: mod_mult_self1)
    moreover have "Suc s mod 31 = 0 \<longleftrightarrow> s mod 31 = 30" by presburger
    ultimately show ?thesis by (simp add: s)
  qed
  finally show ?thesis .
qed

lemma to_webtransport:
  "http_code_to_webtransport_code http_code =
     (if unat http_code < 0x52e4a40fa8db \<or> unat http_code > 0x52e5ac983162 \<or>
         (unat http_code - 0x52e4a40fa8db) mod 31 = 30 then None
      else Some (of_nat ((unat http_code - 0x52e4a40fa8db) - (unat http_code - 0x52e4a40fa8db) div 31)))"
proof (cases "0x52e4a40fa8db \<le> unat http_code")
  case True
  let ?s = "http_code - 0x52e4a40fa8db"
  have s: "unat ?s = unat http_code - 0x52e4a40fa8db" using True by (simp add: unat_sub word_le_nat_alt)
  have "?s - ?s div 0x1f = of_nat (unat (?s - ?s div 0x1f))" by simp
  also have "unat (?s - ?s div 0x1f) = unat ?s - unat ?s div 31"
    by (simp add: unat_sub word_le_nat_alt unat_div)
  finally have "?s - ?s div 0x1f = of_nat (unat ?s - unat ?s div 31)" .
  then show ?thesis using True http_code_residue [OF True] unfolding s
    by (simp add: http_code_to_webtransport_code_def wt_bounds word_less_nat_alt Let_def not_less)
next
  case False
  then show ?thesis by (simp add: http_code_to_webtransport_code_def wt_bounds word_less_nat_alt)
qed

text \<open>C39: A 32-bit code survives the way over HTTP/3: it is carried in the range of application errors, never as one of
  the codes reserved for greasing, and read back as itself. Larger codes are carried as the largest one, and every
  code that a peer can send is read as the 32-bit code that is written as it, or is not an application error.
\<close>

theorem webtransport_codes_correspond:
  "http_code_to_webtransport_code (webtransport_code_to_http_code code) = Some (min code kWebTransportMaxApplicationError) \<and>
   kWebTransportApplicationErrorFirst \<le> webtransport_code_to_http_code code \<and>
   webtransport_code_to_http_code code \<le> kWebTransportApplicationErrorLast \<and>
   (http_code_to_webtransport_code http_code = Some code \<longrightarrow>
      code \<le> kWebTransportMaxApplicationError \<and> webtransport_code_to_http_code code = http_code)"
proof -
  let ?code = "min code kWebTransportMaxApplicationError"
  have capped: "webtransport_code_to_http_code code = webtransport_code_to_http_code ?code"
    by (auto simp: webtransport_code_to_http_code_def min_def)
  have small: "?code \<le> kWebTransportMaxApplicationError" by simp
  then have c: "unat ?code \<le> 0xffffffff" by (simp add: wt_bounds word_le_nat_alt)
  note h = unat_to_http [OF small]
  have upper: "unat ?code + unat ?code div 30 \<le> 0x108888887" using c div_le_mono [OF c, of 30] by simp
  have returned: "http_code_to_webtransport_code (webtransport_code_to_http_code ?code) = Some ?code"
    using upper mod_less_divisor [of 30 "unat ?code"] by (simp add: to_webtransport h every_thirtieth_skipped)
  have range: "kWebTransportApplicationErrorFirst \<le> webtransport_code_to_http_code ?code"
      "webtransport_code_to_http_code ?code \<le> kWebTransportApplicationErrorLast"
    using upper by (simp_all add: word_le_nat_alt h) (simp_all add: wt_bounds)
  have "code \<le> kWebTransportMaxApplicationError \<and> webtransport_code_to_http_code code = http_code"
    if d: "http_code_to_webtransport_code http_code = Some code"
  proof -
    let ?s = "unat http_code - 0x52e4a40fa8db"
    have s: "0x52e4a40fa8db \<le> unat http_code" "unat http_code \<le> 0x52e5ac983162" "?s mod 31 \<noteq> 30"
        "code = of_nat (?s - ?s div 31)"
      using d by (simp_all add: to_webtransport split: if_splits)
    have small: "?s - ?s div 31 \<le> 0xffffffff"
    proof -
      have "?s div 31 \<le> 143165576" using div_le_mono [OF diff_le_mono [OF s(2), of "0x52e4a40fa8db"], of 31] by simp
      moreover have "?s = 31 * (?s div 31) + ?s mod 31" "?s mod 31 < 30"
        using s(3) mod_less_divisor [of 31 ?s] by (simp, linarith)
      moreover have "?s \<le> 0x108888887" using s(2) by simp
      ultimately show ?thesis by (cases "?s div 31 = 143165576") linarith+
    qed
    then have u: "unat code = ?s - ?s div 31" unfolding s(4) by (simp add: unat_of_nat)
    then have le: "code \<le> kWebTransportMaxApplicationError" using small by (simp add: wt_bounds word_le_nat_alt)
    have "?s - ?s div 31 + (?s - ?s div 31) div 30 = ?s" by (rule every_thirtieth_restored [OF s(3)])
    then have "unat (webtransport_code_to_http_code code) = unat http_code"
      using s(1) unfolding unat_to_http [OF le] u by linarith
    then show ?thesis using le by (simp add: word_unat_eq_iff)
  qed
  then show ?thesis using returned range unfolding capped by blast
qed

lemma webtransport_codes_correspond_witness:
  "webtransport_code_to_http_code 0x12 = 0x52e4a40fa8ed \<and> http_code_to_webtransport_code 0x52e4a40fa8ed = Some 0x12"
proof -
  have "http_code_to_webtransport_code 0x52e4a40fa8ed = Some 0x12" by code_simp
  then show ?thesis using webtransport_codes_correspond [where code = "0x12" and http_code = "0x52e4a40fa8ed"] by blast
qed

subsection \<open>When a WebTransport server is good enough\<close>

text \<open>
  A connection attempt is explained exactly when a requirement of the specification is not met, and the hint to
  connect without \<open>reset_stream_at\<close> is given exactly when that is all that is missing.
\<close>

lemma requirements_failure_explained:
  "(describe_webtransport_requirements_failure peer = [] \<longleftrightarrow>
      wr_settings_received peer \<and> wr_h3_datagram peer \<and> (wr_wt_enabled peer \<noteq> 0 \<or> wr_wt_max_sessions peer \<noteq> 0) \<and>
      (wr_wt_enabled peer = 0 \<or> wr_enable_connect_protocol peer) \<and>
      wr_transport_parameters_known peer \<and> wr_max_datagram_frame_size peer \<noteq> 0 \<and> wr_reset_stream_at peer) \<and>
   (missing_webtransport_requirements peer = [''reset_stream_at transport parameter''] \<longleftrightarrow>
      length (missing_webtransport_requirements peer) = 1 \<and> wr_settings_received peer \<and>
      wr_transport_parameters_known peer \<and> \<not> wr_reset_stream_at peer)"
  by (simp add: describe_webtransport_requirements_failure_def missing_webtransport_requirements_def Let_def)

subsection \<open>The bound of the drain\<close>

lemma noted_timeouts:
  "dt_bound_negotiated (fold note_delivery_timeout timeouts new_drain_tracker) = (\<exists>t \<in> set timeouts. 0 < t) \<and>
   (if \<exists>t \<in> set timeouts. 0 < t then
      (\<exists>t \<in> set timeouts. 0 < t \<and>
         dt_bound (fold note_delivery_timeout timeouts new_drain_tracker) = min t kMaxCloseDrainTimeout) \<and>
      (\<forall>t \<in> set timeouts. 0 < t \<longrightarrow>
         min t kMaxCloseDrainTimeout \<le> dt_bound (fold note_delivery_timeout timeouts new_drain_tracker))
    else dt_bound (fold note_delivery_timeout timeouts new_drain_tracker) = kDefaultCloseDrainTimeout)"
proof (induction timeouts rule: rev_induct)
  case (snoc t timeouts)
  show ?case
  proof (cases "0 < t")
    case False
    have "note_delivery_timeout t tracker = tracker" for tracker using False by (simp add: note_delivery_timeout_def)
    then show ?thesis using snoc False by simp
  next
    case True
    have step: "dt_bound_negotiated (note_delivery_timeout t tracker)"
        "dt_bound (note_delivery_timeout t tracker) = (if dt_bound_negotiated tracker
           then max (dt_bound tracker) (min t kMaxCloseDrainTimeout) else min t kMaxCloseDrainTimeout)" for tracker
      using True by (simp_all add: note_delivery_timeout_def Let_def)
    show ?thesis using snoc True
      by (cases "\<exists>t \<in> set timeouts. 0 < t") (auto simp: step max_def)
  qed
qed (simp add: new_drain_tracker_def)

text \<open>The close waits for the largest delivery timeout of the session, but for at most thirty seconds whatever the
  peer chose, and for ten seconds when none was negotiated.
\<close>

theorem close_drain_bounded:
  "(\<exists>t \<in> set timeouts. 0 < t \<and> dt_deadline (arm_drain now (fold note_delivery_timeout timeouts new_drain_tracker)) =
        now + min t 30000 * 1000000 \<and> (\<forall>u \<in> set timeouts. min u 30000 \<le> min t 30000)) \<or>
   (\<forall>t \<in> set timeouts. t \<le> 0) \<and>
     dt_deadline (arm_drain now (fold note_delivery_timeout timeouts new_drain_tracker)) = now + 10000 * 1000000"
proof (cases "\<exists>t \<in> set timeouts. 0 < t")
  case True
  then obtain t where t: "t \<in> set timeouts" "0 < t"
      "dt_bound (fold note_delivery_timeout timeouts new_drain_tracker) = min t 30000"
      "\<forall>u \<in> set timeouts. 0 < u \<longrightarrow> min u 30000 \<le> min t 30000"
    using noted_timeouts [of timeouts] by (auto simp: kMaxCloseDrainTimeout_def)
  have "min u 30000 \<le> min t 30000" if "u \<in> set timeouts" for u
    using t(2,4) that by (cases "0 < u") auto
  then show ?thesis using t by (auto simp: arm_drain_def)
next
  case False
  then show ?thesis using noted_timeouts [of timeouts]
    by (auto simp: arm_drain_def kDefaultCloseDrainTimeout_def not_less)
qed

lemma close_drain_bounded_witness:
  "dt_deadline (arm_drain 7 (fold note_delivery_timeout [5000, - 1, 90000] new_drain_tracker)) = 7 + 30000 * 1000000"
proof -
  have "\<not> (\<forall>t \<in> set [5000, - 1, 90000 :: int]. t \<le> 0)" by simp
  then obtain t :: int where "t \<in> set [5000, - 1, 90000]" "0 < t"
      "dt_deadline (arm_drain 7 (fold note_delivery_timeout [5000, - 1, 90000] new_drain_tracker)) = 7 + min t 30000 * 1000000"
      "\<forall>u \<in> set [5000, - 1, 90000]. min u 30000 \<le> min t 30000"
    using close_drain_bounded [of "[5000, - 1, 90000]" 7] by blast
  then show ?thesis by auto
qed

subsection \<open>What the close waits for\<close>

text \<open>A stream has data, a FIN or a reset that has not gone out.\<close>

definition undelivered :: "stream_head \<Rightarrow> bool" where
  "undelivered stream \<longleftrightarrow>
     (\<exists>(offset, len) \<in> set (sh_send_queue stream). sh_sent_offset stream < offset + len) \<or>
     (sh_fin_requested stream \<and> \<not> sh_fin_sent stream) \<or> (sh_reset_requested stream \<and> \<not> sh_reset_sent stream)"

definition unsent :: "stream_head \<Rightarrow> nat" where
  "unsent stream = unat (queued_end stream - sh_sent_offset stream)"

definition ends_pending :: "stream_head \<Rightarrow> bool" where
  "ends_pending stream \<longleftrightarrow>
     (sh_fin_requested stream \<and> \<not> sh_fin_sent stream) \<or> (sh_reset_requested stream \<and> \<not> sh_reset_sent stream)"

lemma queued_end_fold:
  fixes sent :: u64
  shows "fold (\<lambda>(offset, len) queued. if offset + len > queued then offset + len else queued) nodes sent = sent \<longleftrightarrow>
      (\<forall>(offset, len) \<in> set nodes. offset + len \<le> sent)"
    and "sent \<le> fold (\<lambda>(offset, len) queued. if offset + len > queued then offset + len else queued) nodes sent"
proof (induction nodes arbitrary: sent)
  case (Cons node nodes)
  obtain offset len where node: "node = (offset, len)" by (cases node)
  {
    case 1
    show ?case
      using Cons.IH(1) [of sent] Cons.IH(2) [of "offset + len"] unfolding node by (auto simp: not_less)
  next
    case 2
    show ?case
      using Cons.IH(2) [of sent] Cons.IH(2) [of "offset + len"] unfolding node by auto
  }
qed simp_all

lemma unsent_0: "unsent stream = 0 \<longleftrightarrow> (\<forall>(offset, len) \<in> set (sh_send_queue stream). offset + len \<le> sh_sent_offset stream)"
  using queued_end_fold(1) [of "sh_send_queue stream" "sh_sent_offset stream"]
  by (simp add: unsent_def queued_end_def unat_eq_0)

lemma note_streams:
  "cd_unsent_bytes (fold note_stream streams state) = cd_unsent_bytes state + of_nat (sum_list (map unsent streams))"
  "cd_pending_fin_streams (fold note_stream streams state) =
     cd_pending_fin_streams state + of_nat (length (filter ends_pending streams))"
  by (induction streams arbitrary: state)
    (simp_all add: note_stream_def ends_pending_def unsent_def Let_def algebra_simps)

lemma not_undelivered: "\<not> undelivered stream \<longleftrightarrow> unsent stream = 0 \<and> \<not> ends_pending stream"
  by (simp add: undelivered_def ends_pending_def unsent_0 split_beta not_less)

lemma drained_connection:
  assumes "sum_list (map unsent (cx_streams cnx)) < 2 ^ 64" and "length (cx_streams cnx) < 2 ^ 64"
  shows "drained (inspect_close_drain (Some cnx)) \<longleftrightarrow>
    cx_backlog_empty cnx \<and> (\<forall>stream \<in> set (cx_streams cnx). \<not> undelivered stream)"
proof -
  have zero: "(of_nat n :: u64) = 0 \<longleftrightarrow> n = 0" if "n < 2 ^ 64" for n
    using that of_nat_inverse [of n "0 :: u64"] by auto
  have "length (filter ends_pending (cx_streams cnx)) < 2 ^ 64"
    using length_filter_le [of ends_pending "cx_streams cnx"] assms(2) by linarith
  then have "drained (inspect_close_drain (Some cnx)) \<longleftrightarrow>
      sum_list (map unsent (cx_streams cnx)) = 0 \<and> filter ends_pending (cx_streams cnx) = [] \<and> cx_backlog_empty cnx"
    using assms(1) by (simp add: drained_def inspect_close_drain_def note_streams zero Let_def)
  also have "\<dots> \<longleftrightarrow> cx_backlog_empty cnx \<and> (\<forall>stream \<in> set (cx_streams cnx). \<not> undelivered stream)"
    by (auto simp: filter_empty_conv not_undelivered)
  finally show ?thesis .
qed

text \<open>C40: On a connection that is not being disconnected, whose unsent bytes and whose streams a 64-bit count holds, the close
  is held back exactly while its deadline has not come and there is something to deliver: a write that picoquic does not
  have yet, a packet that was not acknowledged, or on some stream data, a FIN or a reset that has not gone out. Giving
  up is logged once: when there is something to deliver at the deadline and it was not logged before.
\<close>

theorem close_waits_for_delivery:
  assumes "sum_list (map unsent (cx_streams cnx)) < 2 ^ 64" and "length (cx_streams cnx) < 2 ^ 64"
    and "\<not> cx_disconnecting cnx"
    and "close_drain_should_wait (Some cnx) queued_writes now deadline timeout_logged = (wait, warns, logged)"
  shows "(let waiting_for = (queued_writes \<noteq> 0 \<or> \<not> cx_backlog_empty cnx \<or> (\<exists>stream \<in> set (cx_streams cnx). undelivered stream)) in
    (wait \<longleftrightarrow> waiting_for \<and> now < deadline) \<and>
    (warns \<longleftrightarrow> waiting_for \<and> \<not> now < deadline \<and> \<not> timeout_logged) \<and> (logged \<longleftrightarrow> timeout_logged \<or> warns))"
  using assms(3,4) drained_connection [OF assms(1,2)]
  by (auto simp: close_drain_should_wait_def Let_def split: if_splits)

definition example_connection :: connection where
  "example_connection = \<lparr>cx_disconnecting = False, cx_streams =
     [\<lparr>sh_sent_offset = 10, sh_send_queue = [(8, 4)], sh_fin_requested = True, sh_fin_sent = True,
       sh_reset_requested = False, sh_reset_sent = False, sh_stop_sending_received = False, sh_remote_stop_error = 0\<rparr>],
     cx_backlog_empty = True\<rparr>"

lemma close_waits_for_delivery_witness:
  "close_drain_should_wait (Some example_connection) 0 5 9 False = (True, False, False) \<and>
   (\<exists>stream \<in> set (cx_streams example_connection). undelivered stream)"
proof -
  have w: "close_drain_should_wait (Some example_connection) 0 5 9 False = (True, False, False)" by code_simp
  have "sum_list (map unsent (cx_streams example_connection)) < 2 ^ 64" "length (cx_streams example_connection) < 2 ^ 64"
    by (simp_all add: example_connection_def unsent_def queued_end_def)
  moreover have "\<not> cx_disconnecting example_connection" "cx_backlog_empty example_connection"
    by (simp_all add: example_connection_def)
  ultimately show ?thesis
    using close_waits_for_delivery [of example_connection 0 5 9 False True False False] w by (simp add: Let_def)
qed

end
