(* ===== verification/Spec2Isabelle.thy ===== *)
theory Spec2Isabelle
  imports Control_Roundtrip Pending_Media_Queue Subgroup_Sender_Run Live_Media_Queue Endpoint_Failover Locmaf_Stream Msf_Url Publish_Loop_Run Close_Codes
begin

text \<open>
  Verification library of the openmoq publisher: the MOQT control and data encodings of
  \<open>src/transport/moqt_control_messages.cpp\<close> and the components around them.

  \<^bold>\<open>The program.\<close> The publisher reads media, cuts it into MOQT objects, and serves it over QUIC. A session
  (\<open>src/transport/moqt_session.cpp\<close>) speaks the MOQT control protocol in one of seven drafts. It cuts its
  control stream into messages, decodes each with the functions modelled here, answers with the encoders
  modelled here, and writes objects to subgroup streams through a bounded queue of pending writes.

  \<^bold>\<open>Theories.\<close>
  \<^item> \<open>Prelude\<close>: bytes, 64-bit words, exceptions and decode failures, sequencing (\<open>bindE\<close>, \<open>repeatE\<close>), the
    partial-correctness rules \<open>yields\<close> the invariants of the decoders are proved with, and the interface
    \<open>counted_loop\<close> of a loop over a count that the peer chose.
  \<^item> \<open>Moq_Draft\<close>: \<open>DraftVersion\<close>, its profiles, and the decode fault of \<open>note_decode_fault\<close>.
  \<^item> \<open>Varint\<close>: the QUIC varint and the MOQT vi64, \<open>append_moqint\<close> and \<open>decode_moqint_impl\<close>.
  \<^item> \<open>Control_Framing\<close>: strings, namespaces, parameters, message lengths, \<open>next_control_message\<close>.
  \<^item> \<open>Control_Encode\<close>, \<open>Control_Decode\<close>: the message encoders, and the decoders of SETUP, GOAWAY,
    REQUEST_OK and REQUEST_ERROR, SUBSCRIBE_NAMESPACE, publish responses and datagrams.
  \<^item> \<open>Control_Subscribe\<close>: SUBSCRIBE, SUBSCRIBE_TRACKS, REQUEST_UPDATE, FETCH, PUBLISH_OK, location filters.
  \<^item> \<open>Control_Roundtrip\<close>: the encoders against the decoders.
  \<^item> \<open>Object_Stream\<close>: subgroup streams and object property blocks, with a receiver of the wire format.
  \<^item> \<open>Pending_Media_Queue\<close>: the queue of unsent writes per stream and the subgroup deadlines.
  \<^item> \<open>Priority_Scheduler\<close>: \<open>CandidatePriority\<close>, the two orders of the scheduler and the interface
    \<open>comparator\<close> of an ordered set.
  \<^item> \<open>Subgroup_Completion\<close>: \<open>BoundedSubgroupCompletionTracker\<close> and the interface \<open>bounded_set\<close>.
  \<^item> \<open>Session_Rules\<close>: how a session closes, the validator of peer request ids, deadlines and timeouts.
  \<^item> \<open>Subscription_Filter\<close>: namespace tests, object filters, updates of a subscription, published tracks.
  \<^item> \<open>Ordered_Map\<close>: \<open>std::map\<close> as a sorted association list.
  \<^item> \<open>Subgroup_Sender\<close>: \<open>SubgroupSenderState\<close>, the sender of one track or subscription.
    \<open>Subgroup_Sender_Invariant\<close> proves its invariant operation by operation; \<open>Subgroup_Sender_Run\<close> has the
    runs of a sender, as a step relation, and what each data stream carries along a run.
  \<^item> \<open>Live_Media_Queue\<close>: \<open>LiveMediaQueue\<close> between the live ingest and the publisher, which sheds to a keyframe.
  \<^item> \<open>Endpoint_Failover\<close>: \<open>publish_with_failover\<close> and \<open>ReplayableLiveObjectSource\<close>.
  \<^item> \<open>Mp4_Box\<close>: the parser of MP4 boxes, the searches in the parsed tree and \<open>StreamingMp4Reader\<close>, with the
    tree shape (\<open>tiles\<close>) that a parse guarantees and the chunk-independence of the incremental reader.
  \<^item> \<open>Loop_Timestamps\<close>: \<open>src/loop_timestamps.cpp\<close>, the rewriting of CMAF, LOCMAF and LOC timestamps when a
    file is looped, against a reading of the base times and of the LOCMAF object format.
  \<^item> \<open>Locmaf_Encoder\<close>: \<open>src/locmaf_encoder.cpp\<close>; \<open>Locmaf_Stream\<close> has a receiver for its objects, the
    invariants of a parsed chunk and the round trip of a stream of full and delta objects.
  \<^item> \<open>Msf_Url\<close>: \<open>src/msf_url.cpp\<close>, the parser and the writer of MSF URLs, their escaped track identifiers and
    the union of their ranges.
  \<^item> \<open>Session_Loop\<close>: \<open>LoopState\<close> and the objects of later cycles, \<open>GenerationAvailability\<close> with the times from
    which deadlines count, \<open>ActiveSubscription\<close> with its frontiers and its advance to the next cycle.
  \<^item> \<open>Publish_Loop\<close>: the priority loop of \<open>serve_subscriptions\<close>: the candidates, one turn, REQUEST_UPDATE on an
    active subscription, a new and an erased one. \<open>Publish_Loop_Invariant\<close> relates the frontiers to the objects a
    subscription waits for and proves the invariant operation by operation; \<open>Publish_Loop_Run\<close> has the reachable
    states, as an inductive predicate, and the cycle of one subscription as a run of admissions.
  \<^item> \<open>Close_Codes\<close>: the descriptions of closes and resets, the map between MOQT and HTTP/3 error codes, the
    requirements on a WebTransport server, and the wait of a close for what is still to be delivered.

  \<^bold>\<open>Conventions.\<close> A C++ integer is a word of its width; an offset that the code compares before it adds
  is a natural number, and the places where the code adds unchecked keep the 64-bit addition. A decoder
  \<open>bool decode(bytes, offset, value)\<close> returns \<open>Inr\<close> of the value and the new offset, or \<open>Inl\<close> of the
  failure: \<open>Rejected\<close> with the fault it noted, or \<open>Raised\<close> with the exception it threw. What a failing
  decoder leaves in its out-parameters is not modelled. There is no fuel: a loop over a count is
  \<open>repeatE\<close>, and a loop to the end of a span is a recursive function that terminates because each
  step consumes input. Two loops of the code can run for ever on a crafted input, \<open>parse_box_range\<close> and
  \<open>find_base_time\<close>; they are \<open>partial_function (option)\<close>, \<open>None\<close> is not returning, and their theorems
  say when they return.

  \<^bold>\<open>What is shown.\<close> Encoders and decoders agree (integers, namespaces, setup, responses, object
  streams, property blocks); accepted messages satisfy the protocol's value ranges and size limits; a cut
  of the control stream does not depend on bytes that have not arrived; a count announced by the peer
  costs the peer its bytes; the pending queue keeps order and stays within its capacity; a parsed MP4 file is
  a tree of boxes that tile it; a looped file's times advance by the offset and nothing else changes; a LOCMAF
  stream determines every chunk it carries; an MSF URL is read back from what was written. Whatever
  subscriptions come, go and are updated, each that may send has a current candidate, a cycle serves the objects
  its filter selects once and in the order of each subgroup, a turn fails only while it sends an object and for a
  reason it names, and a looped plan never reuses a group or a time. An error code survives the way over HTTP/3, and a
  close waits for what is undelivered until its deadline. Further lemmas record where a 64-bit value of the peer is used unchecked on
  old drafts, where such a value makes a loop run for ever, where a replay is lost, where an update that
  moves a start back ends the session, and where an object without payload leaves a receiver of drafts 14 and 16 out
  of step.

  \<^bold>\<open>Not modelled.\<close> Sockets, QUIC and HTTP/3 (third-party libraries behind callbacks), media demultiplexing
  and encryption, the sample tables and tracks of MP4 files, and allocation failure. Of the session engine: setup,
  discovery, the readers of the control stream and of request streams, the stall timer of the publish loop, and
  the loop of the drafts that have no scheduler.
\<close>

end
